(* ===== verification/Prelude.thy ===== *)
theory Prelude
  imports Main "HOL-Library.Word"
begin

text \<open>
  Shared vocabulary of the development.

  Machine integers are words of the width the source gives them; a byte string is a list of
  8-bit words. Wire structures of the source are \<^verbatim>\<open>repr(C)\<close> types whose integer fields are
  little-endian: \<open>le_bytes\<close> and \<open>le_word\<close> are the two directions of one such field, \<open>slice\<close> is a
  sub-range of a buffer. The collection \<open>wire\<close> gathers the facts that evaluate the layout of a
  structure.
\<close>

unbundle bit_operations_syntax

type_synonym u8 = "8 word"
type_synonym u16 = "16 word"
type_synonym u32 = "32 word"
type_synonym u64 = "64 word"
type_synonym bytes = "u8 list"

named_theorems wire \<open>layout of wire structures\<close>

section \<open>Sub-ranges of a buffer\<close>

definition slice :: "nat \<Rightarrow> nat \<Rightarrow> 'a list \<Rightarrow> 'a list" where
  "slice off n xs = take n (drop off xs)"

lemma length_slice [simp]: "length (slice off n xs) = min n (length xs - off)"
  by (simp add: slice_def)

lemma slice_zero_full [wire]: "length xs \<le> n \<Longrightarrow> slice 0 n xs = xs"
  by (simp add: slice_def)

lemma slice_here [wire]: "length xs = n \<Longrightarrow> slice 0 n (xs @ ys) = xs"
  by (simp add: slice_def)

lemma slice_skip [wire]:
  "length xs \<le> off \<Longrightarrow> slice off n (xs @ ys) = slice (off - length xs) n ys"
  by (simp add: slice_def)

lemma slice_within [wire]:
  "off + n \<le> length xs \<Longrightarrow> slice off n (xs @ ys) = slice off n xs"
  by (simp add: slice_def)

lemma slice_Cons_skip [wire]: "0 < off \<Longrightarrow> slice off n (x # xs) = slice (off - 1) n xs"
  by (simp add: slice_def drop_Cons')

lemma slice_Cons_here [wire]: "0 < n \<Longrightarrow> slice 0 n (x # xs) = x # slice 0 (n - 1) xs"
  by (simp add: slice_def take_Cons')

lemma slice_none [simp]: "slice off 0 xs = []"
  by (simp add: slice_def)

lemma slice_join: "b = a + n \<Longrightarrow> slice a n xs @ slice b m xs = slice a (n + m) xs"
  by (simp add: slice_def take_add) (simp add: add.commute)

lemma slice_join_app:
  "b = a + n \<Longrightarrow> slice a n xs @ slice b m xs @ zs = slice a (n + m) xs @ zs"
  by (simp add: slice_join [symmetric])

lemma slice_slice: "i + m \<le> n \<Longrightarrow> slice i m (slice off n xs) = slice (off + i) m xs"
  by (simp add: slice_def drop_take min_absorb1 add.commute)

lemma nth_slice: "i < n \<Longrightarrow> off + i < length xs \<Longrightarrow> slice off n xs ! i = xs ! (off + i)"
  by (simp add: slice_def)

lemma slice_one: "off < length xs \<Longrightarrow> slice off 1 xs = [xs ! off]"
  by (simp add: slice_def take_Suc_conv_app_nth hd_drop_conv_nth take_Suc)

section \<open>Little-endian integers\<close>

definition le_bytes :: "nat \<Rightarrow> 'a::len word \<Rightarrow> bytes" where
  "le_bytes n w = map (\<lambda>i. ucast (drop_bit (8 * i) w)) [0..<n]"

fun le_word :: "bytes \<Rightarrow> 'a::len word" where
  "le_word [] = 0"
| "le_word (b # bs) = ucast b OR push_bit 8 (le_word bs)"

lemma length_le_bytes [simp]: "length (le_bytes n w) = n"
  by (simp add: le_bytes_def)

lemma le_bytes_Suc: "le_bytes (Suc n) w = ucast w # le_bytes n (drop_bit 8 w)"
proof -
  have "[0..<Suc n] = 0 # map Suc [0..<n]"
    by (simp add: upt_conv_Cons map_Suc_upt del: upt_Suc)
  then show ?thesis
    by (simp add: le_bytes_def comp_def drop_bit_drop_bit ac_simps del: upt_Suc)
qed

lemma le_bytes_0: "le_bytes 0 w = []"
  by (simp add: le_bytes_def)

lemma le_word_le_bytes_mask: "le_word (le_bytes n w) = take_bit (8 * n) (w :: 'a::len word)"
proof (induction n arbitrary: w)
  case 0
  then show ?case by (simp add: le_bytes_0)
next
  case (Suc n)
  show ?case
  proof (rule bit_word_eqI)
    fix k
    assume k: "k < LENGTH('a)"
    have "bit (le_word (le_bytes (Suc n) w) :: 'a word) k =
        (k < 8 \<and> bit w k \<or> 8 \<le> k \<and> k - 8 < 8 * n \<and> bit w k)"
      using k by (auto simp: le_bytes_Suc Suc.IH bit_simps)
    then show "bit (le_word (le_bytes (Suc n) w) :: 'a word) k = bit (take_bit (8 * Suc n) w) k"
      using k by (auto simp: bit_simps)
  qed
qed

text \<open>Reading back a field gives the value written, when the field has the width of the word.\<close>

lemma le_word_le_bytes [wire]:
  "8 * n = LENGTH('a) \<Longrightarrow> le_word (le_bytes n (w :: 'a::len word)) = w"
  by (simp add: le_word_le_bytes_mask take_bit_word_eq_self)

lemma le_bytes_le_word:
  "length bs = n \<Longrightarrow> 8 * n \<le> LENGTH('a) \<Longrightarrow> le_bytes n (le_word bs :: 'a::len word) = bs"
proof (induction bs arbitrary: n)
  case Nil
  then show ?case by (simp add: le_bytes_0)
next
  case (Cons b bs)
  then obtain m where m: "n = Suc m" "length bs = m" by auto
  have 8: "8 \<le> LENGTH('a)" and rest: "8 * m + 8 \<le> LENGTH('a)" using Cons.prems m by auto
  have hd: "(ucast (ucast b OR push_bit 8 (le_word bs) :: 'a word) :: u8) = b"
    using 8 by (intro bit_word_eqI) (auto simp: bit_simps)
  have high: "\<not> bit (le_word bs :: 'a word) k" if "8 * m \<le> k" for k
    using that m(2)
  proof (induction bs arbitrary: m k)
    case Nil
    then show ?case by simp
  next
    case (Cons c cs)
    then obtain m' where m': "m = Suc m'" "length cs = m'" by auto
    have "\<not> bit c k" using Cons.prems m' by (auto dest: bit_imp_le_length)
    moreover have "\<not> bit (le_word cs :: 'a word) (k - 8)"
      using Cons.IH [of m' "k - 8"] Cons.prems m' by auto
    ultimately show ?case by (auto simp: bit_simps)
  qed
  have tl: "drop_bit 8 (ucast b OR push_bit 8 (le_word bs) :: 'a word) = le_word bs"
    using rest high by (intro bit_word_eqI) (auto simp: bit_simps dest: bit_imp_le_length)
  show ?case
    using Cons.IH [of m] m rest by (simp add: le_bytes_Suc hd tl del: drop_bit_or)
qed

text \<open>A single byte is its own little-endian encoding.\<close>

lemma le_word_single [simp]: "le_word [b] = (b :: u8)"
  by (simp add: bit_eq_iff bit_simps)

lemma le_bytes_u8 [simp]: "le_bytes (Suc 0) (b :: u8) = [b]"
  by (simp add: le_bytes_Suc le_bytes_0)

section \<open>Checked arithmetic\<close>

text \<open>\<^verbatim>\<open>checked_add\<close> of an unsigned integer type: \<open>None\<close> where the sum does not fit.\<close>

definition checked_add :: "'a::len word \<Rightarrow> 'a word \<Rightarrow> 'a word option" where
  "checked_add a b = (if unat a + unat b < 2 ^ LENGTH('a) then Some (a + b) else None)"

definition checked_mul :: "'a::len word \<Rightarrow> 'a word \<Rightarrow> 'a word option" where
  "checked_mul a b = (if unat a * unat b < 2 ^ LENGTH('a) then Some (a * b) else None)"

lemma checked_mul_Some:
  "checked_mul a b = Some c \<Longrightarrow> unat c = unat a * unat b"
  by (auto simp: checked_mul_def unat_word_ariths split: if_splits)

lemma checked_add_Some:
  "checked_add a b = Some c \<Longrightarrow> unat c = unat a + unat b"
  by (auto simp: checked_add_def unat_word_ariths split: if_splits)

lemma checked_add_eq_Some_iff:
  "checked_add a b = Some c \<longleftrightarrow> unat c = unat a + unat b"
  for a :: "'a::len word"
proof
  assume "unat c = unat a + unat b"
  moreover have "unat c < 2 ^ LENGTH('a)" by (rule unsigned_less)
  ultimately have "unat a + unat b < 2 ^ LENGTH('a)" by simp
  moreover from this \<open>unat c = _\<close> have "c = a + b"
    by (simp add: word_unat_eq_iff unat_word_ariths)
  ultimately show "checked_add a b = Some c" by (simp add: checked_add_def)
qed (rule checked_add_Some)

text \<open>\<^verbatim>\<open>saturating_add\<close>: the maximum of the type where the sum does not fit.\<close>

definition saturating_add :: "'a::len word \<Rightarrow> 'a word \<Rightarrow> 'a word" where
  "saturating_add a b = (if unat a + unat b < 2 ^ LENGTH('a) then a + b else - 1)"

lemma unat_saturating_add:
  "unat (saturating_add a b) = min (unat a + unat b) (2 ^ LENGTH('a) - 1)"
  for a :: "'a::len word"
  by (auto simp: saturating_add_def unat_word_ariths unsigned_minus_1_eq_mask mask_eq_exp_minus_1)

text \<open>A flag bit is set.\<close>

definition has_flag :: "'a::len word \<Rightarrow> 'a word \<Rightarrow> bool" where
  "has_flag w m \<longleftrightarrow> w AND m \<noteq> 0"

section \<open>Lists updated in place\<close>

text \<open>\<^verbatim>\<open>dst[off..off + src.len()].copy_from_slice(src)\<close> on a buffer that holds the range.\<close>

definition splice :: "nat \<Rightarrow> 'a list \<Rightarrow> 'a list \<Rightarrow> 'a list" where
  "splice off src dst = take off dst @ src @ drop (off + length src) dst"

lemma length_splice [simp]:
  "off + length src \<le> length dst \<Longrightarrow> length (splice off src dst) = length dst"
  by (simp add: splice_def)

lemma nth_splice:
  "off + length src \<le> length dst \<Longrightarrow> i < length dst \<Longrightarrow>
    splice off src dst ! i = (if off \<le> i \<and> i < off + length src then src ! (i - off) else dst ! i)"
  by (auto simp: splice_def nth_append min_absorb2 not_less add.commute)

lemma slice_splice_same:
  "off + length src \<le> length dst \<Longrightarrow> slice off (length src) (splice off src dst) = src"
  by (simp add: slice_def splice_def)

lemma take_splice:
  "off + length src \<le> length dst \<Longrightarrow> take (off + length src) (splice off src dst) = take off dst @ src"
  by (simp add: splice_def)

section \<open>Vectors\<close>

text \<open>\<^verbatim>\<open>Iterator::position\<close>, \<^verbatim>\<open>Vec::insert\<close> and \<^verbatim>\<open>Vec::remove\<close>.\<close>

fun position :: "('a \<Rightarrow> bool) \<Rightarrow> 'a list \<Rightarrow> nat option" where
  "position P [] = None"
| "position P (x # xs) = (if P x then Some 0 else map_option Suc (position P xs))"

definition vec_insert :: "nat \<Rightarrow> 'a \<Rightarrow> 'a list \<Rightarrow> 'a list" where
  "vec_insert i x xs = take i xs @ x # drop i xs"

definition vec_remove :: "nat \<Rightarrow> 'a list \<Rightarrow> 'a list" where
  "vec_remove i xs = take i xs @ drop (Suc i) xs"

lemma position_None: "position P xs = None \<longleftrightarrow> (\<forall>x \<in> set xs. \<not> P x)"
  by (induction xs) auto

lemma position_SomeD:
  "position P xs = Some i \<Longrightarrow> i < length xs \<and> P (xs ! i) \<and> (\<forall>j < i. \<not> P (xs ! j))"
  by (induction xs arbitrary: i) (auto simp: nth_Cons split: if_splits nat.splits)

lemma position_split:
  assumes "position P xs = Some i"
  obtains ys x zs where "xs = ys @ x # zs" "length ys = i" "P x" "\<forall>y \<in> set ys. \<not> P y"
proof -
  have i: "i < length xs" "P (xs ! i)" "\<forall>j < i. \<not> P (xs ! j)" using position_SomeD [OF assms] by auto
  show thesis
    by (rule that [of "take i xs" "xs ! i" "drop (Suc i) xs"])
      (use i in \<open>auto simp: id_take_nth_drop [symmetric] in_set_conv_nth\<close>)
qed

lemma vec_remove_split [simp]: "vec_remove (length ys) (ys @ x # zs) = ys @ zs"
  by (simp add: vec_remove_def)

lemma update_split [simp]: "(ys @ x # zs)[length ys := y] = ys @ y # zs"
  by (simp add: list_update_append)

section \<open>Results\<close>

text \<open>A computation that may raise: \<open>Inl\<close> is the early return.\<close>

definition bind_sum :: "'e + 'a \<Rightarrow> ('a \<Rightarrow> 'e + 'b) \<Rightarrow> 'e + 'b" where
  "bind_sum r f = (case r of Inl e \<Rightarrow> Inl e | Inr x \<Rightarrow> f x)"

lemma bind_sum_simps [simp]:
  "bind_sum (Inl e) f = Inl e"
  "bind_sum (Inr x) f = f x"
  by (simp_all add: bind_sum_def)

lemma bind_sum_eq_Inr:
  "bind_sum r f = Inr y \<longleftrightarrow> (\<exists>x. r = Inr x \<and> f x = Inr y)"
  by (cases r) auto

text \<open>The answer of a polled future.\<close>

datatype 'a poll = Ready 'a | Pending

definition option_list :: "'a option \<Rightarrow> 'a list" where
  "option_list x = (case x of None \<Rightarrow> [] | Some y \<Rightarrow> [y])"

end
