(* ===== verification/Wire_Spec.thy ===== *)
theory Wire_Spec
  imports Prelude
begin

text \<open>
  NVMe base-specification structures (\<^verbatim>\<open>ioutgt-nvme/src/spec.rs\<close>), the status codes
  (\<^verbatim>\<open>status.rs\<close>) and the fabrics command layouts (\<^verbatim>\<open>fabrics.rs\<close>).

  Each \<^verbatim>\<open>repr(C)\<close> struct is a record with one field per field of the struct; \<open>*_as_bytes\<close> is
  \<^verbatim>\<open>IntoBytes::as_bytes\<close> and \<open>*_read_from_bytes\<close> is \<^verbatim>\<open>FromBytes::read_from_bytes\<close>, which refuses a
  slice of any other size. Fabrics commands reinterpret the 64 bytes of a generic submission
  entry, so both directions are needed for the generic entry.
\<close>

section \<open>Constants\<close>

abbreviation (input) GET_LOG_PAGE :: u8 where "GET_LOG_PAGE \<equiv> 0x02"
abbreviation (input) IDENTIFY :: u8 where "IDENTIFY \<equiv> 0x06"
abbreviation (input) SET_FEATURES :: u8 where "SET_FEATURES \<equiv> 0x09"
abbreviation (input) GET_FEATURES :: u8 where "GET_FEATURES \<equiv> 0x0A"
abbreviation (input) ASYNC_EVENT :: u8 where "ASYNC_EVENT \<equiv> 0x0C"
abbreviation (input) KEEP_ALIVE :: u8 where "KEEP_ALIVE \<equiv> 0x18"
abbreviation (input) FABRICS :: u8 where "FABRICS \<equiv> 0x7F"

abbreviation (input) FLUSH :: u8 where "FLUSH \<equiv> 0x00"
abbreviation (input) WRITE :: u8 where "WRITE \<equiv> 0x01"
abbreviation (input) READ :: u8 where "READ \<equiv> 0x02"
abbreviation (input) WRITE_ZEROES :: u8 where "WRITE_ZEROES \<equiv> 0x08"
abbreviation (input) DSM :: u8 where "DSM \<equiv> 0x09"

abbreviation (input) CNS_NAMESPACE :: u8 where "CNS_NAMESPACE \<equiv> 0x00"
abbreviation (input) CNS_CONTROLLER :: u8 where "CNS_CONTROLLER \<equiv> 0x01"
abbreviation (input) CNS_ACTIVE_NS_LIST :: u8 where "CNS_ACTIVE_NS_LIST \<equiv> 0x02"
abbreviation (input) CNS_NS_DESC_LIST :: u8 where "CNS_NS_DESC_LIST \<equiv> 0x03"

abbreviation (input) FEAT_VOLATILE_WC :: u8 where "FEAT_VOLATILE_WC \<equiv> 0x06"
abbreviation (input) FEAT_NUM_QUEUES :: u8 where "FEAT_NUM_QUEUES \<equiv> 0x07"
abbreviation (input) FEAT_ASYNC_EVENT_CONFIG :: u8 where "FEAT_ASYNC_EVENT_CONFIG \<equiv> 0x0B"
abbreviation (input) FEAT_KATO :: u8 where "FEAT_KATO \<equiv> 0x0F"
abbreviation (input) FEAT_HOST_ID :: u8 where "FEAT_HOST_ID \<equiv> 0x81"

abbreviation (input) LOG_ERROR :: u8 where "LOG_ERROR \<equiv> 0x01"
abbreviation (input) LOG_SMART :: u8 where "LOG_SMART \<equiv> 0x02"
abbreviation (input) LOG_FW_SLOT :: u8 where "LOG_FW_SLOT \<equiv> 0x03"
abbreviation (input) LOG_CHANGED_NS :: u8 where "LOG_CHANGED_NS \<equiv> 0x04"
abbreviation (input) LOG_DISCOVERY :: u8 where "LOG_DISCOVERY \<equiv> 0x70"

abbreviation (input) TYPE_TRANSPORT_DATA_BLOCK :: u8 where "TYPE_TRANSPORT_DATA_BLOCK \<equiv> 0x5A"

abbreviation (input) SUCCESS :: u16 where "SUCCESS \<equiv> 0x0"
abbreviation (input) INVALID_OPCODE :: u16 where "INVALID_OPCODE \<equiv> 0x1"
abbreviation (input) INVALID_FIELD :: u16 where "INVALID_FIELD \<equiv> 0x2"
abbreviation (input) DATA_XFER_ERROR :: u16 where "DATA_XFER_ERROR \<equiv> 0x4"
abbreviation (input) INTERNAL :: u16 where "INTERNAL \<equiv> 0x6"
abbreviation (input) CMD_SEQ_ERROR :: u16 where "CMD_SEQ_ERROR \<equiv> 0xC"
abbreviation (input) DATA_SGL_LEN_INVALID :: u16 where "DATA_SGL_LEN_INVALID \<equiv> 0xF"
abbreviation (input) INVALID_NS :: u16 where "INVALID_NS \<equiv> 0xB"
abbreviation (input) LBA_RANGE :: u16 where "LBA_RANGE \<equiv> 0x80"
abbreviation (input) CAP_EXCEEDED :: u16 where "CAP_EXCEEDED \<equiv> 0x81"
abbreviation (input) FEATURE_NOT_CHANGEABLE :: u16 where "FEATURE_NOT_CHANGEABLE \<equiv> 0x10E"
abbreviation (input) INVALID_LOG_PAGE :: u16 where "INVALID_LOG_PAGE \<equiv> 0x109"
abbreviation (input) CONNECT_FORMAT :: u16 where "CONNECT_FORMAT \<equiv> 0x180"
abbreviation (input) CONNECT_CTRL_BUSY :: u16 where "CONNECT_CTRL_BUSY \<equiv> 0x181"
abbreviation (input) CONNECT_INVALID_PARAM :: u16 where "CONNECT_INVALID_PARAM \<equiv> 0x182"
abbreviation (input) CONNECT_INVALID_HOST :: u16 where "CONNECT_INVALID_HOST \<equiv> 0x184"
abbreviation (input) DNR :: u16 where "DNR \<equiv> 0x4000"

definition connect_invalid_param_result :: "bool \<Rightarrow> u16 \<Rightarrow> u32" where
  "connect_invalid_param_result in_data offset =
     push_bit 16 (ucast offset) OR (if in_data then 1 else 0)"

section \<open>Submission and completion entries\<close>

record sgl_descriptor =
  sgl_addr :: u64
  sgl_length :: u32
  sgl_rsvd :: bytes
  sgl_type :: u8

definition sgl_as_bytes :: "sgl_descriptor \<Rightarrow> bytes" where
  "sgl_as_bytes d =
     le_bytes 8 (sgl_addr d) @ le_bytes 4 (sgl_length d) @ sgl_rsvd d @ [sgl_type d]"

definition sgl_of_bytes :: "bytes \<Rightarrow> sgl_descriptor" where
  "sgl_of_bytes bs = \<lparr>
     sgl_addr = le_word (slice 0 8 bs),
     sgl_length = le_word (slice 8 4 bs),
     sgl_rsvd = slice 12 3 bs,
     sgl_type = le_word (slice 15 1 bs)\<rparr>"

definition sgl_wf :: "sgl_descriptor \<Rightarrow> bool" where
  "sgl_wf d \<longleftrightarrow> length (sgl_rsvd d) = 3"

record sqe =
  opcode :: u8
  flags :: u8
  cid :: u16
  nsid :: u32
  cdw2 :: u32
  cdw3 :: u32
  mptr :: u64
  dptr :: sgl_descriptor
  cdw10 :: u32
  cdw11 :: u32
  cdw12 :: u32
  cdw13 :: u32
  cdw14 :: u32
  cdw15 :: u32

definition sqe_as_bytes :: "sqe \<Rightarrow> bytes" where
  "sqe_as_bytes s =
     [opcode s] @ [flags s] @ le_bytes 2 (cid s) @ le_bytes 4 (nsid s) @
     le_bytes 4 (cdw2 s) @ le_bytes 4 (cdw3 s) @ le_bytes 8 (mptr s) @ sgl_as_bytes (dptr s) @
     le_bytes 4 (cdw10 s) @ le_bytes 4 (cdw11 s) @ le_bytes 4 (cdw12 s) @
     le_bytes 4 (cdw13 s) @ le_bytes 4 (cdw14 s) @ le_bytes 4 (cdw15 s)"

definition sqe_of_bytes :: "bytes \<Rightarrow> sqe" where
  "sqe_of_bytes bs = \<lparr>
     opcode = le_word (slice 0 1 bs),
     flags = le_word (slice 1 1 bs),
     cid = le_word (slice 2 2 bs),
     nsid = le_word (slice 4 4 bs),
     cdw2 = le_word (slice 8 4 bs),
     cdw3 = le_word (slice 12 4 bs),
     mptr = le_word (slice 16 8 bs),
     dptr = sgl_of_bytes (slice 24 16 bs),
     cdw10 = le_word (slice 40 4 bs),
     cdw11 = le_word (slice 44 4 bs),
     cdw12 = le_word (slice 48 4 bs),
     cdw13 = le_word (slice 52 4 bs),
     cdw14 = le_word (slice 56 4 bs),
     cdw15 = le_word (slice 60 4 bs)\<rparr>"

text \<open>\<^verbatim>\<open>read_from_bytes\<close>: only a slice of exactly the size of the type is read.\<close>

definition read_sized :: "nat \<Rightarrow> (bytes \<Rightarrow> 'a) \<Rightarrow> bytes \<Rightarrow> 'a option" where
  "read_sized n f bs = (if length bs = n then Some (f bs) else None)"

definition sqe_zeroed :: sqe where
  "sqe_zeroed = sqe_of_bytes (replicate 64 0)"

definition sqe_wf :: "sqe \<Rightarrow> bool" where
  "sqe_wf s \<longleftrightarrow> sgl_wf (dptr s)"

record cqe =
  cqe_result :: u32
  cqe_rsvd :: u32
  sq_head :: u16
  sq_id :: u16
  cqe_cid :: u16
  cqe_status :: u16

definition cqe_as_bytes :: "cqe \<Rightarrow> bytes" where
  "cqe_as_bytes c =
     le_bytes 4 (cqe_result c) @ le_bytes 4 (cqe_rsvd c) @ le_bytes 2 (sq_head c) @
     le_bytes 2 (sq_id c) @ le_bytes 2 (cqe_cid c) @ le_bytes 2 (cqe_status c)"

definition cqe_of_bytes :: "bytes \<Rightarrow> cqe" where
  "cqe_of_bytes bs = \<lparr>
     cqe_result = le_word (slice 0 4 bs),
     cqe_rsvd = le_word (slice 4 4 bs),
     sq_head = le_word (slice 8 2 bs),
     sq_id = le_word (slice 10 2 bs),
     cqe_cid = le_word (slice 12 2 bs),
     cqe_status = le_word (slice 14 2 bs)\<rparr>"

text \<open>\<^verbatim>\<open>Cqe::new\<close>: the combined status code is shifted into its wire position.\<close>

definition cqe_new :: "u32 \<Rightarrow> u16 \<Rightarrow> u16 \<Rightarrow> u16 \<Rightarrow> u16 \<Rightarrow> cqe" where
  "cqe_new result sqhd sqid cmdid status = \<lparr>
     cqe_result = result, cqe_rsvd = 0, sq_head = sqhd, sq_id = sqid, cqe_cid = cmdid,
     cqe_status = push_bit 1 status\<rparr>"

record rw_command =
  rw_slba :: u64
  rw_nlb :: u16
  rw_fua :: bool

definition rw_parse :: "sqe \<Rightarrow> rw_command" where
  "rw_parse s = \<lparr>
     rw_slba = ucast (cdw10 s) OR push_bit 32 (ucast (cdw11 s)),
     rw_nlb = ucast (cdw12 s AND 0xFFFF),
     rw_fua = (cdw12 s AND push_bit 30 1 \<noteq> 0)\<rparr>"

record dsm_range =
  dsm_cattr :: u32
  dsm_nlb :: u32
  dsm_slba :: u64

definition dsm_of_bytes :: "bytes \<Rightarrow> dsm_range" where
  "dsm_of_bytes bs = \<lparr>
     dsm_cattr = le_word (slice 0 4 bs),
     dsm_nlb = le_word (slice 4 4 bs),
     dsm_slba = le_word (slice 8 8 bs)\<rparr>"

section \<open>Fabrics commands\<close>

abbreviation (input) FCTYPE_PROPERTY_SET :: u8 where "FCTYPE_PROPERTY_SET \<equiv> 0x00"
abbreviation (input) FCTYPE_CONNECT :: u8 where "FCTYPE_CONNECT \<equiv> 0x01"
abbreviation (input) FCTYPE_PROPERTY_GET :: u8 where "FCTYPE_PROPERTY_GET \<equiv> 0x04"

abbreviation (input) prop_CAP :: u32 where "prop_CAP \<equiv> 0x00"
abbreviation (input) prop_VS :: u32 where "prop_VS \<equiv> 0x08"
abbreviation (input) prop_CC :: u32 where "prop_CC \<equiv> 0x14"
abbreviation (input) prop_CSTS :: u32 where "prop_CSTS \<equiv> 0x1C"

definition DISCOVERY_NQN :: string where
  "DISCOVERY_NQN = ''nqn.2014-08.org.nvmexpress.discovery''"

record connect_command =
  con_opcode :: u8
  con_resv1 :: u8
  con_cid :: u16
  con_fctype :: u8
  con_resv2 :: bytes
  con_dptr :: sgl_descriptor
  con_recfmt :: u16
  con_qid :: u16
  con_sqsize :: u16
  con_cattr :: u8
  con_resv3 :: u8
  con_kato :: u32
  con_resv4 :: bytes

definition connect_of_bytes :: "bytes \<Rightarrow> connect_command" where
  "connect_of_bytes bs = \<lparr>
     con_opcode = le_word (slice 0 1 bs),
     con_resv1 = le_word (slice 1 1 bs),
     con_cid = le_word (slice 2 2 bs),
     con_fctype = le_word (slice 4 1 bs),
     con_resv2 = slice 5 19 bs,
     con_dptr = sgl_of_bytes (slice 24 16 bs),
     con_recfmt = le_word (slice 40 2 bs),
     con_qid = le_word (slice 42 2 bs),
     con_sqsize = le_word (slice 44 2 bs),
     con_cattr = le_word (slice 46 1 bs),
     con_resv3 = le_word (slice 47 1 bs),
     con_kato = le_word (slice 48 4 bs),
     con_resv4 = slice 52 12 bs\<rparr>"

record connect_data =
  cd_hostid :: bytes
  cd_cntlid :: u16
  cd_resv4 :: bytes
  cd_subsysnqn :: bytes
  cd_hostnqn :: bytes
  cd_resv5 :: bytes

definition connect_data_of_bytes :: "bytes \<Rightarrow> connect_data" where
  "connect_data_of_bytes bs = \<lparr>
     cd_hostid = slice 0 16 bs,
     cd_cntlid = le_word (slice 16 2 bs),
     cd_resv4 = slice 18 238 bs,
     cd_subsysnqn = slice 256 256 bs,
     cd_hostnqn = slice 512 256 bs,
     cd_resv5 = slice 768 256 bs\<rparr>"

record property_command =
  prp_opcode :: u8
  prp_resv1 :: u8
  prp_cid :: u16
  prp_fctype :: u8
  prp_resv2 :: bytes
  prp_attrib :: u8
  prp_resv3 :: bytes
  prp_offset :: u32
  prp_value :: u64
  prp_resv4 :: bytes

definition property_of_bytes :: "bytes \<Rightarrow> property_command" where
  "property_of_bytes bs = \<lparr>
     prp_opcode = le_word (slice 0 1 bs),
     prp_resv1 = le_word (slice 1 1 bs),
     prp_cid = le_word (slice 2 2 bs),
     prp_fctype = le_word (slice 4 1 bs),
     prp_resv2 = slice 5 35 bs,
     prp_attrib = le_word (slice 40 1 bs),
     prp_resv3 = slice 41 3 bs,
     prp_offset = le_word (slice 44 4 bs),
     prp_value = le_word (slice 48 8 bs),
     prp_resv4 = slice 56 8 bs\<rparr>"

section \<open>Layout\<close>

lemma length_sgl_as_bytes [simp]: "sgl_wf d \<Longrightarrow> length (sgl_as_bytes d) = 16"
  by (simp add: sgl_as_bytes_def sgl_wf_def)

lemma length_sqe_as_bytes [simp]: "sqe_wf s \<Longrightarrow> length (sqe_as_bytes s) = 64"
  by (simp add: sqe_as_bytes_def sqe_wf_def)

lemma length_cqe_as_bytes [simp]: "length (cqe_as_bytes c) = 16"
  by (simp add: cqe_as_bytes_def)

lemma sgl_wf_sgl_of_bytes [simp]: "length bs = 16 \<Longrightarrow> sgl_wf (sgl_of_bytes bs)"
  by (simp add: sgl_of_bytes_def sgl_wf_def)

lemma sqe_wf_sqe_of_bytes [simp]: "length bs = 64 \<Longrightarrow> sqe_wf (sqe_of_bytes bs)"
  by (simp add: sqe_of_bytes_def sqe_wf_def)

lemma sqe_wf_zeroed [simp]: "sqe_wf sqe_zeroed"
  by (simp add: sqe_zeroed_def)

lemma sgl_roundtrip [wire]: "sgl_wf d \<Longrightarrow> sgl_of_bytes (sgl_as_bytes d) = d"
  by (simp add: sgl_of_bytes_def sgl_as_bytes_def sgl_wf_def wire)

lemma sqe_roundtrip [wire]: "sqe_wf s \<Longrightarrow> sqe_of_bytes (sqe_as_bytes s) = s"
  by (simp add: sqe_of_bytes_def sqe_as_bytes_def sqe_wf_def wire)

lemma cqe_roundtrip [wire]: "cqe_of_bytes (cqe_as_bytes c) = c"
  by (simp add: cqe_of_bytes_def cqe_as_bytes_def wire)

text \<open>A field read at its full width is written back as the bytes it was read from.\<close>

lemma le_bytes_le_word_slice:
  "off + n \<le> length bs \<Longrightarrow> 8 * n \<le> LENGTH('a) \<Longrightarrow>
    le_bytes n (le_word (slice off n bs) :: 'a::len word) = slice off n bs"
  by (rule le_bytes_le_word) simp_all

lemma le_word_byte_slice:
  "off < length bs \<Longrightarrow> [le_word (slice off (Suc 0) bs) :: u8] = slice off (Suc 0) bs"
  using slice_one [of off bs] by simp

lemma sgl_as_bytes_of_bytes: "length bs = 16 \<Longrightarrow> sgl_as_bytes (sgl_of_bytes bs) = bs"
  by (simp add: sgl_as_bytes_def sgl_of_bytes_def le_bytes_le_word_slice le_word_byte_slice
      slice_join slice_zero_full)

lemma sqe_as_bytes_of_bytes: "length bs = 64 \<Longrightarrow> sqe_as_bytes (sqe_of_bytes bs) = bs"
  by (simp only: sqe_as_bytes_def sqe_of_bytes_def sqe.select_convs sgl_as_bytes_of_bytes
      length_slice)
    (simp add: le_bytes_le_word_slice le_word_byte_slice sgl_as_bytes_of_bytes
      slice_join slice_join_app slice_zero_full)

text \<open>The opcode and the command identifier sit at the same offsets in every command layout.\<close>

lemma connect_of_sqe_cid: "sqe_wf s \<Longrightarrow> con_cid (connect_of_bytes (sqe_as_bytes s)) = cid s"
  by (simp add: connect_of_bytes_def sqe_as_bytes_def sqe_wf_def wire)

lemma property_of_sqe_cid: "sqe_wf s \<Longrightarrow> prp_cid (property_of_bytes (sqe_as_bytes s)) = cid s"
  by (simp add: property_of_bytes_def sqe_as_bytes_def sqe_wf_def wire)

text \<open>A completion built with a status below 2^15 carries it unchanged above the phase bit.\<close>

lemma cqe_new_status:
  "unat status < 2 ^ 15 \<Longrightarrow> drop_bit 1 (cqe_status (cqe_new r h q c status)) = status"
  by (simp add: cqe_new_def word_unat_eq_iff unsigned_drop_bit_eq drop_bit_eq_div
      push_bit_eq_mult unat_word_ariths)

end
