(* ===== verification/Pdu.thy ===== *)
theory Pdu
  imports Wire_Spec
begin

text \<open>
  The NVMe/TCP PDU codec (\<^verbatim>\<open>ioutgt-nvme/src/pdu.rs\<close>, \<^verbatim>\<open>digest.rs\<close>): the header structures, the
  incremental header decoder \<^verbatim>\<open>PduDecoder\<close> with \<^verbatim>\<open>feed\<close> and \<^verbatim>\<open>take\<close>, and the encoders.

  The CRC32C of the \<^verbatim>\<open>crc32c\<close> crate is a parameter \<open>crc\<close> of the definitions that compute a digest.
  A panic of the source (a failed assertion, an arithmetic underflow, the \<^verbatim>\<open>unreachable!\<close> arm) is
  the value \<open>None\<close>.
\<close>

section \<open>Headers\<close>

abbreviation (input) ICREQ :: u8 where "ICREQ \<equiv> 0x0"
abbreviation (input) ICRESP :: u8 where "ICRESP \<equiv> 0x1"
abbreviation (input) H2C_TERM :: u8 where "H2C_TERM \<equiv> 0x2"
abbreviation (input) C2H_TERM :: u8 where "C2H_TERM \<equiv> 0x3"
abbreviation (input) CAPSULE_CMD :: u8 where "CAPSULE_CMD \<equiv> 0x4"
abbreviation (input) CAPSULE_RESP :: u8 where "CAPSULE_RESP \<equiv> 0x5"
abbreviation (input) H2C_DATA :: u8 where "H2C_DATA \<equiv> 0x6"
abbreviation (input) C2H_DATA :: u8 where "C2H_DATA \<equiv> 0x7"
abbreviation (input) R2T_TYPE :: u8 where "R2T_TYPE \<equiv> 0x9"

abbreviation (input) FLAG_HDGST :: u8 where "FLAG_HDGST \<equiv> 1"
abbreviation (input) FLAG_DDGST :: u8 where "FLAG_DDGST \<equiv> 2"
abbreviation (input) FLAG_DATA_LAST :: u8 where "FLAG_DATA_LAST \<equiv> 4"
abbreviation (input) FLAG_DATA_SUCCESS :: u8 where "FLAG_DATA_SUCCESS \<equiv> 8"

abbreviation (input) INVALID_PDU_HDR :: u16 where "INVALID_PDU_HDR \<equiv> 0x1"
abbreviation (input) PDU_SEQ_ERR :: u16 where "PDU_SEQ_ERR \<equiv> 0x2"
abbreviation (input) HDR_DIGEST_ERR :: u16 where "HDR_DIGEST_ERR \<equiv> 0x3"
abbreviation (input) DATA_OUT_OF_RANGE :: u16 where "DATA_OUT_OF_RANGE \<equiv> 0x4"
abbreviation (input) DATA_LIMIT_EXCEEDED :: u16 where "DATA_LIMIT_EXCEEDED \<equiv> 0x5"

abbreviation (input) PFV_1_0 :: u16 where "PFV_1_0 \<equiv> 0"
abbreviation (input) DIGEST_HDGST :: u8 where "DIGEST_HDGST \<equiv> 1"
abbreviation (input) DIGEST_DDGST :: u8 where "DIGEST_DDGST \<equiv> 2"

definition MAX_HDR :: nat where "MAX_HDR = 128"
definition MAX_PLEN :: u32 where "MAX_PLEN = 32 * 1024 * 1024"

record common_header =
  ch_pdu_type :: u8
  ch_flags :: u8
  ch_hlen :: u8
  ch_pdo :: u8
  ch_plen :: u32

definition ch_as_bytes :: "common_header \<Rightarrow> bytes" where
  "ch_as_bytes h =
     [ch_pdu_type h] @ [ch_flags h] @ [ch_hlen h] @ [ch_pdo h] @ le_bytes 4 (ch_plen h)"

definition ch_of_bytes :: "bytes \<Rightarrow> common_header" where
  "ch_of_bytes bs = \<lparr>
     ch_pdu_type = le_word (slice 0 1 bs),
     ch_flags = le_word (slice 1 1 bs),
     ch_hlen = le_word (slice 2 1 bs),
     ch_pdo = le_word (slice 3 1 bs),
     ch_plen = le_word (slice 4 4 bs)\<rparr>"

record ic_req =
  icq_hdr :: common_header
  icq_pfv :: u16
  icq_hpda :: u8
  icq_digest :: u8
  icq_maxr2t :: u32
  icq_rsvd :: bytes

definition icreq_as_bytes :: "ic_req \<Rightarrow> bytes" where
  "icreq_as_bytes p =
     ch_as_bytes (icq_hdr p) @ le_bytes 2 (icq_pfv p) @ [icq_hpda p] @ [icq_digest p] @
     le_bytes 4 (icq_maxr2t p) @ icq_rsvd p"

definition icreq_of_bytes :: "bytes \<Rightarrow> ic_req" where
  "icreq_of_bytes bs = \<lparr>
     icq_hdr = ch_of_bytes (slice 0 8 bs),
     icq_pfv = le_word (slice 8 2 bs),
     icq_hpda = le_word (slice 10 1 bs),
     icq_digest = le_word (slice 11 1 bs),
     icq_maxr2t = le_word (slice 12 4 bs),
     icq_rsvd = slice 16 112 bs\<rparr>"

record ic_resp =
  icr_hdr :: common_header
  icr_pfv :: u16
  icr_cpda :: u8
  icr_digest :: u8
  icr_maxdata :: u32
  icr_rsvd :: bytes

definition icresp_as_bytes :: "ic_resp \<Rightarrow> bytes" where
  "icresp_as_bytes p =
     ch_as_bytes (icr_hdr p) @ le_bytes 2 (icr_pfv p) @ [icr_cpda p] @ [icr_digest p] @
     le_bytes 4 (icr_maxdata p) @ icr_rsvd p"

definition icresp_of_bytes :: "bytes \<Rightarrow> ic_resp" where
  "icresp_of_bytes bs = \<lparr>
     icr_hdr = ch_of_bytes (slice 0 8 bs),
     icr_pfv = le_word (slice 8 2 bs),
     icr_cpda = le_word (slice 10 1 bs),
     icr_digest = le_word (slice 11 1 bs),
     icr_maxdata = le_word (slice 12 4 bs),
     icr_rsvd = slice 16 112 bs\<rparr>"

record term_pdu =
  trm_hdr :: common_header
  trm_fes :: u16
  trm_fei :: u32
  trm_rsvd :: bytes

definition term_as_bytes :: "term_pdu \<Rightarrow> bytes" where
  "term_as_bytes p =
     ch_as_bytes (trm_hdr p) @ le_bytes 2 (trm_fes p) @ le_bytes 4 (trm_fei p) @ trm_rsvd p"

definition term_of_bytes :: "bytes \<Rightarrow> term_pdu" where
  "term_of_bytes bs = \<lparr>
     trm_hdr = ch_of_bytes (slice 0 8 bs),
     trm_fes = le_word (slice 8 2 bs),
     trm_fei = le_word (slice 10 4 bs),
     trm_rsvd = slice 14 10 bs\<rparr>"

record data_pdu =
  dp_hdr :: common_header
  dp_cid :: u16
  dp_ttag :: u16
  dp_offset :: u32
  dp_length :: u32
  dp_rsvd :: bytes

definition data_as_bytes :: "data_pdu \<Rightarrow> bytes" where
  "data_as_bytes p =
     ch_as_bytes (dp_hdr p) @ le_bytes 2 (dp_cid p) @ le_bytes 2 (dp_ttag p) @
     le_bytes 4 (dp_offset p) @ le_bytes 4 (dp_length p) @ dp_rsvd p"

definition data_of_bytes :: "bytes \<Rightarrow> data_pdu" where
  "data_of_bytes bs = \<lparr>
     dp_hdr = ch_of_bytes (slice 0 8 bs),
     dp_cid = le_word (slice 8 2 bs),
     dp_ttag = le_word (slice 10 2 bs),
     dp_offset = le_word (slice 12 4 bs),
     dp_length = le_word (slice 16 4 bs),
     dp_rsvd = slice 20 4 bs\<rparr>"

definition capsule_sqe_of_bytes :: "bytes \<Rightarrow> sqe" where
  "capsule_sqe_of_bytes bs = sqe_of_bytes (slice 8 64 bs)"

definition capsule_cqe_of_bytes :: "bytes \<Rightarrow> cqe" where
  "capsule_cqe_of_bytes bs = cqe_of_bytes (slice 8 16 bs)"

section \<open>The decoder\<close>

record pdu_error =
  pe_fes :: u16
  pe_fei :: u32

definition hdr_field :: "u32 \<Rightarrow> pdu_error" where
  "hdr_field offset = \<lparr>pe_fes = INVALID_PDU_HDR, pe_fei = offset\<rparr>"

datatype pdu_kind =
    IcReq ic_req
  | IcResp ic_resp
  | H2CTerm u16 u32
  | CapsuleCmd sqe
  | CapsuleResp cqe
  | H2CData u16 u16 u32 u32 bool
  | C2HData u16 u32 u32 bool bool
  | R2T u16 u16 u32 u32

record decoded_pdu =
  pdu_kind :: pdu_kind
  pdu_data_len :: u32
  pdu_ddgst :: bool

datatype decode_state = Common | Rest | Complete

record pdu_decoder =
  hdr_digest :: bool
  dbuf :: bytes
  dhave :: nat
  dneed :: nat
  dstate :: decode_state

definition pdu_decoder_new :: "bool \<Rightarrow> pdu_decoder" where
  "pdu_decoder_new hdg =
     \<lparr>hdr_digest = hdg, dbuf = replicate MAX_HDR 0, dhave = 0, dneed = 8, dstate = Common\<rparr>"

definition is_complete :: "pdu_decoder \<Rightarrow> bool" where
  "is_complete d \<longleftrightarrow> dstate d = Complete"

text \<open>The header length and digest eligibility of a PDU type; \<open>None\<close> for an unknown type.\<close>

definition type_layout :: "u8 \<Rightarrow> (u32 \<times> bool) option" where
  "type_layout t =
     (if t = ICREQ \<or> t = ICRESP then Some (128, False)
      else if t = H2C_TERM \<or> t = C2H_TERM then Some (24, False)
      else if t = CAPSULE_CMD then Some (72, True)
      else if t = CAPSULE_RESP then Some (24, True)
      else if t = H2C_DATA \<or> t = C2H_DATA \<or> t = R2T_TYPE then Some (24, True)
      else None)"

text \<open>
  \<^verbatim>\<open>full_header_len\<close>, as a function of the digest setting and of the eight bytes of the common
  header.
\<close>

definition header_len :: "bool \<Rightarrow> bytes \<Rightarrow> pdu_error + nat" where
  "header_len hdg bs =
     (let hdr = ch_of_bytes bs in
      case type_layout (ch_pdu_type hdr) of
        None \<Rightarrow> Inl (hdr_field 0)
      | Some (expected_hlen, digestable) \<Rightarrow>
          if ucast (ch_hlen hdr) \<noteq> expected_hlen then Inl (hdr_field 2)
          else
            let hdgst = (digestable \<and> hdg) in
            if ch_flags hdr AND FLAG_HDGST \<noteq> 0 \<and> \<not> hdgst then Inl (hdr_field 1)
            else
              let plen = ch_plen hdr;
                  header_wire = expected_hlen + (if hdgst then 4 else 0) in
              if plen < header_wire \<or> MAX_PLEN < plen then Inl (hdr_field 4)
              else
                let exact = (if ch_pdu_type hdr = ICREQ \<or> ch_pdu_type hdr = ICRESP then Some 128
                             else if ch_pdu_type hdr = CAPSULE_RESP \<or> ch_pdu_type hdr = R2T_TYPE
                               then Some header_wire
                             else None);
                    ddgst = (ch_flags hdr AND FLAG_DDGST \<noteq> 0) in
                if exact \<noteq> None \<and> exact \<noteq> Some plen then Inl (hdr_field 4)
                else if ddgst \<and> plen < header_wire + 4 + 1 then Inl (hdr_field 4)
                else Inr (unat expected_hlen + (if hdgst then 4 else 0)))"

definition full_header_len :: "pdu_decoder \<Rightarrow> pdu_error + nat" where
  "full_header_len d = header_len (hdr_digest d) (slice 0 8 (dbuf d))"

text \<open>
  One pass of the loop of \<^verbatim>\<open>feed\<close>: copy what is wanted and available; \<open>Inl\<close> is a return with the
  number of bytes consumed, \<open>Inr\<close> goes round again. Each repetition moves the state forward, so
  three passes end the loop.
\<close>

fun state_rank :: "decode_state \<Rightarrow> nat" where
  "state_rank Common = 2"
| "state_rank Rest = 1"
| "state_rank Complete = 0"

lemma state_rank_pos [simp]: "0 < state_rank s \<longleftrightarrow> s \<noteq> Complete"
  by (cases s) simp_all

definition copy_in :: "pdu_decoder \<Rightarrow> bytes \<Rightarrow> pdu_decoder" where
  "copy_in d bs = d\<lparr>dbuf := splice (dhave d) bs (dbuf d), dhave := dhave d + length bs\<rparr>"

function (sequential) feed_loop :: "pdu_decoder \<Rightarrow> bytes \<Rightarrow> nat \<Rightarrow> pdu_error + (pdu_decoder \<times> nat)" where
  "feed_loop d input consumed =
     (if dstate d = Complete then Inr (d, consumed)
      else
        let want = dneed d - dhave d;
            n = min want (length input - consumed);
            d' = (if want > 0 then copy_in d (slice consumed n input) else d);
            consumed' = (if want > 0 then consumed + n else consumed) in
        if want > 0 \<and> n = 0 then Inr (d, consumed)
        else if want > 0 \<and> dhave d' < dneed d' then Inr (d', consumed')
        else if dstate d = Common then
          (case full_header_len d' of
             Inl e \<Rightarrow> Inl e
           | Inr m \<Rightarrow> feed_loop (d'\<lparr>dneed := m, dstate := Rest\<rparr>) input consumed')
        else feed_loop (d'\<lparr>dstate := Complete\<rparr>) input consumed')"
  by pat_completeness auto
termination
  by (relation "measure (\<lambda>(d, input, consumed). state_rank (dstate d))")
    (auto simp: copy_in_def Let_def)

declare feed_loop.simps [simp del]

definition pdu_feed :: "pdu_decoder \<Rightarrow> bytes \<Rightarrow> pdu_error + (pdu_decoder \<times> nat)" where
  "pdu_feed d input = feed_loop d input 0"

text \<open>The typed view of a complete header; \<open>None\<close> is the unreachable arm.\<close>

definition decode_kind :: "common_header \<Rightarrow> u32 \<Rightarrow> bytes \<Rightarrow> (pdu_error + pdu_kind) option" where
  "decode_kind hdr data_len buf =
     (let t = ch_pdu_type hdr; fl = ch_flags hdr; plen = ch_plen hdr in
      if t = ICREQ then Some (Inr (IcReq (icreq_of_bytes (slice 0 128 buf))))
      else if t = ICRESP then Some (Inr (IcResp (icresp_of_bytes (slice 0 128 buf))))
      else if t = H2C_TERM \<or> t = C2H_TERM then
        (let trm = term_of_bytes (slice 0 24 buf) in
         if plen > 152 then Some (Inl (hdr_field 4))
         else Some (Inr (H2CTerm (trm_fes trm) (trm_fei trm))))
      else if t = CAPSULE_CMD then Some (Inr (CapsuleCmd (capsule_sqe_of_bytes (slice 0 72 buf))))
      else if t = CAPSULE_RESP then Some (Inr (CapsuleResp (capsule_cqe_of_bytes (slice 0 24 buf))))
      else if t = H2C_DATA then
        (let p = data_of_bytes (slice 0 24 buf) in
         if dp_length p \<noteq> data_len then Some (Inl (hdr_field 12))
         else Some (Inr (H2CData (dp_cid p) (dp_ttag p) (dp_offset p) (dp_length p)
                (fl AND FLAG_DATA_LAST \<noteq> 0))))
      else if t = C2H_DATA then
        (let p = data_of_bytes (slice 0 24 buf) in
         Some (Inr (C2HData (dp_cid p) (dp_offset p) (dp_length p)
                (fl AND FLAG_DATA_LAST \<noteq> 0) (fl AND FLAG_DATA_SUCCESS \<noteq> 0))))
      else if t = R2T_TYPE then
        (let p = data_of_bytes (slice 0 24 buf) in
         Some (Inr (R2T (dp_cid p) (dp_ttag p) (dp_offset p) (dp_length p))))
      else None)"

definition digestable_type :: "u8 \<Rightarrow> bool" where
  "digestable_type t \<longleftrightarrow> \<not> (t = ICREQ \<or> t = ICRESP \<or> t = H2C_TERM \<or> t = C2H_TERM)"

definition pdu_take ::
  "(bytes \<Rightarrow> u32) \<Rightarrow> pdu_decoder \<Rightarrow> ((pdu_error + decoded_pdu) \<times> pdu_decoder) option" where
  "pdu_take crc d =
     (if \<not> is_complete d then None
      else
        let hdr = ch_of_bytes (slice 0 8 (dbuf d));
            hlen = unat (ch_hlen hdr);
            t = ch_pdu_type hdr;
            digestable = digestable_type t;
            hdgst = (digestable \<and> hdr_digest d) in
        if hdgst \<and> le_word (slice hlen 4 (dbuf d)) \<noteq> crc (slice 0 hlen (dbuf d))
        then Some (Inl \<lparr>pe_fes = HDR_DIGEST_ERR, pe_fei = 0\<rparr>, d)
        else
          let ddgst = (digestable \<and> ch_flags hdr AND FLAG_DDGST \<noteq> 0);
              header_wire = ucast (ch_hlen hdr) + (if hdgst then 4 else 0);
              plen = ch_plen hdr;
              trailer = (if ddgst then 4 else 0) in
          if unat plen < unat header_wire + unat trailer then None
          else
            let data_len = plen - header_wire - trailer in
            if ch_pdo hdr \<noteq> 0 \<and> ucast (ch_pdo hdr) \<noteq> header_wire then Some (Inl (hdr_field 3), d)
            else
              case decode_kind hdr data_len (dbuf d) of
                None \<Rightarrow> None
              | Some (Inl e) \<Rightarrow> Some (Inl e, d)
              | Some (Inr k) \<Rightarrow>
                  Some (Inr \<lparr>pdu_kind = k, pdu_data_len = data_len, pdu_ddgst = ddgst\<rparr>,
                        d\<lparr>dhave := 0, dneed := 8, dstate := Common\<rparr>))"

section \<open>Encoders\<close>

text \<open>
  An encoder writes a header at the front of a caller's buffer and returns its length; the model
  is the list of the bytes written. \<^verbatim>\<open>put_hdgst\<close> appends the digest of the header before it.
\<close>

definition common :: "u8 \<Rightarrow> u8 \<Rightarrow> u8 \<Rightarrow> u8 \<Rightarrow> u32 \<Rightarrow> common_header" where
  "common t fl hlen pdo plen =
     \<lparr>ch_pdu_type = t, ch_flags = fl, ch_hlen = hlen, ch_pdo = pdo, ch_plen = plen\<rparr>"

definition put_hdgst :: "(bytes \<Rightarrow> u32) \<Rightarrow> bytes \<Rightarrow> bytes" where
  "put_hdgst crc hdr = hdr @ le_bytes 4 (crc hdr)"

definition digest_bits :: "bool \<Rightarrow> bool \<Rightarrow> u8" where
  "digest_bits hdgst ddgst =
     (if hdgst then DIGEST_HDGST else 0) OR (if ddgst then DIGEST_DDGST else 0)"

definition encode_icreq :: "bool \<Rightarrow> bool \<Rightarrow> u32 \<Rightarrow> bytes" where
  "encode_icreq hdgst ddgst maxr2t = icreq_as_bytes \<lparr>
     icq_hdr = common ICREQ 0 128 0 128, icq_pfv = PFV_1_0, icq_hpda = 0,
     icq_digest = digest_bits hdgst ddgst, icq_maxr2t = maxr2t, icq_rsvd = replicate 112 0\<rparr>"

definition encode_icresp :: "bool \<Rightarrow> bool \<Rightarrow> u32 \<Rightarrow> bytes" where
  "encode_icresp hdgst ddgst maxdata = icresp_as_bytes \<lparr>
     icr_hdr = common ICRESP 0 128 0 128, icr_pfv = PFV_1_0, icr_cpda = 0,
     icr_digest = digest_bits hdgst ddgst, icr_maxdata = maxdata, icr_rsvd = replicate 112 0\<rparr>"

definition encode_capsule_cmd ::
  "(bytes \<Rightarrow> u32) \<Rightarrow> sqe \<Rightarrow> bool \<Rightarrow> u32 \<Rightarrow> bool \<Rightarrow> bytes" where
  "encode_capsule_cmd crc s hdgst data_len ddgst =
     (let hdgst_len = (if hdgst then 4 else 0);
          ddgst_len = (if ddgst \<and> data_len > 0 then 4 else 0);
          plen = 72 + hdgst_len + data_len + ddgst_len;
          fl = (if hdgst then FLAG_HDGST else 0) OR (if ddgst \<and> data_len > 0 then FLAG_DDGST else 0);
          pdo = (if data_len > 0 then 72 + hdgst_len else 0) :: u32;
          hdr = ch_as_bytes (common CAPSULE_CMD fl 72 (ucast pdo) plen) @ sqe_as_bytes s in
      if hdgst then put_hdgst crc hdr else hdr)"

definition encode_capsule_resp :: "(bytes \<Rightarrow> u32) \<Rightarrow> cqe \<Rightarrow> bool \<Rightarrow> bytes" where
  "encode_capsule_resp crc c hdgst =
     (let plen = 24 + (if hdgst then 4 else 0);
          fl = (if hdgst then FLAG_HDGST else 0);
          hdr = ch_as_bytes (common CAPSULE_RESP fl 24 0 plen) @ cqe_as_bytes c in
      if hdgst then put_hdgst crc hdr else hdr)"

definition encode_data_pdu ::
  "(bytes \<Rightarrow> u32) \<Rightarrow> u8 \<Rightarrow> u8 \<Rightarrow> u16 \<Rightarrow> u16 \<Rightarrow> u32 \<Rightarrow> u32 \<Rightarrow> bool \<Rightarrow> bool \<Rightarrow> bytes" where
  "encode_data_pdu crc t base_flags cmdid ttag data_offset data_length hdgst ddgst =
     (let hdgst_len = (if hdgst then 4 else 0) :: u32;
          ddgst_len = (if ddgst then 4 else 0) :: u32;
          fl = base_flags OR (if hdgst then FLAG_HDGST else 0) OR (if ddgst then FLAG_DDGST else 0);
          hdr = data_as_bytes \<lparr>
            dp_hdr = common t fl 24 (ucast (24 + hdgst_len)) (24 + hdgst_len + data_length + ddgst_len),
            dp_cid = cmdid, dp_ttag = ttag, dp_offset = data_offset, dp_length = data_length,
            dp_rsvd = replicate 4 0\<rparr> in
      if hdgst then put_hdgst crc hdr else hdr)"

definition encode_c2h_data ::
  "(bytes \<Rightarrow> u32) \<Rightarrow> u16 \<Rightarrow> u32 \<Rightarrow> u32 \<Rightarrow> bool \<Rightarrow> bool \<Rightarrow> bool \<Rightarrow> bool \<Rightarrow> bytes" where
  "encode_c2h_data crc cmdid data_offset data_length is_last success hdgst ddgst =
     encode_data_pdu crc C2H_DATA
       ((if is_last then FLAG_DATA_LAST else 0) OR (if success then FLAG_DATA_SUCCESS else 0))
       cmdid 0 data_offset data_length hdgst ddgst"

definition encode_r2t ::
  "(bytes \<Rightarrow> u32) \<Rightarrow> u16 \<Rightarrow> u16 \<Rightarrow> u32 \<Rightarrow> u32 \<Rightarrow> bool \<Rightarrow> bytes" where
  "encode_r2t crc cmdid ttag off len hdgst =
     (let plen = 24 + (if hdgst then 4 else 0);
          fl = (if hdgst then FLAG_HDGST else 0);
          hdr = data_as_bytes \<lparr>
            dp_hdr = common R2T_TYPE fl 24 0 plen,
            dp_cid = cmdid, dp_ttag = ttag, dp_offset = off, dp_length = len,
            dp_rsvd = replicate 4 0\<rparr> in
      if hdgst then put_hdgst crc hdr else hdr)"

definition encode_h2c_data ::
  "(bytes \<Rightarrow> u32) \<Rightarrow> u16 \<Rightarrow> u16 \<Rightarrow> u32 \<Rightarrow> u32 \<Rightarrow> bool \<Rightarrow> bool \<Rightarrow> bool \<Rightarrow> bytes" where
  "encode_h2c_data crc cmdid ttag data_offset data_length is_last hdgst ddgst =
     encode_data_pdu crc H2C_DATA (if is_last then FLAG_DATA_LAST else 0)
       cmdid ttag data_offset data_length hdgst ddgst"

definition encode_c2h_term :: "pdu_error \<Rightarrow> bytes" where
  "encode_c2h_term e = term_as_bytes \<lparr>
     trm_hdr = common C2H_TERM 0 24 0 24, trm_fes = pe_fes e, trm_fei = pe_fei e,
     trm_rsvd = replicate 10 0\<rparr>"

section \<open>The incremental decoder\<close>

definition decoder_inv :: "pdu_decoder \<Rightarrow> bool" where
  "decoder_inv d \<longleftrightarrow> length (dbuf d) = MAX_HDR \<and>
     (case dstate d of
        Common \<Rightarrow> dhave d < 8 \<and> dneed d = 8
      | Rest \<Rightarrow> 8 \<le> dhave d \<and> dhave d < dneed d \<and> dneed d \<le> MAX_HDR \<and>
          full_header_len d = Inr (dneed d)
      | Complete \<Rightarrow> dhave d = dneed d \<and> 8 \<le> dneed d \<and> dneed d \<le> MAX_HDR \<and>
          full_header_len d = Inr (dneed d))"

lemma header_len_range:
  assumes "header_len hdg bs = Inr n"
  shows "24 \<le> n \<and> n \<le> MAX_HDR"
proof -
  obtain hl dg where lay: "type_layout (ch_pdu_type (ch_of_bytes bs)) = Some (hl, dg)"
    and n: "n = unat hl + (if dg \<and> hdg then 4 else 0)"
    using assms by (auto simp: header_len_def Let_def split: option.splits if_splits)
  from lay have "(hl, dg) \<in> {(128, False), (24, False), (72, True), (24, True)}"
    by (auto simp: type_layout_def split: if_splits)
  with n show ?thesis by (auto simp: MAX_HDR_def)
qed

text \<open>The bytes of the header so far, and the decoder holding a given prefix.\<close>

definition prefix_of :: "pdu_decoder \<Rightarrow> bytes" where
  "prefix_of d = take (dhave d) (dbuf d)"

definition load :: "pdu_decoder \<Rightarrow> bytes \<Rightarrow> pdu_decoder" where
  "load d bs = d\<lparr>dbuf := bs @ drop (length bs) (dbuf d), dhave := length bs\<rparr>"

lemma load_simps [simp]:
  "dhave (load d bs) = length bs" "dneed (load d bs) = dneed d"
  "dstate (load d bs) = dstate d" "hdr_digest (load d bs) = hdr_digest d"
  "dbuf (load d bs) = bs @ drop (length bs) (dbuf d)"
  by (simp_all add: load_def)

lemma copy_in_load:
  "dhave d \<le> length (dbuf d) \<Longrightarrow> copy_in d bs = load d (prefix_of d @ bs)"
  by (simp add: copy_in_def load_def prefix_of_def splice_def min_absorb2)

text \<open>
  What feeding amounts to: with \<open>ys\<close> the bytes of this header received so far, the decoder keeps
  collecting until the common header is in, then until the length it announces is in.
\<close>

definition feed_spec :: "pdu_decoder \<Rightarrow> bytes \<Rightarrow> pdu_error + (pdu_decoder \<times> nat)" where
  "feed_spec d xs =
     (let ys = prefix_of d @ xs in
      case dstate d of
        Complete \<Rightarrow> Inr (d, 0)
      | Rest \<Rightarrow>
          if length ys < dneed d then Inr (load d ys, length xs)
          else Inr ((load d (take (dneed d) ys))\<lparr>dstate := Complete\<rparr>, dneed d - dhave d)
      | Common \<Rightarrow>
          if length ys < 8 then Inr (load d ys, length xs)
          else (case header_len (hdr_digest d) (take 8 ys) of
              Inl e \<Rightarrow> Inl e
            | Inr n \<Rightarrow>
                if length ys < n then Inr ((load d ys)\<lparr>dneed := n, dstate := Rest\<rparr>, length xs)
                else Inr ((load d (take n ys))\<lparr>dneed := n, dstate := Complete\<rparr>, n - dhave d)))"

lemma load_prefix [simp]: "dhave d \<le> length (dbuf d) \<Longrightarrow> load d (prefix_of d) = d"
  by (simp add: load_def prefix_of_def min_absorb2)

lemma length_prefix_of [simp]: "dhave d \<le> length (dbuf d) \<Longrightarrow> length (prefix_of d) = dhave d"
  by (simp add: prefix_of_def min_absorb2)

lemma prefix_of_load [simp]: "prefix_of (load d bs) = bs"
  by (simp add: prefix_of_def)

lemma prefix_of_update [simp]:
  "prefix_of (d\<lparr>dneed := n\<rparr>) = prefix_of d" "prefix_of (d\<lparr>dstate := s\<rparr>) = prefix_of d"
  by (simp_all add: prefix_of_def)

lemma load_load [simp]: "length bs \<le> length cs \<Longrightarrow> load (load d bs) cs = load d cs"
  by (simp add: load_def)

lemma load_update [simp]:
  "load (d\<lparr>dneed := n\<rparr>) bs = (load d bs)\<lparr>dneed := n\<rparr>"
  "load (d\<lparr>dstate := s\<rparr>) bs = (load d bs)\<lparr>dstate := s\<rparr>"
  by (simp_all add: load_def)

lemma feed_loop_Complete: "dstate d = Complete \<Longrightarrow> feed_loop d input c = Inr (d, c)"
  by (subst feed_loop.simps) simp

text \<open>One pass over the input that still wants bytes, in terms of the prefix collected.\<close>

lemma feed_loop_step:
  assumes "dstate d \<noteq> Complete" "dhave d < dneed d" "dneed d \<le> length (dbuf d)"
    and "c \<le> length input" and zs: "zs = prefix_of d @ drop c input"
  shows "feed_loop d input c =
    (if length zs < dneed d then Inr (load d zs, length input)
     else
       let d' = load d (take (dneed d) zs); c' = c + (dneed d - dhave d) in
       if dstate d = Common then
         (case full_header_len d' of
            Inl e \<Rightarrow> Inl e
          | Inr m \<Rightarrow> feed_loop (d'\<lparr>dneed := m, dstate := Rest\<rparr>) input c')
       else Inr (d'\<lparr>dstate := Complete\<rparr>, c'))"
proof (cases "length zs < dneed d")
  case True
  then have n: "min (dneed d - dhave d) (length input - c) = length input - c"
    using assms by simp
  have "feed_loop d input c =
      (if c = length input then Inr (d, c) else Inr (load d zs, length input))"
    using True assms by (subst feed_loop.simps) (auto simp: n copy_in_load slice_def Let_def)
  with True assms show ?thesis by auto
next
  case False
  then have n: "min (dneed d - dhave d) (length input - c) = dneed d - dhave d"
    and tk: "take (dneed d) zs = prefix_of d @ take (dneed d - dhave d) (drop c input)"
    using assms by simp_all
  show ?thesis
    using False assms
    by (subst feed_loop.simps)
      (auto simp: n tk copy_in_load slice_def Let_def feed_loop_Complete split: sum.split)
qed

lemma feed_loop_Rest:
  assumes "dstate d = Rest" "dhave d < dneed d" "dneed d \<le> length (dbuf d)" "c \<le> length input"
  shows "feed_loop d input c =
    (let zs = prefix_of d @ drop c input in
     if length zs < dneed d then Inr (load d zs, length input)
     else Inr ((load d (take (dneed d) zs))\<lparr>dstate := Complete\<rparr>, c + (dneed d - dhave d)))"
  using assms by (subst feed_loop_step [OF _ _ _ _ refl]) (simp_all add: Let_def)

lemma feed_loop_Common:
  assumes "dstate d = Common" "dhave d < 8" "dneed d = 8" "length (dbuf d) = MAX_HDR"
  shows "feed_loop d xs 0 = feed_spec d xs"
proof (cases "length (prefix_of d @ xs) < 8")
  case True
  then show ?thesis
    using assms
    by (subst feed_loop_step [OF _ _ _ _ refl]) (simp_all add: feed_spec_def MAX_HDR_def)
next
  case False
  let ?ys = "prefix_of d @ xs"
  let ?d = "load d (take 8 ?ys)"
  have hl: "full_header_len ?d = header_len (hdr_digest d) (take 8 ?ys)"
    using False by (simp add: full_header_len_def slice_def min_def)
  have step: "feed_loop d xs 0 = (case header_len (hdr_digest d) (take 8 ?ys) of
      Inl e \<Rightarrow> Inl e
    | Inr m \<Rightarrow> feed_loop (?d\<lparr>dneed := m, dstate := Rest\<rparr>) xs (8 - dhave d))"
    using False assms
    by (subst feed_loop_step [OF _ _ _ _ refl]) (simp_all add: Let_def hl MAX_HDR_def del: take_append)
  show ?thesis
  proof (cases "header_len (hdr_digest d) (take 8 ?ys)")
    case (Inl e)
    then show ?thesis using False assms by (simp add: step feed_spec_def)
  next
    case (Inr m)
    have m: "24 \<le> m" "m \<le> MAX_HDR" using header_len_range [OF Inr] by auto
    have cut: "take 8 ?ys @ drop (8 - dhave d) xs = ?ys"
      using assms by (simp add: MAX_HDR_def)
    have len: "length (take 8 ?ys) = 8" using False by simp
    have room: "m \<le> length (take 8 ?ys @ drop 8 (dbuf d))" "8 - dhave d \<le> length xs"
      using False assms m by (simp_all add: MAX_HDR_def min_def)
    have "feed_loop (?d\<lparr>dneed := m, dstate := Rest\<rparr>) xs (8 - dhave d) =
        (if length ?ys < m then Inr ((load d ?ys)\<lparr>dneed := m, dstate := Rest\<rparr>, length xs)
         else Inr ((load d (take m ?ys))\<lparr>dneed := m, dstate := Complete\<rparr>, m - dhave d))"
      using False assms m room
      by (subst feed_loop_Rest) (simp_all add: Let_def cut len MAX_HDR_def del: length_append take_append)
    then show ?thesis using False Inr by (simp add: step feed_spec_def assms)
  qed
qed

lemma pdu_feed_spec: "decoder_inv d \<Longrightarrow> pdu_feed d xs = feed_spec d xs"
  by (cases "dstate d")
    (auto simp: pdu_feed_def decoder_inv_def feed_loop_Common feed_loop_Rest feed_loop_Complete
      feed_spec_def MAX_HDR_def Let_def)

lemma decoder_inv_new: "decoder_inv (pdu_decoder_new hdg)"
  by (simp add: decoder_inv_def pdu_decoder_new_def)

lemma full_header_len_load [simp]:
  "8 \<le> length bs \<Longrightarrow> full_header_len (load d bs) = header_len (hdr_digest d) (take 8 bs)"
  by (simp add: full_header_len_def slice_def)

lemma full_header_len_update [simp]:
  "full_header_len (d\<lparr>dneed := n\<rparr>) = full_header_len d"
  "full_header_len (d\<lparr>dstate := s\<rparr>) = full_header_len d"
  by (simp_all add: full_header_len_def)

lemma decoder_inv_prefix:
  "decoder_inv d \<Longrightarrow> dhave d \<le> length (dbuf d) \<and> length (dbuf d) = MAX_HDR \<and> dhave d \<le> dneed d"
  by (auto simp: decoder_inv_def MAX_HDR_def split: decode_state.splits)

lemma header_len_prefix:
  assumes "decoder_inv d" "dstate d \<noteq> Common"
  shows "header_len (hdr_digest d) (take 8 (prefix_of d)) = Inr (dneed d)"
proof -
  have "8 \<le> dhave d" "full_header_len d = Inr (dneed d)"
    using assms by (auto simp: decoder_inv_def split: decode_state.splits)
  then show ?thesis by (simp add: full_header_len_def prefix_of_def slice_def min_absorb1)
qed

lemma decoder_inv_load_Rest:
  assumes "length (dbuf d) = MAX_HDR" "header_len (hdr_digest d) (take 8 ys) = Inr n"
    "8 \<le> length ys" "length ys < n"
  shows "decoder_inv ((load d ys)\<lparr>dneed := n, dstate := Rest\<rparr>)"
  using assms header_len_range [OF assms(2)]
  by (simp add: decoder_inv_def MAX_HDR_def)

lemma decoder_inv_load_Complete:
  assumes "length (dbuf d) = MAX_HDR" "header_len (hdr_digest d) (take 8 ys) = Inr n"
    "n \<le> length ys"
  shows "decoder_inv ((load d (take n ys))\<lparr>dneed := n, dstate := Complete\<rparr>)"
  using assms header_len_range [OF assms(2)]
  by (simp add: decoder_inv_def MAX_HDR_def min_absorb1 min_absorb2)

lemma dneed_self [simp]: "(load d ys)\<lparr>dneed := dneed d, dstate := s\<rparr> = (load d ys)\<lparr>dstate := s\<rparr>"
  by (simp add: load_def)

text \<open>Feeding keeps the invariant, never consumes more than it is given, and stops short only
  when the header is complete.\<close>

lemma feed_spec_inv:
  assumes inv: "decoder_inv d" and ok: "feed_spec d xs = Inr (d', n)"
  shows "decoder_inv d' \<and> n \<le> length xs \<and> (n < length xs \<longrightarrow> is_complete d')"
proof -
  note p = decoder_inv_prefix [OF inv]
  consider (complete) "dstate d = Complete" | (rest) "dstate d = Rest" | (common) "dstate d = Common"
    by (cases "dstate d") auto
  then show ?thesis
  proof cases
    case complete
    then show ?thesis using inv ok by (auto simp: feed_spec_def is_complete_def)
  next
    case rest
    let ?ys = "prefix_of d @ xs"
    have h: "header_len (hdr_digest d) (take 8 ?ys) = Inr (dneed d)" and 8: "8 \<le> dhave d"
      using header_len_prefix [OF inv] inv rest by (auto simp: decoder_inv_def)
    show ?thesis
    proof (cases "length ?ys < dneed d")
      case True
      then have "d' = (load d ?ys)\<lparr>dneed := dneed d, dstate := Rest\<rparr>" "n = length xs"
        using ok rest by (auto simp: feed_spec_def load_def)
      with True h 8 p show ?thesis
        using decoder_inv_load_Rest [of d ?ys "dneed d"] by auto
    next
      case False
      then have "d' = (load d (take (dneed d) ?ys))\<lparr>dneed := dneed d, dstate := Complete\<rparr>"
        "n = dneed d - dhave d"
        using ok rest by (auto simp: feed_spec_def)
      with False h p show ?thesis
        using decoder_inv_load_Complete [of d ?ys "dneed d"] by (auto simp: is_complete_def)
    qed
  next
    case common
    let ?ys = "prefix_of d @ xs"
    show ?thesis
    proof (cases "length ?ys < 8")
      case True
      then show ?thesis
        using ok common inv p by (auto simp: feed_spec_def decoder_inv_def MAX_HDR_def)
    next
      case False
      then obtain m where h: "header_len (hdr_digest d) (take 8 ?ys) = Inr m"
        using ok common by (auto simp: feed_spec_def Let_def split: sum.splits)
      show ?thesis
        using False h ok common p decoder_inv_load_Rest [of d ?ys m]
          decoder_inv_load_Complete [of d ?ys m] header_len_range [OF h]
        by (auto simp: feed_spec_def Let_def is_complete_def split: if_splits)
    qed
  qed
qed

lemma pdu_feed_inv:
  "decoder_inv d \<Longrightarrow> pdu_feed d xs = Inr (d', n) \<Longrightarrow>
    decoder_inv d' \<and> n \<le> length xs \<and> (n < length xs \<longrightarrow> is_complete d')"
  using feed_spec_inv [of d xs d' n] by (simp add: pdu_feed_spec)

lemma pdu_feed_Complete: "dstate d = Complete \<Longrightarrow> pdu_feed d xs = Inr (d, 0)"
  by (simp add: pdu_feed_def feed_loop_Complete)

lemma pdu_feed_Rest:
  assumes "decoder_inv d" "dstate d = Rest"
  shows "pdu_feed d xs =
    (let ys = prefix_of d @ xs in
     if length ys < dneed d then Inr (load d ys, length xs)
     else Inr ((load d (take (dneed d) ys))\<lparr>dstate := Complete\<rparr>, dneed d - dhave d))"
  using assms by (simp add: pdu_feed_spec feed_spec_def Let_def)

text \<open>
  Fragmentation does not matter: feeding two pieces one after the other, the unconsumed rest of
  the first before the second, is feeding their concatenation.
\<close>

lemma feed_append:
  assumes inv: "decoder_inv d"
  shows "pdu_feed d (a @ b) =
    (case pdu_feed d a of
       Inl e \<Rightarrow> Inl e
     | Inr (d', n) \<Rightarrow> (case pdu_feed d' (drop n a @ b) of
          Inl e \<Rightarrow> Inl e
        | Inr (d'', m) \<Rightarrow> Inr (d'', n + m)))"
proof (cases "pdu_feed d a")
  case (Inl e)
  then show ?thesis
    using inv by (auto simp: pdu_feed_spec feed_spec_def Let_def
        split: decode_state.splits if_splits sum.splits)
next
  case (Inr r)
  obtain d' n where r: "r = (d', n)" by fastforce
  have fa: "pdu_feed d a = Inr (d', n)" using Inr r by simp
  have inv': "decoder_inv d'" using pdu_feed_inv [OF inv fa] by simp
  note p = decoder_inv_prefix [OF inv]
  let ?ys = "prefix_of d @ a"
  consider (common) "dstate d' = Common" | (rest) "dstate d' = Rest" | (complete) "dstate d' = Complete"
    by (cases "dstate d'") auto
  then show ?thesis
  proof cases
    case complete
    then have "pdu_feed d (a @ b) = Inr (d', n)"
      using fa inv p by (auto simp: pdu_feed_spec feed_spec_def Let_def
          split: decode_state.splits if_splits sum.splits)
    then show ?thesis using fa complete by (simp add: pdu_feed_Complete)
  next
    case common
    then have d: "dstate d = Common" "d' = load d ?ys" "n = length a" "length ?ys < 8"
      using fa inv by (auto simp: pdu_feed_spec feed_spec_def Let_def
          split: decode_state.splits if_splits sum.splits)
    have "prefix_of d' = ?ys" "hdr_digest d' = hdr_digest d" "dstate d' = Common"
      using d by simp_all
    then have "feed_spec d' b = (case feed_spec d (a @ b) of Inl e \<Rightarrow> Inl e
        | Inr (e, m) \<Rightarrow> Inr (e, m - n))"
      using d p by (auto simp: feed_spec_def Let_def dest!: header_len_range split: sum.splits)
    moreover have "m \<ge> n" if "feed_spec d (a @ b) = Inr (e, m)" for e m
      using that d p header_len_range
      by (fastforce simp: feed_spec_def Let_def split: sum.splits if_splits)
    ultimately show ?thesis
      using fa d inv inv' by (auto simp: pdu_feed_spec split: sum.splits)
  next
    case rest
    have d: "n = length a" "prefix_of d' = ?ys" "length ?ys < dneed d'" "hdr_digest d' = hdr_digest d"
      using fa inv rest by (auto simp: pdu_feed_spec feed_spec_def Let_def
          split: decode_state.splits if_splits sum.splits)
    show ?thesis
      using fa inv rest d p inv' by (auto simp: pdu_feed_spec feed_spec_def Let_def
          split: decode_state.splits if_splits sum.splits)
  qed
qed

lemma pdu_take_inv:
  "decoder_inv d \<Longrightarrow> pdu_take crc d = Some (r, d') \<Longrightarrow> decoder_inv d'"
  by (auto simp: pdu_take_def Let_def decoder_inv_def split: option.splits sum.splits if_splits)

text \<open>What a validated common header guarantees to \<^verbatim>\<open>take\<close>.\<close>

lemma header_len_valid:
  assumes "header_len hdg bs = Inr n" and "hdr = ch_of_bytes bs"
  obtains hl dg where "type_layout (ch_pdu_type hdr) = Some (hl, dg)" "ucast (ch_hlen hdr) = hl"
    "unat hl + (if dg \<and> hdg then 4 else 0) = n" "n \<le> unat (ch_plen hdr)"
    "ch_flags hdr AND FLAG_DDGST \<noteq> 0 \<longrightarrow> n + 5 \<le> unat (ch_plen hdr)"
proof -
  obtain hl dg where lay: "type_layout (ch_pdu_type hdr) = Some (hl, dg)"
    and hl: "ucast (ch_hlen hdr) = hl" and n: "n = unat hl + (if dg \<and> hdg then 4 else 0)"
    and pl: "\<not> ch_plen hdr < hl + (if dg \<and> hdg then 4 else 0)"
    and dd: "ch_flags hdr AND FLAG_DDGST \<noteq> 0 \<longrightarrow>
      \<not> ch_plen hdr < hl + (if dg \<and> hdg then 4 else 0) + 4 + 1"
    using assms by (auto simp: header_len_def Let_def split: option.splits if_splits)
  have "(hl, dg) \<in> {(128, False), (24, False), (72, True), (24, True)}"
    using lay by (auto simp: type_layout_def split: if_splits)
  then have "unat (hl + (if dg \<and> hdg then 4 else 0)) = n"
    "unat (hl + (if dg \<and> hdg then 4 else 0) + 4 + 1) = n + 5"
    using n by auto
  with pl dd n have "n \<le> unat (ch_plen hdr)"
    "ch_flags hdr AND FLAG_DDGST \<noteq> 0 \<longrightarrow> n + 5 \<le> unat (ch_plen hdr)"
    by (auto simp: word_less_nat_alt not_less)
  with lay hl n that show thesis by blast
qed

lemma type_layout_digestable:
  "type_layout t = Some (hl, dg) \<Longrightarrow>
    dg \<longleftrightarrow> digestable_type t"
  by (auto simp: type_layout_def digestable_type_def split: if_splits)

lemma decode_kind_defined: "type_layout (ch_pdu_type hdr) \<noteq> None \<Longrightarrow> decode_kind hdr n buf \<noteq> None"
  by (auto simp: type_layout_def decode_kind_def Let_def split: if_splits)

lemma unat_header_wire:
  assumes "type_layout t = Some (hl, dg)"
  shows "unat (hl + (if b then 4 else 0)) = unat hl + (if b then 4 else 0)"
proof -
  have "(hl, dg) \<in> {(128, False), (24, False), (72, True), (24, True)}"
    using assms by (auto simp: type_layout_def split: if_splits)
  then show ?thesis by auto
qed

lemma pdu_take_no_panic:
  assumes inv: "decoder_inv d" and c: "is_complete d"
  shows "pdu_take crc d \<noteq> None"
proof -
  let ?hdr = "ch_of_bytes (slice 0 8 (dbuf d))"
  have "header_len (hdr_digest d) (slice 0 8 (dbuf d)) = Inr (dneed d)"
    using inv c by (simp add: decoder_inv_def is_complete_def full_header_len_def)
  then obtain hl dg where lay: "type_layout (ch_pdu_type ?hdr) = Some (hl, dg)"
    and hl: "ucast (ch_hlen ?hdr) = hl"
    and n: "unat hl + (if dg \<and> hdr_digest d then 4 else 0) = dneed d"
    and p: "dneed d \<le> unat (ch_plen ?hdr)"
    and dd: "ch_flags ?hdr AND FLAG_DDGST \<noteq> 0 \<longrightarrow> dneed d + 5 \<le> unat (ch_plen ?hdr)"
    by (rule header_len_valid) simp
  have dg: "dg \<longleftrightarrow> digestable_type (ch_pdu_type ?hdr)"
    by (rule type_layout_digestable [OF lay])
  have room: "unat (hl + (if dg \<and> hdr_digest d then 4 else 0)) +
      unat ((if dg \<and> ch_flags ?hdr AND FLAG_DDGST \<noteq> 0 then 4 else 0) :: u32)
      \<le> unat (ch_plen ?hdr)"
    unfolding unat_header_wire [OF lay] using n p dd by auto
  have kind: "decode_kind ?hdr m (dbuf d) \<noteq> None" for m
    using decode_kind_defined [of ?hdr m "dbuf d"] lay by simp
  show ?thesis
    unfolding pdu_take_def Let_def hl dg [symmetric]
    using c room by (simp add: not_less kind split: option.split sum.split)
qed

section \<open>Decoding what was encoded\<close>

text \<open>
  One step of a reader: feed the decoder and take the header when it is complete. The result is a
  panic (\<open>None\<close>), a protocol error, or the number of bytes consumed, the header if there is one,
  and the decoder.
\<close>

definition decode_step ::
  "(bytes \<Rightarrow> u32) \<Rightarrow> pdu_decoder \<Rightarrow> bytes \<Rightarrow>
   (pdu_error + (nat \<times> decoded_pdu option \<times> pdu_decoder)) option" where
  "decode_step crc d xs =
     (case pdu_feed d xs of
        Inl e \<Rightarrow> Some (Inl e)
      | Inr (d', n) \<Rightarrow>
          if \<not> is_complete d' then Some (Inr (n, None, d'))
          else (case pdu_take crc d' of
              None \<Rightarrow> None
            | Some (Inl e, _) \<Rightarrow> Some (Inl e)
            | Some (Inr p, d'') \<Rightarrow> Some (Inr (n, Some p, d''))))"

definition at_rest :: "bool \<Rightarrow> pdu_decoder \<Rightarrow> bool" where
  "at_rest hdg d \<longleftrightarrow> decoder_inv d \<and> hdr_digest d = hdg \<and> dstate d = Common \<and> dhave d = 0"

lemma at_rest_new: "at_rest hdg (pdu_decoder_new hdg)"
  using decoder_inv_new [of hdg] by (simp add: at_rest_def pdu_decoder_new_def)

lemma decode_step_no_panic:
  assumes "decoder_inv d"
  shows "decode_step crc d xs \<noteq> None"
proof -
  have "pdu_take crc d' \<noteq> None" if "pdu_feed d xs = Inr (d', n)" "is_complete d'" for d' n
    using pdu_feed_inv [OF assms that(1)] that(2) by (simp add: pdu_take_no_panic)
  then show ?thesis
    by (fastforce simp: decode_step_def split: sum.splits option.splits prod.splits if_splits)
qed

lemma feed_at_rest:
  assumes "at_rest hdg d" "header_len hdg (take 8 e) = Inr (length e)"
  shows "pdu_feed d (e @ rest) =
    Inr ((load d e)\<lparr>dneed := length e, dstate := Complete\<rparr>, length e)"
proof -
  have "24 \<le> length e" using header_len_range [OF assms(2)] by simp
  then show ?thesis
    using assms by (simp add: at_rest_def pdu_feed_spec feed_spec_def prefix_of_def)
qed

lemma length_ch_as_bytes [simp]: "length (ch_as_bytes h) = 8"
  by (simp add: ch_as_bytes_def)

lemma ch_roundtrip [wire]: "ch_of_bytes (ch_as_bytes h) = h"
  by (simp add: ch_of_bytes_def ch_as_bytes_def wire)

text \<open>
  The general round trip: an encoded header that starts with a valid common header, carries the
  digest the connection negotiated and has no padding is decoded to its typed view, the decoder is
  at rest again, and exactly its bytes are consumed.
\<close>

lemma decode_step_encoded:
  fixes crc h body d
  defines "t \<equiv> ch_pdu_type h"
  defines "hdgst \<equiv> digestable_type t \<and> hdr_digest d"
  defines "e \<equiv> ch_as_bytes h @ body @ (if hdgst then le_bytes 4 (crc (ch_as_bytes h @ body)) else [])"
  defines "ddgst \<equiv> digestable_type t \<and> ch_flags h AND FLAG_DDGST \<noteq> 0"
  defines "header_wire \<equiv> ucast (ch_hlen h) + (if hdgst then 4 else 0)"
  defines "data_len \<equiv> ch_plen h - header_wire - (if ddgst then 4 else 0)"
  assumes rest: "at_rest hdg d"
    and len: "header_len hdg (ch_as_bytes h) = Inr (length e)"
    and hl: "length body + 8 = unat (ch_hlen h)"
    and pdo: "ch_pdo h = 0 \<or> ucast (ch_pdo h) = header_wire"
    and kind: "\<And>pad. decode_kind h data_len (e @ pad) = Some (Inr k)"
  shows "\<exists>d'. at_rest hdg d' \<and> decode_step crc d (e @ stream) =
    Some (Inr (length e, Some \<lparr>pdu_kind = k, pdu_data_len = data_len, pdu_ddgst = ddgst\<rparr>, d'))"
proof -
  let ?d = "(load d e)\<lparr>dneed := length e, dstate := Complete\<rparr>"
  let ?d' = "?d\<lparr>dhave := 0, dneed := 8, dstate := Common\<rparr>"
  have tk: "take 8 e = ch_as_bytes h" by (simp add: e_def)
  have feed: "pdu_feed d (e @ stream) = Inr (?d, length e)"
    using feed_at_rest [OF rest, of e stream] len tk by simp
  have inv: "decoder_inv ?d"
    using pdu_feed_inv [OF _ feed] rest by (simp add: at_rest_def)
  have buf: "dbuf ?d = e @ drop (length e) (dbuf d)" by simp
  have s8: "slice 0 8 (dbuf ?d) = ch_as_bytes h"
    unfolding buf by (simp add: e_def wire)
  have hdr: "slice 0 (unat (ch_hlen h)) (dbuf ?d) = ch_as_bytes h @ body"
    unfolding buf e_def hl [symmetric] by (simp add: slice_def)
  have dig: "hdgst \<Longrightarrow> slice (unat (ch_hlen h)) 4 (dbuf ?d) = le_bytes 4 (crc (ch_as_bytes h @ body))"
    unfolding buf e_def hl [symmetric] by (simp add: slice_def)
  have hd: "hdr_digest ?d = hdr_digest d" by simp
  obtain hl' dg where lay: "type_layout t = Some (hl', dg)" and ch: "ucast (ch_hlen h) = hl'"
    and n: "unat hl' + (if dg \<and> hdg then 4 else 0) = length e" and p: "length e \<le> unat (ch_plen h)"
    and dd: "ch_flags h AND FLAG_DDGST \<noteq> 0 \<longrightarrow> length e + 5 \<le> unat (ch_plen h)"
    using len by (rule header_len_valid) (simp_all add: ch_roundtrip t_def)
  have dg: "dg \<longleftrightarrow> digestable_type t"
    by (rule type_layout_digestable [OF lay])
  have room: "unat header_wire + unat ((if ddgst then 4 else 0) :: u32) \<le> unat (ch_plen h)"
    unfolding header_wire_def ch unat_header_wire [OF lay]
    using n p dd dg rest by (auto simp: hdgst_def at_rest_def ddgst_def)
  have "pdu_take crc ?d = Some (Inr \<lparr>pdu_kind = k, pdu_data_len = data_len, pdu_ddgst = ddgst\<rparr>, ?d')"
    unfolding pdu_take_def Let_def s8 ch_roundtrip hdr hd t_def [symmetric]
    unfolding hdgst_def [symmetric] ddgst_def [symmetric]
    unfolding header_wire_def [symmetric]
    unfolding data_len_def [symmetric]
    using dig room pdo kind by (auto simp: is_complete_def le_word_le_bytes)
  moreover have "at_rest hdg ?d'"
    using pdu_take_inv [OF inv calculation] rest by (simp add: at_rest_def)
  ultimately show ?thesis
    by (auto simp: decode_step_def feed is_complete_def)
qed

lemmas header_eval = header_len_def ch_roundtrip common_def type_layout_def MAX_PLEN_def Let_def

lemma capsule_resp_roundtrip:
  assumes "at_rest hdgst d"
  shows "\<exists>d'. at_rest hdgst d' \<and> decode_step crc d (encode_capsule_resp crc c hdgst @ stream) =
    Some (Inr (length (encode_capsule_resp crc c hdgst),
      Some \<lparr>pdu_kind = CapsuleResp c, pdu_data_len = 0, pdu_ddgst = False\<rparr>, d'))"
proof -
  let ?h = "common CAPSULE_RESP (if hdgst then FLAG_HDGST else 0) 24 0 (24 + (if hdgst then 4 else 0))"
  have hd: "hdr_digest d = hdgst" using assms by (simp add: at_rest_def)
  have kind: "decode_kind ?h m (ch_as_bytes ?h @ cqe_as_bytes c @ pad) =
      Some (Inr (CapsuleResp c))" for m pad
    by (simp add: decode_kind_def common_def capsule_cqe_of_bytes_def slice_slice wire)
  show ?thesis
    using decode_step_encoded [where h = ?h and body = "cqe_as_bytes c" and d = d and crc = crc
        and hdg = hdgst and k = "CapsuleResp c" and stream = stream] assms kind
    by (cases hdgst)
      (simp_all add: encode_capsule_resp_def put_hdgst_def hd digestable_type_def header_eval)
qed

lemma r2t_roundtrip:
  assumes "at_rest hdgst d"
  shows "\<exists>d'. at_rest hdgst d' \<and> decode_step crc d (encode_r2t crc c tt off len hdgst @ stream) =
    Some (Inr (length (encode_r2t crc c tt off len hdgst),
      Some \<lparr>pdu_kind = R2T c tt off len, pdu_data_len = 0, pdu_ddgst = False\<rparr>, d'))"
proof -
  let ?h = "common R2T_TYPE (if hdgst then FLAG_HDGST else 0) 24 0 (24 + (if hdgst then 4 else 0))"
  let ?b = "le_bytes 2 c @ le_bytes 2 tt @ le_bytes 4 off @ le_bytes 4 len @ replicate 4 0"
  have hd: "hdr_digest d = hdgst" using assms by (simp add: at_rest_def)
  have kind: "decode_kind ?h m (ch_as_bytes ?h @ ?b @ pad) = Some (Inr (R2T c tt off len))"
    for m pad
    by (simp add: decode_kind_def common_def data_of_bytes_def slice_slice wire)
  show ?thesis
    using decode_step_encoded [where h = ?h and body = ?b and d = d and crc = crc
        and hdg = hdgst and k = "R2T c tt off len" and stream = stream] assms kind
    by (cases hdgst)
      (simp_all add: encode_r2t_def data_as_bytes_def put_hdgst_def hd digestable_type_def header_eval)
qed

text \<open>The digest flags are or-ed into flags that have none of them.\<close>

lemma data_flags:
  fixes fl :: u8 and h g :: bool
  defines "fl' \<equiv> fl OR (if h then 1 else 0) OR (if g then 2 else 0)"
  assumes "fl AND 1 = 0" "fl AND 2 = 0"
  shows "fl' AND 1 \<noteq> 0 \<longleftrightarrow> h" "fl' AND 2 \<noteq> 0 \<longleftrightarrow> g" "fl' AND 4 = fl AND 4" "fl' AND 8 = fl AND 8"
  unfolding fl'_def using assms by (cases h; cases g; simp add: bit.conj_disj_distrib2)+

lemma data_plen_bounds:
  fixes plen hw dlen :: u32
  assumes "unat plen = unat hw + unat dlen + (if ddgst then 4 else 0)"
    and "unat hw = 24 + (if hdgst then 4 else 0)"
    and "unat dlen + 32 \<le> 32 * 1024 * 1024" and "ddgst \<longrightarrow> 0 < dlen"
  shows "\<not> plen < hw \<and> \<not> 32 * 1024 * 1024 < plen \<and> (ddgst \<longrightarrow> \<not> plen < hw + 4 + 1)"
  using assms by (auto simp: word_less_nat_alt unat_word_ariths)

lemma header_len_data:
  assumes "t = H2C_DATA \<or> t = C2H_DATA" "fl AND FLAG_HDGST \<noteq> 0 \<longleftrightarrow> hdg"
    and "\<not> plen < 24 + (if hdg then 4 else 0)" "\<not> MAX_PLEN < plen"
    and "fl AND FLAG_DDGST \<noteq> 0 \<longrightarrow> \<not> plen < 24 + (if hdg then 4 else 0) + 4 + 1"
  shows "header_len hdg (ch_as_bytes (common t fl 24 pdo plen)) = Inr (24 + (if hdg then 4 else 0))"
  using assms
  by (cases hdg; elim disjE) (simp_all add: header_len_def Let_def ch_roundtrip common_def type_layout_def, blast+)

lemma data_pdu_roundtrip:
  fixes c tt off fl t dlen
  assumes rest: "at_rest hdgst d" and t: "t = H2C_DATA \<or> t = C2H_DATA"
    and fl: "fl AND FLAG_HDGST = 0" "fl AND FLAG_DDGST = 0"
    and dl: "unat dlen + 32 \<le> 32 * 1024 * 1024" and dd: "ddgst \<longrightarrow> 0 < dlen"
  defines "k \<equiv> (if t = H2C_DATA then H2CData c tt off dlen (fl AND FLAG_DATA_LAST \<noteq> 0)
    else C2HData c off dlen (fl AND FLAG_DATA_LAST \<noteq> 0) (fl AND FLAG_DATA_SUCCESS \<noteq> 0))"
  shows "\<exists>d'. at_rest hdgst d' \<and>
    decode_step crc d (encode_data_pdu crc t fl c tt off dlen hdgst ddgst @ stream) =
    Some (Inr (length (encode_data_pdu crc t fl c tt off dlen hdgst ddgst),
      Some \<lparr>pdu_kind = k, pdu_data_len = dlen, pdu_ddgst = ddgst\<rparr>, d'))"
proof -
  define fl' where "fl' = fl OR (if hdgst then FLAG_HDGST else 0) OR (if ddgst then FLAG_DDGST else 0)"
  define hw where "hw = (24 + (if hdgst then 4 else 0) :: u32)"
  define plen where "plen = hw + dlen + (if ddgst then 4 else 0)"
  let ?h = "common t fl' 24 (ucast hw) plen"
  let ?b = "le_bytes 2 c @ le_bytes 2 tt @ le_bytes 4 off @ le_bytes 4 dlen @ replicate 4 0"
  let ?e = "ch_as_bytes ?h @ ?b @ (if hdgst then le_bytes 4 (crc (ch_as_bytes ?h @ ?b)) else [])"
  have hd: "hdr_digest d = hdgst" using rest by (simp add: at_rest_def)
  have enc: "encode_data_pdu crc t fl c tt off dlen hdgst ddgst = ?e"
    by (simp add: encode_data_pdu_def data_as_bytes_def put_hdgst_def fl'_def hw_def plen_def)
  have flags: "fl' AND 1 \<noteq> 0 \<longleftrightarrow> hdgst" "fl' AND 2 \<noteq> 0 \<longleftrightarrow> ddgst"
      "fl' AND 4 = fl AND 4" "fl' AND 8 = fl AND 8"
    unfolding fl'_def using data_flags [OF fl] by blast+
  have pl: "unat plen = unat hw + unat dlen + (if ddgst then 4 else 0)"
    using dl by (auto simp: plen_def hw_def unat_word_ariths)
  have hw: "unat hw = 24 + (if hdgst then 4 else 0)" "ucast (ucast hw :: u8) = hw"
    by (simp_all add: hw_def)
  have "\<not> plen < hw" "\<not> MAX_PLEN < plen" "ddgst \<longrightarrow> \<not> plen < hw + 4 + 1"
    using data_plen_bounds [OF pl hw(1) dl dd] by (simp_all add: MAX_PLEN_def)
  then have len: "header_len hdgst (ch_as_bytes ?h) = Inr (length ?e)"
    using header_len_data [OF t flags(1), of plen] flags(2) by (simp add: hw_def)
  have kind: "decode_kind ?h dlen (ch_as_bytes ?h @ ?b @ pad) = Some (Inr k)" for pad
    using t flags by (auto simp: decode_kind_def common_def data_of_bytes_def slice_slice k_def wire)
  have dlen: "plen - hw - (if ddgst then 4 else 0) = dlen" by (simp add: plen_def)
  have dig: "digestable_type t = True" using t by (auto simp: digestable_type_def)
  have hwd: "ucast (24 :: u8) + (if hdgst then 4 else 0) = hw" by (simp add: hw_def)
  have ht: "ch_pdu_type ?h = t" "ch_flags ?h = fl'" "ch_hlen ?h = 24" "ch_pdo ?h = ucast hw"
    "ch_plen ?h = plen"
    by (simp_all add: common_def)
  have "\<exists>d'. at_rest hdgst d' \<and> decode_step crc d (?e @ stream) = Some (Inr (length ?e,
      Some \<lparr>pdu_kind = k, pdu_data_len = plen - hw - (if ddgst then 4 else 0), pdu_ddgst = ddgst\<rparr>, d'))"
    using decode_step_encoded [where h = ?h and body = ?b and d = d and crc = crc
        and hdg = hdgst and k = k and stream = stream, unfolded ht hd flags(2) dig simp_thms hwd dlen]
      rest len kind hw(2) dlen
    by simp
  then show ?thesis unfolding enc dlen .
qed

lemma header_len_capsule_cmd:
  assumes "fl AND FLAG_HDGST \<noteq> 0 \<longleftrightarrow> hdg"
    and "\<not> plen < 72 + (if hdg then 4 else 0)" "\<not> MAX_PLEN < plen"
    and "fl AND FLAG_DDGST \<noteq> 0 \<longrightarrow> \<not> plen < 72 + (if hdg then 4 else 0) + 4 + 1"
  shows "header_len hdg (ch_as_bytes (common CAPSULE_CMD fl 72 pdo plen)) =
    Inr (72 + (if hdg then 4 else 0))"
  using assms
  by (cases hdg) (simp_all add: header_len_def Let_def ch_roundtrip common_def type_layout_def, blast+)

lemma capsule_plen_bounds:
  fixes plen hw dlen :: u32
  assumes "unat plen = unat hw + unat dlen + (if dd then 4 else 0)"
    and "unat hw = 72 + (if hdgst then 4 else 0)"
    and "unat dlen + 80 \<le> 32 * 1024 * 1024" and "dd \<longrightarrow> 0 < dlen"
  shows "\<not> plen < hw \<and> \<not> 32 * 1024 * 1024 < plen \<and> (dd \<longrightarrow> \<not> plen < hw + 4 + 1)"
  using assms by (auto simp: word_less_nat_alt unat_word_ariths)

lemma capsule_cmd_roundtrip:
  fixes s dlen
  assumes rest: "at_rest hdgst d" and wf: "sqe_wf s"
    and dl: "unat dlen + 80 \<le> 32 * 1024 * 1024"
  shows "\<exists>d'. at_rest hdgst d' \<and>
    decode_step crc d (encode_capsule_cmd crc s hdgst dlen ddgst @ stream) =
    Some (Inr (length (encode_capsule_cmd crc s hdgst dlen ddgst),
      Some \<lparr>pdu_kind = CapsuleCmd s, pdu_data_len = dlen, pdu_ddgst = (ddgst \<and> 0 < dlen)\<rparr>, d'))"
proof -
  define dd where "dd \<longleftrightarrow> ddgst \<and> 0 < dlen"
  define fl where "fl = (0 :: u8) OR (if hdgst then FLAG_HDGST else 0) OR (if dd then FLAG_DDGST else 0)"
  define hw where "hw = (72 + (if hdgst then 4 else 0) :: u32)"
  define plen where "plen = hw + dlen + (if dd then 4 else 0)"
  define pdo where "pdo = (ucast (if 0 < dlen then hw else 0) :: u8)"
  let ?h = "common CAPSULE_CMD fl 72 pdo plen"
  let ?b = "sqe_as_bytes s"
  let ?e = "ch_as_bytes ?h @ ?b @ (if hdgst then le_bytes 4 (crc (ch_as_bytes ?h @ ?b)) else [])"
  have hd: "hdr_digest d = hdgst" using rest by (simp add: at_rest_def)
  have enc: "encode_capsule_cmd crc s hdgst dlen ddgst = ?e"
    by (simp add: encode_capsule_cmd_def put_hdgst_def dd_def fl_def hw_def plen_def pdo_def Let_def)
  have flags: "fl AND 1 \<noteq> 0 \<longleftrightarrow> hdgst" "fl AND 2 \<noteq> 0 \<longleftrightarrow> dd"
    unfolding fl_def using data_flags [of 0 hdgst dd] by simp_all
  have pl: "unat plen = unat hw + unat dlen + (if dd then 4 else 0)"
    using dl by (auto simp: plen_def hw_def unat_word_ariths)
  have hw: "unat hw = 72 + (if hdgst then 4 else 0)" "ucast (ucast hw :: u8) = hw"
    by (simp_all add: hw_def)
  have "\<not> plen < hw" "\<not> MAX_PLEN < plen" "dd \<longrightarrow> \<not> plen < hw + 4 + 1"
    using capsule_plen_bounds [OF pl hw(1) dl] by (simp_all add: MAX_PLEN_def dd_def)
  then have len: "header_len hdgst (ch_as_bytes ?h) = Inr (length ?e)"
    using header_len_capsule_cmd [OF flags(1), of plen] flags(2) wf by (simp add: hw_def)
  have kind: "decode_kind ?h dlen (ch_as_bytes ?h @ ?b @ pad) = Some (Inr (CapsuleCmd s))" for pad
    using wf by (simp add: decode_kind_def common_def capsule_sqe_of_bytes_def slice_slice wire)
  have dlen: "plen - hw - (if dd then 4 else 0) = dlen" by (simp add: plen_def)
  have dig: "digestable_type CAPSULE_CMD = True" by (simp add: digestable_type_def)
  have hwd: "ucast (72 :: u8) + (if hdgst then 4 else 0) = hw" by (simp add: hw_def)
  have ht: "ch_pdu_type ?h = CAPSULE_CMD" "ch_flags ?h = fl" "ch_hlen ?h = 72" "ch_pdo ?h = pdo"
    "ch_plen ?h = plen"
    by (simp_all add: common_def)
  have pdo: "pdo = 0 \<or> ucast pdo = hw" using hw(2) by (simp add: pdo_def)
  have "\<exists>d'. at_rest hdgst d' \<and> decode_step crc d (?e @ stream) = Some (Inr (length ?e,
      Some \<lparr>pdu_kind = CapsuleCmd s, pdu_data_len = dlen, pdu_ddgst = dd\<rparr>, d'))"
    using decode_step_encoded [where h = ?h and body = ?b and d = d and crc = crc
        and hdg = hdgst and k = "CapsuleCmd s" and stream = stream,
        unfolded ht hd flags(2) dig simp_thms hwd dlen] rest len kind pdo wf
    by simp
  then show ?thesis unfolding enc dd_def .
qed

lemma icreq_roundtrip:
  assumes "at_rest hdg d"
  shows "\<exists>d'. at_rest hdg d' \<and> decode_step crc d (encode_icreq hdgst ddgst maxr2t @ stream) =
    Some (Inr (128, Some \<lparr>pdu_kind = IcReq \<lparr>icq_hdr = common ICREQ 0 128 0 128, icq_pfv = PFV_1_0,
        icq_hpda = 0, icq_digest = digest_bits hdgst ddgst, icq_maxr2t = maxr2t,
        icq_rsvd = replicate 112 0\<rparr>, pdu_data_len = 0, pdu_ddgst = False\<rparr>, d'))"
proof -
  let ?h = "common ICREQ 0 128 0 128"
  let ?b = "le_bytes 2 PFV_1_0 @ [0] @ [digest_bits hdgst ddgst] @ le_bytes 4 maxr2t @ replicate 112 0"
  let ?k = "IcReq \<lparr>icq_hdr = ?h, icq_pfv = PFV_1_0, icq_hpda = 0,
        icq_digest = digest_bits hdgst ddgst, icq_maxr2t = maxr2t, icq_rsvd = replicate 112 0\<rparr>"
  have kind: "decode_kind ?h m (ch_as_bytes ?h @ ?b @ pad) = Some (Inr ?k)" for m pad
    by (simp add: decode_kind_def common_def icreq_of_bytes_def slice_slice wire)
  show ?thesis
    using decode_step_encoded [where h = ?h and body = ?b and d = d and crc = crc
        and hdg = hdg and k = ?k and stream = stream] assms kind
    by (simp add: encode_icreq_def icreq_as_bytes_def digestable_type_def header_eval)
qed

lemma icresp_roundtrip:
  assumes "at_rest hdg d"
  shows "\<exists>d'. at_rest hdg d' \<and> decode_step crc d (encode_icresp hdgst ddgst maxdata @ stream) =
    Some (Inr (128, Some \<lparr>pdu_kind = IcResp \<lparr>icr_hdr = common ICRESP 0 128 0 128, icr_pfv = PFV_1_0,
        icr_cpda = 0, icr_digest = digest_bits hdgst ddgst, icr_maxdata = maxdata,
        icr_rsvd = replicate 112 0\<rparr>, pdu_data_len = 0, pdu_ddgst = False\<rparr>, d'))"
proof -
  let ?h = "common ICRESP 0 128 0 128"
  let ?b = "le_bytes 2 PFV_1_0 @ [0] @ [digest_bits hdgst ddgst] @ le_bytes 4 maxdata @ replicate 112 0"
  let ?k = "IcResp \<lparr>icr_hdr = ?h, icr_pfv = PFV_1_0, icr_cpda = 0,
        icr_digest = digest_bits hdgst ddgst, icr_maxdata = maxdata, icr_rsvd = replicate 112 0\<rparr>"
  have kind: "decode_kind ?h m (ch_as_bytes ?h @ ?b @ pad) = Some (Inr ?k)" for m pad
    by (simp add: decode_kind_def common_def icresp_of_bytes_def slice_slice wire)
  show ?thesis
    using decode_step_encoded [where h = ?h and body = ?b and d = d and crc = crc
        and hdg = hdg and k = ?k and stream = stream] assms kind
    by (simp add: encode_icresp_def icresp_as_bytes_def digestable_type_def header_eval)
qed

lemma c2h_term_roundtrip:
  assumes "at_rest hdg d"
  shows "\<exists>d'. at_rest hdg d' \<and> decode_step crc d (encode_c2h_term e @ stream) =
    Some (Inr (24, Some \<lparr>pdu_kind = H2CTerm (pe_fes e) (pe_fei e), pdu_data_len = 0,
      pdu_ddgst = False\<rparr>, d'))"
proof -
  let ?h = "common C2H_TERM 0 24 0 24"
  let ?b = "le_bytes 2 (pe_fes e) @ le_bytes 4 (pe_fei e) @ replicate 10 0"
  let ?k = "H2CTerm (pe_fes e) (pe_fei e)"
  have kind: "decode_kind ?h m (ch_as_bytes ?h @ ?b @ pad) = Some (Inr ?k)" for m pad
    by (simp add: decode_kind_def common_def term_of_bytes_def slice_slice wire)
  show ?thesis
    using decode_step_encoded [where h = ?h and body = ?b and d = d and crc = crc
        and hdg = hdg and k = ?k and stream = stream] assms kind
    by (simp add: encode_c2h_term_def term_as_bytes_def digestable_type_def header_eval)
qed

section \<open>Properties\<close>

text \<open>Progress: a decoder that is still collecting consumes input whenever there is some.\<close>

lemma pdu_feed_progress:
  assumes "decoder_inv d" "\<not> is_complete d" "xs \<noteq> []" "pdu_feed d xs = Inr (d', n)"
  shows "0 < n"
  using assms
  by (auto simp: pdu_feed_spec feed_spec_def Let_def decoder_inv_def is_complete_def
      dest!: header_len_range split: decode_state.splits if_splits sum.splits)

lemma decode_step_cases:
  assumes inv: "decoder_inv d" and nc: "\<not> is_complete d"
    and r: "decode_step crc d xs = Some (Inr (n, p, d'))"
  shows "decoder_inv d' \<and> \<not> is_complete d' \<and> n \<le> length xs \<and> (xs \<noteq> [] \<longrightarrow> 0 < n) \<and>
    (p = None \<longrightarrow> n = length xs)"
proof -
  obtain e where f: "pdu_feed d xs = Inr (e, n)"
    using r by (auto simp: decode_step_def split: sum.splits option.splits prod.splits if_splits)
  note fi = pdu_feed_inv [OF inv f]
  show ?thesis
  proof (cases "is_complete e")
    case True
    then obtain q where t: "pdu_take crc e = Some (Inr q, d')" and p: "p = Some q"
      using r f by (auto simp: decode_step_def split: sum.splits option.splits prod.splits)
    have "decoder_inv d'" using pdu_take_inv t fi by blast
    moreover have "\<not> is_complete d'"
      using t by (auto simp: pdu_take_def Let_def is_complete_def split: option.splits sum.splits if_splits)
    ultimately show ?thesis using fi p pdu_feed_progress [OF inv nc _ f] by simp
  next
    case False
    then have "d' = e" "p = None" using r f by (auto simp: decode_step_def)
    then show ?thesis using fi False pdu_feed_progress [OF inv nc _ f] by auto
  qed
qed

text \<open>C1. The header decoder does not depend on how the byte stream is cut: feeding a prefix, then
  its unconsumed rest followed by more bytes, gives the same decoder, the same error and the same
  number of consumed bytes as feeding everything at once.\<close>

theorem pdu_feed_fragmentation:
  assumes "decoder_inv d"
  shows "pdu_feed d (a @ b) =
    (case pdu_feed d a of
       Inl e \<Rightarrow> Inl e
     | Inr (d', n) \<Rightarrow> (case pdu_feed d' (drop n a @ b) of
          Inl e \<Rightarrow> Inl e
        | Inr (d'', m) \<Rightarrow> Inr (d'', n + m)))"
  using assms by (rule feed_append)

theorem pdu_feed_fragmentation_witness:
  "decoder_inv (pdu_decoder_new True) \<and>
   pdu_feed (pdu_decoder_new True) ([4, 1, 72] @ [0, 76, 0, 0, 0, 6]) =
    (case pdu_feed (pdu_decoder_new True) [4, 1, 72] of
       Inl e \<Rightarrow> Inl e
     | Inr (d', n) \<Rightarrow> (case pdu_feed d' (drop n [4, 1, 72] @ [0, 76, 0, 0, 0, 6]) of
          Inl e \<Rightarrow> Inl e
        | Inr (d'', m) \<Rightarrow> Inr (d'', n + m)))"
  using pdu_feed_fragmentation [OF decoder_inv_new [of True], of "[4, 1, 72]" "[0, 76, 0, 0, 0, 6]"]
    decoder_inv_new [of True]
  by (rule_tac conjI)

text \<open>C12. Decoding arbitrary bytes is safe: from a decoder that is collecting a header, no input
  makes the source panic (no out-of-range index, no length underflow, no unreachable arm); a step
  that succeeds keeps the decoder's invariant, consumes at least one byte of a non-empty input and
  never more than the input, and consumes all of it unless a header was completed.\<close>

theorem decode_step_safe:
  assumes "decoder_inv d" "\<not> is_complete d"
  shows "decode_step crc d xs \<noteq> None \<and>
    (\<forall>n p d'. decode_step crc d xs = Some (Inr (n, p, d')) \<longrightarrow>
      decoder_inv d' \<and> \<not> is_complete d' \<and> n \<le> length xs \<and> (xs \<noteq> [] \<longrightarrow> 0 < n) \<and>
      (p = None \<longrightarrow> n = length xs))"
  using decode_step_no_panic [OF assms(1)] decode_step_cases [OF assms] by blast

theorem decode_step_safe_witness:
  "decoder_inv (pdu_decoder_new False) \<and> \<not> is_complete (pdu_decoder_new False) \<and>
   decode_step (\<lambda>_. 0) (pdu_decoder_new False) [9, 0, 24, 0, 24, 0, 0, 0, 7] \<noteq> None"
proof -
  have n: "\<not> is_complete (pdu_decoder_new False)"
    by (simp add: is_complete_def pdu_decoder_new_def)
  show ?thesis
    using decode_step_safe [OF decoder_inv_new [of False] n,
        of "\<lambda>_. 0" "[9, 0, 24, 0, 24, 0, 0, 0, 7]"] n decoder_inv_new [of False]
    by blast
qed

text \<open>C13. Every PDU a host sends is decoded to what it encodes, with the header bytes consumed
  exactly and the decoder ready for the next header: the command capsule with its in-capsule data
  length, the H2CData header, and the ICReq, on a connection with or without header digests.\<close>

theorem host_pdus_roundtrip:
  assumes rest: "at_rest hdgst d" and wf: "sqe_wf s"
    and cl: "unat clen + 80 \<le> 32 * 1024 * 1024"
    and dl: "unat dlen + 32 \<le> 32 * 1024 * 1024" "0 < dlen"
  shows
   "(\<exists>d'. at_rest hdgst d' \<and>
      decode_step crc d (encode_capsule_cmd crc s hdgst clen ddgst @ stream) =
      Some (Inr (length (encode_capsule_cmd crc s hdgst clen ddgst), Some
        \<lparr>pdu_kind = CapsuleCmd s, pdu_data_len = clen, pdu_ddgst = (ddgst \<and> 0 < clen)\<rparr>, d'))) \<and>
    (\<exists>d'. at_rest hdgst d' \<and>
      decode_step crc d (encode_h2c_data crc c tt off dlen is_last hdgst ddgst @ stream) =
      Some (Inr (length (encode_h2c_data crc c tt off dlen is_last hdgst ddgst), Some
        \<lparr>pdu_kind = H2CData c tt off dlen is_last, pdu_data_len = dlen, pdu_ddgst = ddgst\<rparr>, d'))) \<and>
    (\<exists>d'. at_rest hdgst d' \<and>
      decode_step crc d (encode_icreq hdg2 ddg2 maxr2t @ stream) =
      Some (Inr (128, Some \<lparr>pdu_kind = IcReq \<lparr>icq_hdr = common ICREQ 0 128 0 128, icq_pfv = PFV_1_0,
        icq_hpda = 0, icq_digest = digest_bits hdg2 ddg2, icq_maxr2t = maxr2t,
        icq_rsvd = replicate 112 0\<rparr>, pdu_data_len = 0, pdu_ddgst = False\<rparr>, d')))"
proof (intro conjI)
  show "\<exists>d'. at_rest hdgst d' \<and>
      decode_step crc d (encode_h2c_data crc c tt off dlen is_last hdgst ddgst @ stream) =
      Some (Inr (length (encode_h2c_data crc c tt off dlen is_last hdgst ddgst), Some
        \<lparr>pdu_kind = H2CData c tt off dlen is_last, pdu_data_len = dlen, pdu_ddgst = ddgst\<rparr>, d'))"
    using data_pdu_roundtrip [OF rest, of H2C_DATA "if is_last then FLAG_DATA_LAST else 0" dlen
        ddgst crc c tt off stream] dl
    by (cases is_last) (simp_all add: encode_h2c_data_def)
qed (rule capsule_cmd_roundtrip [OF rest wf cl] icreq_roundtrip [OF rest])+

theorem host_pdus_roundtrip_witness:
  "at_rest True (pdu_decoder_new True) \<and> sqe_wf sqe_zeroed \<and>
   (\<exists>d'. at_rest True d' \<and>
      decode_step (\<lambda>bs. of_nat (length bs)) (pdu_decoder_new True)
        (encode_capsule_cmd (\<lambda>bs. of_nat (length bs)) sqe_zeroed True 512 True @ [1, 2]) =
      Some (Inr (length (encode_capsule_cmd (\<lambda>bs. of_nat (length bs)) sqe_zeroed True 512 True), Some
        \<lparr>pdu_kind = CapsuleCmd sqe_zeroed, pdu_data_len = 512, pdu_ddgst = True\<rparr>, d')))"
  using host_pdus_roundtrip [OF at_rest_new [of True] sqe_wf_zeroed, of 512 512
      "\<lambda>bs. of_nat (length bs)" True "[1, 2]"] at_rest_new [of True]
  by simp

text \<open>C14. Every PDU the target sends is decoded by a peer to what it encodes: C2HData with its
  last and success flags, the response capsule, the R2T, the ICResp and the termination request.\<close>

theorem target_pdus_roundtrip:
  assumes rest: "at_rest hdgst d" and dl: "unat dlen + 32 \<le> 32 * 1024 * 1024" "0 < dlen"
  shows
   "(\<exists>d'. at_rest hdgst d' \<and>
      decode_step crc d (encode_c2h_data crc c off dlen is_last success hdgst ddgst @ stream) =
      Some (Inr (length (encode_c2h_data crc c off dlen is_last success hdgst ddgst), Some
        \<lparr>pdu_kind = C2HData c off dlen is_last success, pdu_data_len = dlen, pdu_ddgst = ddgst\<rparr>, d'))) \<and>
    (\<exists>d'. at_rest hdgst d' \<and> decode_step crc d (encode_capsule_resp crc ce hdgst @ stream) =
      Some (Inr (length (encode_capsule_resp crc ce hdgst), Some
        \<lparr>pdu_kind = CapsuleResp ce, pdu_data_len = 0, pdu_ddgst = False\<rparr>, d'))) \<and>
    (\<exists>d'. at_rest hdgst d' \<and> decode_step crc d (encode_r2t crc c tt off len hdgst @ stream) =
      Some (Inr (length (encode_r2t crc c tt off len hdgst), Some
        \<lparr>pdu_kind = R2T c tt off len, pdu_data_len = 0, pdu_ddgst = False\<rparr>, d'))) \<and>
    (\<exists>d'. at_rest hdgst d' \<and> decode_step crc d (encode_icresp hdg2 ddg2 maxdata @ stream) =
      Some (Inr (128, Some \<lparr>pdu_kind = IcResp \<lparr>icr_hdr = common ICRESP 0 128 0 128, icr_pfv = PFV_1_0,
        icr_cpda = 0, icr_digest = digest_bits hdg2 ddg2, icr_maxdata = maxdata,
        icr_rsvd = replicate 112 0\<rparr>, pdu_data_len = 0, pdu_ddgst = False\<rparr>, d'))) \<and>
    (\<exists>d'. at_rest hdgst d' \<and> decode_step crc d (encode_c2h_term er @ stream) =
      Some (Inr (24, Some \<lparr>pdu_kind = H2CTerm (pe_fes er) (pe_fei er), pdu_data_len = 0,
        pdu_ddgst = False\<rparr>, d')))"
proof (intro conjI)
  show "\<exists>d'. at_rest hdgst d' \<and>
      decode_step crc d (encode_c2h_data crc c off dlen is_last success hdgst ddgst @ stream) =
      Some (Inr (length (encode_c2h_data crc c off dlen is_last success hdgst ddgst), Some
        \<lparr>pdu_kind = C2HData c off dlen is_last success, pdu_data_len = dlen, pdu_ddgst = ddgst\<rparr>, d'))"
    using data_pdu_roundtrip [OF rest, of C2H_DATA "(if is_last then FLAG_DATA_LAST else 0) OR
        (if success then FLAG_DATA_SUCCESS else 0)" dlen ddgst crc c 0 off stream] dl
    by (cases is_last; cases success) (simp_all add: encode_c2h_data_def)
qed (rule capsule_resp_roundtrip [OF rest] r2t_roundtrip [OF rest] icresp_roundtrip [OF rest]
    c2h_term_roundtrip [OF rest])+

theorem target_pdus_roundtrip_witness:
  "at_rest False (pdu_decoder_new False) \<and>
   (\<exists>d'. at_rest False d' \<and>
      decode_step (\<lambda>_. 0) (pdu_decoder_new False)
        (encode_c2h_data (\<lambda>_. 0) 7 0 4096 True True False True @ [9]) =
      Some (Inr (24, Some
        \<lparr>pdu_kind = C2HData 7 0 4096 True True, pdu_data_len = 4096, pdu_ddgst = True\<rparr>, d')))"
proof -
  have "length (encode_c2h_data (\<lambda>_. 0) 7 0 4096 True True False True) = 24"
    by (simp add: encode_c2h_data_def encode_data_pdu_def data_as_bytes_def)
  then show ?thesis
    using target_pdus_roundtrip [OF at_rest_new [of False], of 4096 "\<lambda>_. 0" 7 0 True True True "[9]"]
      at_rest_new [of False]
    by simp
qed

text \<open>C15. A header that decodes accounts for its PDU exactly: the header bytes, the announced payload
  and the trailing data digest add up to the PLEN of the common header; and with header digests
  negotiated, the four bytes after a digestable header are the CRC of that header.\<close>

theorem pdu_take_accounts:
  assumes inv: "decoder_inv d" and t: "pdu_take crc d = Some (Inr p, d')"
  defines "hdr \<equiv> ch_of_bytes (slice 0 8 (dbuf d))"
  shows "dneed d + unat (pdu_data_len p) + (if pdu_ddgst p then 4 else 0) = unat (ch_plen hdr) \<and>
    (hdr_digest d \<and> digestable_type (ch_pdu_type hdr) \<longrightarrow>
      le_word (slice (unat (ch_hlen hdr)) 4 (dbuf d)) = crc (slice 0 (unat (ch_hlen hdr)) (dbuf d)))"
proof -
  define hdgst where "hdgst \<longleftrightarrow> digestable_type (ch_pdu_type hdr) \<and> hdr_digest d"
  define ddgst where "ddgst \<longleftrightarrow> digestable_type (ch_pdu_type hdr) \<and> ch_flags hdr AND FLAG_DDGST \<noteq> 0"
  define hw where "hw = ucast (ch_hlen hdr) + (if hdgst then 4 else 0 :: u32)"
  have c: "is_complete d" using t by (auto simp: pdu_take_def split: if_splits)
  have dig: "\<not> (hdgst \<and> le_word (slice (unat (ch_hlen hdr)) 4 (dbuf d)) \<noteq>
      crc (slice 0 (unat (ch_hlen hdr)) (dbuf d)))"
    and room: "\<not> unat (ch_plen hdr) < unat hw + unat ((if ddgst then 4 else 0) :: u32)"
    and p: "pdu_data_len p = ch_plen hdr - hw - (if ddgst then 4 else 0)" "pdu_ddgst p = ddgst"
    using t c unfolding pdu_take_def Let_def hdr_def [symmetric] hdgst_def [symmetric]
      ddgst_def [symmetric] hw_def [symmetric]
    by (simp_all split: if_splits option.splits sum.splits) auto
  have "header_len (hdr_digest d) (slice 0 8 (dbuf d)) = Inr (dneed d)"
    using inv c by (simp add: decoder_inv_def is_complete_def full_header_len_def)
  then obtain hl dg where lay: "type_layout (ch_pdu_type hdr) = Some (hl, dg)"
    and hl: "ucast (ch_hlen hdr) = hl"
    and n: "unat hl + (if dg \<and> hdr_digest d then 4 else 0) = dneed d"
    by (rule header_len_valid) (simp_all add: hdr_def)
  have "unat hw = dneed d"
    unfolding hw_def hl unat_header_wire [OF lay]
    using n type_layout_digestable [OF lay] by (simp add: hdgst_def conj_commute)
  then have "unat (ch_plen hdr - hw - (if ddgst then 4 else 0)) =
      unat (ch_plen hdr) - dneed d - (if ddgst then 4 else 0)"
    using room by (auto simp: unat_sub_if_size word_le_nat_alt)
  with room p \<open>unat hw = dneed d\<close> dig show ?thesis
    by (auto simp: hdgst_def split: if_splits)
qed

theorem pdu_take_accounts_witness:
  "\<exists>d p d'. decoder_inv d \<and> pdu_take (\<lambda>_. 0) d = Some (Inr p, d') \<and>
     dneed d + unat (pdu_data_len p) + (if pdu_ddgst p then 4 else 0) =
       unat (ch_plen (ch_of_bytes (slice 0 8 (dbuf d)))) \<and>
     le_word (slice 24 4 (dbuf d)) = (0 :: u32)"
proof -
  let ?d = "\<lparr>hdr_digest = True, dbuf = [5, 1, 24, 0, 28, 0, 0, 0] @ replicate (MAX_HDR - 8) 0,
    dhave = 28, dneed = 28, dstate = Complete\<rparr>"
  have hdr: "ch_of_bytes (slice 0 8 (dbuf ?d)) =
      \<lparr>ch_pdu_type = 5, ch_flags = 1, ch_hlen = 24, ch_pdo = 0, ch_plen = 28\<rparr>"
    by code_simp
  have inv: "decoder_inv ?d" by code_simp
  have "case pdu_take (\<lambda>_. 0) ?d of Some (Inr p, d') \<Rightarrow> True | _ \<Rightarrow> False" by code_simp
  then obtain p d' where t: "pdu_take (\<lambda>_. 0) ?d = Some (Inr p, d')"
    by (auto split: option.splits sum.splits)
  show ?thesis
    using pdu_take_accounts [OF inv t, unfolded hdr] inv t
    by (intro exI [of _ ?d] exI [of _ p] exI [of _ d'], unfold hdr) (simp add: digestable_type_def)
qed

end
