(* ===== verification/Registers.thy ===== *)
theory Registers
  imports Wire_Spec
begin

text \<open>
  The controller registers (\<^verbatim>\<open>crates/ioutgt-nvme/src/controller.rs\<close>): the CC/CSTS
  enable and shutdown machine of one fabrics controller, and the CAP value it advertises.
  A panic (the \<^verbatim>\<open>max_queue_entries - 1\<close> of a zero argument) is \<^const>\<open>None\<close>.
\<close>

abbreviation (input) cc_EN :: u32 where "cc_EN \<equiv> 0x1"
abbreviation (input) cc_SHN_MASK :: u32 where "cc_SHN_MASK \<equiv> 0xC000"
abbreviation (input) cc_SHN_NORMAL :: u32 where "cc_SHN_NORMAL \<equiv> 0x4000"
abbreviation (input) csts_RDY :: u32 where "csts_RDY \<equiv> 0x1"
abbreviation (input) csts_SHST_COMPLETE :: u32 where "csts_SHST_COMPLETE \<equiv> 0x8"

record register_state =
  reg_cc :: u32
  reg_csts :: u32
  reg_cap :: u64

datatype cc_effect = CcNone | CcEnabled | CcShutdown | CcDisabled

definition register_state_new :: "u16 \<Rightarrow> register_state option" where
  "register_state_new max_queue_entries =
     (if max_queue_entries = 0 then None
      else
        let mqes = ucast (max_queue_entries - 1);
            cap = mqes OR push_bit 16 1 OR push_bit 24 30 in
        Some \<lparr>reg_cc = 0, reg_csts = 0, reg_cap = cap\<rparr>)"

definition write_cc :: "u32 \<Rightarrow> register_state \<Rightarrow> cc_effect \<times> register_state" where
  "write_cc value r =
     (let was_enabled = (reg_cc r AND cc_EN \<noteq> 0);
          now_enabled = (value AND cc_EN \<noteq> 0);
          shutdown = (value AND cc_SHN_MASK \<noteq> 0);
          r = r\<lparr>reg_cc := value\<rparr> in
      if shutdown then (CcShutdown, r\<lparr>reg_csts := reg_csts r OR csts_SHST_COMPLETE\<rparr>)
      else if \<not> was_enabled \<and> now_enabled then (CcEnabled, r\<lparr>reg_csts := reg_csts r OR csts_RDY\<rparr>)
      else if was_enabled \<and> \<not> now_enabled then
        (CcDisabled, r\<lparr>reg_csts := reg_csts r AND NOT csts_RDY\<rparr>)
      else (CcNone, r))"

definition ready :: "register_state \<Rightarrow> bool" where
  "ready r \<longleftrightarrow> reg_csts r AND csts_RDY \<noteq> 0"

text \<open>A sequence of Property Set commands on CC.\<close>

fun write_ccs :: "u32 list \<Rightarrow> register_state \<Rightarrow> register_state" where
  "write_ccs [] r = r"
| "write_ccs (v # vs) r = write_ccs vs (snd (write_cc v r))"

section \<open>Lemmas\<close>

definition shut_down :: "register_state \<Rightarrow> bool" where
  "shut_down r \<longleftrightarrow> reg_csts r AND csts_SHST_COMPLETE \<noteq> 0"

lemma csts_bits [simp]:
  fixes c :: u32
  shows "(c OR 8) AND 1 = c AND 1" "(c OR 1) AND 1 = 1" "(c AND NOT 1) AND 1 = 0"
    "(c OR 8) AND 8 = 8" "(c OR 1) AND 8 = c AND 8" "(c AND NOT 1) AND 8 = c AND 8"
proof -
  have "(8 :: u32) AND 1 = 0" "(1 :: u32) AND 8 = 0" "NOT (1 :: u32) AND 1 = 0"
    "NOT (1 :: u32) AND 8 = 8" by simp_all
  then show "(c OR 8) AND 1 = c AND 1" "(c OR 1) AND 1 = 1" "(c AND NOT 1) AND 1 = 0"
    "(c OR 8) AND 8 = 8" "(c OR 1) AND 8 = c AND 8" "(c AND NOT 1) AND 8 = c AND 8"
    by (simp_all add: bit.conj_disj_distrib2 and.assoc)
qed

lemma csts_clear [simp]:
  fixes c :: u32
  shows "(c AND - 2) AND 1 = 0" "(c AND - 2) AND 8 = c AND 8"
  by (simp_all add: and.assoc)

lemma write_cc_cc [simp]: "reg_cc (snd (write_cc v r)) = v"
  and write_cc_cap [simp]: "reg_cap (snd (write_cc v r)) = reg_cap r"
  by (simp_all add: write_cc_def Let_def)

lemma write_cc_mirror:
  assumes "v AND cc_SHN_MASK = 0" "ready r \<longleftrightarrow> reg_cc r AND cc_EN \<noteq> 0"
  shows "ready (snd (write_cc v r)) \<longleftrightarrow> v AND cc_EN \<noteq> 0"
  using assms by (auto simp: write_cc_def ready_def Let_def)

lemma write_ccs_mirror:
  assumes "\<forall>v \<in> set vs. v AND cc_SHN_MASK = 0" "ready r \<longleftrightarrow> reg_cc r AND cc_EN \<noteq> 0"
  shows "ready (write_ccs vs r) \<longleftrightarrow> reg_cc (write_ccs vs r) AND cc_EN \<noteq> 0"
  using assms by (induction vs arbitrary: r) (simp_all add: write_cc_mirror)

lemma write_ccs_cc: "reg_cc (write_ccs vs r) = (if vs = [] then reg_cc r else last vs)"
  by (induction vs arbitrary: r) simp_all

lemma shut_down_write_cc: "shut_down (snd (write_cc v r)) \<longleftrightarrow> v AND cc_SHN_MASK \<noteq> 0 \<or> shut_down r"
  by (simp add: write_cc_def shut_down_def Let_def)

lemma shut_down_write_ccs:
  "shut_down (write_ccs vs r) \<longleftrightarrow> (\<exists>v \<in> set vs. v AND cc_SHN_MASK \<noteq> 0) \<or> shut_down r"
  by (induction vs arbitrary: r) (auto simp: shut_down_write_cc)

section \<open>Properties\<close>

text \<open>C24. The enable machine: after any sequence of CC writes without a shutdown notification, from
  a fresh controller, CSTS.RDY equals the EN bit of the last write, no shutdown is reported, and CAP
  still carries what was advertised: MQES is the queue size minus one, CQR is set and the timeout
  is 30 units of 500 ms.\<close>

theorem enable_mirrors_en:
  assumes new: "register_state_new n = Some r" and shn: "\<forall>v \<in> set vs. v AND cc_SHN_MASK = 0"
  shows "(ready (write_ccs vs r) \<longleftrightarrow> vs \<noteq> [] \<and> last vs AND cc_EN \<noteq> 0) \<and>
    \<not> shut_down (write_ccs vs r) \<and>
    reg_cap (write_ccs vs r) = ucast (n - 1) OR 0x1E010000"
proof -
  have r: "reg_cc r = 0" "\<not> ready r" "\<not> shut_down r" "reg_cap r = ucast (n - 1) OR 0x1E010000"
    using new
    by (auto simp: register_state_new_def ready_def shut_down_def Let_def or.assoc split: if_splits)
  have "reg_cap (write_ccs vs r) = reg_cap r" by (induction vs arbitrary: r) simp_all
  moreover have "ready (write_ccs vs r) \<longleftrightarrow> reg_cc (write_ccs vs r) AND cc_EN \<noteq> 0"
    using write_ccs_mirror [OF shn, of r] r by simp
  ultimately show ?thesis
    using r shn by (simp add: write_ccs_cc shut_down_write_ccs)
qed

theorem enable_mirrors_en_witness:
  "\<exists>r. register_state_new 128 = Some r \<and> ready (write_ccs [0x460001] r) \<and>
     \<not> ready (write_ccs [0x460001, 0] r) \<and> reg_cap (write_ccs [0x460001] r) = 0x1E01007F"
proof -
  obtain r where r: "register_state_new 128 = Some r" by (simp add: register_state_new_def)
  show ?thesis
    using enable_mirrors_en [OF r, where vs = "[0x460001]"] enable_mirrors_en [OF r, where vs = "[0x460001, 0]"] r
    by simp
qed

text \<open>C25. Shutdown is reported and never forgotten, and it swallows an enable: a CC write that
  carries a shutdown notification together with EN leaves a fresh controller not ready, and every
  later write that keeps EN set reports no effect and still leaves it not ready, so the controller
  cannot become ready before the host clears EN; and no later write, a reset included, clears
  CSTS.SHST.\<close>

theorem shutdown_swallows_enable:
  assumes new: "register_state_new n = Some r"
    and v: "v AND cc_SHN_MASK \<noteq> 0" and en: "v AND cc_EN \<noteq> 0"
    and vs: "\<forall>w \<in> set vs. w AND cc_EN \<noteq> 0"
  shows "fst (write_cc v r) = CcShutdown \<and> \<not> ready (write_ccs (v # vs) r) \<and>
    shut_down (write_ccs (v # vs @ ws) r) \<and>
    (w AND cc_EN \<noteq> 0 \<and> w AND cc_SHN_MASK = 0 \<longrightarrow> fst (write_cc w (write_ccs (v # vs) r)) = CcNone)"
proof -
  have keep: "\<not> ready (write_ccs us q)" "reg_cc (write_ccs us q) AND cc_EN \<noteq> 0"
    if "reg_cc q AND cc_EN \<noteq> 0" "\<not> ready q" "\<forall>w \<in> set us. w AND cc_EN \<noteq> 0" for us q
    using that
    by (induction us arbitrary: q) (auto simp: write_cc_def ready_def Let_def)
  have "\<not> ready r" using new by (auto simp: register_state_new_def ready_def Let_def split: if_splits)
  then have q: "\<not> ready (snd (write_cc v r))" "fst (write_cc v r) = CcShutdown"
    using v by (simp_all add: write_cc_def ready_def Let_def)
  have k: "\<not> ready (write_ccs (v # vs) r)" "reg_cc (write_ccs (v # vs) r) AND cc_EN \<noteq> 0"
    using keep [of "snd (write_cc v r)" vs] q en vs by simp_all
  have "fst (write_cc w p) = CcNone"
    if "reg_cc p AND cc_EN \<noteq> 0" "w AND cc_EN \<noteq> 0" "w AND cc_SHN_MASK = 0" for p
    using that by (simp add: write_cc_def Let_def)
  moreover have "shut_down (write_ccs (v # vs @ ws) r)"
    using v unfolding shut_down_write_ccs by auto
  ultimately show ?thesis using q k by blast
qed

theorem shutdown_swallows_enable_witness:
  "\<exists>r. register_state_new 2 = Some r \<and> fst (write_cc 0x4001 r) = CcShutdown \<and>
     \<not> ready (write_ccs [0x4001, 1] r) \<and> shut_down (write_ccs [0x4001, 1, 0, 1] r) \<and>
     fst (write_cc 1 (write_ccs [0x4001, 1] r)) = CcNone"
proof -
  obtain r where r: "register_state_new 2 = Some r" by (simp add: register_state_new_def)
  show ?thesis
    using shutdown_swallows_enable [OF r, where v = "0x4001" and vs = "[1]" and ws = "[0, 1]" and w = "1"] r by simp
qed

end
