(* ===== verification/Seg_Buffer.thy ===== *)
theory Seg_Buffer
  imports Prelude
begin

text \<open>
  Command data buffers (\<^verbatim>\<open>crates/ioutgt-core/src/buf.rs\<close> and the \<^verbatim>\<open>SlotData\<close> half of
  \<^verbatim>\<open>crates/ioutgt-core/src/pool.rs\<close>): a buffer is a list of physically contiguous segments of
  memory. Memory is a function from addresses to bytes; a raw pointer is an address. The array
  \<^verbatim>\<open>segs\<close> with its count \<^verbatim>\<open>nsegs\<close> is the list of the first \<^verbatim>\<open>nsegs\<close> segments.
  The lemmas show that the segment-crossing \<^verbatim>\<open>write_at\<close> and \<^verbatim>\<open>for_each_seg\<close> are
  a plain update and a plain read of the buffer's logical contents.
\<close>

definition PAGE :: nat where "PAGE = 4096"
definition MAX_SEGS :: nat where "MAX_SEGS = 32"
definition BUF_ALIGN :: nat where "BUF_ALIGN = 4096"

section \<open>Memory\<close>

type_synonym memory = "nat \<Rightarrow> u8"

definition mem_read :: "memory \<Rightarrow> nat \<Rightarrow> nat \<Rightarrow> bytes" where
  "mem_read m a n = map m [a..<a + n]"

definition mem_write :: "nat \<Rightarrow> bytes \<Rightarrow> memory \<Rightarrow> memory" where
  "mem_write a bs m = (\<lambda>x. if a \<le> x \<and> x < a + length bs then bs ! (x - a) else m x)"

text \<open>\<^verbatim>\<open>AlignedBuf::zeroed\<close>: the size is rounded up to whole pages, at least one. The address is
  the global allocator's choice.\<close>

definition aligned_size :: "nat \<Rightarrow> nat" where
  "aligned_size len = max ((len + BUF_ALIGN - 1) div BUF_ALIGN * BUF_ALIGN) BUF_ALIGN"

definition aligned_buf_zeroed :: "nat \<Rightarrow> nat \<Rightarrow> memory \<Rightarrow> nat \<times> memory" where
  "aligned_buf_zeroed addr len m =
     (aligned_size len, mem_write addr (replicate (aligned_size len) 0) m)"

section \<open>Segments and slot data\<close>

record seg =
  seg_ptr :: nat
  seg_len :: nat

text \<open>The backing of a buffer. The pool and the ring provider of a queue are unique, so the
  references to them are left out.\<close>

datatype owner = OwnerEmpty | OwnerOwned | OwnerPool | OwnerRing u16

record slot_data =
  sd_segs :: "seg list"
  sd_len :: nat
  sd_owner :: owner

definition slot_data_empty :: slot_data where
  "slot_data_empty = \<lparr>sd_segs = [], sd_len = 0, sd_owner = OwnerEmpty\<rparr>"

definition slot_data_owned :: "nat \<Rightarrow> nat \<Rightarrow> memory \<Rightarrow> slot_data \<times> memory" where
  "slot_data_owned addr len m =
     (let (n, m') = aligned_buf_zeroed addr len m in
      (\<lparr>sd_segs = [\<lparr>seg_ptr = addr, seg_len = n\<rparr>], sd_len = n, sd_owner = OwnerOwned\<rparr>, m'))"

definition slot_data_ring :: "u16 \<Rightarrow> nat \<Rightarrow> nat \<Rightarrow> slot_data" where
  "slot_data_ring bid ptr len =
     \<lparr>sd_segs = [\<lparr>seg_ptr = ptr, seg_len = len\<rparr>], sd_len = len, sd_owner = OwnerRing bid\<rparr>"

definition is_contiguous :: "slot_data \<Rightarrow> bool" where
  "is_contiguous d \<longleftrightarrow> length (sd_segs d) = 1"

definition is_pool :: "slot_data \<Rightarrow> bool" where
  "is_pool d \<longleftrightarrow> sd_owner d = OwnerPool"

definition slot_buf_index :: "u16 option \<Rightarrow> (u16 \<Rightarrow> u16 option) \<Rightarrow> slot_data \<Rightarrow> u16 option" where
  "slot_buf_index pool_index ring_index d =
     (case sd_owner d of
        OwnerPool \<Rightarrow> pool_index
      | OwnerRing bid \<Rightarrow> ring_index bid
      | OwnerOwned \<Rightarrow> None
      | OwnerEmpty \<Rightarrow> None)"

text \<open>The contiguous view, for reading and (as address and length) for writing; the hard assert on
  contiguity is the panic.\<close>

definition as_slice :: "memory \<Rightarrow> slot_data \<Rightarrow> bytes option" where
  "as_slice m d =
     (if is_contiguous d then Some (mem_read m (seg_ptr (hd (sd_segs d))) (sd_len d)) else None)"

definition as_mut_slice :: "slot_data \<Rightarrow> (nat \<times> nat) option" where
  "as_mut_slice d = (if is_contiguous d then Some (seg_ptr (hd (sd_segs d)), sd_len d) else None)"

fun write_segs_at :: "seg list \<Rightarrow> nat \<Rightarrow> bytes \<Rightarrow> memory \<Rightarrow> memory option" where
  "write_segs_at [] off src m = (if src = [] then Some m else None)"
| "write_segs_at (s # ss) off src m =
     (if src = [] then Some m
      else if seg_len s \<le> off then write_segs_at ss (off - seg_len s) src m
      else
        let n = min (seg_len s - off) (length src) in
        write_segs_at ss 0 (drop n src) (mem_write (seg_ptr s + off) (take n src) m))"

definition write_at :: "slot_data \<Rightarrow> nat \<Rightarrow> bytes \<Rightarrow> memory \<Rightarrow> memory option" where
  "write_at d off src m = write_segs_at (sd_segs d) off src m"

text \<open>The chunks \<^verbatim>\<open>for_each_seg\<close> hands to its callback, as addresses and lengths.\<close>

fun seg_chunks :: "seg list \<Rightarrow> nat \<Rightarrow> nat \<Rightarrow> (nat \<times> nat) list option" where
  "seg_chunks [] off len = (if len = 0 then Some [] else None)"
| "seg_chunks (s # ss) off len =
     (if len = 0 then Some []
      else if seg_len s \<le> off then seg_chunks ss (off - seg_len s) len
      else
        let n = min (seg_len s - off) len in
        map_option (\<lambda>cs. (seg_ptr s + off, n) # cs) (seg_chunks ss 0 (len - n)))"

definition for_each_seg :: "memory \<Rightarrow> slot_data \<Rightarrow> nat \<Rightarrow> nat \<Rightarrow> bytes list option" where
  "for_each_seg m d off len =
     map_option (map (\<lambda>(a, n). mem_read m a n)) (seg_chunks (sd_segs d) off len)"

section \<open>Logical contents\<close>

definition seg_addrs :: "seg \<Rightarrow> nat set" where
  "seg_addrs s = {seg_ptr s..<seg_ptr s + seg_len s}"

definition data_addrs :: "slot_data \<Rightarrow> nat set" where
  "data_addrs d = (\<Union>s \<in> set (sd_segs d). seg_addrs s)"

fun segs_disjoint :: "seg list \<Rightarrow> bool" where
  "segs_disjoint [] = True"
| "segs_disjoint (s # ss) \<longleftrightarrow> (\<forall>t \<in> set ss. seg_addrs s \<inter> seg_addrs t = {}) \<and> segs_disjoint ss"

definition slot_data_wf :: "slot_data \<Rightarrow> bool" where
  "slot_data_wf d \<longleftrightarrow> segs_disjoint (sd_segs d) \<and> sd_len d = sum_list (map seg_len (sd_segs d)) \<and>
     length (sd_segs d) \<le> MAX_SEGS"

definition segs_bytes :: "memory \<Rightarrow> seg list \<Rightarrow> bytes" where
  "segs_bytes m ss = concat (map (\<lambda>s. mem_read m (seg_ptr s) (seg_len s)) ss)"

definition contents :: "memory \<Rightarrow> slot_data \<Rightarrow> bytes" where
  "contents m d = segs_bytes m (sd_segs d)"

lemma length_mem_read [simp]: "length (mem_read m a n) = n"
  by (simp add: mem_read_def)

lemma nth_mem_read [simp]: "i < n \<Longrightarrow> mem_read m a n ! i = m (a + i)"
  by (simp add: mem_read_def)

lemma mem_read_0 [simp]: "mem_read m a 0 = []"
  by (simp add: mem_read_def)

lemma mem_read_add: "mem_read m a (n + k) = mem_read m a n @ mem_read m (a + n) k"
  by (rule nth_equalityI) (auto simp: nth_append)

lemma slice_mem_read: "off + k \<le> n \<Longrightarrow> slice off k (mem_read m a n) = mem_read m (a + off) k"
  by (rule nth_equalityI) (auto simp: nth_slice add.assoc)

lemma mem_write_Nil [simp]: "mem_write a [] m = m"
  by (rule ext) (auto simp: mem_write_def)

lemma mem_read_write_same: "mem_read (mem_write a bs m) a (length bs) = bs"
  by (rule nth_equalityI) (auto simp: mem_write_def)

lemma mem_read_write_frame:
  assumes "{a..<a + length bs} \<inter> {b..<b + n} = {}"
  shows "mem_read (mem_write a bs m) b n = mem_read m b n"
proof (rule nth_equalityI)
  fix i assume "i < length (mem_read (mem_write a bs m) b n)"
  then have "i < n" "b + i \<in> {b..<b + n}" by auto
  then have "b + i \<notin> {a..<a + length bs}" using assms by blast
  then show "mem_read (mem_write a bs m) b n ! i = mem_read m b n ! i"
    using \<open>i < n\<close> by (auto simp: mem_write_def)
qed simp

lemma mem_read_write_inside:
  "off + length bs \<le> n \<Longrightarrow> mem_read (mem_write (a + off) bs m) a n = splice off bs (mem_read m a n)"
  by (rule nth_equalityI) (auto simp: mem_write_def nth_splice)

lemma segs_bytes_simps [simp]:
  "segs_bytes m [] = []"
  "segs_bytes m (s # ss) = mem_read m (seg_ptr s) (seg_len s) @ segs_bytes m ss"
  by (simp_all add: segs_bytes_def)

lemma length_segs_bytes [simp]: "length (segs_bytes m ss) = sum_list (map seg_len ss)"
  by (induction ss) simp_all

lemma length_contents [simp]: "slot_data_wf d \<Longrightarrow> length (contents m d) = sd_len d"
  by (simp add: contents_def slot_data_wf_def)

lemma seg_read_cong:
  "(\<And>x. x \<in> seg_addrs s \<Longrightarrow> m x = m' x) \<Longrightarrow>
    mem_read m (seg_ptr s) (seg_len s) = mem_read m' (seg_ptr s) (seg_len s)"
  by (simp add: mem_read_def seg_addrs_def)

lemma segs_bytes_cong:
  "(\<And>s x. s \<in> set ss \<Longrightarrow> x \<in> seg_addrs s \<Longrightarrow> m x = m' x) \<Longrightarrow> segs_bytes m ss = segs_bytes m' ss"
  unfolding segs_bytes_def
  by (intro arg_cong [where f = concat] map_cong refl seg_read_cong)

lemma segs_disjoint_ConsD:
  "segs_disjoint (s # ss) \<Longrightarrow> x \<in> seg_addrs s \<Longrightarrow> x \<notin> (\<Union>t \<in> set ss. seg_addrs t)"
  by auto

text \<open>Only the contents of a buffer's own addresses matter.\<close>

lemma contents_cong: "(\<And>x. x \<in> data_addrs d \<Longrightarrow> m x = m' x) \<Longrightarrow> contents m d = contents m' d"
  unfolding contents_def by (rule segs_bytes_cong) (auto simp: data_addrs_def)

lemma splice_append_left:
  "off + length src \<le> length xs \<Longrightarrow> splice off src (xs @ ys) = splice off src xs @ ys"
  by (simp add: splice_def)

lemma splice_append_right:
  "length xs \<le> off \<Longrightarrow> splice off src (xs @ ys) = xs @ splice (off - length xs) src ys"
  by (simp add: splice_def)

lemma splice_append_cross:
  assumes "off < length xs" "length xs - off \<le> length src"
  shows "splice off src (xs @ ys) =
    splice off (take (length xs - off) src) xs @ splice 0 (drop (length xs - off) src) ys"
proof -
  have "off + length src - length xs = length src - (length xs - off)" using assms by linarith
  then show ?thesis using assms by (simp add: splice_def)
qed

lemma slice_append_left: "off + n \<le> length xs \<Longrightarrow> slice off n (xs @ ys) = slice off n xs"
  by (simp add: slice_def)

lemma slice_append_right: "length xs \<le> off \<Longrightarrow> slice off n (xs @ ys) = slice (off - length xs) n ys"
  by (simp add: slice_def)

lemma slice_append_cross:
  assumes "off < length xs" "length xs - off \<le> n"
  shows "slice off n (xs @ ys) = slice off (length xs - off) xs @ slice 0 (n - (length xs - off)) ys"
  using assms by (simp add: slice_def)

lemma splice_Nil [simp]: "splice off [] xs = xs"
  by (simp add: splice_def)

text \<open>Writing across segments is one update of the logical contents, and touches nothing else.\<close>

lemma write_segs_at_spec:
  assumes "segs_disjoint ss" "off + length src \<le> sum_list (map seg_len ss)"
  shows "\<exists>m'. write_segs_at ss off src m = Some m' \<and>
    segs_bytes m' ss = splice off src (segs_bytes m ss) \<and>
    (\<forall>x. x \<notin> (\<Union>s \<in> set ss. seg_addrs s) \<longrightarrow> m' x = m x)"
  using assms
proof (induction ss off src m rule: write_segs_at.induct)
  case (1 off src m)
  then show ?case by simp
next
  case (2 s ss off src m)
  let ?a = "mem_read m (seg_ptr s) (seg_len s)"
  consider (fin) "src = []" | (skip) "src \<noteq> []" "seg_len s \<le> off"
    | (here) "src \<noteq> []" "off < seg_len s" by linarith
  then show ?case
  proof cases
    case fin
    then show ?thesis by simp
  next
    case skip
    then obtain m' where m': "write_segs_at ss (off - seg_len s) src m = Some m'"
      "segs_bytes m' ss = splice (off - seg_len s) src (segs_bytes m ss)"
      "\<forall>x. x \<notin> (\<Union>s \<in> set ss. seg_addrs s) \<longrightarrow> m' x = m x"
      using "2.IH"(1) "2.prems" by force
    have "mem_read m' (seg_ptr s) (seg_len s) = ?a"
      using segs_disjoint_ConsD [OF "2.prems"(1)] m'(3) by (intro seg_read_cong) blast
    then show ?thesis using skip m' by (auto simp: splice_append_right)
  next
    case here
    define n where "n = min (seg_len s - off) (length src)"
    let ?m = "mem_write (seg_ptr s + off) (take n src) m"
    have len: "length (take n src) = n" and bound: "off + n \<le> seg_len s"
      using here by (auto simp: n_def)
    have rest: "0 + length (drop n src) \<le> sum_list (map seg_len ss)"
      using "2.prems"(2) here by (auto simp: n_def)
    obtain m' where m': "write_segs_at ss 0 (drop n src) ?m = Some m'"
      "segs_bytes m' ss = splice 0 (drop n src) (segs_bytes ?m ss)"
      "\<forall>x. x \<notin> (\<Union>s \<in> set ss. seg_addrs s) \<longrightarrow> m' x = ?m x"
      using "2.IH"(2) [of n] here "2.prems"(1) rest by (auto simp: n_def)
    have frame: "segs_bytes ?m ss = segs_bytes m ss"
    proof (rule segs_bytes_cong)
      fix t x assume "t \<in> set ss" "x \<in> seg_addrs t"
      then have "x \<notin> seg_addrs s" using "2.prems"(1) by auto
      then show "?m x = m x" using bound len by (auto simp: mem_write_def seg_addrs_def)
    qed
    have "mem_read m' (seg_ptr s) (seg_len s) = mem_read ?m (seg_ptr s) (seg_len s)"
      using segs_disjoint_ConsD [OF "2.prems"(1)] m'(3) by (intro seg_read_cong) blast
    also have "\<dots> = splice off (take n src) ?a"
      using bound len by (intro mem_read_write_inside) simp
    finally have "segs_bytes m' (s # ss) = splice off (take n src) ?a @
        splice 0 (drop n src) (segs_bytes m ss)" using m' frame by simp
    also have "\<dots> = splice off src (?a @ segs_bytes m ss)"
    proof (cases "seg_len s - off \<le> length src")
      case True
      then show ?thesis using here by (simp add: splice_append_cross n_def)
    next
      case False
      then show ?thesis using here by (simp add: splice_append_left n_def)
    qed
    finally have c: "segs_bytes m' (s # ss) = splice off src (segs_bytes m (s # ss))" by simp
    have fr: "\<forall>x. x \<notin> (\<Union>s \<in> set (s # ss). seg_addrs s) \<longrightarrow> m' x = m x"
      using m'(3) bound len by (auto simp: mem_write_def seg_addrs_def)
    have w: "write_segs_at (s # ss) off src m = Some m'"
      using here m'(1) by (simp add: n_def Let_def)
    show ?thesis using w c fr by blast
  qed
qed

lemma write_at_spec:
  assumes "slot_data_wf d" "off + length src \<le> sd_len d"
  obtains m' where "write_at d off src m = Some m'" "contents m' d = splice off src (contents m d)"
    "\<And>x. x \<notin> data_addrs d \<Longrightarrow> m' x = m x"
  using write_segs_at_spec [of "sd_segs d" off src m] assms
  by (auto simp: write_at_def contents_def data_addrs_def slot_data_wf_def)

text \<open>The chunks of a range, in order, are the range.\<close>

lemma seg_chunks_spec:
  assumes "off + len \<le> sum_list (map seg_len ss)"
  shows "\<exists>cs. seg_chunks ss off len = Some cs \<and>
    concat (map (\<lambda>(a, n). mem_read m a n) cs) = slice off len (segs_bytes m ss) \<and>
    (\<forall>(a, n) \<in> set cs. 0 < n \<and> {a..<a + n} \<subseteq> (\<Union>s \<in> set ss. seg_addrs s)) \<and>
    length cs \<le> length ss"
  using assms
proof (induction ss off len rule: seg_chunks.induct)
  case (1 off len)
  then show ?case by (simp add: slice_def)
next
  case (2 s ss off len)
  consider (fin) "len = 0" | (skip) "len \<noteq> 0" "seg_len s \<le> off"
    | (here) "len \<noteq> 0" "off < seg_len s" by linarith
  then show ?case
  proof cases
    case fin
    then show ?thesis by (simp add: slice_def)
  next
    case skip
    then show ?thesis using 2 by (force simp: slice_append_right)
  next
    case here
    define n where "n = min (seg_len s - off) len"
    have "0 + (len - n) \<le> sum_list (map seg_len ss)"
      using "2.prems" here by (auto simp: n_def)
    with here obtain cs where cs: "seg_chunks ss 0 (len - n) = Some cs"
      "concat (map (\<lambda>(a, n). mem_read m a n) cs) = slice 0 (len - n) (segs_bytes m ss)"
      "\<forall>(a, n) \<in> set cs. 0 < n \<and> {a..<a + n} \<subseteq> (\<Union>s \<in> set ss. seg_addrs s)"
      "length cs \<le> length ss"
      using "2.IH"(2) [of n] by (auto simp: n_def)
    have "mem_read m (seg_ptr s + off) n @ slice 0 (len - n) (segs_bytes m ss) =
        slice off len (mem_read m (seg_ptr s) (seg_len s) @ segs_bytes m ss)"
    proof (cases "seg_len s - off \<le> len")
      case True
      then show ?thesis using here
        by (simp add: slice_append_cross slice_mem_read n_def min_absorb1)
    next
      case False
      then show ?thesis using here
        by (simp add: slice_append_left slice_mem_read n_def min_absorb2)
    qed
    moreover have "{seg_ptr s + off..<seg_ptr s + off + n} \<subseteq> seg_addrs s" "0 < n"
      using here by (auto simp: n_def seg_addrs_def)
    ultimately show ?thesis
      using here cs by (auto simp: n_def [symmetric] Let_def)
  qed
qed

lemma for_each_seg_spec:
  assumes "slot_data_wf d" "off + len \<le> sd_len d"
  obtains cs where "for_each_seg m d off len = Some cs" "concat cs = slice off len (contents m d)"
    "length cs \<le> length (sd_segs d)" "\<forall>c \<in> set cs. c \<noteq> []"
proof -
  have "off + len \<le> sum_list (map seg_len (sd_segs d))" using assms by (simp add: slot_data_wf_def)
  from seg_chunks_spec [OF this, of m]
  obtain cs where cs: "seg_chunks (sd_segs d) off len = Some cs"
    "concat (map (\<lambda>(a, n). mem_read m a n) cs) = slice off len (contents m d)"
    "\<forall>(a, n) \<in> set cs. 0 < n \<and> {a..<a + n} \<subseteq> (\<Union>s \<in> set (sd_segs d). seg_addrs s)"
    "length cs \<le> length (sd_segs d)"
    unfolding contents_def by blast
  have "c \<noteq> []" if c: "c \<in> set (map (\<lambda>(a, n). mem_read m a n) cs)" for c
  proof -
    obtain a n where "(a, n) \<in> set cs" "c = mem_read m a n" using c by auto
    then have "0 < length c" using cs(3) by auto
    then show ?thesis by auto
  qed
  then show thesis
    using cs by (intro that [of "map (\<lambda>(a, n). mem_read m a n) cs"]) (simp_all add: for_each_seg_def)
qed

lemma as_slice_contents: "slot_data_wf d \<Longrightarrow> is_contiguous d \<Longrightarrow> as_slice m d = Some (contents m d)"
  by (cases "sd_segs d")
    (auto simp: as_slice_def is_contiguous_def contents_def slot_data_wf_def)

lemma slot_data_owned_spec:
  assumes "slot_data_owned addr len m = (d, m')"
  shows "slot_data_wf d" "is_contiguous d" "len \<le> sd_len d" "0 < sd_len d"
    "contents m' d = replicate (sd_len d) 0" "data_addrs d = {addr..<addr + aligned_size len}"
    "sd_len d = aligned_size len" "\<And>x. x \<notin> data_addrs d \<Longrightarrow> m' x = m x"
proof -
  have "len \<le> (len + BUF_ALIGN - 1) div BUF_ALIGN * BUF_ALIGN"
    using div_mult_mod_eq [of "len + BUF_ALIGN - 1" BUF_ALIGN]
      mod_less_divisor [of BUF_ALIGN "len + BUF_ALIGN - 1"]
    by (simp add: BUF_ALIGN_def)
  then have "len \<le> aligned_size len" by (simp add: aligned_size_def)
  moreover have "0 < aligned_size len" by (simp add: aligned_size_def BUF_ALIGN_def)
  ultimately show "slot_data_wf d" "is_contiguous d" "len \<le> sd_len d" "0 < sd_len d"
    "contents m' d = replicate (sd_len d) 0" "data_addrs d = {addr..<addr + aligned_size len}"
    "sd_len d = aligned_size len" "\<And>x. x \<notin> data_addrs d \<Longrightarrow> m' x = m x"
    using assms mem_read_write_same [of addr "replicate (aligned_size len) 0" m]
    by (auto simp: slot_data_owned_def aligned_buf_zeroed_def slot_data_wf_def is_contiguous_def
        contents_def data_addrs_def seg_addrs_def MAX_SEGS_def mem_write_def)
qed

lemma slot_data_wf_empty [simp]: "slot_data_wf slot_data_empty"
  and data_addrs_empty [simp]: "data_addrs slot_data_empty = {}"
  by (simp_all add: slot_data_wf_def slot_data_empty_def data_addrs_def)

lemma slot_data_wf_ring [simp]: "slot_data_wf (slot_data_ring bid a n)"
  by (simp add: slot_data_wf_def slot_data_ring_def MAX_SEGS_def)

text \<open>Memory is determined by a buffer's contents and what is outside of it.\<close>

lemma segs_bytes_inj:
  "segs_bytes m ss = segs_bytes m' ss \<Longrightarrow> x \<in> (\<Union>s \<in> set ss. seg_addrs s) \<Longrightarrow> m x = m' x"
proof (induction ss)
  case (Cons s ss)
  have eq: "mem_read m (seg_ptr s) (seg_len s) = mem_read m' (seg_ptr s) (seg_len s)" "segs_bytes m ss = segs_bytes m' ss"
    using Cons.prems(1) by (simp_all add: segs_bytes_def)
  show ?case
  proof (cases "x \<in> seg_addrs s")
    case True
    then have "x - seg_ptr s < seg_len s" "seg_ptr s + (x - seg_ptr s) = x" by (auto simp: seg_addrs_def)
    then show ?thesis using arg_cong [OF eq(1), of "\<lambda>l. l ! (x - seg_ptr s)"] by simp
  qed (use Cons eq(2) in simp)
qed simp

lemma memory_from_contents:
  assumes "contents m d = contents m' d" "\<And>x. x \<notin> data_addrs d \<Longrightarrow> m x = m' x"
  shows "m = m'"
proof
  fix x
  show "m x = m' x"
    using assms segs_bytes_inj [of m "sd_segs d" m' x] by (cases "x \<in> data_addrs d") (simp_all add: contents_def data_addrs_def)
qed

lemma splice_append:
  "off + length xs + length ys \<le> length l \<Longrightarrow> splice (off + length xs) ys (splice off xs l) = splice off (xs @ ys) l"
  by (simp add: splice_def ac_simps)

text \<open>Writing a range in two pieces is writing it at once.\<close>

lemma write_at_append:
  assumes wf: "slot_data_wf d" and le: "off + length xs + length ys \<le> sd_len d"
  shows "write_at d off (xs @ ys) m = Option.bind (write_at d off xs m) (write_at d (off + length xs) ys)"
proof -
  have l: "off + length xs \<le> sd_len d" "off + length (xs @ ys) \<le> sd_len d" "off + length xs + length ys \<le> sd_len d"
    using le by simp_all
  obtain a where a: "write_at d off xs m = Some a" "contents a d = splice off xs (contents m d)"
    "\<And>x. x \<notin> data_addrs d \<Longrightarrow> a x = m x"
    by (rule write_at_spec [OF wf l(1)], rule that; assumption)
  obtain b where b: "write_at d (off + length xs) ys a = Some b" "contents b d = splice (off + length xs) ys (contents a d)"
    "\<And>x. x \<notin> data_addrs d \<Longrightarrow> b x = a x"
    by (rule write_at_spec [OF wf l(3)], rule that; assumption)
  obtain c where c: "write_at d off (xs @ ys) m = Some c" "contents c d = splice off (xs @ ys) (contents m d)"
    "\<And>x. x \<notin> data_addrs d \<Longrightarrow> c x = m x"
    by (rule write_at_spec [OF wf l(2)], rule that; assumption)
  have "c = b"
    by (rule memory_from_contents [of _ d]) (simp_all add: a b c splice_append wf le)
  then show ?thesis by (simp add: a(1) b(1) c(1))
qed

end
