(* ===== verification/Pool.thy ===== *)
theory Pool
  imports Seg_Buffer
begin

text \<open>
  The buffer pool of a queue (the \<^verbatim>\<open>BufPool\<close> half of \<^verbatim>\<open>crates/ioutgt-core/src/pool.rs\<close>):
  a contiguous arena of pages with a sorted, coalescing list of free runs. Page numbers and counts
  are natural numbers; the checks that a count fits a \<^verbatim>\<open>u32\<close> are written out, and the
  invariant bounds every page number by the page count, which fits, so the \<^verbatim>\<open>u32\<close> sums of
  the code do not wrap. A waker is an identifier; an operation that wakes returns the wakers.
  \<^const>\<open>None\<close> as the outer result of an operation is a panic.
\<close>

record run =
  run_start :: nat
  run_len :: nat

record buf_pool =
  pool_base :: nat
  npages :: nat
  free_runs :: "run list"
  free_pages :: nat
  pool_waiters :: "nat list"
  pool_buf_index :: "u16 option"
  send_arena :: "(nat \<times> nat) option"

text \<open>The list is sorted by \<^verbatim>\<open>start\<close>, so the binary search of \<^verbatim>\<open>partition_point\<close>
  finds the first run that does not start before the new one.\<close>

definition insert_run :: "run list \<Rightarrow> run \<Rightarrow> run list" where
  "insert_run free run =
     (let pos = length (takeWhile (\<lambda>r. run_start r < run_start run) free);
          free = vec_insert pos run free;
          free = (if pos + 1 < length free \<and>
                     run_start (free ! pos) + run_len (free ! pos) = run_start (free ! (pos + 1))
                  then vec_remove (pos + 1)
                    (free[pos := (free ! pos)\<lparr>run_len := run_len (free ! pos) + run_len (free ! (pos + 1))\<rparr>])
                  else free) in
      if 0 < pos \<and>
         run_start (free ! (pos - 1)) + run_len (free ! (pos - 1)) = run_start (free ! pos)
      then vec_remove pos
        (free[pos - 1 := (free ! (pos - 1))\<lparr>run_len := run_len (free ! (pos - 1)) + run_len (free ! pos)\<rparr>])
      else free)"

text \<open>\<^verbatim>\<open>len.div_ceil(PAGE).max(1)\<close> and its conversion to \<^verbatim>\<open>u32\<close>.\<close>

definition pages_for :: "nat \<Rightarrow> nat option" where
  "pages_for len = (let n = max ((len + PAGE - 1) div PAGE) 1 in if n < 2 ^ 32 then Some n else None)"

definition buf_pool_new :: "nat \<Rightarrow> nat \<Rightarrow> memory \<Rightarrow> (buf_pool \<times> memory) option" where
  "buf_pool_new addr len m =
     (case pages_for len of
        None \<Rightarrow> None
      | Some n \<Rightarrow>
          let (_, m') = aligned_buf_zeroed addr (n * PAGE) m in
          Some (\<lparr>pool_base = addr, npages = n, free_runs = [\<lparr>run_start = 0, run_len = n\<rparr>],
                 free_pages = n, pool_waiters = [], pool_buf_index = None, send_arena = None\<rparr>, m'))"

definition arena :: "buf_pool \<Rightarrow> nat \<times> nat" where
  "arena p = (pool_base p, npages p * PAGE)"

definition set_buf_index :: "u16 \<Rightarrow> buf_pool \<Rightarrow> buf_pool" where
  "set_buf_index idx p = p\<lparr>pool_buf_index := Some idx\<rparr>"

definition take_buf_index :: "buf_pool \<Rightarrow> u16 option \<times> buf_pool" where
  "take_buf_index p = (pool_buf_index p, p\<lparr>pool_buf_index := None\<rparr>)"

definition page_ptr :: "buf_pool \<Rightarrow> nat \<Rightarrow> nat" where
  "page_ptr p page = pool_base p + page * PAGE"

text \<open>Take \<open>pages\<close> pages from the front of the first run that has them; the code has these lines
  in both \<^verbatim>\<open>reserve_arena\<close> and \<^verbatim>\<open>alloc\<close>.\<close>

definition take_run :: "nat \<Rightarrow> run list \<Rightarrow> (nat \<times> run list) option" where
  "take_run pages free =
     (case position (\<lambda>r. pages \<le> run_len r) free of
        None \<Rightarrow> None
      | Some i \<Rightarrow>
          let start = run_start (free ! i);
              free = free[i := \<lparr>run_start = start + pages, run_len = run_len (free ! i) - pages\<rparr>] in
          Some (start, if run_len (free ! i) = 0 then vec_remove i free else free))"

definition reserve_arena :: "nat \<Rightarrow> buf_pool \<Rightarrow> (nat \<times> nat) option \<times> buf_pool" where
  "reserve_arena len p =
     (case (pool_buf_index p, pages_for len) of
        (Some _, Some pages) \<Rightarrow>
          (case take_run pages (free_runs p) of
             None \<Rightarrow> (None, p)
           | Some (start, free) \<Rightarrow>
               let region = (page_ptr p start, pages * PAGE) in
               (Some region, p\<lparr>free_runs := free, free_pages := free_pages p - pages,
                               send_arena := Some region\<rparr>))
      | _ \<Rightarrow> (None, p))"

definition make_lease :: "seg list \<Rightarrow> nat \<Rightarrow> buf_pool \<Rightarrow> slot_data \<times> buf_pool" where
  "make_lease segs pages p =
     (\<lparr>sd_segs = segs, sd_len = pages * PAGE, sd_owner = OwnerPool\<rparr>,
      p\<lparr>free_pages := free_pages p - pages\<rparr>)"

text \<open>The dry run of the scatter path: \<^const>\<open>None\<close> is its early return, otherwise the pages
  still needed when the loop ends.\<close>

fun scatter_fits :: "nat \<Rightarrow> nat \<Rightarrow> run list \<Rightarrow> nat option" where
  "scatter_fits need count [] = Some need"
| "scatter_fits need count (r # rs) =
     (if need = 0 then Some need
      else if MAX_SEGS < count + 1 then None
      else scatter_fits (need - run_len r) (count + 1) rs)"

text \<open>The carving loop; indexing an empty list or past the segment array is a panic.\<close>

function carve :: "nat \<Rightarrow> nat \<Rightarrow> run list \<Rightarrow> seg list \<Rightarrow> (seg list \<times> run list) option" where
  "carve base need free segs =
     (if need = 0 then Some (segs, free)
      else case free of
        [] \<Rightarrow> None
      | r # rs \<Rightarrow>
          let n = min need (run_len r);
              r' = \<lparr>run_start = run_start r + n, run_len = run_len r - n\<rparr> in
          if MAX_SEGS \<le> length segs then None
          else carve base (need - n) (if run_len r' = 0 then rs else r' # rs)
            (segs @ [\<lparr>seg_ptr = base + run_start r * PAGE, seg_len = n * PAGE\<rparr>]))"
  by pat_completeness auto
termination
  by (relation "measure (\<lambda>(base, need, free, segs). need + length free)") auto

declare carve.simps [simp del]

definition pool_alloc :: "nat \<Rightarrow> buf_pool \<Rightarrow> (slot_data option \<times> buf_pool) option" where
  "pool_alloc len p =
     (case pages_for len of
        None \<Rightarrow> Some (None, p)
      | Some pages \<Rightarrow>
          if free_pages p < pages then Some (None, p)
          else case take_run pages (free_runs p) of
            Some (start, free) \<Rightarrow>
              let (d, p') = make_lease [\<lparr>seg_ptr = page_ptr p start, seg_len = pages * PAGE\<rparr>] pages
                              (p\<lparr>free_runs := free\<rparr>) in
              Some (Some d, p')
          | None \<Rightarrow>
              (case scatter_fits pages 0 (free_runs p) of
                 None \<Rightarrow> Some (None, p)
               | Some need \<Rightarrow>
                   if 0 < need then Some (None, p)
                   else case carve (pool_base p) pages (free_runs p) [] of
                     None \<Rightarrow> None
                   | Some (segs, free) \<Rightarrow>
                       let (d, p') = make_lease segs pages (p\<lparr>free_runs := free\<rparr>) in
                       Some (Some d, p')))"

text \<open>One poll of \<^verbatim>\<open>alloc_await\<close>.\<close>

definition alloc_poll :: "nat \<Rightarrow> nat \<Rightarrow> buf_pool \<Rightarrow> (slot_data poll \<times> buf_pool) option" where
  "alloc_poll waker len p =
     (case pool_alloc len p of
        None \<Rightarrow> None
      | Some (Some d, p') \<Rightarrow> Some (Ready d, p')
      | Some (None, p') \<Rightarrow> Some (Pending, p'\<lparr>pool_waiters := pool_waiters p' @ [waker]\<rparr>))"

fun free_segs_loop :: "nat \<Rightarrow> seg list \<Rightarrow> run list \<Rightarrow> nat \<Rightarrow> (run list \<times> nat) option" where
  "free_segs_loop base [] free freed = Some (free, freed)"
| "free_segs_loop base (s # ss) free freed =
     (let start = (seg_ptr s - base) div PAGE;
          len = seg_len s div PAGE in
      if seg_ptr s < base \<or> 2 ^ 32 \<le> start \<or> 2 ^ 32 \<le> len then None
      else free_segs_loop base ss (insert_run free \<lparr>run_start = start, run_len = len\<rparr>) (freed + len))"

definition free_segs :: "seg list \<Rightarrow> buf_pool \<Rightarrow> (buf_pool \<times> nat list) option" where
  "free_segs segs p =
     (case free_segs_loop (pool_base p) segs (free_runs p) 0 of
        None \<Rightarrow> None
      | Some (free, freed) \<Rightarrow>
          Some (p\<lparr>free_runs := free, free_pages := free_pages p + freed, pool_waiters := []\<rparr>,
                pool_waiters p))"

text \<open>Dropping a buffer: a pool lease returns its pages, a retained ring region returns the borrow
  of its sub-buffer, which is the third component.\<close>

definition slot_data_drop :: "slot_data \<Rightarrow> buf_pool \<Rightarrow> (buf_pool \<times> nat list \<times> u16 list) option" where
  "slot_data_drop d p =
     (case sd_owner d of
        OwnerPool \<Rightarrow> map_option (\<lambda>(p', ws). (p', ws, [])) (free_segs (sd_segs d) p)
      | OwnerRing bid \<Rightarrow> Some (p, [], [bid])
      | OwnerEmpty \<Rightarrow> Some (p, [], [])
      | OwnerOwned \<Rightarrow> Some (p, [], []))"

section \<open>Free runs as sets of pages\<close>

definition run_end :: "run \<Rightarrow> nat" where
  "run_end r = run_start r + run_len r"

definition run_pages :: "run \<Rightarrow> nat set" where
  "run_pages r = {run_start r..<run_end r}"

definition runs_pages :: "run list \<Rightarrow> nat set" where
  "runs_pages rs = (\<Union>r \<in> set rs. run_pages r)"

text \<open>Sorted, non-empty and coalesced: between two runs there is a page that is not free.\<close>

definition runs_ok :: "run list \<Rightarrow> bool" where
  "runs_ok rs \<longleftrightarrow> (\<forall>r \<in> set rs. 0 < run_len r) \<and> sorted_wrt (\<lambda>a b. run_end a < run_start b) rs"

lemma runs_pages_simps [simp]:
  "runs_pages [] = {}" "runs_pages (r # rs) = run_pages r \<union> runs_pages rs"
  "runs_pages (rs @ qs) = runs_pages rs \<union> runs_pages qs"
  by (auto simp: runs_pages_def)

lemma runs_ok_simps [simp]:
  "runs_ok []"
  "runs_ok (r # rs) \<longleftrightarrow> 0 < run_len r \<and> (\<forall>q \<in> set rs. run_end r < run_start q) \<and> runs_ok rs"
  "runs_ok (rs @ qs) \<longleftrightarrow> runs_ok rs \<and> runs_ok qs \<and>
     (\<forall>r \<in> set rs. \<forall>q \<in> set qs. run_end r < run_start q)"
  by (auto simp: runs_ok_def sorted_wrt_append)

lemma runs_pages_bounded: "(\<forall>q \<in> set rs. n < run_start q) \<Longrightarrow> x \<in> runs_pages rs \<Longrightarrow> n < x"
  by (force simp: runs_pages_def run_pages_def)

lemma finite_run_pages [simp]: "finite (run_pages r)" "finite (runs_pages rs)"
  by (simp_all add: runs_pages_def run_pages_def)

lemma card_run_pages [simp]: "card (run_pages r) = run_len r"
  by (simp add: run_pages_def run_end_def)

lemma runs_ok_disjoint_head: "runs_ok (r # rs) \<Longrightarrow> run_pages r \<inter> runs_pages rs = {}"
  using runs_pages_bounded [of rs "run_end r"] by (fastforce simp: run_pages_def)

lemma card_runs_pages: "runs_ok rs \<Longrightarrow> card (runs_pages rs) = sum_list (map run_len rs)"
proof (induction rs)
  case (Cons r rs)
  then show ?case using runs_ok_disjoint_head [of r rs] by (simp add: card_Un_disjoint)
qed simp

text \<open>The free list is a canonical form: it is determined by the set of free pages.\<close>

lemma runs_ok_canonical:
  "runs_ok rs \<Longrightarrow> runs_ok qs \<Longrightarrow> runs_pages rs = runs_pages qs \<Longrightarrow> rs = qs"
proof (induction rs arbitrary: qs)
  case Nil
  then show ?case by (cases qs) (auto simp: run_pages_def run_end_def)
next
  case (Cons r rs)
  then obtain q qs' where qs: "qs = q # qs'"
    by (cases qs) (auto simp: run_pages_def run_end_def)
  have r: "0 < run_len r" "\<And>x. x \<in> runs_pages rs \<Longrightarrow> run_end r < x"
    using Cons.prems(1) by (simp_all add: runs_pages_bounded [of rs])
  have q: "0 < run_len q" "\<And>x. x \<in> runs_pages qs' \<Longrightarrow> run_end q < x"
    using Cons.prems(2) qs by (simp_all add: runs_pages_bounded [of qs'])
  have eq: "x \<in> run_pages r \<or> x \<in> runs_pages rs \<longleftrightarrow> x \<in> run_pages q \<or> x \<in> runs_pages qs'" for x
    using Cons.prems(3) qs by auto
  have mem: "x \<in> run_pages p \<longleftrightarrow> run_start p \<le> x \<and> x < run_end p" for x and p :: run
    by (simp add: run_pages_def)
  have ends: "run_start r < run_end r" "run_start q < run_end q" using r q by (auto simp: run_end_def)
  have rq_le: "run_start q \<le> run_start r"
  proof -
    have "run_start r \<in> run_pages q \<or> run_start r \<in> runs_pages qs'" using eq ends mem by blast
    then show ?thesis using ends by (elim disjE) (auto simp: mem dest!: q(2))
  qed
  moreover have "run_start r \<le> run_start q"
  proof -
    have "run_start q \<in> run_pages r \<or> run_start q \<in> runs_pages rs" using eq ends mem by blast
    then show ?thesis using ends by (elim disjE) (auto simp: mem dest!: r(2))
  qed
  ultimately have s: "run_start r = run_start q" by simp
  have "run_end r \<notin> run_pages q"
    using eq [of "run_end r"] by (auto simp: mem dest!: r(2))
  moreover have "run_end q \<notin> run_pages r"
    using eq [of "run_end q"] by (auto simp: mem dest!: q(2))
  ultimately have e: "run_end r = run_end q" using s ends by (auto simp: mem)
  have "run_len r = run_len q" using s e by (simp add: run_end_def)
  then have rq: "r = q" using s by simp
  have "x \<in> runs_pages rs \<longleftrightarrow> x \<in> runs_pages qs'" for x
    using eq [of x] r(2) [of x] q(2) [of x] rq by (auto simp: mem)
  then have "runs_pages rs = runs_pages qs'" by blast
  then show ?case using Cons.IH [of qs'] Cons.prems qs rq by simp
qed

lemma vec_insert_append [simp]: "vec_insert (length xs) y (xs @ ys) = xs @ y # ys"
  by (simp add: vec_insert_def)

lemma vec_remove_Suc [simp]: "vec_remove (Suc (length ys)) (ys @ x # y # zs) = ys @ x # zs"
  by (simp add: vec_remove_def)

definition run_join :: "run \<Rightarrow> run \<Rightarrow> run" where
  "run_join a b = a\<lparr>run_len := run_len a + run_len b\<rparr>"

lemma run_join [simp]:
  "run_start (run_join a b) = run_start a"
  "run_len (run_join a b) = run_len a + run_len b"
  "run_end a = run_start b \<Longrightarrow> run_end (run_join a b) = run_end b"
  "run_end a = run_start b \<Longrightarrow> run_pages (run_join a b) = run_pages a \<union> run_pages b"
  by (auto simp: run_join_def run_end_def run_pages_def)

text \<open>What the two merging steps do around the insertion point.\<close>

definition join_next :: "run \<Rightarrow> run list \<Rightarrow> run list" where
  "join_next r ys = (case ys of [] \<Rightarrow> [r] | y # ys' \<Rightarrow>
     if run_end r = run_start y then run_join r y # ys' else r # ys)"

definition join_prev :: "run list \<Rightarrow> run list \<Rightarrow> run list" where
  "join_prev xs zs = (if xs \<noteq> [] \<and> run_end (last xs) = run_start (hd zs)
     then butlast xs @ run_join (last xs) (hd zs) # tl zs else xs @ zs)"

lemma insert_run_split:
  assumes "xs = takeWhile (\<lambda>r. run_start r < run_start run) free" "free = xs @ ys"
  shows "insert_run free run = join_prev xs (join_next run ys)"
proof -
  have pos: "length (takeWhile (\<lambda>r. run_start r < run_start run) free) = length xs" using assms by simp
  have "join_next run ys \<noteq> []" by (auto simp: join_next_def split: list.splits)
  then obtain r zs where rz: "join_next run ys = r # zs" by (cases "join_next run ys") auto
  let ?f = "vec_insert (length xs) run free"
  have f: "?f = xs @ run # ys" using assms by simp
  have nxt: "(if length xs + 1 < length ?f \<and>
        run_start (?f ! length xs) + run_len (?f ! length xs) = run_start (?f ! (length xs + 1))
      then vec_remove (length xs + 1) (?f[length xs := (?f ! length xs)\<lparr>run_len :=
        run_len (?f ! length xs) + run_len (?f ! (length xs + 1))\<rparr>]) else ?f) = xs @ r # zs"
    using rz unfolding f
    by (cases ys) (auto simp: join_next_def run_join_def run_end_def nth_append split: if_splits)
  show ?thesis
  proof (cases xs rule: rev_cases)
    case Nil
    then show ?thesis
      unfolding insert_run_def pos Let_def nxt using rz by (simp add: join_prev_def)
  next
    case (snoc xs' x)
    have "xs @ r # zs = xs' @ x # r # zs" "length xs = Suc (length xs')" using snoc by simp_all
    then show ?thesis
      unfolding insert_run_def pos Let_def nxt using rz snoc
      by (simp add: join_prev_def run_end_def run_join_def nth_append)
  qed
qed

lemma join_next_ok:
  assumes "0 < run_len r" "runs_ok ys" "\<forall>q \<in> set ys. run_end r \<le> run_start q"
  shows "runs_ok (join_next r ys)" "runs_pages (join_next r ys) = run_pages r \<union> runs_pages ys"
    "run_start (hd (join_next r ys)) = run_start r" "join_next r ys \<noteq> []"
proof -
  have "run_end r < run_start q" if "ys = y # ys'" "run_end r \<noteq> run_start y" "q \<in> set ys'" for y ys' q
    using that assms by (force simp: run_end_def)
  moreover have "run_end y < run_start q" if "ys = y # ys'" "q \<in> set ys'" for y ys' q
    using that assms by auto
  ultimately show "runs_ok (join_next r ys)" "runs_pages (join_next r ys) = run_pages r \<union> runs_pages ys"
    "run_start (hd (join_next r ys)) = run_start r" "join_next r ys \<noteq> []"
    using assms by (auto simp: join_next_def Un_assoc run_end_def [of r] split: list.splits if_splits)
qed

lemma join_prev_ok:
  assumes "runs_ok xs" "runs_ok zs" "zs \<noteq> []" "\<forall>x \<in> set xs. run_end x \<le> run_start (hd zs)"
  shows "runs_ok (join_prev xs zs)" "runs_pages (join_prev xs zs) = runs_pages xs \<union> runs_pages zs"
proof -
  obtain z zs' where zs: "zs = z # zs'" using assms(3) by (cases zs) auto
  have "runs_ok (join_prev xs zs) \<and> runs_pages (join_prev xs zs) = runs_pages xs \<union> runs_pages zs"
  proof (cases xs rule: rev_cases)
    case Nil
    then show ?thesis using assms zs by (simp add: join_prev_def)
  next
    case (snoc xs' x)
    have far: "run_end q < run_start p" if "q \<in> set xs'" "p \<in> set zs" for q p
    proof -
      have "run_end q < run_start x" "run_start x \<le> run_end x" "run_end x \<le> run_start z"
        using that assms snoc zs by (auto simp: run_end_def)
      moreover have "run_start z \<le> run_start p" using that assms zs by (auto simp: run_end_def)
      ultimately show ?thesis by simp
    qed
    show ?thesis
    proof (cases "run_end x = run_start z")
      case True
      then show ?thesis
        using assms snoc zs far by (auto simp: join_prev_def)
    next
      case False
      then have "run_end x < run_start p" if "p \<in> set zs" for p
        using that assms zs snoc by (force simp: run_end_def)
      then show ?thesis using False assms snoc zs far by (auto simp: join_prev_def)
    qed
  qed
  then show "runs_ok (join_prev xs zs)" "runs_pages (join_prev xs zs) = runs_pages xs \<union> runs_pages zs"
    by simp_all
qed

text \<open>Inserting a run that was not free keeps the list canonical and adds exactly its pages.\<close>

lemma insert_run_ok:
  assumes ok: "runs_ok free" and len: "0 < run_len run" and dj: "run_pages run \<inter> runs_pages free = {}"
  shows "runs_ok (insert_run free run)" "runs_pages (insert_run free run) = run_pages run \<union> runs_pages free"
proof -
  define xs where "xs = takeWhile (\<lambda>r. run_start r < run_start run) free"
  define ys where "ys = dropWhile (\<lambda>r. run_start r < run_start run) free"
  have f: "free = xs @ ys" by (simp add: xs_def ys_def)
  have okxy: "runs_ok xs" "runs_ok ys" using ok f by simp_all
  have out: "run_start run \<notin> run_pages r" "run_start r \<notin> run_pages run" if "r \<in> set free" for r
  proof -
    have "run_pages r \<subseteq> runs_pages free" using that by (auto simp: runs_pages_def)
    moreover have "run_start run \<in> run_pages run" "run_start r \<in> run_pages r"
      using len ok that by (auto simp: run_pages_def run_end_def runs_ok_def)
    ultimately show "run_start run \<notin> run_pages r" "run_start r \<notin> run_pages run" using dj by blast+
  qed
  have xs: "run_end r \<le> run_start run" if "r \<in> set xs" for r
  proof -
    have "run_start r < run_start run" "r \<in> set free"
      using that unfolding xs_def by (auto dest: set_takeWhileD)
    then show ?thesis using out(1) [of r] by (simp add: run_pages_def)
  qed
  have hd: "run_start run \<le> run_start q" if "q \<in> set ys" for q
  proof (cases ys)
    case (Cons y ys')
    have "\<not> run_start y < run_start run" using Cons hd_dropWhile [of "\<lambda>r. run_start r < run_start run" free]
      by (simp add: ys_def)
    then show ?thesis using Cons okxy(2) that by (auto simp: run_end_def)
  qed (use that in simp)
  have ys: "run_end run \<le> run_start q" if "q \<in> set ys" for q
  proof -
    have "q \<in> set free" using that f by simp
    then show ?thesis using hd [OF that] out(2) [of q] by (simp add: run_pages_def)
  qed
  note jn = join_next_ok [OF len okxy(2)]
  have jp: "runs_ok (join_prev xs (join_next run ys))"
    "runs_pages (join_prev xs (join_next run ys)) = runs_pages xs \<union> runs_pages (join_next run ys)"
    using join_prev_ok [OF okxy(1), of "join_next run ys"] jn ys xs by simp_all
  show "runs_ok (insert_run free run)" "runs_pages (insert_run free run) = run_pages run \<union> runs_pages free"
    unfolding insert_run_split [OF xs_def f] using jp jn ys f by auto
qed

section \<open>Allocation\<close>

definition seg_of_run :: "nat \<Rightarrow> run \<Rightarrow> seg" where
  "seg_of_run base r = \<lparr>seg_ptr = base + run_start r * PAGE, seg_len = run_len r * PAGE\<rparr>"

definition seg_run :: "nat \<Rightarrow> seg \<Rightarrow> run" where
  "seg_run base s = \<lparr>run_start = (seg_ptr s - base) div PAGE, run_len = seg_len s div PAGE\<rparr>"

lemma PAGE_pos [simp]: "0 < PAGE"
  by (simp add: PAGE_def)

lemma seg_run_of_run [simp]: "seg_run base (seg_of_run base r) = r"
  by (simp add: seg_run_def seg_of_run_def)

lemma runs_pages_around:
  assumes "runs_ok (ys @ r # zs)"
  shows "x \<in> runs_pages ys \<Longrightarrow> x < run_start r" "x \<in> runs_pages zs \<Longrightarrow> run_end r < x"
proof -
  show "x < run_start r" if x: "x \<in> runs_pages ys"
  proof -
    obtain y where y: "y \<in> set ys" "x < run_end y" using x by (auto simp: runs_pages_def run_pages_def)
    then have "run_end y < run_start r" using assms by simp
    then show ?thesis using y by simp
  qed
  show "run_end r < x" if "x \<in> runs_pages zs"
    using assms that runs_pages_bounded [of zs "run_end r" x] by simp
qed

lemma run_start_in_pages: "runs_ok rs \<Longrightarrow> r \<in> set rs \<Longrightarrow> run_start r \<in> runs_pages rs"
  by (auto simp: runs_ok_def runs_pages_def run_pages_def run_end_def)

text \<open>First fit: the pages taken are the front of a free run.\<close>

lemma take_run_ok:
  assumes ok: "runs_ok free" and n: "0 < pages" and t: "take_run pages free = Some (start, free')"
  shows "{start..<start + pages} \<subseteq> runs_pages free" "runs_ok free'"
    "runs_pages free' = runs_pages free - {start..<start + pages}"
proof -
  obtain ys r zs where f: "free = ys @ r # zs" and fit: "pages \<le> run_len r" and start: "start = run_start r"
    and f': "free' = ys @ (if run_len r = pages then zs
      else \<lparr>run_start = run_start r + pages, run_len = run_len r - pages\<rparr> # zs)"
  proof -
    obtain i where i: "position (\<lambda>r. pages \<le> run_len r) free = Some i"
      using t by (auto simp: take_run_def split: option.splits)
    then obtain ys r zs where s: "free = ys @ r # zs" "length ys = i" "pages \<le> run_len r"
      by (rule position_split) auto
    then have "start = run_start r" "free' = ys @ (if run_len r = pages then zs
      else \<lparr>run_start = run_start r + pages, run_len = run_len r - pages\<rparr> # zs)"
      using t i by (auto simp: take_run_def Let_def)
    with s show thesis by (intro that)
  qed
  let ?r = "\<lparr>run_start = run_start r + pages, run_len = run_len r - pages\<rparr>"
  note around = runs_pages_around [OF ok [unfolded f]]
  have pages: "run_pages r = {start..<start + pages} \<union> run_pages ?r" "run_end ?r = run_end r"
    using fit start by (auto simp: run_pages_def run_end_def)
  have notin: "x \<notin> {start..<start + pages}" if "x \<in> runs_pages ys \<union> runs_pages zs \<union> run_pages ?r" for x
    using that around [of x] fit start by (auto simp: run_end_def run_pages_def)
  show "{start..<start + pages} \<subseteq> runs_pages free" using f pages(1) by auto
  show "runs_ok free'" using ok f f' pages(2) fit n by (force simp: run_end_def)
  have "runs_pages free' = runs_pages ys \<union> run_pages ?r \<union> runs_pages zs"
    using f' by (auto simp: run_pages_def run_end_def)
  then show "runs_pages free' = runs_pages free - {start..<start + pages}"
    using f pages(1) notin by auto
qed

lemma take_run_None: "take_run pages free = None \<longleftrightarrow> (\<forall>r \<in> set free. run_len r < pages)"
proof -
  have "take_run pages free = None \<longleftrightarrow> position (\<lambda>r. pages \<le> run_len r) free = None"
    by (auto simp: take_run_def Let_def split: option.splits)
  then show ?thesis by (simp add: position_None not_le)
qed

lemma scatter_fits_Some:
  "scatter_fits need count rs = Some k \<Longrightarrow> k = need - sum_list (map run_len rs)"
  by (induction need count rs rule: scatter_fits.induct) (auto split: if_splits)

text \<open>A request of at most as many pages as there are segments always fits: every run has a page.\<close>

lemma scatter_fits_small:
  "runs_ok rs \<Longrightarrow> count + need \<le> MAX_SEGS \<Longrightarrow>
    scatter_fits need count rs = Some (need - sum_list (map run_len rs))"
  by (induction need count rs rule: scatter_fits.induct) auto

lemma carve_0 [simp]: "carve base 0 free segs = Some (segs, free)"
  by (subst carve.simps) simp

lemma carve_Cons:
  "0 < need \<Longrightarrow> length segs < MAX_SEGS \<Longrightarrow> carve base need (r # rs) segs =
    (let n = min need (run_len r);
         r' = \<lparr>run_start = run_start r + n, run_len = run_len r - n\<rparr> in
     carve base (need - n) (if run_len r' = 0 then rs else r' # rs)
       (segs @ [\<lparr>seg_ptr = base + run_start r * PAGE, seg_len = n * PAGE\<rparr>]))"
  by (subst carve.simps) (simp add: Let_def)

lemma carve_ok:
  assumes "runs_ok free" "scatter_fits need (length segs) free = Some 0" "length segs \<le> MAX_SEGS"
  shows "\<exists>rs free'. carve base need free segs = Some (segs @ map (seg_of_run base) rs, free') \<and>
    runs_ok rs \<and> runs_ok free' \<and> runs_pages rs \<union> runs_pages free' = runs_pages free \<and>
    runs_pages rs \<inter> runs_pages free' = {} \<and> sum_list (map run_len rs) = need \<and>
    length segs + length rs \<le> MAX_SEGS"
  using assms
proof (induction free arbitrary: need segs)
  case Nil
  then show ?case by simp
next
  case (Cons r free)
  have above: "\<And>x. x \<in> runs_pages free \<Longrightarrow> run_end r < x"
    using runs_pages_around(2) [of "[]" r free] Cons.prems(1) by simp
  note head = runs_ok_disjoint_head [OF Cons.prems(1)]
  consider (zero) "need = 0" | (part) "0 < need" "need < run_len r" | (whole) "0 < need" "run_len r \<le> need"
    by linarith
  then show ?case
  proof cases
    case zero
    then show ?thesis using Cons.prems by (intro exI [of _ "[]"] exI [of _ "r # free"]) simp
  next
    case part
    have room: "length segs < MAX_SEGS" using Cons.prems(2) part by (auto split: if_splits)
    let ?a = "\<lparr>run_start = run_start r, run_len = need\<rparr>"
    let ?b = "\<lparr>run_start = run_start r + need, run_len = run_len r - need\<rparr>"
    have c: "carve base need (r # free) segs = Some (segs @ map (seg_of_run base) [?a], ?b # free)"
      using part room by (subst carve.simps) (simp add: seg_of_run_def Let_def)
    have u: "run_pages ?a \<union> run_pages ?b = run_pages r" "run_pages ?a \<inter> run_pages ?b = {}"
      and e: "run_end ?b = run_end r"
      using part by (auto simp: run_pages_def run_end_def)
    have d: "run_pages ?a \<inter> runs_pages free = {}" using head u(1) by blast
    have ok: "runs_ok [?a]" "runs_ok (?b # free)" using Cons.prems(1) part e by simp_all
    have s: "runs_pages [?a] \<union> runs_pages (?b # free) = runs_pages (r # free)" using u(1) by auto
    have i: "runs_pages [?a] \<inter> runs_pages (?b # free) = {}" using u(2) d by auto
    show ?thesis
      using room by (intro exI [of _ "[?a]"] exI [of _ "?b # free"] conjI c ok s i) simp_all
  next
    case whole
    have room: "length segs < MAX_SEGS" using Cons.prems(2) whole by (auto split: if_splits)
    let ?segs = "segs @ [seg_of_run base r]"
    have "scatter_fits (need - run_len r) (length ?segs) free = Some 0"
      using Cons.prems(2) whole by (auto split: if_splits)
    then obtain rs free' where ih: "carve base (need - run_len r) free ?segs =
        Some (?segs @ map (seg_of_run base) rs, free')"
      "runs_ok rs" "runs_ok free'" "runs_pages rs \<union> runs_pages free' = runs_pages free"
      "runs_pages rs \<inter> runs_pages free' = {}" "sum_list (map run_len rs) = need - run_len r"
      "length ?segs + length rs \<le> MAX_SEGS"
      using Cons.IH [of "need - run_len r" ?segs] Cons.prems(1) room by auto
    have c: "carve base need (r # free) segs = Some (segs @ map (seg_of_run base) (r # rs), free')"
      using whole room ih(1) by (subst carve.simps) (simp add: seg_of_run_def Let_def min_absorb2)
    have "run_end r < run_start q" if "q \<in> set rs" for q
      using above run_start_in_pages [OF ih(2) that] ih(4) by auto
    then have ok: "runs_ok (r # rs)" using Cons.prems(1) ih(2) by simp
    have s: "runs_pages (r # rs) \<union> runs_pages free' = runs_pages (r # free)" using ih(4) by auto
    have i: "runs_pages (r # rs) \<inter> runs_pages free' = {}" using head ih(4,5) by auto
    show ?thesis
      using whole ih(6,7) by (intro exI [of _ "r # rs"] exI [of _ free'] conjI c ok s i ih(3)) simp_all
  qed
qed

section \<open>The pool invariant\<close>

text \<open>\<open>used\<close> are the pages leased out or reserved: together with the free pages they are all pages
  of the arena.\<close>

definition pool_inv :: "buf_pool \<Rightarrow> nat set \<Rightarrow> bool" where
  "pool_inv p used \<longleftrightarrow> runs_ok (free_runs p) \<and> free_pages p = sum_list (map run_len (free_runs p)) \<and>
     npages p < 2 ^ 32 \<and> runs_pages (free_runs p) \<inter> used = {} \<and>
     runs_pages (free_runs p) \<union> used = {0..<npages p}"

definition lease_runs :: "buf_pool \<Rightarrow> slot_data \<Rightarrow> run list" where
  "lease_runs p d = map (seg_run (pool_base p)) (sd_segs d)"

definition lease_pages :: "buf_pool \<Rightarrow> slot_data \<Rightarrow> nat set" where
  "lease_pages p d = runs_pages (lease_runs p d)"

text \<open>A lease of the pool: ascending runs of whole pages of the arena.\<close>

definition lease_wf :: "buf_pool \<Rightarrow> slot_data \<Rightarrow> bool" where
  "lease_wf p d \<longleftrightarrow> sd_owner d = OwnerPool \<and>
     sd_segs d = map (seg_of_run (pool_base p)) (lease_runs p d) \<and> runs_ok (lease_runs p d) \<and>
     sd_len d = sum_list (map run_len (lease_runs p d)) * PAGE \<and> length (sd_segs d) \<le> MAX_SEGS"

lemma lease_cong:
  assumes "pool_base p' = pool_base p"
  shows "lease_runs p' d = lease_runs p d" "lease_pages p' d = lease_pages p d"
    "lease_wf p' d = lease_wf p d"
  using assms by (simp_all add: lease_runs_def lease_pages_def lease_wf_def)

lemma free_pages_card: "pool_inv p used \<Longrightarrow> free_pages p = card (runs_pages (free_runs p))"
  by (simp add: pool_inv_def card_runs_pages)

lemma pages_for_pos: "pages_for len = Some n \<Longrightarrow> 0 < n \<and> len \<le> n * PAGE \<and> n < 2 ^ 32"
proof -
  assume a: "pages_for len = Some n"
  then have n: "n = max ((len + PAGE - 1) div PAGE) 1" "n < 2 ^ 32"
    by (auto simp: pages_for_def Let_def split: if_splits)
  have "len \<le> (len + PAGE - 1) div PAGE * PAGE"
    using div_mult_mod_eq [of "len + PAGE - 1" PAGE] mod_less_divisor [of PAGE "len + PAGE - 1"]
    by (simp add: PAGE_def)
  also have "\<dots> \<le> n * PAGE" using n(1) by (intro mult_le_mono1) simp
  finally show ?thesis using n by simp
qed

lemma buf_pool_new_inv:
  assumes "buf_pool_new addr len m = Some (p, m')"
  shows "pool_inv p {}" "pool_waiters p = []" "pool_base p = addr" "0 < npages p"
  using assms pages_for_pos [of len]
  by (auto simp: buf_pool_new_def pool_inv_def run_pages_def run_end_def aligned_buf_zeroed_def
      split: option.splits)

lemma lease_of_runs:
  assumes "runs_ok rs" "length rs \<le> MAX_SEGS"
    "d = \<lparr>sd_segs = map (seg_of_run (pool_base p)) rs, sd_len = sum_list (map run_len rs) * PAGE,
          sd_owner = OwnerPool\<rparr>"
  shows "lease_wf p d" "lease_pages p d = runs_pages rs"
proof -
  have "lease_runs p d = rs" using assms(3) by (simp add: lease_runs_def comp_def)
  then show "lease_wf p d" "lease_pages p d = runs_pages rs"
    using assms by (simp_all add: lease_wf_def lease_pages_def)
qed

lemma pool_inv_take:
  assumes inv: "pool_inv p used" and ok: "runs_ok free'"
    and split: "S \<union> runs_pages free' = runs_pages (free_runs p)" "S \<inter> runs_pages free' = {}"
    and n: "card S = n"
  shows "pool_inv (p\<lparr>free_runs := free', free_pages := free_pages p - n\<rparr>) (used \<union> S)"
    "S \<inter> used = {}" "S \<subseteq> runs_pages (free_runs p)"
proof -
  have fin: "finite S" using split(1) by (metis finite_Un finite_run_pages(2))
  have "free_pages p = n + sum_list (map run_len free')"
    using free_pages_card [OF inv] card_Un_disjoint [OF fin _ split(2)] n split(1) card_runs_pages [OF ok]
    by simp
  then show "pool_inv (p\<lparr>free_runs := free', free_pages := free_pages p - n\<rparr>) (used \<union> S)"
    using inv ok split by (auto simp: pool_inv_def)
  show "S \<inter> used = {}" "S \<subseteq> runs_pages (free_runs p)"
    using inv split by (auto simp: pool_inv_def)
qed

text \<open>A successful allocation leases pages that were free; a refused one changes nothing.\<close>

lemma pool_alloc_spec:
  assumes inv: "pool_inv p used"
  obtains (refused) "pool_alloc len p = Some (None, p)"
      "pages_for len = None \<or> (\<exists>n. pages_for len = Some n \<and>
        (free_pages p < n \<or> (\<forall>r \<in> set (free_runs p). run_len r < n) \<and> scatter_fits n 0 (free_runs p) = None))"
  | (leased) d p' n f k where "pool_alloc len p = Some (Some d, p')" "pages_for len = Some n"
      "lease_wf p d" "sd_len d = n * PAGE" "card (lease_pages p d) = n"
      "lease_pages p d \<subseteq> runs_pages (free_runs p)" "lease_pages p d \<inter> used = {}"
      "pool_inv p' (used \<union> lease_pages p d)"
      "p' = p\<lparr>free_runs := f, free_pages := k\<rparr>"
proof -
  have ok: "runs_ok (free_runs p)" using inv by (simp add: pool_inv_def)
  show thesis
  proof (cases "pages_for len")
    case None
    then show thesis by (intro refused) (simp_all add: pool_alloc_def)
  next
    case (Some n)
    have n: "0 < n" using pages_for_pos [OF Some] by simp
    have lease: thesis if a: "pool_alloc len p = Some (Some
          \<lparr>sd_segs = map (seg_of_run (pool_base p)) rs, sd_len = n * PAGE, sd_owner = OwnerPool\<rparr>,
          p\<lparr>free_runs := free', free_pages := free_pages p - n\<rparr>)"
      and rs: "runs_ok rs" "length rs \<le> MAX_SEGS" "sum_list (map run_len rs) = n"
      and f: "runs_ok free'" "runs_pages rs \<union> runs_pages free' = runs_pages (free_runs p)"
        "runs_pages rs \<inter> runs_pages free' = {}" for rs free'
    proof -
      define d where "d = \<lparr>sd_segs = map (seg_of_run (pool_base p)) rs, sd_len = n * PAGE, sd_owner = OwnerPool\<rparr>"
      have l: "lease_wf p d" "lease_pages p d = runs_pages rs"
        using lease_of_runs [OF rs(1,2), of d p] rs(3) by (simp_all add: d_def)
      have c: "card (runs_pages rs) = n" using card_runs_pages [OF rs(1)] rs(3) by simp
      note t = pool_inv_take [OF inv f c]
      show thesis
        by (rule leased [OF a [folded d_def] Some]) (use l c t in \<open>simp_all add: d_def\<close>)
    qed
    show thesis
    proof (cases "free_pages p < n")
      case True
      then show thesis using Some by (intro refused) (simp_all add: pool_alloc_def)
    next
      case enough: False
      show thesis
      proof (cases "take_run n (free_runs p)")
        case t: (Some sf)
        obtain start free' where sf: "sf = (start, free')" by (cases sf)
        note tr = take_run_ok [OF ok n t [unfolded sf]]
        let ?r = "\<lparr>run_start = start, run_len = n\<rparr>"
        have rp: "run_pages ?r = {start..<start + n}" by (simp add: run_pages_def run_end_def)
        show thesis
          by (rule lease [of "[?r]" free'])
            (use Some enough t sf n tr in \<open>auto simp: pool_alloc_def make_lease_def seg_of_run_def
              page_ptr_def MAX_SEGS_def rp\<close>)
      next
        case None
        then have small: "\<forall>r \<in> set (free_runs p). run_len r < n" by (simp add: take_run_None)
        show thesis
        proof (cases "scatter_fits n 0 (free_runs p)")
          case sc: None
          then show thesis
            using Some None enough small by (intro refused) (auto simp: pool_alloc_def)
        next
          case sc: (Some k)
          have "k = 0" using scatter_fits_Some [OF sc] enough inv by (simp add: pool_inv_def)
          then obtain rs free' where c: "carve (pool_base p) n (free_runs p) [] =
              Some (map (seg_of_run (pool_base p)) rs, free')" "runs_ok rs" "runs_ok free'"
            "runs_pages rs \<union> runs_pages free' = runs_pages (free_runs p)"
            "runs_pages rs \<inter> runs_pages free' = {}" "sum_list (map run_len rs) = n" "length rs \<le> MAX_SEGS"
            using carve_ok [OF ok, of n "[]" "pool_base p"] sc by auto
          show thesis
            by (rule lease [of rs free'])
              (use Some None enough sc \<open>k = 0\<close> c in \<open>auto simp: pool_alloc_def make_lease_def\<close>)
        qed
      qed
    qed
  qed
qed

lemma free_segs_loop_ok:
  assumes "runs_ok free" "runs_ok rs" "runs_pages rs \<inter> runs_pages free = {}"
    "runs_pages rs \<subseteq> {0..<N}" "N < 2 ^ 32"
  shows "\<exists>free'. free_segs_loop base (map (seg_of_run base) rs) free freed =
      Some (free', freed + sum_list (map run_len rs)) \<and>
    runs_ok free' \<and> runs_pages free' = runs_pages rs \<union> runs_pages free"
  using assms
proof (induction rs arbitrary: free freed)
  case (Cons r rs)
  have r: "0 < run_len r" "run_pages r \<inter> runs_pages free = {}" "run_pages r \<inter> runs_pages rs = {}"
    using Cons.prems runs_ok_disjoint_head [of r rs] by auto
  have "run_pages r \<subseteq> {0..<N}" using Cons.prems(4) by simp
  then have "run_end r \<le> N" using r(1) by (simp add: run_pages_def run_end_def)
  then have b: "run_start r < 2 ^ 32" "run_len r < 2 ^ 32" using Cons.prems(5) by (simp_all add: run_end_def)
  note ins = insert_run_ok [OF Cons.prems(1) r(1,2)]
  have "runs_pages rs \<inter> runs_pages (insert_run free r) = {}" using Cons.prems(3) r(3) ins(2) by auto
  moreover have "runs_ok rs" "runs_pages rs \<subseteq> {0..<N}" using Cons.prems by auto
  ultimately obtain free' where ih: "free_segs_loop base (map (seg_of_run base) rs) (insert_run free r)
      (freed + run_len r) = Some (free', freed + run_len r + sum_list (map run_len rs))"
    "runs_ok free'" "runs_pages free' = runs_pages rs \<union> runs_pages (insert_run free r)"
    using Cons.IH [OF ins(1)] Cons.prems(5) by blast
  have "free_segs_loop base (map (seg_of_run base) (r # rs)) free freed =
      free_segs_loop base (map (seg_of_run base) rs) (insert_run free r) (freed + run_len r)"
    using b by (cases r) (simp add: seg_of_run_def Let_def)
  then show ?case using ih ins(2) by (auto simp: add.assoc)
qed simp

text \<open>Returning a lease frees exactly its pages and wakes every parked task.\<close>

lemma free_segs_ok:
  assumes inv: "pool_inv p used" and wf: "lease_wf p d" and used: "lease_pages p d \<subseteq> used"
  obtains p' f k where "free_segs (sd_segs d) p = Some (p', pool_waiters p)"
    "pool_inv p' (used - lease_pages p d)" "pool_waiters p' = []"
    "runs_pages (free_runs p') = lease_pages p d \<union> runs_pages (free_runs p)"
    "p' = p\<lparr>free_runs := f, free_pages := k, pool_waiters := []\<rparr>"
proof -
  let ?rs = "lease_runs p d"
  have rs: "runs_ok ?rs" "sd_segs d = map (seg_of_run (pool_base p)) ?rs"
    using wf by (simp_all add: lease_wf_def)
  have ok: "runs_ok (free_runs p)" and N: "npages p < 2 ^ 32" using inv by (simp_all add: pool_inv_def)
  have dj: "runs_pages ?rs \<inter> runs_pages (free_runs p) = {}" "runs_pages ?rs \<subseteq> {0..<npages p}"
    using inv used unfolding pool_inv_def lease_pages_def by blast+
  obtain free' where f: "free_segs_loop (pool_base p) (sd_segs d) (free_runs p) 0 =
      Some (free', sum_list (map run_len ?rs))" "runs_ok free'"
    "runs_pages free' = runs_pages ?rs \<union> runs_pages (free_runs p)"
    using free_segs_loop_ok [OF ok rs(1) dj N, of "pool_base p" 0] rs(2) by auto
  let ?p = "p\<lparr>free_runs := free', free_pages := free_pages p + sum_list (map run_len ?rs), pool_waiters := []\<rparr>"
  have "sum_list (map run_len free') = free_pages p + sum_list (map run_len ?rs)"
    using card_runs_pages [OF f(2)] card_Un_disjoint [OF _ _ dj(1)] f(3) card_runs_pages [OF rs(1)]
      free_pages_card [OF inv]
    by simp
  then have "pool_inv ?p (used - lease_pages p d)"
    using inv f(2,3) used unfolding pool_inv_def lease_pages_def by auto
  then show thesis
    using f by (intro that [of ?p]) (simp_all add: free_segs_def lease_pages_def)
qed

text \<open>Because the free list is canonical, leasing and dropping restores the pool itself.\<close>

lemma alloc_drop_restores:
  assumes inv: "pool_inv p used" and a: "pool_alloc len p = Some (Some d, p')"
  shows "slot_data_drop d p' = Some (p\<lparr>pool_waiters := []\<rparr>, pool_waiters p, [])"
  using inv
proof (cases rule: pool_alloc_spec [where len = len])
  case refused
  then show ?thesis using a by simp
next
  case (leased d2 p2 n f k)
  then have eq: "d2 = d" "p2 = p'" using a by simp_all
  have same: "pool_base p' = pool_base p" "pool_waiters p' = pool_waiters p" "npages p' = npages p"
    using leased(9) eq by simp_all
  then have wf: "lease_wf p' d" "lease_pages p' d = lease_pages p d"
    using leased(3) eq lease_cong [of p' p d] by simp_all
  have inv': "pool_inv p' (used \<union> lease_pages p d)" using leased(8) eq by simp
  have sub: "lease_pages p' d \<subseteq> used \<union> lease_pages p d" using wf by simp
  obtain q g j where q: "free_segs (sd_segs d) p' = Some (q, pool_waiters p')"
    "pool_inv q ((used \<union> lease_pages p d) - lease_pages p' d)"
    "q = p'\<lparr>free_runs := g, free_pages := j, pool_waiters := []\<rparr>"
    using free_segs_ok [OF inv' wf(1) sub] by metis
  have u: "(used \<union> lease_pages p d) - lease_pages p' d = used" using leased(7) eq wf(2) by auto
  have pages: "runs_pages (free_runs q) = runs_pages (free_runs p)"
    using inv q(2) same(3) unfolding u pool_inv_def q(3) by auto
  have free: "free_runs q = free_runs p"
    using runs_ok_canonical [OF _ _ pages] q(2) inv by (simp add: pool_inv_def)
  then have "free_pages q = free_pages p" using q(2) inv by (simp add: pool_inv_def)
  then have "q = p\<lparr>pool_waiters := []\<rparr>"
    using free leased(9) eq q(3) by simp
  moreover have "sd_owner d = OwnerPool" using wf(1) by (simp add: lease_wf_def)
  ultimately show ?thesis using q(1) same(2) by (simp add: slot_data_drop_def)
qed

section \<open>Leases as memory\<close>

lemma run_addrs_disjoint:
  assumes "run_pages a \<inter> run_pages b = {}"
  shows "seg_addrs (seg_of_run base a) \<inter> seg_addrs (seg_of_run base b) = {}"
proof -
  have in_page: "(x - base) div PAGE \<in> run_pages r" if "x \<in> seg_addrs (seg_of_run base r)" for x r
  proof -
    have x: "base + run_start r * PAGE \<le> x" "x < base + run_start r * PAGE + run_len r * PAGE"
      using that by (auto simp: seg_addrs_def seg_of_run_def)
    then have "run_start r * PAGE \<le> x - base" "x - base < run_end r * PAGE"
      by (simp_all add: run_end_def add_mult_distrib)
    then show ?thesis
      by (simp add: run_pages_def less_mult_imp_div_less less_eq_div_iff_mult_less_eq)
  qed
  then show ?thesis using assms by blast
qed

lemma runs_ok_segs_disjoint: "runs_ok rs \<Longrightarrow> segs_disjoint (map (seg_of_run base) rs)"
proof (induction rs)
  case (Cons r rs)
  have "run_pages r \<inter> run_pages q = {}" if "q \<in> set rs" for q
    using runs_ok_disjoint_head [OF Cons.prems] that by (auto simp: runs_pages_def)
  then show ?case using Cons by (auto dest: run_addrs_disjoint)
qed simp

lemma lease_slot_data_wf: "lease_wf p d \<Longrightarrow> slot_data_wf d"
proof -
  assume wf: "lease_wf p d"
  let ?rs = "lease_runs p d"
  have segs: "sd_segs d = map (seg_of_run (pool_base p)) ?rs" using wf by (simp add: lease_wf_def)
  have "sum_list (map seg_len (map (seg_of_run (pool_base p)) rs)) = sum_list (map run_len rs) * PAGE" for rs
    by (induction rs) (simp_all add: seg_of_run_def add_mult_distrib)
  then have "sd_len d = sum_list (map seg_len (sd_segs d))" using wf segs by (simp add: lease_wf_def)
  moreover have "segs_disjoint (sd_segs d)"
    using wf segs runs_ok_segs_disjoint by (metis lease_wf_def)
  moreover have "length (sd_segs d) \<le> MAX_SEGS" using wf unfolding lease_wf_def by blast
  ultimately show ?thesis unfolding slot_data_wf_def by blast
qed

lemma leases_addrs_disjoint:
  assumes "lease_wf p d" "lease_wf p e" "lease_pages p d \<inter> lease_pages p e = {}"
  shows "data_addrs d \<inter> data_addrs e = {}"
proof -
  have "seg_addrs s \<inter> seg_addrs t = {}" if s: "s \<in> set (sd_segs d)" and t: "t \<in> set (sd_segs e)" for s t
  proof -
    obtain a where a: "a \<in> set (lease_runs p d)" "s = seg_of_run (pool_base p) a"
      using s assms(1) unfolding lease_wf_def by (metis (no_types, lifting) imageE list.set_map)
    obtain b where b: "b \<in> set (lease_runs p e)" "t = seg_of_run (pool_base p) b"
      using t assms(2) unfolding lease_wf_def by (metis (no_types, lifting) imageE list.set_map)
    have "run_pages a \<inter> run_pages b = {}"
      using a b assms(3) by (auto simp: lease_pages_def runs_pages_def)
    then show ?thesis using a b run_addrs_disjoint by simp
  qed
  then show ?thesis by (auto simp: data_addrs_def)
qed

definition region_pages :: "buf_pool \<Rightarrow> nat \<Rightarrow> nat \<Rightarrow> nat set" where
  "region_pages p a n = run_pages (seg_run (pool_base p) \<lparr>seg_ptr = a, seg_len = n\<rparr>)"

lemma reserve_arena_inv:
  assumes inv: "pool_inv p used" and r: "reserve_arena len p = (Some (a, n), p')"
  shows "pool_inv p' (used \<union> region_pages p a n)" "region_pages p a n \<inter> used = {}"
    "pool_base p' = pool_base p" "send_arena p' = Some (a, n)" "len \<le> n"
    "npages p' = npages p"
proof -
  obtain pages start free' where pg: "pages_for len = Some pages"
    and t: "take_run pages (free_runs p) = Some (start, free')"
    and p': "p' = p\<lparr>free_runs := free', free_pages := free_pages p - pages,
      send_arena := Some (page_ptr p start, pages * PAGE)\<rparr>"
    and an: "a = page_ptr p start" "n = pages * PAGE"
    using r by (auto simp: reserve_arena_def Let_def split: option.splits prod.splits)
  have ok: "runs_ok (free_runs p)" using inv by (simp add: pool_inv_def)
  have pos: "0 < pages" "len \<le> pages * PAGE" using pages_for_pos [OF pg] by simp_all
  note tr = take_run_ok [OF ok pos(1) t]
  have S: "region_pages p a n = {start..<start + pages}"
    by (simp add: region_pages_def an page_ptr_def seg_run_def run_pages_def run_end_def)
  have u: "{start..<start + pages} \<union> runs_pages free' = runs_pages (free_runs p)"
    "{start..<start + pages} \<inter> runs_pages free' = {}"
    using tr by auto
  note ti = pool_inv_take [OF inv tr(2) u, of pages, simplified]
  show "pool_inv p' (used \<union> region_pages p a n)" using ti(1) p' S by (simp add: pool_inv_def)
  show "region_pages p a n \<inter> used = {}" using ti(2) S by simp
  show "pool_base p' = pool_base p" "send_arena p' = Some (a, n)" "len \<le> n" "npages p' = npages p"
    using p' an pos(2) by simp_all
qed

section \<open>The lender's contract\<close>

text \<open>
  What a queue's slots rely on: an allocation hands out units nobody holds, a refused one changes
  nothing, a release succeeds and gives back exactly the units of the lease. A family of holders
  that only allocates and releases stays exclusive.
\<close>

locale page_lender =
  fixes inv :: "'p \<Rightarrow> 'u set \<Rightarrow> bool"
    and alloc :: "nat \<Rightarrow> 'p \<Rightarrow> ('d option \<times> 'p) option"
    and release :: "'d \<Rightarrow> 'p \<Rightarrow> ('p \<times> 'w) option"
    and units :: "'p \<Rightarrow> 'd \<Rightarrow> 'u set"
    and lease_ok :: "'p \<Rightarrow> 'd \<Rightarrow> bool"
  assumes alloc_total: "inv p U \<Longrightarrow> alloc n p \<noteq> None"
    and alloc_refused: "inv p U \<Longrightarrow> alloc n p = Some (None, p') \<Longrightarrow> p' = p"
    and alloc_leases: "inv p U \<Longrightarrow> alloc n p = Some (Some d, p') \<Longrightarrow>
      lease_ok p' d \<and> units p' d \<inter> U = {} \<and> inv p' (U \<union> units p' d) \<and>
      units p' = units p \<and> lease_ok p' = lease_ok p"
    and release_frees: "inv p U \<Longrightarrow> lease_ok p d \<Longrightarrow> units p d \<subseteq> U \<Longrightarrow>
      \<exists>p' ws. release d p = Some (p', ws) \<and> inv p' (U - units p d) \<and>
        units p' = units p \<and> lease_ok p' = lease_ok p"
begin

definition held :: "'p \<Rightarrow> ('i \<Rightarrow> 'd option) \<Rightarrow> 'u set \<Rightarrow> bool" where
  "held p D U \<longleftrightarrow> inv p U \<and>
     (\<forall>i d. D i = Some d \<longrightarrow> lease_ok p d \<and> units p d \<subseteq> U) \<and>
     (\<forall>i j d e. i \<noteq> j \<longrightarrow> D i = Some d \<longrightarrow> D j = Some e \<longrightarrow> units p d \<inter> units p e = {})"

lemma held_inv: "held p D U \<Longrightarrow> inv p U"
  by (simp add: held_def)

lemma held_lease: "held p D U \<Longrightarrow> D i = Some d \<Longrightarrow> lease_ok p d \<and> units p d \<subseteq> U"
  by (simp add: held_def)

lemma held_exclusive:
  "held p D U \<Longrightarrow> i \<noteq> j \<Longrightarrow> D i = Some d \<Longrightarrow> D j = Some e \<Longrightarrow> units p d \<inter> units p e = {}"
  by (simp add: held_def)

lemma held_alloc:
  assumes "held p D U" "alloc n p = Some (Some d, p')" "D i = None"
  shows "held p' (D(i := Some d)) (U \<union> units p' d)"
proof -
  note a = alloc_leases [OF held_inv [OF assms(1)] assms(2)]
  have sub: "lease_ok p' e \<and> units p' e \<subseteq> U" if "D j = Some e" for j e
    using held_lease [OF assms(1) that] a by simp
  have apart: "units p' e \<inter> units p' d = {}" "units p' d \<inter> units p' e = {}" if "D j = Some e" for j e
    using sub [OF that] a by blast+
  show ?thesis
    unfolding held_def
  proof (intro conjI allI impI)
    show "inv p' (U \<union> units p' d)" using a by blast
  next
    fix j e assume "(D(i := Some d)) j = Some e"
    then show "lease_ok p' e" "units p' e \<subseteq> U \<union> units p' d"
      using sub [of j e] a by (auto split: if_splits)
  next
    fix j k e f assume "j \<noteq> k" "(D(i := Some d)) j = Some e" "(D(i := Some d)) k = Some f"
    then show "units p' e \<inter> units p' f = {}"
      using apart [of j e] apart [of k f] held_exclusive [OF assms(1), of j k e f] a
      by (simp split: if_splits)
  qed
qed

lemma held_release:
  assumes "held p D U" "D i = Some d"
  shows "\<exists>p' ws. release d p = Some (p', ws) \<and> held p' (D(i := None)) (U - units p d)"
proof -
  have "lease_ok p d" "units p d \<subseteq> U" using held_lease [OF assms] by simp_all
  from release_frees [OF held_inv [OF assms(1)] this]
  obtain p' ws where r: "release d p = Some (p', ws)" "inv p' (U - units p d)"
    "units p' = units p" "lease_ok p' = lease_ok p" by blast
  have apart: "units p e \<inter> units p d = {}" if "D j = Some e" "j \<noteq> i" for j e
    using held_exclusive [OF assms(1) that(2,1) assms(2)] .
  have "held p' (D(i := None)) (U - units p d)"
    unfolding held_def
  proof (intro conjI allI impI)
    show "inv p' (U - units p d)" by (rule r)
  next
    fix j e assume "(D(i := None)) j = Some e"
    then have j: "j \<noteq> i" "D j = Some e" by (simp_all split: if_splits)
    show "lease_ok p' e" "units p' e \<subseteq> U - units p d"
      using held_lease [OF assms(1) j(2)] apart [OF j(2,1)] r(3,4) by auto
  next
    fix j k e f assume "j \<noteq> k" "(D(i := None)) j = Some e" "(D(i := None)) k = Some f"
    then show "units p' e \<inter> units p' f = {}"
      using held_exclusive [OF assms(1), of j k e f] r(3) by (simp split: if_splits)
  qed
  with r show ?thesis by blast
qed

lemma held_forget: "held p D U \<Longrightarrow> held p (D(i := None)) U"
  unfolding held_def by (simp add: fun_upd_apply)

lemma held_move:
  assumes "held p D U" "D j = Some d"
  shows "held p (D(j := None, i := Some d)) U"
  unfolding held_def
proof (intro conjI allI impI)
  show "inv p U" by (rule held_inv [OF assms(1)])
next
  fix k e assume "(D(j := None, i := Some d)) k = Some e"
  then show "lease_ok p e" "units p e \<subseteq> U"
    using held_lease [OF assms(1), of k e] held_lease [OF assms] by (auto split: if_splits)
next
  fix k l e f
  assume "k \<noteq> l" "(D(j := None, i := Some d)) k = Some e" "(D(j := None, i := Some d)) l = Some f"
  then show "units p e \<inter> units p f = {}"
    using held_exclusive [OF assms(1), of k l e f] held_exclusive [OF assms(1), of j l d f]
      held_exclusive [OF assms(1), of k j e d] assms(2)
    by (simp split: if_splits)
qed

text \<open>All units in use are either reserved or held by someone: nothing leaks.\<close>

definition holding :: "'p \<Rightarrow> ('i \<Rightarrow> 'd option) \<Rightarrow> 'u set" where
  "holding p D = {u. \<exists>i d. D i = Some d \<and> u \<in> units p d}"

definition held_exact :: "'p \<Rightarrow> ('i \<Rightarrow> 'd option) \<Rightarrow> 'u set \<Rightarrow> bool" where
  "held_exact p D R \<longleftrightarrow> held p D (R \<union> holding p D) \<and> R \<inter> holding p D = {}"

lemma held_exact_inv: "held_exact p D R \<Longrightarrow> inv p (R \<union> holding p D)"
  by (simp add: held_exact_def held_def)

lemma holding_None [simp]: "holding p (\<lambda>_. None) = {}"
  by (simp add: holding_def)

lemma holding_upd_Some:
  "D i = None \<Longrightarrow> holding p (D(i := Some d)) = holding p D \<union> units p d"
  by (auto simp: holding_def split: if_splits) (metis option.distinct(1))

lemma exact_alloc:
  assumes "held_exact p D R" "alloc n p = Some (Some d, p')" "D i = None"
  shows "held_exact p' (D(i := Some d)) R"
proof -
  have h: "held p D (R \<union> holding p D)" "R \<inter> holding p D = {}" using assms(1) by (simp_all add: held_exact_def)
  note a = alloc_leases [OF held_inv [OF h(1)] assms(2)]
  have u: "holding p' (D(i := Some d)) = holding p D \<union> units p' d"
    using holding_upd_Some [where D = D and i = i and p = p' and d = d] assms(3) a
    by (simp add: holding_def)
  show ?thesis
    unfolding held_exact_def u Un_assoc [symmetric]
  proof
    show "held p' (D(i := Some d)) (R \<union> holding p D \<union> units p' d)"
      by (rule held_alloc [OF h(1) assms(2,3)])
    show "R \<inter> (holding p D \<union> units p' d) = {}" using h(2) a by blast
  qed
qed

lemma exact_release:
  assumes "held_exact p D R" "D i = Some d"
  shows "\<exists>p' ws. release d p = Some (p', ws) \<and> held_exact p' (D(i := None)) R"
proof -
  have h: "held p D (R \<union> holding p D)" "R \<inter> holding p D = {}" using assms(1) by (simp_all add: held_exact_def)
  have "lease_ok p d" "units p d \<subseteq> R \<union> holding p D" using held_lease [OF h(1) assms(2)] by simp_all
  from release_frees [OF held_inv [OF h(1)] this] held_release [OF h(1) assms(2)]
  obtain p' ws where r: "release d p = Some (p', ws)" "units p' = units p"
    "held p' (D(i := None)) (R \<union> holding p D - units p d)" by auto
  have sub: "units p d \<subseteq> holding p D" using assms(2) by (auto simp: holding_def)
  have "holding p' (D(i := None)) = holding p D - units p d"
  proof -
    have "u \<notin> units p d" if "D j = Some e" "j \<noteq> i" "u \<in> units p e" for j e u
      using held_exclusive [OF h(1) that(2,1) assms(2)] that(3) by blast
    moreover have "j \<noteq> i" if "D j = Some e" "u \<in> units p e" "u \<notin> units p d" for j e u
      using that assms(2) by auto
    moreover have "(D(i := None)) j = Some e \<longleftrightarrow> j \<noteq> i \<and> D j = Some e" for j e by simp
    ultimately show ?thesis unfolding holding_def r(2) by blast
  qed
  then have "R \<union> holding p D - units p d = R \<union> holding p' (D(i := None))"
    "R \<inter> holding p' (D(i := None)) = {}"
    using h(2) sub by blast+
  then show ?thesis using r(1,3) unfolding held_exact_def by metis
qed

lemma exact_move:
  assumes "held_exact p D R" "D j = Some d" "D i = None"
  shows "held_exact p (D(j := None, i := Some d)) R"
proof -
  have "holding p (D(j := None, i := Some d)) = holding p D"
    using assms(2,3) by (auto simp: holding_def split: if_splits) (metis option.distinct(1) option.inject)+
  then show ?thesis using held_move [of p D "R \<union> holding p D" j d i] assms by (simp add: held_exact_def)
qed

lemma held_refused: "held p D U \<Longrightarrow> alloc n p = Some (None, p') \<Longrightarrow> held p' D U"
  using alloc_refused held_inv by blast

end

text \<open>The pool is such a lender: \<^verbatim>\<open>alloc\<close>, and the drop of a lease.\<close>

interpretation pool: page_lender pool_inv pool_alloc "\<lambda>d p. free_segs (sd_segs d) p"
  lease_pages lease_wf
proof
  fix p U n assume "pool_inv p U"
  then show "pool_alloc n p \<noteq> None"
    by (cases rule: pool_alloc_spec [where len = n]) simp_all
next
  fix p U n p' assume "pool_inv p U" "pool_alloc n p = Some (None, p')"
  then show "p' = p" by (cases rule: pool_alloc_spec [where len = n]) simp_all
next
  fix p U n d p' assume a: "pool_inv p U" "pool_alloc n p = Some (Some d, p')"
  from a(1) show "lease_wf p' d \<and> lease_pages p' d \<inter> U = {} \<and> pool_inv p' (U \<union> lease_pages p' d) \<and>
      lease_pages p' = lease_pages p \<and> lease_wf p' = lease_wf p"
  proof (cases rule: pool_alloc_spec [where len = n])
    case refused
    then show ?thesis using a by simp
  next
    case (leased d2 p2 k f j)
    then have "d2 = d" "p2 = p'" "pool_base p' = pool_base p" using a by auto
    with leased show ?thesis using lease_cong [of p' p] by (auto intro!: ext)
  qed
next
  fix p U d assume "pool_inv p U" "lease_wf p d" "lease_pages p d \<subseteq> U"
  then obtain p' f k where "free_segs (sd_segs d) p = Some (p', pool_waiters p)"
    "pool_inv p' (U - lease_pages p d)" "p' = p\<lparr>free_runs := f, free_pages := k, pool_waiters := []\<rparr>"
    by (rule free_segs_ok)
  then show "\<exists>p' ws. free_segs (sd_segs d) p = Some (p', ws) \<and> pool_inv p' (U - lease_pages p d) \<and>
      lease_pages p' = lease_pages p \<and> lease_wf p' = lease_wf p"
    using lease_cong [of p' p] by (auto intro!: ext)
qed

section \<open>Properties\<close>

text \<open>A fragmented pool, for the witnesses: four pages of which the first and the third are free.\<close>

definition pool_sample :: buf_pool where
  "pool_sample = \<lparr>pool_base = 8192, npages = 4,
     free_runs = [\<lparr>run_start = 0, run_len = 1\<rparr>, \<lparr>run_start = 2, run_len = 1\<rparr>], free_pages = 2,
     pool_waiters = [7], pool_buf_index = None, send_arena = None\<rparr>"

lemma pool_sample_inv: "pool_inv pool_sample {1, 3}"
proof -
  have "run_pages \<lparr>run_start = 0, run_len = 1\<rparr> = {0}" "run_pages \<lparr>run_start = 2, run_len = 1\<rparr> = {2}"
    by (auto simp: run_pages_def run_end_def)
  moreover have "{0..<4} = {0, 1, 2, 3 :: nat}" by auto
  ultimately show ?thesis by (auto simp: pool_inv_def pool_sample_def run_end_def)
qed

lemma pool_sample_alloc:
  "pool_alloc 8192 pool_sample = Some (Some \<lparr>sd_segs = [\<lparr>seg_ptr = 8192, seg_len = 4096\<rparr>,
     \<lparr>seg_ptr = 16384, seg_len = 4096\<rparr>], sd_len = 8192, sd_owner = OwnerPool\<rparr>,
     pool_sample\<lparr>free_runs := [], free_pages := 0\<rparr>)"
  by (simp add: pool_alloc_def pages_for_def pool_sample_def take_run_def carve_Cons make_lease_def
      PAGE_def MAX_SEGS_def)

text \<open>C21. Fragmentation never refuses a command: for every request of at most 128 KiB (the maximum data
  transfer size), the pool leases a buffer exactly when enough pages are free, however they are
  scattered; no such request panics.\<close>

theorem mdts_alloc_iff:
  assumes inv: "pool_inv p used" and len: "len \<le> 128 * 1024"
  shows "pool_alloc len p \<noteq> None \<and>
    ((\<exists>d p'. pool_alloc len p = Some (Some d, p')) \<longleftrightarrow> max ((len + PAGE - 1) div PAGE) 1 \<le> free_pages p)"
proof -
  define n where "n = max ((len + PAGE - 1) div PAGE) 1"
  have n: "n \<le> MAX_SEGS" using len by (auto simp: n_def PAGE_def MAX_SEGS_def)
  then have pg: "pages_for len = Some n"
    unfolding pages_for_def n_def [symmetric] by (simp add: MAX_SEGS_def)
  have fits: "scatter_fits n 0 (free_runs p) \<noteq> None"
    using scatter_fits_small [of "free_runs p" 0 n] inv n by (simp add: pool_inv_def)
  from inv have "pool_alloc len p \<noteq> None \<and>
    ((\<exists>d p'. pool_alloc len p = Some (Some d, p')) \<longleftrightarrow> n \<le> free_pages p)"
  proof (cases rule: pool_alloc_spec [where len = len])
    case refused
    then show ?thesis using pg fits by auto
  next
    case (leased d p' k f j)
    then have "k \<le> free_pages p"
      using card_mono [OF finite_run_pages(2) leased(6)] free_pages_card [OF inv] by simp
    then show ?thesis using leased(1,2) pg by simp
  qed
  then show ?thesis unfolding n_def .
qed

theorem mdts_alloc_iff_witness:
  "pool_inv pool_sample {1, 3} \<and> (\<exists>d p'. pool_alloc 8192 pool_sample = Some (Some d, p')) \<and>
   \<not> (\<exists>d p'. pool_alloc 8193 pool_sample = Some (Some d, p'))"
  using mdts_alloc_iff [OF pool_sample_inv, of 8192] mdts_alloc_iff [OF pool_sample_inv, of 8193]
    pool_sample_inv
  by (simp add: PAGE_def pool_sample_def)

text \<open>C23. A leased buffer is exclusive memory: bytes written anywhere within the requested length, across
  the scattered segments, are read back in order, and no other outstanding lease sees a change.\<close>

theorem lease_write_read_exclusive:
  assumes inv: "pool_inv p used" and a: "pool_alloc len p = Some (Some d, p')"
    and e: "lease_wf p e" "lease_pages p e \<subseteq> used" and bound: "off + length src \<le> len"
  shows "\<exists>m' cs. write_at d off src m = Some m' \<and> for_each_seg m' d off (length src) = Some cs \<and>
    concat cs = src \<and> contents m' e = contents m e"
proof -
  from inv obtain n where l: "lease_wf p d" "lease_pages p d \<inter> used = {}" "pages_for len = Some n"
    "sd_len d = n * PAGE"
    by (cases rule: pool_alloc_spec [where len = len]) (use a in auto)
  have wf: "slot_data_wf d" by (rule lease_slot_data_wf [OF l(1)])
  have off: "off + length src \<le> sd_len d" using bound pages_for_pos [OF l(3)] l(4) by simp
  obtain m' where m': "write_at d off src m = Some m'" "contents m' d = splice off src (contents m d)"
    "\<And>x. x \<notin> data_addrs d \<Longrightarrow> m' x = m x"
    by (rule write_at_spec [OF wf off, of m], rule that)
  obtain cs where cs: "for_each_seg m' d off (length src) = Some cs"
    "concat cs = slice off (length src) (contents m' d)"
    by (rule for_each_seg_spec [OF wf off, of m'], rule that)
  have "concat cs = src" using cs(2) m'(2) off wf by (simp add: slice_splice_same)
  moreover have "data_addrs d \<inter> data_addrs e = {}"
    using l e by (intro leases_addrs_disjoint) auto
  then have "contents m' e = contents m e" using m'(3) by (intro contents_cong) blast
  ultimately show ?thesis using m'(1) cs(1) by blast
qed

theorem lease_write_read_exclusive_witness:
  "\<exists>d p' m' cs. pool_alloc 8192 pool_sample = Some (Some d, p') \<and> length (sd_segs d) = 2 \<and>
     write_at d 4095 [1, 2] (\<lambda>_. 9) = Some m' \<and> for_each_seg m' d 4095 2 = Some cs \<and> concat cs = [1, 2]"
proof -
  let ?e = "\<lparr>sd_segs = [\<lparr>seg_ptr = 12288, seg_len = 4096\<rparr>], sd_len = 4096, sd_owner = OwnerPool\<rparr>"
  have r: "lease_runs pool_sample ?e = [\<lparr>run_start = 1, run_len = 1\<rparr>]"
    by (simp add: lease_runs_def seg_run_def pool_sample_def PAGE_def)
  have e: "lease_wf pool_sample ?e" "lease_pages pool_sample ?e \<subseteq> {1, 3}"
    using r by (auto simp: lease_wf_def lease_pages_def seg_of_run_def pool_sample_def PAGE_def
        MAX_SEGS_def run_pages_def run_end_def)
  let ?d = "\<lparr>sd_segs = [\<lparr>seg_ptr = 8192, seg_len = 4096\<rparr>, \<lparr>seg_ptr = 16384, seg_len = 4096\<rparr>],
    sd_len = 8192, sd_owner = OwnerPool\<rparr>"
  have l: "length (sd_segs ?d) = 2" "length [1, 2 :: u8] = 2" by simp_all
  obtain m' cs where "write_at ?d 4095 [1, 2] (\<lambda>_. 9) = Some m'"
    "for_each_seg m' ?d 4095 (length [1, 2 :: u8]) = Some cs" "concat cs = [1, 2]"
    using lease_write_read_exclusive [OF pool_sample_inv pool_sample_alloc e, of 4095 "[1, 2]" "\<lambda>_. 9"]
    by auto
  then show ?thesis unfolding l(2) using pool_sample_alloc l(1) by blast
qed

text \<open>C22. Dropping a lease undoes it completely: the pool returns to the very state it was in, free-run
  list included, except that every task parked on the pool has been woken.\<close>

theorem alloc_then_drop:
  assumes "pool_inv p used" "pool_alloc len p = Some (Some d, p')"
  shows "slot_data_drop d p' = Some (p\<lparr>pool_waiters := []\<rparr>, pool_waiters p, [])"
  using assms by (rule alloc_drop_restores)

theorem alloc_then_drop_witness:
  "\<exists>d p'. pool_alloc 8192 pool_sample = Some (Some d, p') \<and>
     slot_data_drop d p' = Some (pool_sample\<lparr>pool_waiters := []\<rparr>, [7], [])"
  using alloc_then_drop [OF pool_sample_inv pool_sample_alloc] pool_sample_alloc
  by (auto simp: pool_sample_def)

end
