(* ===== verification/Slotq.thy ===== *)
theory Slotq
  imports Pool
begin

text \<open>
  The command-slot engine (\<^verbatim>\<open>crates/ioutgt-core/src/slotq.rs\<close>): \<^verbatim>\<open>SlotArray\<close> with its
  tag freelist, its executing counter and its pool, and \<^verbatim>\<open>SendList\<close>, the ordered work queue
  of a send loop. \<open>'c\<close> is the per-slot command stash, \<open>'w\<close> the transport's work type. An
  asynchronous method is modelled by one poll of it. A panic, a failed \<^verbatim>\<open>debug_assert\<close>, an
  index out of range or an overflow of the \<^verbatim>\<open>u16\<close> counter included, is \<^const>\<open>None\<close>.
\<close>

section \<open>Slots\<close>

datatype slot_state = Free | Receiving | ReadyState | Executing | Responding

record 'c slot =
  slot_state :: slot_state
  slot_cmd :: 'c
  slot_waker :: "nat option"
  slot_data :: slot_data
  slot_data_len :: u32
  recv_offset :: u32

definition slot_new :: "'c \<Rightarrow> 'c slot" where
  "slot_new init = \<lparr>slot_state = Free, slot_cmd = init, slot_waker = None,
     slot_data = slot_data_empty, slot_data_len = 0, recv_offset = 0\<rparr>"

record 'c slot_array =
  nslots :: u16
  slots :: "'c slot list"
  free_tags :: "u16 list"
  executing :: u16
  tag_waiter :: "nat option"
  pool :: buf_pool

definition slot_array_new :: "nat \<Rightarrow> u16 \<Rightarrow> nat \<Rightarrow> 'c \<Rightarrow> memory \<Rightarrow> ('c slot_array \<times> memory) option" where
  "slot_array_new addr n pool_bytes init m =
     (case buf_pool_new addr pool_bytes m of
        None \<Rightarrow> None
      | Some (p, m') \<Rightarrow>
          Some (\<lparr>nslots = n, slots = map (\<lambda>_. slot_new init) [0..<unat n],
                 free_tags = rev (map of_nat [0..<unat n]), executing = 0, tag_waiter = None, pool = p\<rparr>, m'))"

definition slot_of :: "'c slot_array \<Rightarrow> u16 \<Rightarrow> 'c slot option" where
  "slot_of a tag = (if unat tag < length (slots a) then Some (slots a ! unat tag) else None)"

definition put_slot :: "u16 \<Rightarrow> 'c slot \<Rightarrow> 'c slot_array \<Rightarrow> 'c slot_array" where
  "put_slot tag s a = a\<lparr>slots := (slots a)[unat tag := s]\<rparr>"

text \<open>\<^verbatim>\<open>set_data\<close> drops the buffer the slot had; \<^verbatim>\<open>release_data\<close> is \<^verbatim>\<open>set_data\<close> of
  the empty one. The results are the array, the wakers woken and the ring sub-buffers released.\<close>

definition set_data :: "u16 \<Rightarrow> slot_data \<Rightarrow> 'c slot_array \<Rightarrow> ('c slot_array \<times> nat list \<times> u16 list) option" where
  "set_data tag d a =
     (case slot_of a tag of
        None \<Rightarrow> None
      | Some s \<Rightarrow>
          (case slot_data_drop (slot_data s) (pool a) of
             None \<Rightarrow> None
           | Some (p, ws, bids) \<Rightarrow> Some (put_slot tag (s\<lparr>slot_data := d\<rparr>) (a\<lparr>pool := p\<rparr>), ws, bids)))"

definition release_data :: "u16 \<Rightarrow> 'c slot_array \<Rightarrow> ('c slot_array \<times> nat list \<times> u16 list) option" where
  "release_data tag a = set_data tag slot_data_empty a"

definition set_data_len :: "u16 \<Rightarrow> u32 \<Rightarrow> 'c slot_array \<Rightarrow> 'c slot_array option" where
  "set_data_len tag n a = map_option (\<lambda>s. put_slot tag (s\<lparr>slot_data_len := n\<rparr>) a) (slot_of a tag)"

definition set_recv_offset :: "u16 \<Rightarrow> u32 \<Rightarrow> 'c slot_array \<Rightarrow> 'c slot_array option" where
  "set_recv_offset tag n a = map_option (\<lambda>s. put_slot tag (s\<lparr>recv_offset := n\<rparr>) a) (slot_of a tag)"

definition stash_cmd :: "u16 \<Rightarrow> 'c \<Rightarrow> 'c slot_array \<Rightarrow> 'c slot_array option" where
  "stash_cmd tag c a =
     (case slot_of a tag of
        None \<Rightarrow> None
      | Some s \<Rightarrow> if slot_state s \<noteq> Receiving then None else Some (put_slot tag (s\<lparr>slot_cmd := c\<rparr>) a))"

section \<open>Leases\<close>

text \<open>One poll of \<^verbatim>\<open>lease_await\<close>.\<close>

definition lease_await_poll ::
  "nat \<Rightarrow> u16 \<Rightarrow> nat \<Rightarrow> 'c slot_array \<Rightarrow> (unit poll \<times> 'c slot_array \<times> nat list \<times> u16 list) option" where
  "lease_await_poll waker tag len a =
     (case alloc_poll waker len (pool a) of
        None \<Rightarrow> None
      | Some (Pending, p) \<Rightarrow> Some (Pending, a\<lparr>pool := p\<rparr>, [], [])
      | Some (Ready d, p) \<Rightarrow> map_option (\<lambda>(a', e). (Ready (), a', e)) (set_data tag d (a\<lparr>pool := p\<rparr>)))"

definition try_lease ::
  "u16 \<Rightarrow> nat \<Rightarrow> 'c slot_array \<Rightarrow> (bool \<times> 'c slot_array \<times> nat list \<times> u16 list) option" where
  "try_lease tag len a =
     (case pool_alloc len (pool a) of
        None \<Rightarrow> None
      | Some (Some d, p) \<Rightarrow> map_option (\<lambda>(a', e). (True, a', e)) (set_data tag d (a\<lparr>pool := p\<rparr>))
      | Some (None, p) \<Rightarrow> Some (False, a\<lparr>pool := p\<rparr>, [], []))"

text \<open>The address is where the global allocator places the fallback buffer.\<close>

definition lease_or_owned ::
  "nat \<Rightarrow> u16 \<Rightarrow> nat \<Rightarrow> memory \<Rightarrow> 'c slot_array \<Rightarrow>
    (memory \<times> 'c slot_array \<times> nat list \<times> u16 list) option" where
  "lease_or_owned addr tag len m a =
     (case pool_alloc len (pool a) of
        None \<Rightarrow> None
      | Some (Some d, p) \<Rightarrow> map_option (Pair m) (set_data tag d (a\<lparr>pool := p\<rparr>))
      | Some (None, p) \<Rightarrow>
          let (d, m') = slot_data_owned addr (max len 1) m in
          map_option (Pair m') (set_data tag d (a\<lparr>pool := p\<rparr>)))"

section \<open>The life of a tag\<close>

definition claim_tag :: "'c slot_array \<Rightarrow> (u16 option \<times> 'c slot_array) option" where
  "claim_tag a =
     (if free_tags a = [] then Some (None, a)
      else
        let tag = last (free_tags a);
            a = a\<lparr>free_tags := butlast (free_tags a)\<rparr> in
        case slot_of a tag of
          None \<Rightarrow> None
        | Some s \<Rightarrow>
            if slot_state s \<noteq> Free then None
            else Some (Some tag,
              put_slot tag (s\<lparr>slot_state := Receiving, slot_data_len := 0, recv_offset := 0\<rparr>) a))"

text \<open>One poll of \<^verbatim>\<open>await_tag\<close>.\<close>

definition await_tag_poll :: "nat \<Rightarrow> 'c slot_array \<Rightarrow> (u16 poll \<times> 'c slot_array) option" where
  "await_tag_poll waker a =
     (case claim_tag a of
        None \<Rightarrow> None
      | Some (Some tag, a') \<Rightarrow> Some (Ready tag, a')
      | Some (None, a') \<Rightarrow> Some (Pending, a'\<lparr>tag_waiter := Some waker\<rparr>))"

definition submit :: "u16 \<Rightarrow> 'c \<Rightarrow> 'c slot_array \<Rightarrow> ('c slot_array \<times> nat list) option" where
  "submit tag c a =
     (case slot_of a tag of
        None \<Rightarrow> None
      | Some s \<Rightarrow>
          if slot_state s \<noteq> Receiving then None
          else Some (put_slot tag (s\<lparr>slot_cmd := c, slot_state := ReadyState, slot_waker := None\<rparr>) a,
                     option_list (slot_waker s)))"

text \<open>One poll of \<^verbatim>\<open>await_command\<close>.\<close>

definition await_command_poll :: "nat \<Rightarrow> u16 \<Rightarrow> 'c slot_array \<Rightarrow> ('c poll \<times> 'c slot_array) option" where
  "await_command_poll waker tag a =
     (case slot_of a tag of
        None \<Rightarrow> None
      | Some s \<Rightarrow>
          if slot_state s = ReadyState then
            (case checked_add (executing a) 1 of
               None \<Rightarrow> None
             | Some n \<Rightarrow> Some (Ready (slot_cmd s),
                 put_slot tag (s\<lparr>slot_state := Executing\<rparr>) (a\<lparr>executing := n\<rparr>)))
          else Some (Pending, put_slot tag (s\<lparr>slot_waker := Some waker\<rparr>) a))"

definition begin_respond :: "u16 \<Rightarrow> 'c slot_array \<Rightarrow> 'c slot_array option" where
  "begin_respond tag a =
     (case slot_of a tag of
        None \<Rightarrow> None
      | Some s \<Rightarrow>
          if slot_state s \<noteq> Executing then None
          else if executing a = 0 then None
          else Some (put_slot tag (s\<lparr>slot_state := Responding\<rparr>) (a\<lparr>executing := executing a - 1\<rparr>)))"

definition respond_receiving :: "u16 \<Rightarrow> 'c slot_array \<Rightarrow> 'c slot_array option" where
  "respond_receiving tag a =
     (case slot_of a tag of
        None \<Rightarrow> None
      | Some s \<Rightarrow>
          if slot_state s \<noteq> Receiving then None
          else Some (put_slot tag (s\<lparr>slot_state := Responding\<rparr>) a))"

definition release_tag :: "u16 \<Rightarrow> 'c slot_array \<Rightarrow> ('c slot_array \<times> nat list \<times> u16 list) option" where
  "release_tag tag a =
     (case slot_of a tag of
        None \<Rightarrow> None
      | Some s \<Rightarrow>
          if slot_state s \<noteq> Responding then None
          else case release_data tag a of
            None \<Rightarrow> None
          | Some (a', ws, bids) \<Rightarrow>
              (case slot_of a' tag of
                 None \<Rightarrow> None
               | Some s' \<Rightarrow>
                   Some ((put_slot tag (s'\<lparr>slot_state := Free\<rparr>) a')
                           \<lparr>free_tags := free_tags a' @ [tag], tag_waiter := None\<rparr>,
                         ws @ option_list (tag_waiter a'), bids)))"

definition idle :: "'c slot_array \<Rightarrow> bool" where
  "idle a \<longleftrightarrow> length (free_tags a) = unat (nslots a)"

section \<open>Send work\<close>

record 'w send_list =
  work :: "'w list"
  send_waker :: "nat option"
  closed :: bool

definition send_list_new :: "'w send_list" where
  "send_list_new = \<lparr>work = [], send_waker = None, closed = False\<rparr>"

definition send_push :: "'w \<Rightarrow> 'w send_list \<Rightarrow> 'w send_list \<times> nat list" where
  "send_push w l = (l\<lparr>work := work l @ [w], send_waker := None\<rparr>, option_list (send_waker l))"

definition try_next :: "'w send_list \<Rightarrow> 'w option \<times> 'w send_list" where
  "try_next l = (case work l of [] \<Rightarrow> (None, l) | w # ws \<Rightarrow> (Some w, l\<lparr>work := ws\<rparr>))"

definition poll_next :: "nat \<Rightarrow> 'w send_list \<Rightarrow> 'w option poll \<times> 'w send_list" where
  "poll_next waker l =
     (case work l of
        w # ws \<Rightarrow> (Ready (Some w), l\<lparr>work := ws\<rparr>)
      | [] \<Rightarrow> if closed l then (Ready None, l) else (Pending, l\<lparr>send_waker := Some waker\<rparr>))"

definition send_close :: "'w send_list \<Rightarrow> 'w send_list \<times> nat list" where
  "send_close l = (l\<lparr>closed := True, send_waker := None\<rparr>, option_list (send_waker l))"

section \<open>The invariant\<close>

definition lease_of :: "'c slot_array \<Rightarrow> nat \<Rightarrow> slot_data option" where
  "lease_of a i = (if i < length (slots a) \<and> is_pool (slot_data (slots a ! i))
     then Some (slot_data (slots a ! i)) else None)"

definition executing_count :: "'c slot list \<Rightarrow> nat" where
  "executing_count ss = length (filter (\<lambda>s. slot_state s = Executing) ss)"

text \<open>
  The freelist holds exactly the free slots, the counter counts the executing ones, a free slot has
  no buffer; and no wakeup is lost: a claim is parked only while no tag is free, and a slot that is
  ready has no parked task.
\<close>

definition tags_inv :: "'c slot_array \<Rightarrow> bool" where
  "tags_inv a \<longleftrightarrow> length (slots a) = unat (nslots a) \<and> distinct (free_tags a) \<and>
     (\<forall>t. t \<in> set (free_tags a) \<longleftrightarrow> unat t < length (slots a) \<and> slot_state (slots a ! unat t) = Free) \<and>
     unat (executing a) = executing_count (slots a) \<and>
     (\<forall>s \<in> set (slots a). (slot_state s = Free \<longrightarrow> slot_data s = slot_data_empty) \<and>
        (slot_state s = ReadyState \<longrightarrow> slot_waker s = None) \<and> slot_data_wf (slot_data s)) \<and>
     (tag_waiter a \<noteq> None \<longrightarrow> free_tags a = [])"

text \<open>\<open>R\<close> are the pages reserved for the send path: all other used pages are held by slots.\<close>

definition slots_inv :: "nat set \<Rightarrow> 'c slot_array \<Rightarrow> bool" where
  "slots_inv R a \<longleftrightarrow> tags_inv a \<and> pool.held_exact (pool a) (lease_of a) R"

lemma slot_of_Some: "slot_of a tag = Some s \<longleftrightarrow> unat tag < length (slots a) \<and> s = slots a ! unat tag"
  by (auto simp: slot_of_def)

lemma put_slot_simps [simp]:
  "nslots (put_slot tag s a) = nslots a" "slots (put_slot tag s a) = (slots a)[unat tag := s]"
  "free_tags (put_slot tag s a) = free_tags a" "executing (put_slot tag s a) = executing a"
  "tag_waiter (put_slot tag s a) = tag_waiter a" "pool (put_slot tag s a) = pool a"
  by (simp_all add: put_slot_def)

lemma length_filter_update:
  "i < length xs \<Longrightarrow> length (filter P (xs[i := y])) + (if P (xs ! i) then 1 else 0) =
    length (filter P xs) + (if P y then 1 else 0)"
proof (induction xs arbitrary: i)
  case (Cons x xs)
  then show ?case
  proof (cases i)
    case (Suc j)
    then show ?thesis using Cons.IH [of j] Cons.prems by simp
  qed simp
qed simp

lemma executing_count_put:
  "slot_of a tag = Some s \<Longrightarrow>
    executing_count ((slots a)[unat tag := s']) + (if slot_state s = Executing then 1 else 0) =
    executing_count (slots a) + (if slot_state s' = Executing then 1 else 0)"
  using length_filter_update [of "unat tag" "slots a" "\<lambda>s. slot_state s = Executing" s']
  by (simp add: slot_of_Some executing_count_def)

lemma tags_inv_slot:
  assumes "tags_inv a" "slot_of a tag = Some s"
  shows "slot_state s = Free \<longleftrightarrow> tag \<in> set (free_tags a)" "slot_state s = Free \<longrightarrow> slot_data s = slot_data_empty"
    "slot_state s = ReadyState \<longrightarrow> slot_waker s = None" "slot_data_wf (slot_data s)"
  using assms by (auto simp: tags_inv_def slot_of_Some)

text \<open>Every operation replaces one slot; this is what it has to respect.\<close>

lemma tags_inv_put:
  assumes inv: "tags_inv a" and s: "slot_of a tag = Some s"
    and a': "slots a' = (slots a)[unat tag := s']" "nslots a' = nslots a"
    and free: "slot_state s' = Free \<longleftrightarrow> tag \<in> set (free_tags a')" "distinct (free_tags a')"
      "set (free_tags a') - {tag} = set (free_tags a) - {tag}"
    and ex: "unat (executing a') + (if slot_state s = Executing then 1 else 0) =
      unat (executing a) + (if slot_state s' = Executing then 1 else 0)"
    and s': "slot_state s' = Free \<longrightarrow> slot_data s' = slot_data_empty"
      "slot_state s' = ReadyState \<longrightarrow> slot_waker s' = None" "slot_data_wf (slot_data s')"
    and w: "tag_waiter a' \<noteq> None \<longrightarrow> free_tags a' = []"
  shows "tags_inv a'"
proof -
  have i: "unat tag < length (slots a)" using s by (simp add: slot_of_Some)
  have mem: "t \<in> set (free_tags a') \<longleftrightarrow> unat t < length (slots a') \<and> slot_state (slots a' ! unat t) = Free" for t
  proof (cases "t = tag")
    case True
    then show ?thesis using i free(1) a'(1) by simp
  next
    case False
    then have "unat t \<noteq> unat tag" using word_unat_eq_iff by blast
    moreover have "t \<in> set (free_tags a') \<longleftrightarrow> t \<in> set (free_tags a)" using free(3) False by blast
    ultimately show ?thesis using inv a'(1) by (simp add: tags_inv_def)
  qed
  have "unat (executing a') = executing_count (slots a')"
    using ex executing_count_put [OF s, of s'] inv unfolding a'(1) tags_inv_def by (simp split: if_splits)
  moreover have "\<forall>q \<in> set (slots a'). (slot_state q = Free \<longrightarrow> slot_data q = slot_data_empty) \<and>
      (slot_state q = ReadyState \<longrightarrow> slot_waker q = None) \<and> slot_data_wf (slot_data q)"
    using set_update_subset_insert [of "slots a" "unat tag" s'] s' inv unfolding a'(1) tags_inv_def by blast
  ultimately show ?thesis
    using mem a' free(2) w inv unfolding tags_inv_def by simp
qed

lemma lease_of_put:
  "slot_of a tag = Some s \<Longrightarrow> slots a' = (slots a)[unat tag := s'] \<Longrightarrow>
    lease_of a' = (lease_of a)(unat tag := if is_pool (slot_data s') then Some (slot_data s') else None)"
  by (rule ext) (auto simp: lease_of_def slot_of_Some nth_list_update)

lemma lease_of_put_same:
  "slot_of a tag = Some s \<Longrightarrow> slots a' = (slots a)[unat tag := s'] \<Longrightarrow> slot_data s' = slot_data s \<Longrightarrow>
    lease_of a' = lease_of a"
  by (rule ext) (auto simp: lease_of_def slot_of_Some nth_list_update)

text \<open>A transition of the slot's state that keeps its buffer and does not involve the freelist.\<close>

lemma slots_inv_put:
  assumes inv: "slots_inv R a" and s: "slot_of a tag = Some s"
    and s': "slot_data s' = slot_data s" "slot_state s' = Free \<longleftrightarrow> slot_state s = Free"
      "slot_state s' = ReadyState \<longrightarrow> slot_waker s' = None"
    and ex: "unat n + (if slot_state s = Executing then 1 else 0) =
      unat (executing a) + (if slot_state s' = Executing then 1 else 0)"
  shows "slots_inv R (put_slot tag s' (a\<lparr>executing := n\<rparr>))"
proof -
  have t: "tags_inv a" "pool.held_exact (pool a) (lease_of a) R" using inv by (simp_all add: slots_inv_def)
  note old = tags_inv_slot [OF t(1) s]
  have "tags_inv (put_slot tag s' (a\<lparr>executing := n\<rparr>))"
    by (rule tags_inv_put [OF t(1) s, of _ s']) (use s' ex old t(1) in \<open>auto simp: tags_inv_def\<close>)
  moreover have "lease_of (put_slot tag s' (a\<lparr>executing := n\<rparr>)) = lease_of a"
    by (rule lease_of_put_same [OF s _ s'(1)]) simp
  ultimately show ?thesis using t(2) by (simp add: slots_inv_def)
qed

text \<open>Installing a buffer. A lease that is being installed is held outside the slots.\<close>

lemma set_data_ok:
  assumes t: "tags_inv a" and s: "slot_of a tag = Some s" and d: "slot_data_wf d"
    and fr: "slot_state s = Free \<longrightarrow> d = slot_data_empty"
    and h: "pool.held_exact (pool a)
      (if is_pool d then (lease_of a)(length (slots a) := Some d) else lease_of a) R"
  obtains p ws bids where "set_data tag d a = Some (put_slot tag (s\<lparr>slot_data := d\<rparr>) (a\<lparr>pool := p\<rparr>), ws, bids)"
    "slots_inv R (put_slot tag (s\<lparr>slot_data := d\<rparr>) (a\<lparr>pool := p\<rparr>))"
    "ws = (if is_pool (slot_data s) then pool_waiters (pool a) else [])"
proof -
  let ?i = "unat tag" and ?N = "length (slots a)"
  define D where "D = (if is_pool d then (lease_of a)(?N := Some d) else lease_of a)"
  have i: "?i < ?N" "s = slots a ! ?i" using s by (simp_all add: slot_of_Some)
  have N: "lease_of a ?N = None" by (simp add: lease_of_def)
  have Di: "D ?i = (if is_pool (slot_data s) then Some (slot_data s) else None)"
    using i by (simp add: D_def lease_of_def)
  obtain p ws bids where dr: "slot_data_drop (slot_data s) (pool a) = Some (p, ws, bids)"
    and hp: "pool.held_exact p (D(?i := None)) R"
    and ws: "ws = (if is_pool (slot_data s) then pool_waiters (pool a) else [])"
  proof (cases "is_pool (slot_data s)")
    case True
    then obtain p ws where "free_segs (sd_segs (slot_data s)) (pool a) = Some (p, ws)"
      "pool.held_exact p (D(?i := None)) R"
      using pool.exact_release [OF h [folded D_def], of ?i "slot_data s"] Di by auto
    moreover from this have "ws = pool_waiters (pool a)"
      by (auto simp: free_segs_def split: option.splits)
    ultimately show ?thesis
      using True by (intro that [of p ws "[]"]) (auto simp: slot_data_drop_def is_pool_def)
  next
    case False
    then have D: "D(?i := None) = D" using Di by auto
    obtain bids where "slot_data_drop (slot_data s) (pool a) = Some (pool a, [], bids)"
      using False by (cases "sd_owner (slot_data s)") (auto simp: slot_data_drop_def is_pool_def)
    then show ?thesis using h D False by (intro that [of "pool a" "[]" bids]) (auto simp: D_def)
  qed
  let ?a = "put_slot tag (s\<lparr>slot_data := d\<rparr>) (a\<lparr>pool := p\<rparr>)"
  have lo: "lease_of ?a = (lease_of a)(?i := if is_pool d then Some d else None)"
    using lease_of_put [OF s, of ?a "s\<lparr>slot_data := d\<rparr>"] by simp
  have "pool.held_exact p (lease_of ?a) R"
  proof (cases "is_pool d")
    case True
    have "(D(?i := None)) ?N = Some d" "(D(?i := None)) ?i = None" using True i by (simp_all add: D_def)
    from pool.exact_move [OF hp this] have "pool.held_exact p ((D(?i := None))(?N := None, ?i := Some d)) R" .
    moreover have "(D(?i := None))(?N := None, ?i := Some d) = lease_of ?a"
      unfolding lo D_def using True N i by (auto simp: fun_eq_iff)
    ultimately show ?thesis by simp
  next
    case False
    then show ?thesis using hp unfolding lo D_def by simp
  qed
  moreover have "tags_inv ?a"
    by (rule tags_inv_put [OF t s, of _ "s\<lparr>slot_data := d\<rparr>"])
      (use d fr tags_inv_slot [OF t s] t in \<open>auto simp: tags_inv_def\<close>)
  ultimately have "slots_inv R ?a" by (simp add: slots_inv_def)
  then show thesis using dr s ws by (intro that [of p ws bids]) (simp_all add: set_data_def)
qed

lemma set_data_ex:
  assumes "tags_inv a" "slot_of a tag = Some s" "slot_data_wf d"
    "slot_state s = Free \<longrightarrow> d = slot_data_empty"
    "pool.held_exact (pool a)
      (if is_pool d then (lease_of a)(length (slots a) := Some d) else lease_of a) R"
  shows "\<exists>a' e. set_data tag d a = Some (a', e) \<and> slots_inv R a'"
  by (rule set_data_ok [OF assms]) blast

section \<open>Operations keep the invariant\<close>

lemma slots_inv_executing_same [simp]: "put_slot tag s (a\<lparr>executing := executing a\<rparr>) = put_slot tag s a"
  by (simp add: put_slot_def)

lemma slot_array_new_inv:
  assumes "slot_array_new addr n bytes init m = Some (a, m')"
  shows "slots_inv {} a" "nslots a = n"
proof -
  obtain p where p: "buf_pool_new addr bytes m = Some (p, m')"
    and a: "a = \<lparr>nslots = n, slots = map (\<lambda>_. slot_new init) [0..<unat n],
      free_tags = rev (map of_nat [0..<unat n]), executing = 0, tag_waiter = None, pool = p\<rparr>"
    using assms by (auto simp: slot_array_new_def split: option.splits)
  have bound: "unat n \<le> 2 ^ 16" using unsigned_less [of n, where 'a = nat] by simp
  have unat_of: "unat (of_nat i :: u16) = i" if "i < unat n" for i
    using that bound by (simp add: unsigned_of_nat take_bit_nat_eq_self)
  then have inj: "inj_on (of_nat :: nat \<Rightarrow> u16) {0..<unat n}"
    by (intro inj_onI) (metis atLeastLessThan_iff)
  have mem: "(t :: u16) \<in> of_nat ` {0..<unat n} \<longleftrightarrow> unat t < unat n" for t
  proof
    assume "t \<in> of_nat ` {0..<unat n}"
    then show "unat t < unat n" using unat_of by auto
  next
    assume "unat t < unat n"
    then show "t \<in> of_nat ` {0..<unat n}" by (intro image_eqI [of _ _ "unat t"]) simp_all
  qed
  have "tags_inv a"
    using inj mem unfolding tags_inv_def a
    by (auto simp: slot_new_def distinct_map executing_count_def)
  moreover have "lease_of a = (\<lambda>_. None)"
    by (rule ext) (simp add: lease_of_def a slot_new_def slot_data_empty_def is_pool_def)
  moreover have "pool.held_exact p (\<lambda>_. None) {}"
    using buf_pool_new_inv [OF p] by (simp add: pool.held_exact_def pool.held_def pool.holding_def)
  ultimately show "slots_inv {} a" "nslots a = n" by (simp_all add: slots_inv_def a)
qed

lemma claim_tag_ok:
  assumes inv: "slots_inv R a" and ne: "free_tags a \<noteq> []"
  obtains tag s where "slot_of a tag = Some s" "slot_state s = Free" "tag \<in> set (free_tags a)"
    "claim_tag a = Some (Some tag, put_slot tag
      (s\<lparr>slot_state := Receiving, slot_data_len := 0, recv_offset := 0\<rparr>)
      (a\<lparr>free_tags := butlast (free_tags a)\<rparr>))"
    "slots_inv R (put_slot tag (s\<lparr>slot_state := Receiving, slot_data_len := 0, recv_offset := 0\<rparr>)
      (a\<lparr>free_tags := butlast (free_tags a)\<rparr>))"
proof -
  have t: "tags_inv a" "pool.held_exact (pool a) (lease_of a) R" using inv by (simp_all add: slots_inv_def)
  define tag where "tag = last (free_tags a)"
  have F: "free_tags a = butlast (free_tags a) @ [tag]" using ne by (simp add: tag_def)
  then have mem: "tag \<in> set (free_tags a)" by (metis in_set_conv_decomp)
  then obtain s where s: "slot_of a tag = Some s" "slot_state s = Free"
    using t(1) by (auto simp: tags_inv_def slot_of_Some)
  let ?s = "s\<lparr>slot_state := Receiving, slot_data_len := 0, recv_offset := 0\<rparr>"
  let ?a = "put_slot tag ?s (a\<lparr>free_tags := butlast (free_tags a)\<rparr>)"
  have dist: "distinct (butlast (free_tags a) @ [tag])" using t(1) F by (simp add: tags_inv_def)
  have "set (free_tags a) = set (butlast (free_tags a) @ [tag])" using F by simp
  then have sets: "set (butlast (free_tags a)) - {tag} = set (free_tags a) - {tag}" by auto
  have "tags_inv ?a"
    by (rule tags_inv_put [OF t(1) s(1), of _ ?s])
      (use dist sets s(2) tags_inv_slot [OF t(1) s(1)] t(1) ne in \<open>auto simp: tags_inv_def\<close>)
  moreover have "lease_of ?a = lease_of a" by (rule lease_of_put_same [OF s(1), of _ ?s]) simp_all
  ultimately have "slots_inv R ?a" using t(2) by (simp add: slots_inv_def)
  moreover have "slot_of (a\<lparr>free_tags := butlast (free_tags a)\<rparr>) tag = Some s"
    using s(1) by (simp add: slot_of_def split: if_splits)
  ultimately show thesis
    using s mem ne by (intro that [of tag s]) (simp_all add: claim_tag_def tag_def [symmetric] Let_def)
qed

lemma claim_tag_inv:
  assumes inv: "slots_inv R a"
  shows "claim_tag a \<noteq> None" "claim_tag a = Some (r, a') \<Longrightarrow> slots_inv R a'"
proof -
  have "claim_tag a \<noteq> None \<and> (\<forall>r a'. claim_tag a = Some (r, a') \<longrightarrow> slots_inv R a')"
  proof (cases "free_tags a = []")
    case True
    then show ?thesis using inv by (simp add: claim_tag_def)
  next
    case False
    obtain tag s where "claim_tag a = Some (Some tag, put_slot tag
        (s\<lparr>slot_state := Receiving, slot_data_len := 0, recv_offset := 0\<rparr>)
        (a\<lparr>free_tags := butlast (free_tags a)\<rparr>))"
      "slots_inv R (put_slot tag (s\<lparr>slot_state := Receiving, slot_data_len := 0, recv_offset := 0\<rparr>)
        (a\<lparr>free_tags := butlast (free_tags a)\<rparr>))"
      by (rule claim_tag_ok [OF inv False], rule that)
    then show ?thesis by simp
  qed
  then show "claim_tag a \<noteq> None" "claim_tag a = Some (r, a') \<Longrightarrow> slots_inv R a'" by simp_all
qed

lemma claim_tag_refused: "claim_tag a = Some (None, a') \<Longrightarrow> a' = a \<and> free_tags a = []"
  by (auto simp: claim_tag_def Let_def split: if_splits option.splits)

lemma await_tag_poll_inv:
  assumes inv: "slots_inv R a" and r: "await_tag_poll w a = Some (q, a')"
  shows "slots_inv R a'"
proof -
  obtain c b where c: "claim_tag a = Some (c, b)"
    using r by (auto simp: await_tag_poll_def split: option.splits)
  note b = claim_tag_inv(2) [OF inv c]
  show ?thesis
  proof (cases c)
    case None
    then have "b = a" "free_tags a = []" using claim_tag_refused c by auto
    then have "a' = a\<lparr>tag_waiter := Some w\<rparr>" using r c None by (simp add: await_tag_poll_def)
    moreover have "lease_of (a\<lparr>tag_waiter := Some w\<rparr>) = lease_of a" by (rule ext) (simp add: lease_of_def)
    ultimately show ?thesis
      using inv \<open>free_tags a = []\<close> by (simp add: slots_inv_def tags_inv_def)
  next
    case (Some tag)
    then show ?thesis using r c b by (simp add: await_tag_poll_def)
  qed
qed

lemma submit_inv: "slots_inv R a \<Longrightarrow> submit tag c a = Some (a', ws) \<Longrightarrow> slots_inv R a'"
  using slots_inv_put [of R a tag _ _ "executing a"]
  by (auto simp: submit_def split: option.splits if_splits)

lemma stash_cmd_inv: "slots_inv R a \<Longrightarrow> stash_cmd tag c a = Some a' \<Longrightarrow> slots_inv R a'"
  using slots_inv_put [of R a tag _ _ "executing a"] tags_inv_slot [of a tag]
  by (auto simp: stash_cmd_def slots_inv_def split: option.splits if_splits)

lemma set_data_len_inv: "slots_inv R a \<Longrightarrow> set_data_len tag n a = Some a' \<Longrightarrow> slots_inv R a'"
  using slots_inv_put [of R a tag _ _ "executing a"] tags_inv_slot [of a tag]
  by (auto simp: set_data_len_def slots_inv_def)

lemma set_recv_offset_inv: "slots_inv R a \<Longrightarrow> set_recv_offset tag n a = Some a' \<Longrightarrow> slots_inv R a'"
  using slots_inv_put [of R a tag _ _ "executing a"] tags_inv_slot [of a tag]
  by (auto simp: set_recv_offset_def slots_inv_def)

lemma await_command_poll_inv:
  assumes inv: "slots_inv R a" and r: "await_command_poll w tag a = Some (q, a')"
  shows "slots_inv R a'"
proof -
  obtain s where s: "slot_of a tag = Some s" using r by (auto simp: await_command_poll_def split: option.splits)
  show ?thesis
  proof (cases "slot_state s = ReadyState")
    case True
    then obtain n where n: "checked_add (executing a) 1 = Some n"
      and a': "a' = put_slot tag (s\<lparr>slot_state := Executing\<rparr>) (a\<lparr>executing := n\<rparr>)"
      using r s by (auto simp: await_command_poll_def split: option.splits)
    show ?thesis
      unfolding a' using checked_add_Some [OF n] True by (intro slots_inv_put [OF inv s]) simp_all
  next
    case False
    then have a': "a' = put_slot tag (s\<lparr>slot_waker := Some w\<rparr>) (a\<lparr>executing := executing a\<rparr>)"
      using r s by (simp add: await_command_poll_def)
    show ?thesis
      unfolding a' using False by (intro slots_inv_put [OF inv s]) simp_all
  qed
qed

text \<open>The counter has room for one more command whenever a slot is ready.\<close>

lemma await_command_no_panic:
  assumes "slots_inv R a" "slot_of a tag = Some s"
  shows "await_command_poll w tag a \<noteq> None"
proof -
  have "length (slots a) = unat (nslots a)" "unat (executing a) = executing_count (slots a)"
    using assms(1) by (simp_all add: slots_inv_def tags_inv_def)
  moreover have "executing_count (slots a) < length (slots a)" if "slot_state s = ReadyState"
  proof -
    have "s \<in> set (slots a)" using assms(2) by (auto simp: slot_of_Some)
    then show ?thesis
      unfolding executing_count_def using that by (intro length_filter_less [of s]) simp_all
  qed
  moreover have "unat (nslots a) < 2 ^ 16" using unsigned_less [of "nslots a", where 'a = nat] by simp
  ultimately show ?thesis
    using assms(2) by (auto simp: await_command_poll_def checked_add_def)
qed

lemma begin_respond_inv:
  assumes inv: "slots_inv R a" and r: "begin_respond tag a = Some a'"
  shows "slots_inv R a'"
proof -
  obtain s where s: "slot_of a tag = Some s" "slot_state s = Executing" "executing a \<noteq> 0"
    and a': "a' = put_slot tag (s\<lparr>slot_state := Responding\<rparr>) (a\<lparr>executing := executing a - 1\<rparr>)"
    using r by (auto simp: begin_respond_def split: option.splits if_splits)
  have "0 < unat (executing a)" using s(3) by (simp add: unat_gt_0)
  then have "unat (executing a - 1) = unat (executing a) - 1" "1 \<le> unat (executing a)"
    by (simp_all add: unat_sub word_le_nat_alt)
  then show ?thesis
    unfolding a' using s(2) by (intro slots_inv_put [OF inv s(1)]) simp_all
qed

lemma begin_respond_no_panic:
  assumes "slots_inv R a" "slot_of a tag = Some s" "slot_state s = Executing"
  shows "begin_respond tag a \<noteq> None"
proof -
  have "s \<in> set (filter (\<lambda>s. slot_state s = Executing) (slots a))" using assms(2,3) by (auto simp: slot_of_Some)
  then have "0 < executing_count (slots a)" unfolding executing_count_def by (rule length_pos_if_in_set)
  then have "executing a \<noteq> 0" using assms(1) by (auto simp: slots_inv_def tags_inv_def)
  then show ?thesis using assms(2,3) by (simp add: begin_respond_def)
qed

lemma respond_receiving_inv: "slots_inv R a \<Longrightarrow> respond_receiving tag a = Some a' \<Longrightarrow> slots_inv R a'"
  using slots_inv_put [of R a tag _ _ "executing a"]
  by (auto simp: respond_receiving_def split: option.splits if_splits)

lemma release_tag_ok:
  assumes inv: "slots_inv R a" and s: "slot_of a tag = Some s" "slot_state s = Responding"
  obtains a' bids where "release_tag tag a = Some (a',
      (if is_pool (slot_data s) then pool_waiters (pool a) else []) @ option_list (tag_waiter a), bids)"
    "slots_inv R a'" "free_tags a' = free_tags a @ [tag]" "tag_waiter a' = None"
proof -
  have t: "tags_inv a" "pool.held_exact (pool a) (lease_of a) R" using inv by (simp_all add: slots_inv_def)
  have np: "\<not> is_pool slot_data_empty" by (simp add: is_pool_def slot_data_empty_def)
  let ?s = "s\<lparr>slot_data := slot_data_empty\<rparr>"
  obtain p ws bids where sd: "set_data tag slot_data_empty a = Some (put_slot tag ?s (a\<lparr>pool := p\<rparr>), ws, bids)"
    and i1: "slots_inv R (put_slot tag ?s (a\<lparr>pool := p\<rparr>))"
    and ws: "ws = (if is_pool (slot_data s) then pool_waiters (pool a) else [])"
    by (rule set_data_ok [OF t(1) s(1), of slot_data_empty R, unfolded if_not_P [OF np], OF _ _ t(2)], simp, simp)
      (rule that)
  let ?b = "put_slot tag ?s (a\<lparr>pool := p\<rparr>)"
  let ?a = "(put_slot tag (?s\<lparr>slot_state := Free\<rparr>) ?b)\<lparr>free_tags := free_tags ?b @ [tag], tag_waiter := None\<rparr>"
  have tb: "tags_inv ?b" "pool.held_exact p (lease_of ?b) R" using i1 by (simp_all add: slots_inv_def)
  have sb: "slot_of ?b tag = Some ?s" using s(1) by (simp add: slot_of_Some)
  have nf: "tag \<notin> set (free_tags a)" using tags_inv_slot(1) [OF t(1) s(1)] s(2) by simp
  have "tags_inv ?a"
    by (rule tags_inv_put [OF tb(1) sb, of _ "?s\<lparr>slot_state := Free\<rparr>"])
      (use nf t(1) s(2) in \<open>auto simp: tags_inv_def\<close>)
  moreover have "lease_of ?a = lease_of ?b"
    by (rule lease_of_put_same [OF sb, of _ "?s\<lparr>slot_state := Free\<rparr>"]) simp_all
  ultimately have "slots_inv R ?a" using tb(2) by (simp add: slots_inv_def)
  moreover have "release_tag tag a = Some (?a, ws @ option_list (tag_waiter a), bids)"
    using s sd sb by (simp add: release_tag_def release_data_def)
  ultimately show thesis using ws by (intro that [of ?a bids]) simp_all
qed

lemma release_tag_inv:
  assumes "slots_inv R a" "release_tag tag a = Some (a', e)"
  shows "slots_inv R a'"
proof -
  obtain s where s: "slot_of a tag = Some s" "slot_state s = Responding"
    using assms(2) by (auto simp: release_tag_def split: option.splits if_splits)
  then show ?thesis using release_tag_ok [OF assms(1) s] assms(2) by (metis fst_conv option.inject)
qed

lemma lease_of_pool [simp]: "lease_of (a\<lparr>pool := p\<rparr>) = lease_of a"
  by (rule ext) (simp add: lease_of_def)

lemma tags_inv_pool [simp]: "tags_inv (a\<lparr>pool := p\<rparr>) = tags_inv a"
  by (simp add: tags_inv_def)

lemma slot_of_pool [simp]: "slot_of (a\<lparr>pool := p\<rparr>) tag = slot_of a tag"
  by (simp add: slot_of_def)

text \<open>A buffer from the pool, or one that is not the pool's, goes into a claimed slot.\<close>

lemma set_data_lease:
  assumes inv: "slots_inv R a" and al: "pool_alloc len (pool a) = Some (Some d, p)"
    and s: "slot_of a tag = Some s" "slot_state s \<noteq> Free"
  shows "\<exists>a' e. set_data tag d (a\<lparr>pool := p\<rparr>) = Some (a', e) \<and> slots_inv R a'"
proof -
  have t: "tags_inv a" "pool.held_exact (pool a) (lease_of a) R" using inv by (simp_all add: slots_inv_def)
  have d: "lease_wf p d" using pool.alloc_leases [OF pool.held_exact_inv [OF t(2)] al] by blast
  then have ip: "is_pool d" by (simp add: lease_wf_def is_pool_def)
  have "lease_of a (length (slots a)) = None" by (simp add: lease_of_def)
  from pool.exact_alloc [OF t(2) al this]
  have "pool.held_exact (pool (a\<lparr>pool := p\<rparr>)) (if is_pool d then (lease_of (a\<lparr>pool := p\<rparr>))
      (length (slots (a\<lparr>pool := p\<rparr>)) := Some d) else lease_of (a\<lparr>pool := p\<rparr>)) R"
    using ip by simp
  then show ?thesis
    using t(1) s lease_slot_data_wf [OF d] by (intro set_data_ex [of "a\<lparr>pool := p\<rparr>" tag s d R]) simp_all
qed

lemma set_data_private:
  assumes inv: "slots_inv R a" and d: "\<not> is_pool d" "slot_data_wf d"
    and s: "slot_of a tag = Some s" "slot_state s \<noteq> Free"
  shows "\<exists>a' e. set_data tag d a = Some (a', e) \<and> slots_inv R a'"
  using assms by (intro set_data_ex [of a tag s d R]) (simp_all add: slots_inv_def)

lemma held_exact_waiters:
  "pool.held_exact (p\<lparr>pool_waiters := ws\<rparr>) D R = pool.held_exact p D R"
  "pool.held_exact (p\<lparr>pool_buf_index := i\<rparr>) D R = pool.held_exact p D R"
proof -
  have "pool.held_exact p' D R = pool.held_exact p D R"
    if "pool_base p' = pool_base p" "\<And>U. pool_inv p' U = pool_inv p U" for p'
    using that by (simp add: pool.held_exact_def pool.held_def pool.holding_def lease_cong [OF that(1)])
  note same = this
  show "pool.held_exact (p\<lparr>pool_waiters := ws\<rparr>) D R = pool.held_exact p D R"
    "pool.held_exact (p\<lparr>pool_buf_index := i\<rparr>) D R = pool.held_exact p D R"
    by (rule same; simp add: pool_inv_def)+
qed

lemma slots_inv_pool: "slots_inv R a \<Longrightarrow> pool_inv (pool a) (R \<union> pool.holding (pool a) (lease_of a))"
  unfolding slots_inv_def by (rule pool.held_exact_inv) simp

lemma pool_alloc_total: "slots_inv R a \<Longrightarrow> pool_alloc len (pool a) \<noteq> None"
  by (rule pool.alloc_total [OF slots_inv_pool])

lemma pool_alloc_none:
  "slots_inv R a \<Longrightarrow> pool_alloc len (pool a) = Some (None, p) \<Longrightarrow> p = pool a"
  by (rule pool.alloc_refused [OF slots_inv_pool])

text \<open>No way of leasing into a claimed slot panics, and all of them keep the invariant.\<close>

lemma leases_ok:
  assumes inv: "slots_inv R a" and s: "slot_of a tag = Some s" "slot_state s \<noteq> Free"
  shows "\<exists>b a' e. try_lease tag len a = Some (b, a', e) \<and> slots_inv R a'"
    "\<exists>m' a' e. lease_or_owned addr tag len m a = Some (m', a', e) \<and> slots_inv R a'"
    "\<exists>r a' e. lease_await_poll w tag len a = Some (r, a', e) \<and> slots_inv R a'"
proof -
  have "(\<exists>b a' e. try_lease tag len a = Some (b, a', e) \<and> slots_inv R a') \<and>
    (\<exists>m' a' e. lease_or_owned addr tag len m a = Some (m', a', e) \<and> slots_inv R a') \<and>
    (\<exists>r a' e. lease_await_poll w tag len a = Some (r, a', e) \<and> slots_inv R a')"
  proof (cases "pool_alloc len (pool a)")
    case None
    then show ?thesis using pool_alloc_total [OF inv] by simp
  next
    case (Some r)
    obtain x p where r: "r = (x, p)" by (cases r)
    show ?thesis
    proof (cases x)
      case x: None
      have p: "p = pool a" using pool_alloc_none [OF inv, of len] Some r x by simp
      then have q: "pool_alloc len (pool a) = Some (None, pool a)" using Some r x by simp
      obtain d m' where d: "slot_data_owned addr (max len 1) m = (d, m')" by fastforce
      have "\<not> is_pool d" using d by (auto simp: slot_data_owned_def is_pool_def split: prod.splits)
      then have "\<exists>a' e. set_data tag d a = Some (a', e) \<and> slots_inv R a'"
        using set_data_private [OF inv _ slot_data_owned_spec(1) [OF d] s] by blast
      moreover have "slots_inv R (a\<lparr>pool := pool a\<lparr>pool_waiters := pool_waiters (pool a) @ [w]\<rparr>\<rparr>)"
        using inv by (simp add: slots_inv_def held_exact_waiters)
      ultimately show ?thesis
        using inv q d
        by (auto simp: try_lease_def lease_or_owned_def lease_await_poll_def alloc_poll_def)
    next
      case x: (Some d)
      then have q: "pool_alloc len (pool a) = Some (Some d, p)" using Some r by simp
      obtain a' e where "set_data tag d (a\<lparr>pool := p\<rparr>) = Some (a', e)" "slots_inv R a'"
        using set_data_lease [OF inv q s] by blast
      then show ?thesis
        using q by (simp add: try_lease_def lease_or_owned_def lease_await_poll_def alloc_poll_def) blast
    qed
  qed
  then show "\<exists>b a' e. try_lease tag len a = Some (b, a', e) \<and> slots_inv R a'"
    "\<exists>m' a' e. lease_or_owned addr tag len m a = Some (m', a', e) \<and> slots_inv R a'"
    "\<exists>r a' e. lease_await_poll w tag len a = Some (r, a', e) \<and> slots_inv R a'"
    by blast+
qed

text \<open>The buffer a lease installs: whole pages per segment, or one segment; long enough; contiguous when
  one page is asked for.\<close>

definition buf_shape :: "slot_data \<Rightarrow> bool" where
  "buf_shape d \<longleftrightarrow> (\<forall>g \<in> set (sd_segs d). PAGE dvd seg_len g) \<or> length (sd_segs d) \<le> 1"

lemma set_data_slots:
  "set_data tag d a = Some (a', e) \<Longrightarrow> slot_of a tag = Some s \<Longrightarrow>
    slots a' = (slots a)[unat tag := s\<lparr>slot_data := d\<rparr>] \<and> nslots a' = nslots a"
  by (auto simp: set_data_def split: option.splits)

lemma sum_list_one_pos: "sum_list (xs :: nat list) = Suc 0 \<Longrightarrow> \<forall>x \<in> set xs. 0 < x \<Longrightarrow> length xs = Suc 0"
  by (cases xs; cases "tl xs") auto

lemma lease_shape:
  assumes "pool_inv p used" "pool_alloc len p = Some (Some d, p')"
  shows "buf_shape d" "len \<le> sd_len d" "slot_data_wf d" "len \<le> PAGE \<longrightarrow> is_contiguous d" "is_pool d"
proof -
  obtain n where n: "pages_for len = Some n" "lease_wf p d" "sd_len d = n * PAGE"
    using pool_alloc_spec [OF assms(1), of len] assms(2) by (metis option.inject prod.inject option.distinct(1))
  have segs: "sd_segs d = map (seg_of_run (pool_base p)) (lease_runs p d)" "runs_ok (lease_runs p d)"
    "sd_len d = sum_list (map run_len (lease_runs p d)) * PAGE"
    using n(2) unfolding lease_wf_def by blast+
  show "buf_shape d" unfolding buf_shape_def segs(1) by (auto simp: seg_of_run_def)
  show "len \<le> sd_len d" using pages_for_pos [OF n(1)] n(3) by simp
  show "slot_data_wf d" by (rule lease_slot_data_wf [OF n(2)])
  show "is_pool d" using n(2) by (simp add: lease_wf_def is_pool_def)
  show "len \<le> PAGE \<longrightarrow> is_contiguous d"
  proof
    assume "len \<le> PAGE"
    then have "n = 1" using n(1) by (auto simp: pages_for_def PAGE_def split: if_splits)
    then have "sum_list (map run_len (lease_runs p d)) = Suc 0" using n(3) segs(3) by (simp add: PAGE_def)
    moreover have "\<forall>x \<in> set (map run_len (lease_runs p d)). 0 < x"
      using segs(2) by (auto simp: runs_ok_def)
    ultimately have "length (map run_len (lease_runs p d)) = Suc 0" by (rule sum_list_one_pos)
    then show "is_contiguous d" by (simp add: is_contiguous_def segs(1))
  qed
qed

lemma lease_or_owned_buf:
  assumes inv: "slots_inv R a" and s: "slot_of a tag = Some s" "slot_state s \<noteq> Free"
  obtains m' a' ws bids d where "lease_or_owned addr tag len m a = Some (m', a', ws, bids)" "slots_inv R a'"
    "slots a' = (slots a)[unat tag := s\<lparr>slot_data := d\<rparr>]" "slot_of a' tag = Some (s\<lparr>slot_data := d\<rparr>)"
    "buf_shape d" "len \<le> sd_len d" "slot_data_wf d" "len \<le> PAGE \<longrightarrow> is_contiguous d"
proof -
  obtain m' a' ws bids where l: "lease_or_owned addr tag len m a = Some (m', a', ws, bids)" "slots_inv R a'"
    using leases_ok(2) [OF inv s, of addr len m] by auto
  have "\<exists>d p. set_data tag d (a\<lparr>pool := p\<rparr>) = Some (a', ws, bids) \<and> buf_shape d \<and> len \<le> sd_len d \<and>
      slot_data_wf d \<and> (len \<le> PAGE \<longrightarrow> is_contiguous d)"
  proof (cases "pool_alloc len (pool a)")
    case (Some r)
    obtain x p where r: "r = (x, p)" by (cases r)
    show ?thesis
    proof (cases x)
      case x: (Some d)
      then show ?thesis
        using Some r l(1) lease_shape [OF slots_inv_pool [OF inv], of len d p]
        by (auto simp: lease_or_owned_def)
    next
      case x: None
      obtain d m1 where d: "slot_data_owned addr (max len 1) m = (d, m1)" by fastforce
      then have "set_data tag d (a\<lparr>pool := p\<rparr>) = Some (a', ws, bids)"
        using Some r x l(1) by (auto simp: lease_or_owned_def)
      then show ?thesis using slot_data_owned_spec(1-3) [OF d] by (auto simp: buf_shape_def is_contiguous_def)
    qed
  qed (use pool_alloc_total [OF inv] in simp)
  then obtain d p where d: "set_data tag d (a\<lparr>pool := p\<rparr>) = Some (a', ws, bids)" "buf_shape d" "len \<le> sd_len d"
    "slot_data_wf d" "len \<le> PAGE \<longrightarrow> is_contiguous d" by blast
  have "slots a' = (slots a)[unat tag := s\<lparr>slot_data := d\<rparr>]"
    using set_data_slots [OF d(1)] s(1) by simp
  then show thesis using l d s(1) by (intro that [of m' a' ws bids d]) (simp_all add: slot_of_Some)
qed

lemma lease_await_buf:
  assumes inv: "slots_inv R a" and s: "slot_of a tag = Some s" "slot_state s \<noteq> Free"
  obtains (parked) a' where "lease_await_poll w tag len a = Some (Pending, a', [], [])" "slots_inv R a'" "slots a' = slots a"
  | (leased) a' ws bids d where "lease_await_poll w tag len a = Some (Ready (), a', ws, bids)" "slots_inv R a'"
    "slots a' = (slots a)[unat tag := s\<lparr>slot_data := d\<rparr>]" "slot_of a' tag = Some (s\<lparr>slot_data := d\<rparr>)"
    "buf_shape d" "len \<le> sd_len d" "slot_data_wf d"
proof -
  obtain r a' ws bids where l: "lease_await_poll w tag len a = Some (r, a', ws, bids)" "slots_inv R a'"
    using leases_ok(3) [OF inv s, of w len] by auto
  obtain x p where al: "pool_alloc len (pool a) = Some (x, p)" using pool_alloc_total [OF inv, of len] by auto
  show thesis
  proof (cases x)
    case None
    then show thesis using l al by (intro parked [of a']) (auto simp: lease_await_poll_def alloc_poll_def)
  next
    case (Some d)
    then have "set_data tag d (a\<lparr>pool := p\<rparr>) = Some (a', ws, bids)" "r = Ready ()"
      using l(1) al by (auto simp: lease_await_poll_def alloc_poll_def)
    moreover from this have "slots a' = (slots a)[unat tag := s\<lparr>slot_data := d\<rparr>]"
      using set_data_slots [of tag d "a\<lparr>pool := p\<rparr>" a' "(ws, bids)" s] s(1) by simp
    ultimately show thesis
      using l s(1) lease_shape [OF slots_inv_pool [OF inv], of len d p] al Some
      by (intro leased [of a' ws bids d]) (simp_all add: slot_of_Some)
  qed
qed

section \<open>Interleavings\<close>

text \<open>
  The receive path, the slot tasks and the send path share the array on one thread, so their
  operations interleave in any order. A buffer is installed only in a slot that has been claimed.
\<close>

inductive slot_step :: "'c slot_array \<Rightarrow> 'c slot_array \<Rightarrow> bool" where
  claim: "claim_tag a = Some (r, a') \<Longrightarrow> slot_step a a'"
| await_tag: "await_tag_poll w a = Some (r, a') \<Longrightarrow> slot_step a a'"
| submit: "submit tag c a = Some (a', ws) \<Longrightarrow> slot_step a a'"
| stash: "stash_cmd tag c a = Some a' \<Longrightarrow> slot_step a a'"
| set_len: "set_data_len tag n a = Some a' \<Longrightarrow> slot_step a a'"
| set_off: "set_recv_offset tag n a = Some a' \<Longrightarrow> slot_step a a'"
| await_command: "await_command_poll w tag a = Some (r, a') \<Longrightarrow> slot_step a a'"
| respond: "begin_respond tag a = Some a' \<Longrightarrow> slot_step a a'"
| fail: "respond_receiving tag a = Some a' \<Longrightarrow> slot_step a a'"
| release: "release_tag tag a = Some (a', e) \<Longrightarrow> slot_step a a'"
| try_lease: "slot_of a tag = Some s \<Longrightarrow> slot_state s \<noteq> Free \<Longrightarrow>
    try_lease tag len a = Some (b, a', e) \<Longrightarrow> slot_step a a'"
| lease_owned: "slot_of a tag = Some s \<Longrightarrow> slot_state s \<noteq> Free \<Longrightarrow>
    lease_or_owned addr tag len m a = Some (m', a', e) \<Longrightarrow> slot_step a a'"
| lease_await: "slot_of a tag = Some s \<Longrightarrow> slot_state s \<noteq> Free \<Longrightarrow>
    lease_await_poll w tag len a = Some (r, a', e) \<Longrightarrow> slot_step a a'"
| retain: "slot_of a tag = Some s \<Longrightarrow> slot_state s \<noteq> Free \<Longrightarrow>
    set_data tag (slot_data_ring bid ptr len) a = Some (a', e) \<Longrightarrow> slot_step a a'"
| index: "p = set_buf_index i (pool a) \<or> p = snd (take_buf_index (pool a)) \<Longrightarrow> slot_step a (a\<lparr>pool := p\<rparr>)"

inductive slot_reach :: "nat set \<Rightarrow> 'c slot_array \<Rightarrow> bool" where
  new: "slot_array_new addr n len init m = Some (a, m') \<Longrightarrow> slot_reach {} a"
| step: "slot_reach R a \<Longrightarrow> slot_step a a' \<Longrightarrow> slot_reach R a'"
| reserve: "slot_reach R a \<Longrightarrow> reserve_arena len (pool a) = (Some (ptr, n), p) \<Longrightarrow>
    slot_reach (R \<union> region_pages (pool a) ptr n) (a\<lparr>pool := p\<rparr>)"

lemma ring_not_pool: "\<not> is_pool (slot_data_ring bid ptr len)"
  by (simp add: is_pool_def slot_data_ring_def)

lemma slot_step_inv:
  assumes inv: "slots_inv R a" and st: "slot_step a a'"
  shows "slots_inv R a'"
  using st
proof (cases rule: slot_step.cases)
  case (claim r)
  then show ?thesis by (rule claim_tag_inv(2) [OF inv])
next
  case (try_lease tag s len b e)
  then show ?thesis using leases_ok(1) [OF inv, of tag s len] by auto
next
  case (lease_owned tag s addr len m m' e)
  then show ?thesis using leases_ok(2) [OF inv, of tag s addr len m] by auto
next
  case (lease_await tag s w len r e)
  then show ?thesis using leases_ok(3) [OF inv, of tag s w len] by auto
next
  case (retain tag s bid ptr len e)
  then show ?thesis using set_data_private [OF inv ring_not_pool slot_data_wf_ring, of tag s bid ptr len] by auto
next
  case (index p i)
  then show ?thesis
    using inv by (auto simp: slots_inv_def set_buf_index_def take_buf_index_def held_exact_waiters)
qed (auto intro: inv await_tag_poll_inv submit_inv stash_cmd_inv set_data_len_inv set_recv_offset_inv
    await_command_poll_inv begin_respond_inv respond_receiving_inv release_tag_inv)

lemma reserve_slots_inv:
  assumes inv: "slots_inv R a" and r: "reserve_arena len (pool a) = (Some (ptr, n), p)"
  shows "slots_inv (R \<union> region_pages (pool a) ptr n) (a\<lparr>pool := p\<rparr>)"
proof -
  have h: "pool.held_exact (pool a) (lease_of a) R" "tags_inv a" using inv by (simp_all add: slots_inv_def)
  note ri = reserve_arena_inv [OF pool.held_exact_inv [OF h(1)] r]
  let ?S = "region_pages (pool a) ptr n"
  have hold: "pool.holding p D = pool.holding (pool a) D" for D
    by (simp add: pool.holding_def lease_cong [OF ri(3)])
  have "pool.held p (lease_of a) (R \<union> ?S \<union> pool.holding (pool a) (lease_of a))"
    using h(1) ri(1) unfolding pool.held_exact_def pool.held_def lease_cong [OF ri(3)]
    by (auto simp: Un_assoc Un_commute Un_left_commute)
  then have "pool.held_exact p (lease_of a) (R \<union> ?S)"
    using h(1) ri(2) unfolding pool.held_exact_def hold by blast
  then show ?thesis using h(2) by (simp add: slots_inv_def)
qed

lemma slot_reach_inv: "slot_reach R a \<Longrightarrow> slots_inv R a"
  by (induction rule: slot_reach.induct) (blast intro: slot_array_new_inv slot_step_inv reserve_slots_inv)+

section \<open>The send queue's contract\<close>

text \<open>
  What a send loop relies on: work is delivered in the order it was pushed, a closed queue still
  delivers what it has and then ends, and a loop that parked is woken by the next push or close.
\<close>

locale send_queue =
  fixes push :: "'w \<Rightarrow> 'q \<Rightarrow> 'q \<times> nat list"
    and poll :: "nat \<Rightarrow> 'q \<Rightarrow> 'w option poll \<times> 'q"
    and close :: "'q \<Rightarrow> 'q \<times> nat list"
    and pending :: "'q \<Rightarrow> 'w list"
    and ended :: "'q \<Rightarrow> bool"
    and parked :: "'q \<Rightarrow> nat list"
  assumes push_pending: "pending (fst (push w q)) = pending q @ [w]"
    and push_ended: "ended (fst (push w q)) = ended q"
    and push_wakes: "snd (push w q) = parked q" "parked (fst (push w q)) = []"
    and close_pending: "pending (fst (close q)) = pending q"
    and close_ended: "ended (fst (close q))"
    and close_wakes: "snd (close q) = parked q" "parked (fst (close q)) = []"
    and poll_work: "pending q = w # ws \<Longrightarrow>
      fst (poll k q) = Ready (Some w) \<and> pending (snd (poll k q)) = ws \<and> ended (snd (poll k q)) = ended q"
    and poll_end: "pending q = [] \<Longrightarrow> ended q \<Longrightarrow> poll k q = (Ready None, q)"
    and poll_park: "pending q = [] \<Longrightarrow> \<not> ended q \<Longrightarrow> fst (poll k q) = Pending \<and>
      pending (snd (poll k q)) = [] \<and> \<not> ended (snd (poll k q)) \<and> parked (snd (poll k q)) = [k]"
begin

fun push_all :: "'w list \<Rightarrow> 'q \<Rightarrow> 'q" where
  "push_all [] q = q"
| "push_all (w # ws) q = push_all ws (fst (push w q))"

fun poll_all :: "nat \<Rightarrow> nat \<Rightarrow> 'q \<Rightarrow> 'w option poll list" where
  "poll_all k 0 q = []"
| "poll_all k (Suc n) q = fst (poll k q) # poll_all k n (snd (poll k q))"

lemma push_all_pending: "pending (push_all ws q) = pending q @ ws"
  by (induction ws arbitrary: q) (simp_all add: push_pending)

lemma push_all_ended: "ended (push_all ws q) = ended q"
  by (induction ws arbitrary: q) (simp_all add: push_ended)

lemma poll_all_ended:
  "pending q = [] \<Longrightarrow> ended q \<Longrightarrow> poll_all k n q = replicate n (Ready None)"
  by (induction n) (simp_all add: poll_end)

lemma poll_all_work:
  "pending q = ws \<Longrightarrow> ended q \<Longrightarrow>
    poll_all k (length ws + n) q = map (\<lambda>w. Ready (Some w)) ws @ replicate n (Ready None)"
  by (induction ws arbitrary: q) (simp_all add: poll_work poll_all_ended)

lemma close_drains:
  "poll_all k (length (pending q @ ws) + n) (fst (close (push_all ws q))) =
    map (\<lambda>w. Ready (Some w)) (pending q @ ws) @ replicate n (Ready None)"
  by (rule poll_all_work) (simp_all add: close_pending push_all_pending close_ended)

lemma park_then_wake:
  assumes "fst (poll k q) = Pending"
  shows "snd (push w (snd (poll k q))) = [k]" "snd (close (snd (poll k q))) = [k]"
proof -
  have "pending q = []" using assms poll_work [of q] by (cases "pending q") auto
  moreover have "\<not> ended q" using assms poll_end [OF calculation] by (metis fst_conv poll.distinct(1))
  ultimately have "parked (snd (poll k q)) = [k]" using poll_park by blast
  then show "snd (push w (snd (poll k q))) = [k]" "snd (close (snd (poll k q))) = [k]"
    by (simp_all add: push_wakes close_wakes)
qed

end

interpretation sl: send_queue send_push poll_next send_close work closed "\<lambda>l. option_list (send_waker l)"
  by unfold_locales (auto simp: send_push_def send_close_def poll_next_def option_list_def
      split: list.splits)

section \<open>Properties\<close>

lemmas slot_array_inv_simps = slots_inv_def tags_inv_def

lemma slot_engine_release:
  "slot_reach R a \<Longrightarrow> slot_of a t = Some s \<Longrightarrow> slot_state s = Responding \<Longrightarrow>
    \<exists>a' ws bids. release_tag t a = Some (a', ws, bids)"
  by (rule release_tag_ok [OF slot_reach_inv]) auto

text \<open>C16. Whatever the order in which the receive path, the slot tasks and the send path act, the
  freelist holds exactly the free slots, each once, the executing counter is the number of executing
  slots, claiming never panics, and none of the three steps of a command (pick-up by its task,
  response, release) panics on a slot in the state it expects.\<close>

theorem slot_engine_safe:
  assumes "slot_reach R a"
  shows "distinct (free_tags a) \<and>
    (\<forall>t. t \<in> set (free_tags a) \<longleftrightarrow> (\<exists>s. slot_of a t = Some s \<and> slot_state s = Free)) \<and>
    unat (executing a) = executing_count (slots a) \<and> claim_tag a \<noteq> None \<and>
    (\<forall>t s w. slot_of a t = Some s \<longrightarrow> await_command_poll w t a \<noteq> None \<and>
       (slot_state s = Executing \<longrightarrow> begin_respond t a \<noteq> None) \<and>
       (slot_state s = Responding \<longrightarrow> release_tag t a \<noteq> None))"
proof -
  have inv: "slots_inv R a" by (rule slot_reach_inv [OF assms])
  have "release_tag t a \<noteq> None" if "slot_of a t = Some s" "slot_state s = Responding" for t s
    using slot_engine_release [OF assms that] by auto
  then show ?thesis
    using inv claim_tag_inv(1) [OF inv] await_command_no_panic [OF inv] begin_respond_no_panic [OF inv]
    by (simp add: slot_array_inv_simps slot_of_Some)
qed

definition slots_sample :: "nat slot_array" where
  "slots_sample = fst (the (slot_array_new 4096 2 8192 0 (\<lambda>_. 0)))"

lemma slots_sample_reach: "slot_reach {} slots_sample"
proof -
  have "slot_array_new 4096 2 8192 (0 :: nat) (\<lambda>_. 0) \<noteq> None"
    by (simp add: slot_array_new_def buf_pool_new_def pages_for_def PAGE_def aligned_buf_zeroed_def)
  then obtain a m where a: "slot_array_new 4096 2 8192 (0 :: nat) (\<lambda>_. 0) = Some (a, m)" by auto
  then show ?thesis using slot_reach.new [OF a] by (simp add: slots_sample_def)
qed

theorem slot_engine_safe_witness:
  "slot_reach {} slots_sample \<and> distinct (free_tags slots_sample) \<and> claim_tag slots_sample \<noteq> None"
  using slot_engine_safe [OF slots_sample_reach] slots_sample_reach by blast


text \<open>C17. Nothing leaks: when the array is idle, every slot is free and holds no buffer, and all pages
  of the pool except those reserved for the send path are free again.\<close>

theorem idle_returns_all:
  assumes r: "slot_reach R a" and i: "idle a"
  shows "(\<forall>s \<in> set (slots a). slot_state s = Free \<and> slot_data s = slot_data_empty) \<and>
    executing a = 0 \<and> free_pages (pool a) + card R = npages (pool a)"
proof -
  have inv: "slots_inv R a" by (rule slot_reach_inv [OF r])
  then have t: "tags_inv a" "length (slots a) = unat (nslots a)" by (simp_all add: slot_array_inv_simps)
  have "card (unat ` set (free_tags a)) = length (slots a)"
  proof -
    have "inj_on unat (set (free_tags a))" by (intro inj_onI) (simp add: word_unat_eq_iff)
    then show ?thesis using t i by (simp add: card_image distinct_card tags_inv_def idle_def)
  qed
  moreover have "unat ` set (free_tags a) \<subseteq> {..<length (slots a)}" using t(1) by (auto simp: tags_inv_def)
  ultimately have all: "unat ` set (free_tags a) = {..<length (slots a)}"
    by (intro card_subset_eq) simp_all
  have free: "slot_state s = Free" if s: "s \<in> set (slots a)" for s
  proof -
    obtain k where k: "k < length (slots a)" "s = slots a ! k" using s by (auto simp: in_set_conv_nth)
    then have "k \<in> unat ` set (free_tags a)" using all by simp
    then show ?thesis using t(1) k by (auto simp: tags_inv_def)
  qed
  then have empty: "slot_data s = slot_data_empty" if "s \<in> set (slots a)" for s
    using that t(1) by (simp add: tags_inv_def)
  have "executing_count (slots a) = 0" using free by (auto simp: executing_count_def filter_empty_conv)
  then have "executing a = 0" using t(1) by (simp add: tags_inv_def unsigned_eq_0_iff)
  moreover have "lease_of a = (\<lambda>_. None)"
    by (rule ext) (auto simp: lease_of_def empty is_pool_def slot_data_empty_def)
  then have "pool_inv (pool a) R" using slots_inv_pool [OF inv] by simp
  then have "free_pages (pool a) + card R = npages (pool a)"
    unfolding pool_inv_def using card_Un_disjoint [of "runs_pages (free_runs (pool a))" R]
    by (metis card_atLeastLessThan card_runs_pages diff_zero finite_Un finite_atLeastLessThan)
  ultimately show ?thesis using free empty by blast
qed

theorem idle_returns_all_witness:
  "slot_reach {} slots_sample \<and> idle slots_sample \<and> free_pages (pool slots_sample) = npages (pool slots_sample)"
proof -
  have "idle slots_sample"
    by (simp add: slots_sample_def slot_array_new_def buf_pool_new_def pages_for_def PAGE_def
        aligned_buf_zeroed_def idle_def)
  then show ?thesis using idle_returns_all [OF slots_sample_reach] slots_sample_reach by simp
qed

text \<open>C18. Commands do not see each other's data: bytes written into one slot's pool buffer leave the
  contents of every other slot's pool buffer unchanged, in every reachable array.\<close>

theorem slots_isolated:
  assumes r: "slot_reach R a" and i: "slot_of a t = Some s" "is_pool (slot_data s)"
    and j: "slot_of a u = Some q" "is_pool (slot_data q)" and ne: "t \<noteq> u"
    and off: "off + length src \<le> sd_len (slot_data s)"
  shows "\<exists>m'. write_at (slot_data s) off src m = Some m' \<and>
    contents m' (slot_data s) = splice off src (contents m (slot_data s)) \<and>
    contents m' (slot_data q) = contents m (slot_data q)"
proof -
  have inv: "slots_inv R a" by (rule slot_reach_inv [OF r])
  have h: "pool.held (pool a) (lease_of a) (R \<union> pool.holding (pool a) (lease_of a))"
    using inv by (simp add: slots_inv_def pool.held_exact_def)
  have l: "lease_of a (unat t) = Some (slot_data s)" "lease_of a (unat u) = Some (slot_data q)"
    using i j by (auto simp: lease_of_def slot_of_Some)
  have "unat t \<noteq> unat u" using ne word_unat_eq_iff by blast
  then have "data_addrs (slot_data s) \<inter> data_addrs (slot_data q) = {}"
    using pool.held_lease [OF h l(1)] pool.held_lease [OF h l(2)] pool.held_exclusive [OF h _ l]
    by (intro leases_addrs_disjoint [of "pool a"]) auto
  then have apart: "x \<notin> data_addrs (slot_data s)" if "x \<in> data_addrs (slot_data q)" for x
    using that by blast
  have wf: "slot_data_wf (slot_data s)" using tags_inv_slot(4) [OF _ i(1)] inv by (simp add: slots_inv_def)
  obtain m' where m': "write_at (slot_data s) off src m = Some m'"
    "contents m' (slot_data s) = splice off src (contents m (slot_data s))"
    "\<And>x. x \<notin> data_addrs (slot_data s) \<Longrightarrow> m' x = m x"
    by (rule write_at_spec [OF wf off, of m], rule that)
  have "contents m' (slot_data q) = contents m (slot_data q)"
    by (rule contents_cong) (simp add: m'(3) apart)
  then show ?thesis using m'(1,2) by blast
qed

definition slots_busy :: "nat slot_array" where
  "slots_busy =
     (let lease = (\<lambda>t a. fst (snd (the (try_lease t 4096 a)))) in
      lease 1 (lease 0 (snd (the (claim_tag (snd (the (claim_tag slots_sample))))))))"

lemma slots_busy_eval:
  "slots_busy = \<lparr>nslots = 2,
     slots = map (\<lambda>k. (slot_new 0)\<lparr>slot_state := Receiving,
       slot_data := \<lparr>sd_segs = [\<lparr>seg_ptr = 4096 + k * 4096, seg_len = 4096\<rparr>], sd_len = 4096,
         sd_owner = OwnerPool\<rparr>\<rparr>) [0, 1],
     free_tags = [], executing = 0, tag_waiter = None,
     pool = \<lparr>pool_base = 4096, npages = 2, free_runs = [], free_pages = 0, pool_waiters = [],
       pool_buf_index = None, send_arena = None\<rparr>\<rparr>"
  by (simp add: slots_busy_def slots_sample_def slot_array_new_def buf_pool_new_def pages_for_def
      PAGE_def aligned_buf_zeroed_def claim_tag_def slot_of_def put_slot_def slot_new_def try_lease_def
      pool_alloc_def take_run_def make_lease_def page_ptr_def set_data_def slot_data_drop_def
      slot_data_empty_def upt_rec Let_def vec_remove_def)

lemma slots_busy_reach: "slot_reach {} slots_busy"
proof -
  define a1 where "a1 = snd (the (claim_tag slots_sample))"
  define a2 where "a2 = snd (the (claim_tag a1))"
  define a3 where "a3 = fst (snd (the (try_lease 0 4096 a2)))"
  have claim: "slot_reach {} (snd (the (claim_tag a)))" if a: "slot_reach {} a" for a :: "nat slot_array"
  proof -
    obtain r b where "claim_tag a = Some (r, b)" using claim_tag_inv(1) [OF slot_reach_inv [OF a]] by auto
    then show ?thesis using slot_reach.step [OF a slot_step.claim] by simp
  qed
  have lease: "slot_reach {} (fst (snd (the (try_lease t 4096 a))))"
    if a: "slot_reach {} a" "slot_of a t = Some s" "slot_state s \<noteq> Free" for a :: "nat slot_array" and t s
  proof -
    obtain b a' e where "try_lease t 4096 a = Some (b, a', e)"
      using leases_ok(1) [OF slot_reach_inv [OF a(1)] a(2,3)] by blast
    then show ?thesis using slot_reach.step [OF a(1) slot_step.try_lease [OF a(2,3)]] by simp
  qed
  have r2: "slot_reach {} a2" unfolding a1_def a2_def by (intro claim slots_sample_reach)
  note eval = slots_sample_def slot_array_new_def buf_pool_new_def pages_for_def
      PAGE_def aligned_buf_zeroed_def claim_tag_def slot_of_def put_slot_def slot_new_def try_lease_def
      pool_alloc_def take_run_def make_lease_def page_ptr_def set_data_def slot_data_drop_def
      slot_data_empty_def upt_rec Let_def vec_remove_def a1_def a2_def a3_def
  obtain s where s: "slot_of a2 0 = Some s" "slot_state s \<noteq> Free" by (simp add: eval)
  have r3: "slot_reach {} a3" unfolding a3_def by (rule lease [OF r2 s])
  obtain q where q: "slot_of a3 1 = Some q" "slot_state q \<noteq> Free" by (simp add: eval)
  have "slots_busy = fst (snd (the (try_lease 1 4096 a3)))"
    by (simp add: slots_busy_def a1_def a2_def a3_def Let_def)
  then show ?thesis using lease [OF r3 q] by simp
qed

theorem slots_isolated_witness:
  "\<exists>s q m'. slot_of slots_busy 0 = Some s \<and> slot_of slots_busy 1 = Some q \<and>
     write_at (slot_data s) 4094 [1, 2] (\<lambda>_. 9) = Some m' \<and>
     contents m' (slot_data q) = contents (\<lambda>_. 9) (slot_data q)"
proof -
  obtain s q where s: "slot_of slots_busy 0 = Some s" "is_pool (slot_data s)" "sd_len (slot_data s) = 4096"
    and q: "slot_of slots_busy 1 = Some q" "is_pool (slot_data q)"
    by (simp add: slots_busy_eval slot_of_def slot_new_def is_pool_def)
  have "4094 + length [1, 2 :: u8] \<le> sd_len (slot_data s)" using s(3) by simp
  from slots_isolated [OF slots_busy_reach s(1,2) q _ this, of "\<lambda>_. 9"] s(1) q(1) show ?thesis by auto
qed


text \<open>C20. Send work is delivered in order and completely: after any pushes and a close, polling the queue
  yields the pending items, then the pushed ones, in order, and then the end, for ever; and a loop that
  parked is woken by the next push and by a close.\<close>

theorem send_list_delivers:
  "sl.poll_all k (length (work l @ ws) + n) (fst (send_close (sl.push_all ws l))) =
     map (\<lambda>w. Ready (Some w)) (work l @ ws) @ replicate n (Ready None) \<and>
   (case poll_next k l of
      (Pending, l') \<Rightarrow> snd (send_push w l') = [k] \<and> snd (send_close l') = [k]
    | (Ready _, _) \<Rightarrow> True)"
  using sl.close_drains [of k l ws n] sl.park_then_wake(1) [of k l w] sl.park_then_wake(2) [of k l]
  by (auto split: prod.splits poll.splits)

end
