(* ===== verification/Queue_Core.thy ===== *)
theory Queue_Core
  imports Slotq
begin

text \<open>
  The per-queue context (\<^verbatim>\<open>crates/ioutgt-core/src/queue.rs\<close>): the slot array with the
  submission-queue head of NVMe flow control and the lifetime counters. The counters are 64-bit
  words; their increments wrap. The optional transport counters are a trait object outside this
  file and are left out.
\<close>

abbreviation (input) MAX_QUEUE_ENTRIES :: u16 where "MAX_QUEUE_ENTRIES \<equiv> 256"
abbreviation (input) MDTS_BYTES :: u32 where "MDTS_BYTES \<equiv> 128 * 1024"

record queue_stats =
  st_qid :: u16
  st_cntlid :: u16
  read_cmds :: u64
  write_cmds :: u64
  flush_cmds :: u64
  other_cmds :: u64
  read_bytes :: u64
  write_bytes :: u64
  errors :: u64

definition queue_stats_new :: "u16 \<Rightarrow> queue_stats" where
  "queue_stats_new q = \<lparr>st_qid = q, st_cntlid = 0, read_cmds = 0, write_cmds = 0, flush_cmds = 0,
     other_cmds = 0, read_bytes = 0, write_bytes = 0, errors = 0\<rparr>"

definition stats_reset :: "queue_stats \<Rightarrow> queue_stats" where
  "stats_reset s = s\<lparr>read_cmds := 0, write_cmds := 0, flush_cmds := 0, other_cmds := 0,
     read_bytes := 0, write_bytes := 0, errors := 0\<rparr>"

text \<open>A snapshot has the same fields; \<^verbatim>\<open>absorb\<close> folds a retired queue into an accumulator.\<close>

definition stats_absorb :: "queue_stats \<Rightarrow> queue_stats \<Rightarrow> queue_stats" where
  "stats_absorb other s = s\<lparr>
     read_cmds := read_cmds s + read_cmds other, write_cmds := write_cmds s + write_cmds other,
     flush_cmds := flush_cmds s + flush_cmds other, other_cmds := other_cmds s + other_cmds other,
     read_bytes := read_bytes s + read_bytes other, write_bytes := write_bytes s + write_bytes other,
     errors := errors s + errors other\<rparr>"

record 'c queue_core =
  qslots :: "'c slot_array"
  sqsize :: u16
  qid :: u16
  sqhd :: u16
  sqhd_disabled :: bool
  stats :: queue_stats

definition queue_core_new ::
  "nat \<Rightarrow> u16 \<Rightarrow> u16 \<Rightarrow> nat \<Rightarrow> bool \<Rightarrow> 'c \<Rightarrow> memory \<Rightarrow> ('c queue_core \<times> memory) option" where
  "queue_core_new addr q depth pool_bytes disabled init m =
     map_option (\<lambda>(a, m'). (\<lparr>qslots = a, sqsize = depth, qid = q, sqhd = 0, sqhd_disabled = disabled,
       stats = queue_stats_new q\<rparr>, m')) (slot_array_new addr depth pool_bytes init m)"

text \<open>\<^const>\<open>None\<close> is a panic: the \<^verbatim>\<open>u16\<close> increment overflows or the size is zero.\<close>

definition advance_sqhd :: "'c queue_core \<Rightarrow> (u16 \<times> 'c queue_core) option" where
  "advance_sqhd q =
     (if sqhd_disabled q then Some (0, q)
      else case checked_add (sqhd q) 1 of
        None \<Rightarrow> None
      | Some n \<Rightarrow>
          if sqsize q = 0 then None
          else let next = n mod sqsize q in Some (next, q\<lparr>sqhd := next\<rparr>))"

fun advance_many :: "nat \<Rightarrow> 'c queue_core \<Rightarrow> 'c queue_core option" where
  "advance_many 0 q = Some q"
| "advance_many (Suc n) q = (case advance_many n q of
     None \<Rightarrow> None | Some q' \<Rightarrow> map_option snd (advance_sqhd q'))"

lemma advance_sqhd_step:
  assumes "\<not> sqhd_disabled q" "sqhd q < sqsize q"
  shows "\<exists>h. advance_sqhd q = Some (h, q\<lparr>sqhd := h\<rparr>) \<and> unat h = (unat (sqhd q) + 1) mod unat (sqsize q) \<and> h < sqsize q"
proof -
  have b: "unat (sqhd q) < unat (sqsize q)" using assms(2) by (simp add: word_less_nat_alt)
  then have "unat (sqhd q) + 1 < 2 ^ 16" using unsigned_less [of "sqsize q", where 'a = nat] by simp
  then have c: "checked_add (sqhd q) 1 = Some (sqhd q + 1)" and u: "unat (sqhd q + 1) = unat (sqhd q) + 1"
    by (simp_all add: checked_add_def unat_word_ariths)
  have nz: "sqsize q \<noteq> 0" using b by auto
  have m: "unat ((sqhd q + 1) mod sqsize q) = (unat (sqhd q) + 1) mod unat (sqsize q)"
    by (simp add: unat_mod u)
  then have "(sqhd q + 1) mod sqsize q < sqsize q" using b by (simp add: word_less_nat_alt)
  then show ?thesis using assms(1) c nz m by (simp add: advance_sqhd_def Let_def)
qed

text \<open>C33. The submission-queue head reported in completions is circular: after any number of
  completions it is that number modulo the queue size, so it stays within the queue, computing it
  never panics, and the next completion reports the next value; a queue without flow control always reports zero and does not move.\<close>

theorem sqhd_circular:
  assumes new: "queue_core_new addr i depth bytes dis init m = Some (q, m')" and size: "0 < depth"
  shows "\<exists>q'. advance_many n q = Some q' \<and>
    unat (sqhd q') = (if dis then 0 else n mod unat depth) \<and> sqhd q' < depth \<and>
    (\<exists>h q''. advance_sqhd q' = Some (h, q'') \<and> unat h = (if dis then 0 else Suc n mod unat depth))"
proof -
  have q: "sqhd_disabled q = dis" "sqhd q = 0" "sqsize q = depth"
    using new by (auto simp: queue_core_new_def)
  show ?thesis
  proof (cases dis)
    case True
    have "advance_many n q = Some q"
      using q(1) True by (induction n) (simp_all add: advance_sqhd_def)
    then show ?thesis using q size True by (simp add: advance_sqhd_def)
  next
    case False
    have "\<exists>h. advance_many n q = Some (q\<lparr>sqhd := h\<rparr>) \<and> unat h = n mod unat depth \<and> h < depth"
    proof (induction n)
      case 0
      have "q\<lparr>sqhd := 0\<rparr> = q" using q(2) by simp
      then show ?case using size by (intro exI [of _ 0]) simp
    next
      case (Suc n)
      then obtain h where h: "advance_many n q = Some (q\<lparr>sqhd := h\<rparr>)" "unat h = n mod unat depth" "h < depth"
        by blast
      then show ?case
        using advance_sqhd_step [of "q\<lparr>sqhd := h\<rparr>"] q False by (auto simp: mod_Suc_eq)
    qed
    then obtain h where h: "advance_many n q = Some (q\<lparr>sqhd := h\<rparr>)" "unat h = n mod unat depth" "h < depth" by blast
    moreover obtain h' q'' where "advance_sqhd (q\<lparr>sqhd := h\<rparr>) = Some (h', q'')" "unat h' = Suc n mod unat depth"
      using advance_sqhd_step [of "q\<lparr>sqhd := h\<rparr>"] h q False by (auto simp: mod_Suc_eq)
    ultimately show ?thesis using False by auto
  qed
qed

theorem sqhd_circular_witness:
  "\<exists>q m' q'. queue_core_new 4096 1 3 4096 False (0 :: nat) (\<lambda>_. 0) = Some (q, m') \<and>
     advance_many 7 q = Some q' \<and> unat (sqhd q') = 1"
proof -
  have "queue_core_new 4096 1 3 4096 False (0 :: nat) (\<lambda>_. 0) \<noteq> None"
    by (simp add: queue_core_new_def slot_array_new_def buf_pool_new_def pages_for_def PAGE_def
        aligned_buf_zeroed_def)
  then obtain q m' where q: "queue_core_new 4096 1 3 4096 False (0 :: nat) (\<lambda>_. 0) = Some (q, m')" by auto
  have "7 mod unat (3 :: u16) = 1" by simp
  then show ?thesis using sqhd_circular [OF q, of 7] q by auto
qed

end
