(* ===== verification/Registry.thy ===== *)
theory Registry
  imports Prelude
begin

text \<open>
  The controller registry of a port (\<^verbatim>\<open>crates/ioutgt-core/src/registry.rs\<close>), shared by all
  threads under a mutex, so that each method is one atomic step. The hash map is a function from
  controller identifiers; a traffic flag shared by reference is an index into the registry's flags.
  A panic is \<^const>\<open>None\<close>.
\<close>

record queue_info =
  qi_qid :: u16
  qi_sqsize :: u16
  qi_tid :: int
  qi_cpus :: string
  qi_peer :: string

record controller_entry =
  ce_cntlid :: u16
  ce_subsys_nqn :: string
  ce_hostnqn :: string
  ce_max_qid :: u16
  ce_kato_ms :: u32
  ce_queues :: "queue_info list"
  ce_discovery :: bool
  ce_traffic :: nat

record registry =
  cntlid_min :: u16
  cntlid_max :: u16
  next_cntlid :: u16
  controllers :: "u16 \<Rightarrow> controller_entry option"
  traffic_flags :: "nat \<Rightarrow> bool"
  next_flag :: nat

definition CNTLID_MAX :: u16 where "CNTLID_MAX = 0xFFEF"

datatype io_connect_error = UnknownController | HostMismatch | QueueExists | InvalidQid

definition registry_new :: "u16 \<Rightarrow> u16 \<Rightarrow> registry option" where
  "registry_new lo hi =
     (if 1 \<le> lo \<and> lo \<le> hi \<and> hi \<le> CNTLID_MAX
      then Some \<lparr>cntlid_min = lo, cntlid_max = hi, next_cntlid = lo, controllers = (\<lambda>_. None),
                 traffic_flags = (\<lambda>_. False), next_flag = 0\<rparr>
      else None)"

definition traffic_set :: "nat \<Rightarrow> registry \<Rightarrow> registry" where
  "traffic_set i r = r\<lparr>traffic_flags := (traffic_flags r)(i := True)\<rparr>"

definition traffic_take :: "nat \<Rightarrow> registry \<Rightarrow> bool \<times> registry" where
  "traffic_take i r = (traffic_flags r i, r\<lparr>traffic_flags := (traffic_flags r)(i := False)\<rparr>)"

text \<open>The scan over the identifier slice, from \<open>offset\<close> on for \<open>k\<close> more candidates; the sums are
  below \<^verbatim>\<open>2^17\<close> and fit the \<^verbatim>\<open>u32\<close> of the code.\<close>

fun scan_cntlid :: "registry \<Rightarrow> nat \<Rightarrow> nat \<Rightarrow> nat \<Rightarrow> nat \<Rightarrow> u16 option" where
  "scan_cntlid r start span offset 0 = None"
| "scan_cntlid r start span offset (Suc k) =
     (let index = (start - unat (cntlid_min r) + offset) mod span;
          cntlid = cntlid_min r + of_nat index in
      case controllers r cntlid of
        None \<Rightarrow> Some cntlid
      | Some _ \<Rightarrow> scan_cntlid r start span (Suc offset) k)"

definition allocate ::
  "string \<Rightarrow> string \<Rightarrow> u16 \<Rightarrow> u32 \<Rightarrow> queue_info \<Rightarrow> bool \<Rightarrow> registry \<Rightarrow> u16 option \<times> registry" where
  "allocate subsys_nqn hostnqn max_qid kato_ms admin_queue discovery r =
     (let span = unat (cntlid_max r - cntlid_min r) + 1;
          start = unat (min (max (next_cntlid r) (cntlid_min r)) (cntlid_max r)) in
      case scan_cntlid r start span 0 span of
        None \<Rightarrow> (None, r)
      | Some cntlid \<Rightarrow>
          (Some cntlid,
           r\<lparr>next_cntlid := cntlid + 1,
             controllers := (controllers r)(cntlid \<mapsto>
               \<lparr>ce_cntlid = cntlid, ce_subsys_nqn = subsys_nqn, ce_hostnqn = hostnqn,
                ce_max_qid = max_qid, ce_kato_ms = kato_ms, ce_queues = [admin_queue],
                ce_discovery = discovery, ce_traffic = next_flag r\<rparr>),
             traffic_flags := (traffic_flags r)(next_flag r := False),
             next_flag := next_flag r + 1\<rparr>))"

definition install_io_queue ::
  "u16 \<Rightarrow> string \<Rightarrow> queue_info \<Rightarrow> registry \<Rightarrow> (io_connect_error + controller_entry) \<times> registry" where
  "install_io_queue cntlid hostnqn queue r =
     (case controllers r cntlid of
        None \<Rightarrow> (Inl UnknownController, r)
      | Some e \<Rightarrow>
          if ce_hostnqn e \<noteq> hostnqn then (Inl HostMismatch, r)
          else if qi_qid queue = 0 \<or> ce_max_qid e < qi_qid queue then (Inl InvalidQid, r)
          else if \<exists>q \<in> set (ce_queues e). qi_qid q = qi_qid queue then (Inl QueueExists, r)
          else
            let e' = e\<lparr>ce_queues := ce_queues e @ [queue]\<rparr> in
            (Inr e', r\<lparr>controllers := (controllers r)(cntlid \<mapsto> e')\<rparr>))"

definition registry_remove :: "u16 \<Rightarrow> registry \<Rightarrow> controller_entry option \<times> registry" where
  "registry_remove cntlid r = (controllers r cntlid, r\<lparr>controllers := (controllers r)(cntlid := None)\<rparr>)"

definition registry_traffic :: "registry \<Rightarrow> u16 \<Rightarrow> nat option" where
  "registry_traffic r cntlid = map_option ce_traffic (controllers r cntlid)"

definition registry_contains :: "registry \<Rightarrow> u16 \<Rightarrow> bool" where
  "registry_contains r cntlid \<longleftrightarrow> controllers r cntlid \<noteq> None"

text \<open>All live controllers by ascending identifier.\<close>

definition registry_snapshot :: "registry \<Rightarrow> controller_entry list" where
  "registry_snapshot r = List.map_filter (\<lambda>k. controllers r (of_nat k)) [0..<65536]"

definition registry_len :: "registry \<Rightarrow> nat" where
  "registry_len r = length (registry_snapshot r)"

section \<open>Invariant\<close>

definition entry_ok :: "controller_entry \<Rightarrow> bool" where
  "entry_ok e \<longleftrightarrow> distinct (map qi_qid (ce_queues e)) \<and>
     (\<exists>q qs. ce_queues e = q # qs \<and> qi_qid q = 0 \<and>
        (\<forall>p \<in> set qs. 0 < qi_qid p \<and> qi_qid p \<le> ce_max_qid e))"

definition registry_inv :: "registry \<Rightarrow> bool" where
  "registry_inv r \<longleftrightarrow> 1 \<le> cntlid_min r \<and> cntlid_min r \<le> cntlid_max r \<and> cntlid_max r \<le> CNTLID_MAX \<and>
     (\<forall>c e. controllers r c = Some e \<longrightarrow> ce_cntlid e = c \<and> cntlid_min r \<le> c \<and> c \<le> cntlid_max r \<and>
        entry_ok e \<and> ce_traffic e < next_flag r) \<and>
     (\<forall>c d e f. controllers r c = Some e \<longrightarrow> controllers r d = Some f \<longrightarrow> c \<noteq> d \<longrightarrow> ce_traffic e \<noteq> ce_traffic f)"

lemma registry_new_inv: "registry_new lo hi = Some r \<Longrightarrow> registry_inv r"
  by (auto simp: registry_new_def registry_inv_def split: if_splits)

lemma scan_cntlid_Some:
  "scan_cntlid r start span off k = Some c \<Longrightarrow>
    controllers r c = None \<and> (\<exists>i. c = cntlid_min r + of_nat ((start - unat (cntlid_min r) + i) mod span))"
  by (induction r start span off k rule: scan_cntlid.induct) (auto simp: Let_def split: option.splits)

lemma scan_cntlid_None:
  "scan_cntlid r start span off k = None \<Longrightarrow> off \<le> i \<Longrightarrow> i < off + k \<Longrightarrow>
    controllers r (cntlid_min r + of_nat ((start - unat (cntlid_min r) + i) mod span)) \<noteq> None"
proof (induction r start span off k rule: scan_cntlid.induct)
  case (2 r start span offset k)
  then show ?case by (cases "i = offset") (auto simp: Let_def split: option.splits)
qed simp

text \<open>The span of identifiers, and that the scan covers all of it.\<close>

lemma span_bounds:
  assumes "registry_inv r"
  shows "unat (cntlid_max r - cntlid_min r) = unat (cntlid_max r) - unat (cntlid_min r)"
    "unat (cntlid_min r) \<le> unat (cntlid_max r)" "unat (cntlid_max r) < 2 ^ 16"
  using assms unsigned_less [of "cntlid_max r", where 'a = nat]
  by (simp_all add: registry_inv_def unat_sub word_le_nat_alt)

lemma unat_min_add:
  assumes "registry_inv r" "i \<le> unat (cntlid_max r) - unat (cntlid_min r)"
  shows "unat (cntlid_min r + of_nat i) = unat (cntlid_min r) + i"
  using assms span_bounds [OF assms(1)] by (simp add: unat_word_ariths unsigned_of_nat take_bit_nat_eq_self)

lemma mod_reaches:
  assumes "a < n" "t < (n :: nat)"
  shows "\<exists>i < n. (a + i) mod n = t"
proof (cases "a \<le> t")
  case True
  then show ?thesis using assms by (intro exI [of _ "t - a"]) auto
next
  case False
  then show ?thesis using assms by (intro exI [of _ "n + t - a"]) auto
qed

lemma allocate_spec:
  assumes inv: "registry_inv r"
    and a: "allocate nqn host mq kato aq disc r = (res, r')"
  shows "(\<exists>c. res = Some c \<and> controllers r c = None \<and> cntlid_min r \<le> c \<and> c \<le> cntlid_max r \<and>
      controllers r' = (controllers r)(c \<mapsto> \<lparr>ce_cntlid = c, ce_subsys_nqn = nqn, ce_hostnqn = host,
        ce_max_qid = mq, ce_kato_ms = kato, ce_queues = [aq], ce_discovery = disc, ce_traffic = next_flag r\<rparr>) \<and>
      cntlid_min r' = cntlid_min r \<and> cntlid_max r' = cntlid_max r \<and> next_flag r' = Suc (next_flag r) \<and>
      traffic_flags r' = (traffic_flags r)(next_flag r := False)) \<or>
    (res = None \<and> r' = r \<and> (\<forall>c. cntlid_min r \<le> c \<and> c \<le> cntlid_max r \<longrightarrow> controllers r c \<noteq> None))"
proof -
  define span where "span = unat (cntlid_max r - cntlid_min r) + 1"
  define start where "start = unat (min (max (next_cntlid r) (cntlid_min r)) (cntlid_max r))"
  note sb = span_bounds [OF inv]
  have st: "start - unat (cntlid_min r) < span" "unat (cntlid_min r) \<le> start"
    using sb by (auto simp: start_def span_def min_def max_def word_le_nat_alt not_le word_less_nat_alt)
  have idx: "unat (cntlid_min r + of_nat (j mod span)) = unat (cntlid_min r) + j mod span"
    "j mod span \<le> unat (cntlid_max r) - unat (cntlid_min r)" for j
  proof -
    have "j mod span < span" by (rule mod_less_divisor) (simp add: span_def)
    then show "j mod span \<le> unat (cntlid_max r) - unat (cntlid_min r)" using sb by (simp add: span_def)
    then show "unat (cntlid_min r + of_nat (j mod span)) = unat (cntlid_min r) + j mod span"
      by (rule unat_min_add [OF inv])
  qed
  have al: "allocate nqn host mq kato aq disc r = (case scan_cntlid r start span 0 span of
        None \<Rightarrow> (None, r)
      | Some cntlid \<Rightarrow> (Some cntlid, r\<lparr>next_cntlid := cntlid + 1,
          controllers := (controllers r)(cntlid \<mapsto>
            \<lparr>ce_cntlid = cntlid, ce_subsys_nqn = nqn, ce_hostnqn = host,
             ce_max_qid = mq, ce_kato_ms = kato, ce_queues = [aq],
             ce_discovery = disc, ce_traffic = next_flag r\<rparr>),
          traffic_flags := (traffic_flags r)(next_flag r := False),
          next_flag := next_flag r + 1\<rparr>))"
    by (simp only: allocate_def span_def start_def Let_def)
  show ?thesis
  proof (cases "scan_cntlid r start span 0 span")
    case None
    have "controllers r c \<noteq> None" if c: "cntlid_min r \<le> c" "c \<le> cntlid_max r" for c
    proof -
      have "unat c - unat (cntlid_min r) < span" using c sb by (simp add: span_def word_le_nat_alt)
      then obtain i where i: "i < span" "(start - unat (cntlid_min r) + i) mod span = unat c - unat (cntlid_min r)"
        using mod_reaches [OF st(1)] by blast
      have "unat (cntlid_min r + of_nat ((start - unat (cntlid_min r) + i) mod span)) = unat c"
        using idx(1) [of "start - unat (cntlid_min r) + i"] i(2) c(1) by (simp add: word_le_nat_alt)
      then have "c = cntlid_min r + of_nat ((start - unat (cntlid_min r) + i) mod span)"
        using word_unat_eq_iff by metis
      then show ?thesis using scan_cntlid_None [OF None, of i] i(1) by simp
    qed
    then show ?thesis using a None unfolding al by simp
  next
    case (Some c)
    obtain i where i: "c = cntlid_min r + of_nat ((start - unat (cntlid_min r) + i) mod span)"
      and free: "controllers r c = None"
      using scan_cntlid_Some [OF Some] by blast
    have "cntlid_min r \<le> c" "c \<le> cntlid_max r"
      using idx [of "start - unat (cntlid_min r) + i"] sb unfolding i word_le_nat_alt by simp_all
    moreover have "res = Some c" "r' = r\<lparr>next_cntlid := c + 1,
          controllers := (controllers r)(c \<mapsto>
            \<lparr>ce_cntlid = c, ce_subsys_nqn = nqn, ce_hostnqn = host,
             ce_max_qid = mq, ce_kato_ms = kato, ce_queues = [aq],
             ce_discovery = disc, ce_traffic = next_flag r\<rparr>),
          traffic_flags := (traffic_flags r)(next_flag r := False),
          next_flag := next_flag r + 1\<rparr>"
      using a Some unfolding al by simp_all
    ultimately show ?thesis using free by (intro disjI1 exI [of _ c]) simp
  qed
qed

lemma allocate_inv:
  assumes inv: "registry_inv r" and a: "allocate nqn host mq kato aq disc r = (res, r')" and q: "qi_qid aq = 0"
  shows "registry_inv r'"
proof -
  consider (some) c where "res = Some c" "controllers r c = None" "cntlid_min r \<le> c" "c \<le> cntlid_max r"
      "controllers r' = (controllers r)(c \<mapsto> \<lparr>ce_cntlid = c, ce_subsys_nqn = nqn, ce_hostnqn = host,
        ce_max_qid = mq, ce_kato_ms = kato, ce_queues = [aq], ce_discovery = disc, ce_traffic = next_flag r\<rparr>)"
      "cntlid_min r' = cntlid_min r" "cntlid_max r' = cntlid_max r" "next_flag r' = Suc (next_flag r)"
    | (none) "r' = r" using allocate_spec [OF inv a] by blast
  then show ?thesis
  proof cases
    case some
    have old: "ce_traffic e < next_flag r" if "controllers r d = Some e" for d e
      using inv that by (simp add: registry_inv_def)
    show ?thesis
      using inv some q unfolding registry_inv_def
      by (auto simp: entry_ok_def less_Suc_eq dest: old split: if_splits)
  qed (simp add: inv)
qed

lemma install_io_queue_inv:
  assumes inv: "registry_inv r" and i: "install_io_queue c host q r = (res, r')"
  shows "registry_inv r'"
proof (cases res)
  case (Inl x)
  then have "r' = r" using i by (auto simp: install_io_queue_def Let_def split: option.splits if_splits)
  then show ?thesis using inv by simp
next
  case (Inr e')
  then obtain e where e: "controllers r c = Some e" "qi_qid q \<noteq> 0" "qi_qid q \<le> ce_max_qid e"
    "\<forall>p \<in> set (ce_queues e). qi_qid p \<noteq> qi_qid q" "e' = e\<lparr>ce_queues := ce_queues e @ [q]\<rparr>"
    "r' = r\<lparr>controllers := (controllers r)(c \<mapsto> e')\<rparr>"
    using i by (auto simp: install_io_queue_def Let_def not_less split: option.splits if_splits)
  have "entry_ok e" using inv e(1) by (simp add: registry_inv_def)
  then have ok: "entry_ok e'" using e by (auto simp: entry_ok_def word_neq_0_conv)
  show ?thesis
    using inv e(1,5) ok unfolding registry_inv_def e(6) by (auto split: if_splits)
qed

lemma registry_remove_inv: "registry_inv r \<Longrightarrow> registry_remove c r = (x, r') \<Longrightarrow> registry_inv r'"
  by (auto simp: registry_remove_def registry_inv_def split: if_splits)

section \<open>Reachable registries\<close>

text \<open>Connects, disconnects and keep-alive traffic of all threads in any order.\<close>

inductive registry_reach :: "registry \<Rightarrow> bool" where
  new: "registry_new lo hi = Some r \<Longrightarrow> registry_reach r"
| admin: "registry_reach r \<Longrightarrow> qi_qid aq = 0 \<Longrightarrow> allocate nqn host mq kato aq disc r = (res, r') \<Longrightarrow> registry_reach r'"
| io: "registry_reach r \<Longrightarrow> install_io_queue c host q r = (res', r') \<Longrightarrow> registry_reach r'"
| remove: "registry_reach r \<Longrightarrow> registry_remove c r = (x, r') \<Longrightarrow> registry_reach r'"
| heard: "registry_reach r \<Longrightarrow> registry_reach (traffic_set i r)"
| checked: "registry_reach r \<Longrightarrow> registry_reach (snd (traffic_take i r))"

lemma traffic_inv:
  "registry_inv (traffic_set i r) = registry_inv r" "registry_inv (snd (traffic_take i r)) = registry_inv r"
  by (simp_all add: traffic_set_def traffic_take_def registry_inv_def)

lemma registry_reach_inv: "registry_reach r \<Longrightarrow> registry_inv r"
  by (induction rule: registry_reach.induct)
    (simp_all add: traffic_inv, (blast intro: registry_new_inv allocate_inv install_io_queue_inv registry_remove_inv)+)

lemma entry_ok_length:
  assumes "entry_ok e"
  shows "length (ce_queues e) \<le> unat (ce_max_qid e) + 1"
proof -
  have d: "distinct (map qi_qid (ce_queues e))" and b: "qi_qid p \<le> ce_max_qid e" if "p \<in> set (ce_queues e)" for p
    using assms that by (auto simp: entry_ok_def)
  have inj: "inj (unat :: u16 \<Rightarrow> nat)" by (rule injI) (simp add: word_unat_eq_iff)
  have dist: "distinct (map qi_qid (ce_queues e))" using assms by (simp add: entry_ok_def)
  have "length (ce_queues e) = card (unat ` set (map qi_qid (ce_queues e)))"
    using distinct_card [OF dist] card_image [OF inj_on_subset [OF inj subset_UNIV], of "set (map qi_qid (ce_queues e))"]
    by simp
  also have "\<dots> \<le> card {0..unat (ce_max_qid e)}"
    using b by (intro card_mono) (auto simp: word_le_nat_alt)
  finally show ?thesis by simp
qed

section \<open>Properties\<close>

text \<open>C28. Whatever the order of connects, disconnects and keep-alive checks, every live controller has
  its own identifier inside the configured slice, below the reserved range, and its own traffic flag;
  its first queue is the admin queue, its queue identifiers are distinct and each is at most the granted maximum,
  so it never has more than the granted number of I/O queues.\<close>

theorem registry_consistent:
  assumes "registry_reach r" "controllers r c = Some e"
  shows "ce_cntlid e = c \<and> cntlid_min r \<le> c \<and> c \<le> cntlid_max r \<and> 1 \<le> c \<and> c \<le> CNTLID_MAX \<and>
    (\<exists>q qs. ce_queues e = q # qs \<and> qi_qid q = 0) \<and> distinct (map qi_qid (ce_queues e)) \<and>
    (\<forall>q \<in> set (ce_queues e). qi_qid q \<le> ce_max_qid e) \<and> length (ce_queues e) \<le> unat (ce_max_qid e) + 1 \<and>
    (\<forall>d f. controllers r d = Some f \<and> d \<noteq> c \<longrightarrow> ce_traffic f \<noteq> ce_traffic e)"
proof -
  have inv: "registry_inv r" by (rule registry_reach_inv [OF assms(1)])
  then have ok: "entry_ok e" using assms(2) by (simp add: registry_inv_def)
  have "ce_cntlid e = c" "cntlid_min r \<le> c" "c \<le> cntlid_max r" "1 \<le> cntlid_min r" "cntlid_max r \<le> CNTLID_MAX"
    using inv assms(2) by (simp_all add: registry_inv_def)
  moreover have "\<forall>d f. controllers r d = Some f \<and> d \<noteq> c \<longrightarrow> ce_traffic f \<noteq> ce_traffic e"
    using inv assms(2) unfolding registry_inv_def by blast
  moreover have "\<exists>q qs. ce_queues e = q # qs \<and> qi_qid q = 0" "distinct (map qi_qid (ce_queues e))"
    using ok unfolding entry_ok_def by blast+
  moreover have "\<forall>q \<in> set (ce_queues e). qi_qid q \<le> ce_max_qid e" using ok by (auto simp: entry_ok_def)
  ultimately show ?thesis using entry_ok_length [OF ok] by (auto intro: order_trans)
qed

definition queue_sample :: "u16 \<Rightarrow> queue_info" where
  "queue_sample i = \<lparr>qi_qid = i, qi_sqsize = 32, qi_tid = 7, qi_cpus = ''0-3'', qi_peer = ''h:1''\<rparr>"

theorem registry_consistent_witness:
  "\<exists>r e. registry_reach r \<and> controllers r 5 = Some e \<and> length (ce_queues e) = 2 \<and>
     (\<forall>q \<in> set (ce_queues e). qi_qid q \<le> ce_max_qid e) \<and> length (ce_queues e) \<le> unat (ce_max_qid e) + 1"
proof -
  obtain r0 where r0: "registry_new 5 6 = Some r0" by (simp add: registry_new_def CNTLID_MAX_def)
  obtain res1 r1 where r1: "allocate ''n'' ''h'' 2 0 (queue_sample 0) False r0 = (res1, r1)" by fastforce
  obtain res2 r2 where r2: "install_io_queue 5 ''h'' (queue_sample 2) r1 = (res2, r2)" by fastforce
  have reach: "registry_reach r2"
    by (intro registry_reach.io [OF registry_reach.admin [OF registry_reach.new [OF r0] _ r1] r2])
      (simp add: queue_sample_def)
  obtain e where e: "controllers r2 5 = Some e" "length (ce_queues e) = 2"
    using r0 r1 r2
    by (auto simp: registry_new_def CNTLID_MAX_def allocate_def install_io_queue_def queue_sample_def
        Let_def split: if_splits)
  show ?thesis using registry_consistent [OF reach e(1)] reach e by blast
qed

text \<open>C29. Admin Connect finds an identifier whenever there is one: allocation either returns an
  identifier of the slice that no live controller has, and changes no other controller, or it changes
  nothing and every identifier of the slice is in use.\<close>

theorem allocate_fresh_or_full:
  assumes "registry_reach r" "allocate nqn host mq kato aq disc r = (res, r')"
  shows "case res of
      Some c \<Rightarrow> controllers r c = None \<and> cntlid_min r \<le> c \<and> c \<le> cntlid_max r \<and>
        (\<exists>e. controllers r' c = Some e \<and> ce_hostnqn e = host \<and> ce_queues e = [aq] \<and>
          \<not> traffic_flags r' (ce_traffic e)) \<and>
        (\<forall>d. d \<noteq> c \<longrightarrow> controllers r' d = controllers r d)
    | None \<Rightarrow> r' = r \<and> (\<forall>c. cntlid_min r \<le> c \<and> c \<le> cntlid_max r \<longrightarrow> controllers r c \<noteq> None)"
  using allocate_spec [OF registry_reach_inv [OF assms(1)] assms(2)] by auto

theorem allocate_fresh_or_full_witness:
  "\<exists>r r'. registry_reach r \<and> allocate ''n'' ''h'' 1 0 (queue_sample 0) False r = (Some 5, r') \<and>
     controllers r 5 = None \<and> cntlid_min r \<le> 5"
proof -
  obtain r0 where r0: "registry_new 5 6 = Some r0" by (simp add: registry_new_def CNTLID_MAX_def)
  obtain r1 where r1: "allocate ''n'' ''h'' 1 0 (queue_sample 0) False r0 = (Some 5, r1)"
    using r0 by (auto simp: registry_new_def CNTLID_MAX_def allocate_def Let_def split: if_splits)
  have "registry_reach r0" by (rule registry_reach.new [OF r0])
  then show ?thesis using allocate_fresh_or_full [OF _ r1] r1 by auto
qed

end
