(* ===== verification/Subsystem.thy ===== *)
theory Subsystem
  imports Prelude "HOL-Library.List_Lexorder" "HOL-Library.Char_ord"
begin

text \<open>
  Subsystems, namespaces and ports (\<^verbatim>\<open>crates/ioutgt-core/src/subsystem.rs\<close>): the versioned
  namespace table, the per-connection cache of it, host admission and the namespace identifiers.
  A \<^verbatim>\<open>BTreeMap\<close> is an association list sorted by its keys; \<open>'b\<close> is a reference to a backend.
  A string is the list of its bytes.
\<close>

section \<open>Ordered maps\<close>

fun bt_insert :: "'k::linorder \<Rightarrow> 'v \<Rightarrow> ('k \<times> 'v) list \<Rightarrow> ('k \<times> 'v) list" where
  "bt_insert k v [] = [(k, v)]"
| "bt_insert k v ((l, w) # m) =
     (if k < l then (k, v) # (l, w) # m else if k = l then (k, v) # m else (l, w) # bt_insert k v m)"

definition bt_remove :: "'k \<Rightarrow> ('k \<times> 'v) list \<Rightarrow> ('k \<times> 'v) list" where
  "bt_remove k m = filter (\<lambda>(l, _). l \<noteq> k) m"

abbreviation bt_ok :: "('k::linorder \<times> 'v) list \<Rightarrow> bool" where
  "bt_ok m \<equiv> sorted_wrt (<) (map fst m)"

lemma bt_insert_keys: "set (map fst (bt_insert k v m)) = insert k (set (map fst m))"
  by (induction k v m rule: bt_insert.induct) auto

lemma bt_insert_ok: "bt_ok m \<Longrightarrow> bt_ok (bt_insert k v m)"
proof (induction k v m rule: bt_insert.induct)
  case (2 k v l w m)
  then show ?case using bt_insert_keys [of k v m] by (auto 0 3)
qed simp

lemma map_of_bt_insert: "bt_ok m \<Longrightarrow> map_of (bt_insert k v m) = (map_of m)(k \<mapsto> v)"
proof (induction k v m rule: bt_insert.induct)
  case (2 k v l w m)
  then show ?case by (auto simp: fun_eq_iff)
qed (simp add: fun_eq_iff)

lemma bt_remove_ok: "bt_ok m \<Longrightarrow> bt_ok (bt_remove k m)"
  by (induction m) (auto simp: bt_remove_def)

lemma map_of_bt_remove: "map_of (bt_remove k m) = (map_of m)(k := None)"
  by (rule ext) (induction m, auto simp: bt_remove_def)

section \<open>Namespaces\<close>

datatype transport_type = Tcp | Rdma

record 'b namespace =
  ns_nsid :: u32
  ns_backend :: 'b
  ns_uuid :: bytes

definition str_bytes :: "string \<Rightarrow> bytes" where
  "str_bytes s = map of_char s"

definition be_bytes :: "nat \<Rightarrow> 'a::len word \<Rightarrow> bytes" where
  "be_bytes n w = rev (le_bytes n w)"

definition be_word :: "bytes \<Rightarrow> 'a::len word" where
  "be_word bs = le_word (rev bs)"

fun fnv1a :: "u64 \<Rightarrow> bytes \<Rightarrow> u64" where
  "fnv1a hash [] = hash"
| "fnv1a hash (b # bs) = fnv1a ((hash XOR ucast b) * 0x100000001b3) bs"

definition namespace_uuid :: "string \<Rightarrow> u32 \<Rightarrow> bytes" where
  "namespace_uuid nqn nsid =
     (let hash = fnv1a 0xcbf29ce484222325 (str_bytes nqn);
          uuid = replicate 16 0;
          uuid = splice 0 (be_bytes 8 hash) uuid;
          uuid = uuid[8 := 0x80] in
      splice 12 (be_bytes 4 nsid) uuid)"

text \<open>Hexadecimal digits: \<^verbatim>\<open>is_ascii_hexdigit\<close>, the digit value, and the lower-case digit.\<close>

definition hex_value :: "char \<Rightarrow> nat option" where
  "hex_value c =
     (let n = of_char c in
      if 48 \<le> n \<and> n \<le> 57 then Some (n - 48)
      else if 97 \<le> n \<and> n \<le> 102 then Some (n - 87)
      else if 65 \<le> n \<and> n \<le> 70 then Some (n - 55)
      else None)"

definition hex_digit :: "nat \<Rightarrow> char" where
  "hex_digit n = ''0123456789abcdef'' ! n"

text \<open>\<^verbatim>\<open>u128::from_str_radix\<close>: the empty string and an overflow are errors.\<close>

definition u128_from_hex :: "string \<Rightarrow> 128 word option" where
  "u128_from_hex s =
     (if s = [] \<or> (\<exists>c \<in> set s. hex_value c = None) then None
      else
        let v = foldl (\<lambda>a c. a * 16 + the (hex_value c)) 0 s in
        if v < 2 ^ 128 then Some (of_nat v) else None)"

text \<open>The outer \<^const>\<open>None\<close> is the panic of \<^verbatim>\<open>expect\<close>.\<close>

definition parse_uuid :: "string \<Rightarrow> bytes option option" where
  "parse_uuid text =
     (if length text \<noteq> 36 \<or> (\<exists>i \<in> {8, 13, 18, 23}. text ! i \<noteq> CHR ''-'') then Some None
      else
        let hex = filter (\<lambda>c. c \<noteq> CHR ''-'') text in
        if \<exists>c \<in> set hex. hex_value c = None then Some None
        else case u128_from_hex hex of
          None \<Rightarrow> None
        | Some v \<Rightarrow> Some (Some (be_bytes 16 v)))"

fun hex_digits :: "nat \<Rightarrow> string" where
  "hex_digits n = (if n < 16 then [hex_digit n] else hex_digits (n div 16) @ [hex_digit (n mod 16)])"

declare hex_digits.simps [simp del]

text \<open>The format \<^verbatim>\<open>{:0wx}\<close>.\<close>

definition fmt_hex :: "nat \<Rightarrow> nat \<Rightarrow> string" where
  "fmt_hex w n = replicate (w - length (hex_digits n)) CHR ''0'' @ hex_digits n"

definition format_uuid :: "bytes \<Rightarrow> string" where
  "format_uuid bs =
     (let v = be_word bs :: 128 word in
      fmt_hex 8 (unat (drop_bit 96 v)) @ ''-'' @
      fmt_hex 4 (unat (drop_bit 80 v AND 0xffff)) @ ''-'' @
      fmt_hex 4 (unat (drop_bit 64 v AND 0xffff)) @ ''-'' @
      fmt_hex 4 (unat (drop_bit 48 v AND 0xffff)) @ ''-'' @
      fmt_hex 12 (unat (v AND 0xffffffffffff)))"

section \<open>Subsystems\<close>

type_synonym 'b ns_map = "(u32 \<times> 'b namespace) list"

record 'b subsystem =
  sub_nqn :: string
  sub_serial :: string
  sub_model :: string
  sub_allow_any_host :: bool
  sub_allowed_hosts :: "string list"
  sub_namespaces :: "'b ns_map"
  sub_generation :: u64

datatype ns_error = NsidExists u32 | NsidNotFound u32

definition subsystem_new ::
  "string \<Rightarrow> string \<Rightarrow> string \<Rightarrow> bool \<Rightarrow> string list \<Rightarrow> 'b ns_map \<Rightarrow> 'b subsystem" where
  "subsystem_new nqn serial model any hosts nss =
     \<lparr>sub_nqn = nqn, sub_serial = serial, sub_model = model, sub_allow_any_host = any,
      sub_allowed_hosts = hosts, sub_namespaces = nss, sub_generation = 1\<rparr>"

definition admits :: "'b subsystem \<Rightarrow> string \<Rightarrow> bool" where
  "admits s hostnqn \<longleftrightarrow> sub_allow_any_host s \<or> (\<exists>h \<in> set (sub_allowed_hosts s). h = hostnqn)"

definition add_namespace :: "'b namespace \<Rightarrow> 'b subsystem \<Rightarrow> (ns_error + unit) \<times> 'b subsystem" where
  "add_namespace ns s =
     (if map_of (sub_namespaces s) (ns_nsid ns) \<noteq> None then (Inl (NsidExists (ns_nsid ns)), s)
      else (Inr (), s\<lparr>sub_namespaces := bt_insert (ns_nsid ns) ns (sub_namespaces s),
                      sub_generation := sub_generation s + 1\<rparr>))"

definition remove_namespace :: "u32 \<Rightarrow> 'b subsystem \<Rightarrow> (ns_error + unit) \<times> 'b subsystem" where
  "remove_namespace nsid s =
     (if map_of (sub_namespaces s) nsid = None then (Inl (NsidNotFound nsid), s)
      else (Inr (), s\<lparr>sub_namespaces := bt_remove nsid (sub_namespaces s),
                      sub_generation := sub_generation s + 1\<rparr>))"

definition max_nsid :: "'b subsystem \<Rightarrow> u32" where
  "max_nsid s = (if sub_namespaces s = [] then 0 else fst (last (sub_namespaces s)))"

record 'b ns_cache =
  nc_generation :: u64
  nc_map :: "'b ns_map option"

definition ns_cache_default :: "'b ns_cache" where
  "ns_cache_default = \<lparr>nc_generation = 0, nc_map = None\<rparr>"

text \<open>\<^verbatim>\<open>NsCache::get\<close> loads the generation and then, if it is stale, takes a snapshot; the control
  plane may act in between, so the two reads see two states of the subsystem.\<close>

definition ns_cache_get :: "u64 \<Rightarrow> 'b subsystem \<Rightarrow> 'b ns_cache \<Rightarrow> 'b ns_map \<times> 'b ns_cache" where
  "ns_cache_get generation s c =
     (let c = (if nc_generation c \<noteq> generation \<or> nc_map c = None
               then \<lparr>nc_generation = generation, nc_map = Some (sub_namespaces s)\<rparr> else c) in
      (the (nc_map c), c))"

record 'b port_config =
  traddr :: string
  trsvcid :: string
  trtype :: transport_type
  max_qid :: u16
  io_queue_size :: u16
  queue_buf_bytes :: nat
  recv_buf_bytes :: nat
  port_poll :: bool
  subsystems :: "(string \<times> 'b subsystem) list"

definition port_subsystem :: "'b port_config \<Rightarrow> string \<Rightarrow> 'b subsystem option" where
  "port_subsystem p nqn = map_of (subsystems p) nqn"

section \<open>The namespace table\<close>

definition subsystem_ok :: "'b subsystem \<Rightarrow> bool" where
  "subsystem_ok s \<longleftrightarrow> bt_ok (sub_namespaces s) \<and> (\<forall>(k, ns) \<in> set (sub_namespaces s). ns_nsid ns = k)"

lemma bt_insert_set: "set (bt_insert k v m) \<subseteq> insert (k, v) (set m)"
  by (induction k v m rule: bt_insert.induct) auto

lemma add_namespace_ok: "subsystem_ok s \<Longrightarrow> subsystem_ok (snd (add_namespace ns s))"
  using bt_insert_set [of "ns_nsid ns" ns "sub_namespaces s"]
  by (auto simp: subsystem_ok_def add_namespace_def bt_insert_ok)

lemma remove_namespace_ok: "subsystem_ok s \<Longrightarrow> subsystem_ok (snd (remove_namespace k s))"
  by (auto simp: subsystem_ok_def remove_namespace_def bt_remove_ok) (auto simp: bt_remove_def)

lemma max_nsid_bound:
  assumes "subsystem_ok s" "(k, ns) \<in> set (sub_namespaces s)"
  shows "k \<le> max_nsid s"
proof -
  have ne: "sub_namespaces s \<noteq> []" using assms(2) by auto
  obtain i where i: "i < length (sub_namespaces s)" "sub_namespaces s ! i = (k, ns)"
    using assms(2) by (auto simp: in_set_conv_nth)
  have "sorted (map fst (sub_namespaces s))" using assms(1) by (simp add: subsystem_ok_def strict_sorted_iff)
  then have "map fst (sub_namespaces s) ! i \<le> map fst (sub_namespaces s) ! (length (sub_namespaces s) - 1)"
    using i(1) by (intro sorted_nth_mono) simp_all
  then show ?thesis using i ne by (simp add: max_nsid_def last_conv_nth)
qed

section \<open>Identifiers as text\<close>

text \<open>The \<open>w\<close> low hexadecimal digits, most significant first.\<close>

fun fixed_hex :: "nat \<Rightarrow> nat \<Rightarrow> string" where
  "fixed_hex 0 n = []"
| "fixed_hex (Suc w) n = fixed_hex w (n div 16) @ [hex_digit (n mod 16)]"

lemma length_fixed_hex [simp]: "length (fixed_hex w n) = w"
  by (induction w arbitrary: n) simp_all

lemma less_16_cases: "n < 16 \<Longrightarrow> n \<in> {0, 1, 2, 3, 4, 5, 6, 7, 8, 9, 10, 11, 12, 13, 14, 15 :: nat}"
  by (simp only: insert_iff empty_iff) presburger

lemma hex_value_digit [simp]: "n < 16 \<Longrightarrow> hex_value (hex_digit n) = Some n"
  by (drule less_16_cases) (auto simp: hex_value_def hex_digit_def)

lemma hex_digit_not_dash: "n < 16 \<Longrightarrow> hex_digit n \<noteq> CHR ''-''"
  by (drule less_16_cases) (auto simp: hex_digit_def)

lemma fmt_hex_fixed: "0 < w \<Longrightarrow> n < 16 ^ w \<Longrightarrow> fmt_hex w n = fixed_hex w n"
proof (induction w arbitrary: n)
  case (Suc w)
  show ?case
  proof (cases "n < 16")
    case True
    have "fixed_hex w 0 = replicate w CHR ''0''"
      by (induction w) (simp_all add: hex_digit_def replicate_append_same)
    then show ?thesis using True by (simp add: fmt_hex_def hex_digits.simps [of n])
  next
    case False
    have "0 < w" using Suc.prems False by (cases w) simp_all
    moreover have "n div 16 < 16 ^ w" using Suc.prems by (simp add: less_mult_imp_div_less)
    ultimately have "fmt_hex w (n div 16) = fixed_hex w (n div 16)" by (rule Suc.IH)
    then show ?thesis using False by (simp add: fmt_hex_def hex_digits.simps [of n])
  qed
qed simp

lemma fixed_hex_append: "fixed_hex a (n div 16 ^ b) @ fixed_hex b n = fixed_hex (a + b) n"
proof (induction b arbitrary: n)
  case (Suc b)
  have "n div 16 ^ Suc b = n div 16 div 16 ^ b" by (simp add: div_mult2_eq)
  then show ?case using Suc.IH [of "n div 16"] by simp
qed simp

lemma fixed_hex_mod: "fixed_hex b (n mod 16 ^ b) = fixed_hex b n"
proof (induction b arbitrary: n)
  case (Suc b)
  have "n mod 16 ^ Suc b div 16 = (n div 16) mod 16 ^ b" by (simp add: mod_mult2_eq)
  moreover have "n mod 16 ^ Suc b mod 16 = n mod 16" by (simp add: mod_mult2_eq)
  ultimately show ?case using Suc.IH [of "n div 16"] by simp
qed simp

lemma fixed_hex_set: "c \<in> set (fixed_hex w n) \<Longrightarrow> c \<noteq> CHR ''-'' \<and> hex_value c \<noteq> None"
  by (induction w arbitrary: n) (auto simp: hex_digit_not_dash)

lemma fixed_hex_fold: "foldl (\<lambda>a c. a * 16 + the (hex_value c)) 0 (fixed_hex w n) = n mod 16 ^ w"
proof (induction w arbitrary: n)
  case (Suc w)
  have "n mod (16 * 16 ^ w) = 16 * (n div 16 mod 16 ^ w) + n mod 16" by (rule mod_mult2_eq)
  then show ?case by (simp add: Suc.IH)
qed simp

lemma filter_fixed_hex [simp]: "filter (\<lambda>c. c \<noteq> CHR ''-'') (fixed_hex w n) = fixed_hex w n"
  by (rule filter_True) (simp add: fixed_hex_set)

lemma u128_from_fixed_hex: "u128_from_hex (fixed_hex 32 (unat (v :: 128 word))) = Some v"
proof -
  have "unat v < 2 ^ 128" using unsigned_less [of v, where 'a = nat] by simp
  moreover have "(16 :: nat) ^ 32 = 2 ^ 128" by simp
  moreover have "fixed_hex 32 (unat v) \<noteq> []" using length_fixed_hex [of 32 "unat v"] by (metis list.size(3) zero_neq_numeral)
  ultimately show ?thesis
    using fixed_hex_set by (auto simp: u128_from_hex_def fixed_hex_fold)
qed

lemma be_bytes_word: "length bs = 16 \<Longrightarrow> be_bytes 16 (be_word bs :: 128 word) = bs"
  by (simp add: be_bytes_def be_word_def le_bytes_le_word)

lemma format_uuid_fixed:
  assumes v: "v = (be_word bs :: 128 word)"
  shows "format_uuid bs = fixed_hex 8 (unat v div 16 ^ 24) @ ''-'' @ fixed_hex 4 (unat v div 16 ^ 20) @ ''-'' @
    fixed_hex 4 (unat v div 16 ^ 16) @ ''-'' @ fixed_hex 4 (unat v div 16 ^ 12) @ ''-'' @ fixed_hex 12 (unat v)"
proof -
  have sh: "unat (drop_bit k v) = unat v div 2 ^ k" for k
    unfolding unat_drop_bit_eq by (rule drop_bit_eq_div)
  have mask: "unat (w AND 0xffff) = unat w mod 16 ^ 4" "unat (w AND 0xffffffffffff) = unat w mod 16 ^ 12"
    for w :: "128 word"
  proof -
    have "w AND mask 16 = take_bit 16 w" "w AND mask 48 = take_bit 48 w" by (simp_all add: take_bit_eq_mask)
    moreover have "(mask 16 :: 128 word) = 0xffff" "(mask 48 :: 128 word) = 0xffffffffffff"
      by (simp_all add: mask_eq_exp_minus_1)
    ultimately show "unat (w AND 0xffff) = unat w mod 16 ^ 4" "unat (w AND 0xffffffffffff) = unat w mod 16 ^ 12"
      by (simp_all add: unsigned_take_bit_eq take_bit_eq_mod unat_mod)
  qed
  have top: "unat v div 16 ^ 24 < 16 ^ 8"
    using unsigned_less [of v, where 'a = nat] by (simp add: less_mult_imp_div_less)
  have pw: "(2 :: nat) ^ 96 = 16 ^ 24" "(2 :: nat) ^ 80 = 16 ^ 20" "(2 :: nat) ^ 64 = 16 ^ 16" "(2 :: nat) ^ 48 = 16 ^ 12"
    by simp_all
  have f4: "fmt_hex 4 (n mod 16 ^ 4) = fixed_hex 4 n" for n
    using fmt_hex_fixed [of 4 "n mod 16 ^ 4"] fixed_hex_mod [of 4 n] by simp
  have f12: "fmt_hex 12 (n mod 16 ^ 12) = fixed_hex 12 n" for n
    using fmt_hex_fixed [of 12 "n mod 16 ^ 12"] fixed_hex_mod [of 12 n] by simp
  have f8: "fmt_hex 8 (unat v div 16 ^ 24) = fixed_hex 8 (unat v div 16 ^ 24)"
    by (rule fmt_hex_fixed [OF _ top]) simp
  show ?thesis
    unfolding format_uuid_def Let_def v [symmetric] mask sh pw f4 f12 f8 ..
qed

lemma fixed_hex_parts:
  "fixed_hex 8 (n div 16 ^ 24) @ fixed_hex 4 (n div 16 ^ 20) @ fixed_hex 4 (n div 16 ^ 16) @
    fixed_hex 4 (n div 16 ^ 12) @ fixed_hex 12 n = fixed_hex 32 n"
proof -
  have "fixed_hex a (n div 16 ^ (b + c)) @ fixed_hex b (n div 16 ^ c) = fixed_hex (a + b) (n div 16 ^ c)" for a b c
  proof -
    have "n div 16 ^ (b + c) = n div 16 ^ c div 16 ^ b"
      by (simp add: power_add mult.commute flip: div_mult2_eq)
    then show ?thesis using fixed_hex_append [of a "n div 16 ^ c" b] by simp
  qed
  from this [of 8 4 20] this [of 12 4 16] this [of 16 4 12] fixed_hex_append [of 20 n 12]
  show ?thesis by (simp flip: append_assoc)
qed

lemma dashed_nth:
  assumes "length a = 8" "length b = 4" "length c = 4" "length d = 4"
  shows "(a @ x # b @ y # c @ z # d @ u # e) ! 8 = x" "(a @ x # b @ y # c @ z # d @ u # e) ! 13 = y"
    "(a @ x # b @ y # c @ z # d @ u # e) ! 18 = z" "(a @ x # b @ y # c @ z # d @ u # e) ! 23 = u"
  using assms by (simp_all add: nth_append nth_Cons')

lemma parse_format_uuid:
  assumes "length bs = 16"
  shows "parse_uuid (format_uuid bs) = Some (Some bs)" "length (format_uuid bs) = 36"
proof -
  define v where "v = (be_word bs :: 128 word)"
  let ?n = "unat v"
  let ?t = "fixed_hex 8 (?n div 16 ^ 24) @ CHR ''-'' # fixed_hex 4 (?n div 16 ^ 20) @ CHR ''-'' #
    fixed_hex 4 (?n div 16 ^ 16) @ CHR ''-'' # fixed_hex 4 (?n div 16 ^ 12) @ CHR ''-'' # fixed_hex 12 ?n"
  have t: "format_uuid bs = ?t" using format_uuid_fixed [OF v_def] by simp
  show "length (format_uuid bs) = 36" unfolding t by simp
  have pos: "?t ! 8 = CHR ''-''" "?t ! 13 = CHR ''-''" "?t ! 18 = CHR ''-''" "?t ! 23 = CHR ''-''"
    by (rule dashed_nth; simp)+
  have hex: "filter (\<lambda>c. c \<noteq> CHR ''-'') ?t = fixed_hex 32 ?n"
    using fixed_hex_parts [of ?n] by simp
  have "\<not> (\<exists>c \<in> set (fixed_hex 32 ?n). hex_value c = None)" using fixed_hex_set by blast
  then show "parse_uuid (format_uuid bs) = Some (Some bs)"
    unfolding t parse_uuid_def Let_def hex
    using pos u128_from_fixed_hex [of v] be_bytes_word [OF assms] by (simp add: v_def)
qed

text \<open>The texts with the layout of a UUID, and the number a string of hexadecimal digits stands for.\<close>

definition uuid_shape :: "string \<Rightarrow> bool" where
  "uuid_shape text \<longleftrightarrow> length text = 36 \<and> (\<forall>i \<in> {8, 13, 18, 23}. text ! i = CHR ''-'')"

definition hex_number :: "string \<Rightarrow> nat" where
  "hex_number s = foldl (\<lambda>a c. a * 16 + the (hex_value c)) 0 s"

lemma hex_value_less: "hex_value c = Some d \<Longrightarrow> d < 16"
  by (auto simp: hex_value_def Let_def split: if_splits)

lemma hex_number_less: "\<forall>c \<in> set s. hex_value c \<noteq> None \<Longrightarrow> hex_number s < 16 ^ length s"
proof (induction s rule: rev_induct)
  case (snoc c s)
  then obtain d where "hex_value c = Some d" "d < 16" using hex_value_less by auto
  then show ?case using snoc by (auto simp: hex_number_def)
qed (simp add: hex_number_def)

lemma uuid_digits:
  assumes "uuid_shape text"
  shows "length (filter (\<lambda>c. c \<noteq> CHR ''-'') text) \<le> 32"
proof -
  have "{i. i < length text \<and> text ! i \<noteq> CHR ''-''} \<subseteq> {..<36} - {8, 13, 18, 23}" using assms by (auto simp: uuid_shape_def)
  then have "card {i. i < length text \<and> text ! i \<noteq> CHR ''-''} \<le> card ({..<36} - {8, 13, 18, 23 :: nat})" by (intro card_mono) simp_all
  then show ?thesis by (simp add: length_filter_conv_card)
qed

lemma be_word_bytes: "be_word (be_bytes 16 v) = (v :: 128 word)" "length (be_bytes 16 v) = 16"
  by (simp_all add: be_word_def be_bytes_def le_word_le_bytes)

lemma uuid_number:
  assumes "uuid_shape text" "\<forall>c \<in> set text. c = CHR ''-'' \<or> hex_value c \<noteq> None"
  shows "hex_number (filter (\<lambda>c. c \<noteq> CHR ''-'') text) < 2 ^ 128"
proof -
  let ?d = "filter (\<lambda>c. c \<noteq> CHR ''-'') text"
  have "hex_number ?d < 16 ^ length ?d" using assms(2) by (intro hex_number_less) auto
  also have "\<dots> \<le> (16 :: nat) ^ 32" using uuid_digits [OF assms(1)] by (rule power_increasing) simp
  finally show ?thesis by simp
qed

lemma parse_uuid_shaped:
  assumes "uuid_shape text" "\<forall>c \<in> set text. c = CHR ''-'' \<or> hex_value c \<noteq> None"
  shows "parse_uuid text = (if text = replicate 36 CHR ''-'' then None
    else Some (Some (be_bytes 16 (of_nat (hex_number (filter (\<lambda>c. c \<noteq> CHR ''-'') text)) :: 128 word))))"
proof -
  let ?d = "filter (\<lambda>c. c \<noteq> CHR ''-'') text"
  have hex: "\<not> (\<exists>c \<in> set ?d. hex_value c = None)" using assms(2) by auto
  have sh: "length text = 36" "\<not> (\<exists>i \<in> {8, 13, 18, 23}. text ! i \<noteq> CHR ''-'')" using assms(1) by (simp_all add: uuid_shape_def)
  have e: "?d = [] \<longleftrightarrow> text = replicate 36 CHR ''-''"
  proof
    assume "?d = []"
    then have "\<forall>c \<in> set text. c = CHR ''-''" by (simp add: filter_empty_conv)
    then show "text = replicate 36 CHR ''-''" using sh(1) by (intro replicate_eqI) simp_all
  next
    assume "text = replicate 36 CHR ''-''"
    then show "?d = []" by (simp only: filter_replicate) simp
  qed
  have "u128_from_hex ?d = (if text = replicate 36 CHR ''-'' then None else Some (of_nat (hex_number ?d)))"
    unfolding u128_from_hex_def Let_def hex_number_def [symmetric] using hex uuid_number [OF assms] e
    by (cases "?d = []") (simp_all only: simp_thms if_True if_False)
  then show ?thesis unfolding parse_uuid_def Let_def using sh hex
    by (cases "text = replicate 36 CHR ''-''") (simp_all only: simp_thms if_True if_False option.case)
qed

section \<open>The cache under a changing table\<close>

text \<open>
  A connection's lookups against the control plane's changes: \<open>hist\<close> is the table of every
  generation so far, \<open>g\<close> the generation a lookup in progress has loaded. The generation is a
  64-bit counter; a run is followed as long as it has not wrapped.
\<close>

inductive ns_run :: "(u64 \<Rightarrow> 'b ns_map) \<Rightarrow> 'b subsystem \<Rightarrow> 'b ns_cache \<Rightarrow> u64 option \<Rightarrow> bool" where
  start: "sub_generation s = 1 \<Longrightarrow> hist 1 = sub_namespaces s \<Longrightarrow> ns_run hist s ns_cache_default None"
| change: "ns_run hist s c g \<Longrightarrow> s' = snd (add_namespace ns s) \<or> s' = snd (remove_namespace k s) \<Longrightarrow>
    sub_generation s' = sub_generation s \<or> sub_generation s < sub_generation s' \<Longrightarrow>
    ns_run (hist(sub_generation s' := sub_namespaces s')) s' c g"
| load: "ns_run hist s c g \<Longrightarrow> ns_run hist s c (Some (sub_generation s))"
| finish: "ns_run hist s c (Some g) \<Longrightarrow> ns_run hist s (snd (ns_cache_get g s c)) None"

lemma change_generation:
  "s' = snd (add_namespace ns s) \<or> s' = snd (remove_namespace k s) \<Longrightarrow>
    sub_generation s' = sub_generation s \<Longrightarrow> s' = s"
  by (auto simp: add_namespace_def remove_namespace_def split: if_splits)

lemma ns_run_inv:
  assumes "ns_run hist s c g"
  shows "1 \<le> sub_generation s \<and> hist (sub_generation s) = sub_namespaces s \<and>
    nc_generation c \<le> sub_generation s \<and> (\<forall>l. g = Some l \<longrightarrow> 1 \<le> l \<and> l \<le> sub_generation s) \<and>
    (\<forall>t. nc_map c = Some t \<longrightarrow> (\<exists>v. nc_generation c \<le> v \<and> v \<le> sub_generation s \<and> t = hist v))"
  using assms
proof (induction rule: ns_run.induct)
  case (start s hist)
  then show ?case by (simp add: ns_cache_default_def)
next
  case (change hist s c g s' ns k)
  show ?case
  proof (cases "sub_generation s' = sub_generation s")
    case True
    then have "s' = s" using change_generation change.hyps(2) by blast
    moreover have "hist(sub_generation s := sub_namespaces s) = hist" using change.IH by (auto simp: fun_eq_iff)
    ultimately show ?thesis using change.IH by simp
  next
    case False
    then have lt: "sub_generation s < sub_generation s'" using change.hyps(3) by simp
    have old: "(hist(sub_generation s' := sub_namespaces s')) v = hist v" if "v \<le> sub_generation s" for v
      using that lt by auto
    have up: "v \<le> sub_generation s'" if "v \<le> sub_generation s" for v using that lt by simp
    have "\<exists>v. nc_generation c \<le> v \<and> v \<le> sub_generation s' \<and> t = (hist(sub_generation s' := sub_namespaces s')) v"
      if t: "nc_map c = Some t" for t
    proof -
      obtain v where v: "nc_generation c \<le> v" "v \<le> sub_generation s" "t = hist v" using change.IH t by blast
      then show ?thesis using old [OF v(2)] up [OF v(2)] by (intro exI [of _ v]) simp
    qed
    moreover have "1 \<le> sub_generation s'" "nc_generation c \<le> sub_generation s'"
      using change.IH up by (auto intro: order_trans [of 1 "sub_generation s"])
    moreover have "\<forall>l. g = Some l \<longrightarrow> 1 \<le> l \<and> l \<le> sub_generation s'" using change.IH up by blast
    ultimately show ?thesis by simp
  qed
next
  case (load hist s c g)
  then show ?case by simp
next
  case (finish hist s c g)
  then show ?case
    by (cases "nc_generation c \<noteq> g \<or> nc_map c = None") (auto simp: ns_cache_get_def Let_def)
qed

section \<open>Properties\<close>

text \<open>C30. A namespace lookup is never stale: the table it uses is the table of a generation at least as
  new as the one current when the lookup began, whatever the control plane changes before, during or
  between lookups; if nothing changed during the lookup it is the current table.\<close>

theorem ns_lookup_fresh:
  assumes "ns_run hist s c (Some g)"
  shows "\<exists>v. g \<le> v \<and> v \<le> sub_generation s \<and> fst (ns_cache_get g s c) = hist v \<and>
    (g = sub_generation s \<longrightarrow> fst (ns_cache_get g s c) = sub_namespaces s)"
proof -
  note inv = ns_run_inv [OF assms]
  show ?thesis
  proof (cases "nc_generation c \<noteq> g \<or> nc_map c = None")
    case True
    then show ?thesis
      using inv by (intro exI [of _ "sub_generation s"]) (auto simp: ns_cache_get_def)
  next
    case False
    then obtain t where t: "nc_map c = Some t" "nc_generation c = g" by auto
    then obtain v where v: "g \<le> v" "v \<le> sub_generation s" "t = hist v" using inv by auto
    then show ?thesis using t inv by (intro exI [of _ v]) (auto simp: ns_cache_get_def)
  qed
qed

theorem ns_lookup_fresh_witness:
  "\<exists>hist s (c :: nat ns_cache) g v. ns_run hist s c (Some g) \<and> g \<le> v \<and> fst (ns_cache_get g s c) = hist v \<and>
     length (fst (ns_cache_get g s c)) = 1"
proof -
  let ?s = "subsystem_new ''n'' ''s'' ''m'' True [] [] :: nat subsystem"
  let ?ns = "\<lparr>ns_nsid = 1, ns_backend = 7, ns_uuid = []\<rparr> :: nat namespace"
  let ?t = "snd (add_namespace ?ns ?s)"
  have a: "sub_generation ?t = 2" "sub_namespaces ?t = [(1, ?ns)]"
    by (simp_all add: add_namespace_def subsystem_new_def)
  have "ns_run (\<lambda>_. []) ?s ns_cache_default None" by (rule ns_run.start) (simp_all add: subsystem_new_def)
  then have "ns_run (\<lambda>_. []) ?s ns_cache_default (Some (sub_generation ?s))" by (rule ns_run.load)
  from ns_run.change [OF this, of ?t ?ns]
  have r: "ns_run ((\<lambda>_. [])(2 := [(1, ?ns)])) ?t ns_cache_default (Some 1)"
    unfolding a by (simp add: subsystem_new_def)
  have l: "length (fst (ns_cache_get 1 ?t ns_cache_default)) = 1"
    using a by (simp add: ns_cache_get_def ns_cache_default_def)
  show ?thesis using ns_lookup_fresh [OF r] r l by blast
qed

text \<open>C31. Namespace identifiers survive their text form, and different namespaces of one subsystem
  have different ones: parsing a formatted UUID gives its bytes, the derived identifier has 16 bytes,
  and it tells two NSIDs of a subsystem apart.\<close>

theorem uuid_roundtrip:
  assumes "length bs = 16"
  shows "parse_uuid (format_uuid bs) = Some (Some bs) \<and> length (namespace_uuid nqn a) = 16 \<and>
    (namespace_uuid nqn a = namespace_uuid nqn b \<longrightarrow> a = b)"
proof -
  have len: "length (be_bytes n w) = n" for n and w :: "'a::len word" by (simp add: be_bytes_def)
  have "slice 12 4 (namespace_uuid nqn k) = be_bytes 4 k" "length (namespace_uuid nqn k) = 16" for k
    using slice_splice_same [of 12 "be_bytes 4 k"
        "(splice 0 (be_bytes 8 (fnv1a 0xcbf29ce484222325 (str_bytes nqn))) (replicate 16 0))[8 := 0x80]"]
    by (simp_all add: namespace_uuid_def Let_def len be_bytes_def)
  moreover have "le_word (rev (be_bytes 4 k)) = k" for k :: u32 by (simp add: be_bytes_def le_word_le_bytes)
  ultimately show ?thesis using parse_format_uuid(1) [OF assms] by metis
qed

theorem uuid_roundtrip_witness:
  "length (namespace_uuid ''nqn.a'' 1) = 16 \<and>
   parse_uuid (format_uuid (namespace_uuid ''nqn.a'' 1)) = Some (Some (namespace_uuid ''nqn.a'' 1)) \<and>
   namespace_uuid ''nqn.a'' 1 \<noteq> namespace_uuid ''nqn.a'' 2"
proof -
  have l: "length (namespace_uuid ''nqn.a'' 1) = 16"
    using uuid_roundtrip [of "replicate 16 0" "''nqn.a''" 1 2] by simp
  show ?thesis using uuid_roundtrip [OF l, of "''nqn.a''" 1 2] l by auto
qed

text \<open>C32. Which texts the UUID parser accepts. It panics on exactly one text, that of 36 dashes. It accepts
  every other text of 36 characters that has dashes at the four separator positions and only
  hexadecimal digits and dashes elsewhere, so also texts with surplus dashes and fewer than 32 digits;
  the value is that of the digits there are. Everything else is rejected, and the conversion never
  overflows.\<close>

theorem parse_uuid_dashes:
  "(parse_uuid text = None \<longleftrightarrow> text = replicate 36 CHR ''-'') \<and>
   ((\<exists>bs. parse_uuid text = Some (Some bs)) \<longleftrightarrow>
      uuid_shape text \<and> (\<forall>c \<in> set text. c = CHR ''-'' \<or> hex_value c \<noteq> None) \<and> text \<noteq> replicate 36 CHR ''-'') \<and>
   (\<forall>bs. parse_uuid text = Some (Some bs) \<longrightarrow>
      length bs = 16 \<and> unat (be_word bs :: 128 word) = hex_number (filter (\<lambda>c. c \<noteq> CHR ''-'') text))"
proof (cases "uuid_shape text \<and> (\<forall>c \<in> set text. c = CHR ''-'' \<or> hex_value c \<noteq> None)")
  case True
  let ?d = "filter (\<lambda>c. c \<noteq> CHR ''-'') text"
  note parse = parse_uuid_shaped [OF conjunct1 [OF True] conjunct2 [OF True]]
  have n: "unat (of_nat (hex_number ?d) :: 128 word) = hex_number ?d"
    using uuid_number [OF conjunct1 [OF True] conjunct2 [OF True]] by (simp add: unsigned_of_nat take_bit_nat_eq_self)
  show ?thesis using True parse n by (cases "text = replicate 36 CHR ''-''") (simp_all add: be_word_bytes)
next
  case False
  then have "parse_uuid text = Some None" by (auto simp: parse_uuid_def uuid_shape_def Let_def)
  moreover have "text \<noteq> replicate 36 CHR ''-''" using False by (auto simp: uuid_shape_def)
  ultimately show ?thesis using False by simp
qed

theorem parse_uuid_dashes_witness:
  "parse_uuid (replicate 36 CHR ''-'') = None \<and>
   (\<exists>bs. parse_uuid ''-1234567-1234-1234-1234-123456789abc'' = Some (Some bs) \<and> length bs = 16) \<and>
   \<not> (\<exists>bs. parse_uuid ''-123456g-1234-1234-1234-123456789abc'' = Some (Some bs))"
proof -
  let ?t = "''-1234567-1234-1234-1234-123456789abc''" and ?u = "''-123456g-1234-1234-1234-123456789abc''"
  note all = parse_uuid_dashes [THEN conjunct1, THEN iffD2, OF refl]
  have "?t \<noteq> replicate 36 CHR ''-''" by (rule notI, drule arg_cong [where f = "\<lambda>s. s ! 1"]) simp
  moreover have "uuid_shape ?t" "\<forall>c \<in> set ?t. c = CHR ''-'' \<or> hex_value c \<noteq> None" by (simp_all add: uuid_shape_def hex_value_def)
  ultimately obtain bs where t: "parse_uuid ?t = Some (Some bs)"
    using parse_uuid_dashes [of ?t, THEN conjunct2, THEN conjunct1, THEN iffD2] by blast
  then have l: "length bs = 16" using parse_uuid_dashes [of ?t, THEN conjunct2, THEN conjunct2] by blast
  have "\<not> (\<forall>c \<in> set ?u. c = CHR ''-'' \<or> hex_value c \<noteq> None)" by (simp add: hex_value_def)
  then have u: "\<not> (\<exists>bs. parse_uuid ?u = Some (Some bs))"
    using parse_uuid_dashes [of ?u, THEN conjunct2, THEN conjunct1, THEN iffD1] by blast
  show ?thesis by (intro conjI exI [of _ bs]) (rule all t l u)+
qed

end
