(* ===== verification/Backend_Model.thy ===== *)
theory Backend_Model
  imports Seg_Buffer
begin

text \<open>
  The storage abstraction (\<^verbatim>\<open>crates/ioutgt-core/src/backend.rs\<close>): the trait \<^verbatim>\<open>Backend\<close> is a
  record of operations on a store of type \<open>'s\<close>; the default methods are functions of that record.
  A read is given the bytes its buffer has and returns those it has afterwards. Operations are
  asynchronous in the code; the model is their effect when they complete. A panic is \<^const>\<open>None\<close>.
\<close>

record lba_range =
  lr_slba :: u64
  lr_nlb :: u32

datatype backend_error = OutOfRange | NoSpace | Unsupported | IoErr int

record topology =
  physical_block :: u32
  io_min :: u32
  io_opt :: u32
  discard_granularity :: u32

definition topology_default :: topology where
  "topology_default = \<lparr>physical_block = 0, io_min = 0, io_opt = 0, discard_granularity = 0\<rparr>"

record 's backend =
  block_shift :: "'s \<Rightarrow> u8"
  nr_blocks :: "'s \<Rightarrow> u64"
  be_topology :: "'s \<Rightarrow> topology"
  be_read :: "u64 \<Rightarrow> bytes \<Rightarrow> 's \<Rightarrow> ((backend_error + unit) \<times> bytes) option"
  be_write :: "u64 \<Rightarrow> bytes \<Rightarrow> 's \<Rightarrow> ((backend_error + unit) \<times> 's) option"
  be_read_segs :: "u64 \<Rightarrow> seg list \<Rightarrow> nat \<Rightarrow> u16 option \<Rightarrow> 's \<Rightarrow> memory \<Rightarrow> ((backend_error + unit) \<times> memory) option"
  be_write_segs :: "u64 \<Rightarrow> seg list \<Rightarrow> nat \<Rightarrow> u16 option \<Rightarrow> memory \<Rightarrow> 's \<Rightarrow> ((backend_error + unit) \<times> 's) option"
  be_flush :: "'s \<Rightarrow> ((backend_error + unit) \<times> 's) option"
  be_discard :: "lba_range list \<Rightarrow> 's \<Rightarrow> ((backend_error + unit) \<times> 's) option"
  be_write_zeroes :: "lba_range \<Rightarrow> 's \<Rightarrow> ((backend_error + unit) \<times> 's) option"

definition check_range :: "u64 \<Rightarrow> u64 \<Rightarrow> u64 \<Rightarrow> backend_error + unit" where
  "check_range nr slba nlb =
     (case checked_add slba nlb of
        None \<Rightarrow> Inl OutOfRange
      | Some e \<Rightarrow> if nr < e then Inl OutOfRange else Inr ())"

text \<open>The default \<^verbatim>\<open>read_segs\<close> and \<^verbatim>\<open>write_segs\<close>: one operation per segment.\<close>

fun default_read_segs ::
  "(u64 \<Rightarrow> bytes \<Rightarrow> ((backend_error + unit) \<times> bytes) option) \<Rightarrow> nat \<Rightarrow> u64 \<Rightarrow> seg list \<Rightarrow> nat \<Rightarrow>
    memory \<Rightarrow> ((backend_error + unit) \<times> memory) option" where
  "default_read_segs rd shift cur [] remaining m = Some (Inr (), m)"
| "default_read_segs rd shift cur (s # ss) remaining m =
     (if remaining = 0 then Some (Inr (), m)
      else
        let n = min remaining (seg_len s) in
        case rd cur (mem_read m (seg_ptr s) n) of
          None \<Rightarrow> None
        | Some (Inl e, buf) \<Rightarrow> Some (Inl e, mem_write (seg_ptr s) buf m)
        | Some (Inr _, buf) \<Rightarrow>
            (case checked_add cur (drop_bit shift (of_nat n)) of
               None \<Rightarrow> None
             | Some cur' \<Rightarrow> default_read_segs rd shift cur' ss (remaining - n) (mem_write (seg_ptr s) buf m)))"

fun default_write_segs ::
  "(u64 \<Rightarrow> bytes \<Rightarrow> 's \<Rightarrow> ((backend_error + unit) \<times> 's) option) \<Rightarrow> nat \<Rightarrow> u64 \<Rightarrow> seg list \<Rightarrow> nat \<Rightarrow>
    memory \<Rightarrow> 's \<Rightarrow> ((backend_error + unit) \<times> 's) option" where
  "default_write_segs wr shift cur [] remaining m s = Some (Inr (), s)"
| "default_write_segs wr shift cur (g # gs) remaining m s =
     (if remaining = 0 then Some (Inr (), s)
      else
        let n = min remaining (seg_len g) in
        case wr cur (mem_read m (seg_ptr g) n) s of
          None \<Rightarrow> None
        | Some (Inl e, s') \<Rightarrow> Some (Inl e, s')
        | Some (Inr _, s') \<Rightarrow>
            (case checked_add cur (drop_bit shift (of_nat n)) of
               None \<Rightarrow> None
             | Some cur' \<Rightarrow> default_write_segs wr shift cur' gs (remaining - n) m s'))"

definition default_discard :: "lba_range list \<Rightarrow> 's \<Rightarrow> ((backend_error + unit) \<times> 's) option" where
  "default_discard ranges s = Some (Inr (), s)"

section \<open>The contract of a block device\<close>

text \<open>
  The device as a host sees it is one string of bytes, \<open>disk\<close>. Reads and writes of whole blocks
  in range succeed and are reads and updates of that string; out of range they fail and change
  nothing. \<open>bs\<close> is the block size.
\<close>

locale block_device =
  fixes ops :: "'s backend" and inv :: "'s \<Rightarrow> bool" and disk :: "'s \<Rightarrow> bytes"
  assumes shift_small: "inv s \<Longrightarrow> unat (block_shift ops s) < 32"
    and disk_length: "inv s \<Longrightarrow> length (disk s) = unat (nr_blocks ops s) * 2 ^ unat (block_shift ops s)"
    and disk_fits: "inv s \<Longrightarrow> length (disk s) < 2 ^ 64"
    and read_ok: "inv s \<Longrightarrow> length buf = n * 2 ^ unat (block_shift ops s) \<Longrightarrow>
      unat slba + n \<le> unat (nr_blocks ops s) \<Longrightarrow>
      be_read ops slba buf s =
        Some (Inr (), slice (unat slba * 2 ^ unat (block_shift ops s)) (length buf) (disk s))"
    and read_range: "inv s \<Longrightarrow> length buf = n * 2 ^ unat (block_shift ops s) \<Longrightarrow> length buf < 2 ^ 64 \<Longrightarrow>
      unat (nr_blocks ops s) < unat slba + n \<Longrightarrow> be_read ops slba buf s = Some (Inl OutOfRange, buf)"
    and write_range: "inv s \<Longrightarrow> length buf = n * 2 ^ unat (block_shift ops s) \<Longrightarrow> length buf < 2 ^ 64 \<Longrightarrow>
      unat (nr_blocks ops s) < unat slba + n \<Longrightarrow> be_write ops slba buf s = Some (Inl OutOfRange, s)"
    and read_segs_default: "inv s \<Longrightarrow> be_read_segs ops slba segs len i s m =
      default_read_segs (\<lambda>b buf. be_read ops b buf s) (unat (block_shift ops s)) slba segs len m"

locale storage = block_device +
  assumes write_ok: "inv s \<Longrightarrow> length buf = n * 2 ^ unat (block_shift ops s) \<Longrightarrow>
      unat slba + n \<le> unat (nr_blocks ops s) \<Longrightarrow>
      \<exists>s'. be_write ops slba buf s = Some (Inr (), s') \<and> inv s' \<and>
        disk s' = splice (unat slba * 2 ^ unat (block_shift ops s)) buf (disk s) \<and>
        block_shift ops s' = block_shift ops s \<and> nr_blocks ops s' = nr_blocks ops s"
    and zeroes_ok: "inv s \<Longrightarrow> unat (lr_slba r) + unat (lr_nlb r) \<le> unat (nr_blocks ops s) \<Longrightarrow>
      \<exists>s'. be_write_zeroes ops r s = Some (Inr (), s') \<and> inv s' \<and>
        disk s' = splice (unat (lr_slba r) * 2 ^ unat (block_shift ops s))
          (replicate (unat (lr_nlb r) * 2 ^ unat (block_shift ops s)) 0) (disk s) \<and>
        block_shift ops s' = block_shift ops s \<and> nr_blocks ops s' = nr_blocks ops s"
    and write_segs_default: "inv s \<Longrightarrow> be_write_segs ops slba segs len i m s =
      default_write_segs (be_write ops) (unat (block_shift ops s)) slba segs len m s"

text \<open>What an I/O queue relies on in a backend.\<close>

locale io_device = storage +
  assumes shift_page: "inv s \<Longrightarrow> unat (block_shift ops s) \<le> 12"
    and zeroes_range: "inv s \<Longrightarrow> unat (nr_blocks ops s) < unat (lr_slba r) + unat (lr_nlb r) \<Longrightarrow>
      be_write_zeroes ops r s = Some (Inl OutOfRange, s)"
    and flush_ok: "inv s \<Longrightarrow> \<exists>s'. be_flush ops s = Some (Inr (), s') \<and> inv s' \<and> disk s' = disk s \<and>
      block_shift ops s' = block_shift ops s \<and> nr_blocks ops s' = nr_blocks ops s"
    and discard_ok: "inv s \<Longrightarrow> \<exists>x s'. be_discard ops rs s = Some (x, s') \<and> inv s' \<and>
      block_shift ops s' = block_shift ops s \<and> nr_blocks ops s' = nr_blocks ops s"

text \<open>Every segment but the last holds whole blocks.\<close>

fun segs_aligned :: "nat \<Rightarrow> seg list \<Rightarrow> bool" where
  "segs_aligned bs [] = True"
| "segs_aligned bs [s] = True"
| "segs_aligned bs (s # t # ss) \<longleftrightarrow> bs dvd seg_len s \<and> segs_aligned bs (t # ss)"

lemma segs_aligned_Cons: "segs_aligned bs (s # ss) \<Longrightarrow> segs_aligned bs ss \<and> (ss \<noteq> [] \<longrightarrow> bs dvd seg_len s)"
  by (cases ss) simp_all

lemma splice_splice_adjacent:
  "off + length a + length b \<le> length xs \<Longrightarrow>
    splice (off + length a) b (splice off a xs) = splice off (a @ b) xs"
  by (simp add: splice_def ac_simps)

lemma blocks_step:
  assumes "n = k * 2 ^ sh" "n < 2 ^ 64" "unat cur + k < 2 ^ 64"
  shows "\<exists>c. checked_add (cur :: u64) (drop_bit sh (of_nat n)) = Some c \<and> unat c = unat cur + k"
proof -
  have "unat (of_nat n :: u64) = n" using assms(2) by (simp add: unsigned_of_nat take_bit_nat_eq_self)
  then have "unat (drop_bit sh (of_nat n) :: u64) = k"
    unfolding unat_drop_bit_eq using assms(1) by (simp add: drop_bit_eq_div)
  then show ?thesis using assms(3) by (simp add: checked_add_def unat_word_ariths)
qed

context block_device
begin

text \<open>Scattering a read over segments puts the blocks read in the buffer's logical order.\<close>

lemma read_segs_spec:
  assumes "inv s" "bs = 2 ^ unat (block_shift ops s)" "segs_disjoint segs" "segs_aligned bs segs"
    "len = k * bs" "len \<le> sum_list (map seg_len segs)" "unat slba + k \<le> unat (nr_blocks ops s)"
  shows "\<exists>m'. default_read_segs (\<lambda>b buf. be_read ops b buf s) (unat (block_shift ops s)) slba segs len m =
      Some (Inr (), m') \<and>
    segs_bytes m' segs = splice 0 (slice (unat slba * bs) len (disk s)) (segs_bytes m segs) \<and>
    (\<forall>x. x \<notin> (\<Union>g \<in> set segs. seg_addrs g) \<longrightarrow> m' x = m x)"
  using assms
proof (induction segs arbitrary: slba k len m)
  case Nil
  then show ?case by (simp add: slice_def)
next
  case (Cons g segs)
  show ?case
  proof (cases "len = 0")
    case True
    then show ?thesis by (simp add: slice_def)
  next
    case False
    define n where "n = min len (seg_len g)"
    have bs0: "0 < bs" using Cons.prems(2) by simp
    have al: "segs_aligned bs segs" "segs \<noteq> [] \<longrightarrow> bs dvd seg_len g"
      using segs_aligned_Cons [OF Cons.prems(4)] by simp_all
    have "bs dvd n"
    proof (cases "seg_len g < len")
      case True
      then have "segs \<noteq> []" using Cons.prems(6) by auto
      then show ?thesis using True al(2) by (simp add: n_def min_def)
    next
      case False
      then show ?thesis using Cons.prems(5) by (simp add: n_def min_def)
    qed
    then obtain j where j: "n = j * bs" by (metis dvd_def mult.commute)
    have nle: "n \<le> len" by (simp add: n_def)
    then have "j * bs \<le> k * bs" using j Cons.prems(5) by simp
    then have jk: "j \<le> k" using bs0 by simp
    have sz: "unat slba * bs + len \<le> length (disk s)"
      using mult_le_mono1 [OF Cons.prems(7), of bs] disk_length [OF Cons.prems(1)] Cons.prems(2,5)
      by (simp add: add_mult_distrib)
    have fits: "n < 2 ^ 64" using sz disk_fits [OF Cons.prems(1)] by (simp add: n_def)
    have rd: "be_read ops slba (mem_read m (seg_ptr g) n) s = Some (Inr (), slice (unat slba * bs) n (disk s))"
      using read_ok [OF Cons.prems(1), of "mem_read m (seg_ptr g) n" j slba] j jk Cons.prems(2,7) by simp
    have "unat slba + j < 2 ^ 64"
      using jk Cons.prems(7) unsigned_less [of "nr_blocks ops s", where 'a = nat] by simp
    then obtain c where c: "checked_add slba (drop_bit (unat (block_shift ops s)) (of_nat n)) = Some c"
      "unat c = unat slba + j"
      using blocks_step [of n j "unat (block_shift ops s)" slba] j fits Cons.prems(2) by auto
    let ?m = "mem_write (seg_ptr g) (slice (unat slba * bs) n (disk s)) m"
    have ln: "length (slice (unat slba * bs) n (disk s)) = n" using sz by (simp add: n_def)
    have "len - n = (k - j) * bs" using Cons.prems(5) j by (simp add: diff_mult_distrib)
    moreover have "len - n \<le> sum_list (map seg_len segs)" using Cons.prems(6) by (auto simp: n_def)
    moreover have "unat c + (k - j) \<le> unat (nr_blocks ops s)" using c(2) jk Cons.prems(7) by simp
    ultimately obtain m' where m': "default_read_segs (\<lambda>b buf. be_read ops b buf s) (unat (block_shift ops s)) c
        segs (len - n) ?m = Some (Inr (), m')"
      "segs_bytes m' segs = splice 0 (slice (unat c * bs) (len - n) (disk s)) (segs_bytes ?m segs)"
      "\<forall>x. x \<notin> (\<Union>g \<in> set segs. seg_addrs g) \<longrightarrow> m' x = ?m x"
      using Cons.IH [OF Cons.prems(1,2) _ al(1), of "len - n" "k - j" c ?m] Cons.prems(3) by auto
    have w: "?m x = m x" if "x \<notin> seg_addrs g" for x
      using that ln by (auto simp: mem_write_def seg_addrs_def n_def)
    have apart: "segs_bytes ?m segs = segs_bytes m segs"
      using Cons.prems(3) by (intro segs_bytes_cong w) auto
    have here: "mem_read m' (seg_ptr g) (seg_len g) = mem_read ?m (seg_ptr g) (seg_len g)"
      using segs_disjoint_ConsD [OF Cons.prems(3)] m'(3) by (intro seg_read_cong) blast
    have hd: "mem_read ?m (seg_ptr g) (seg_len g) =
        splice 0 (slice (unat slba * bs) n (disk s)) (mem_read m (seg_ptr g) (seg_len g))"
      using mem_read_write_inside [of 0 "slice (unat slba * bs) n (disk s)" "seg_len g" "seg_ptr g" m] ln
      by (simp add: n_def)
    have cat: "slice (unat slba * bs) n (disk s) @ slice (unat c * bs) (len - n) (disk s) =
        slice (unat slba * bs) len (disk s)"
      using slice_join [where a = "unat slba * bs" and b = "unat c * bs" and n = n and m = "len - n" and xs = "disk s"] c(2) j
      by (simp add: add_mult_distrib n_def)
    define A where "A = slice (unat slba * bs) n (disk s)"
    define B where "B = slice (unat c * bs) (len - n) (disk s)"
    have lB: "length B = len - n" using sz c(2) j nle by (simp add: B_def add_mult_distrib)
    have lA: "length A = n" using ln by (simp add: A_def)
    have "splice 0 A (mem_read m (seg_ptr g) (seg_len g)) @ splice 0 B (segs_bytes m segs) =
        splice 0 (A @ B) (mem_read m (seg_ptr g) (seg_len g) @ segs_bytes m segs)"
      unfolding splice_def using lA lB nle by (cases "len \<le> seg_len g") (simp_all add: n_def)
    then have "segs_bytes m' (g # segs) = splice 0 (slice (unat slba * bs) len (disk s)) (segs_bytes m (g # segs))"
      unfolding cat [symmetric] segs_bytes_simps here hd m'(2) apart
      unfolding A_def [symmetric] B_def [symmetric] .
    moreover have "\<forall>x. x \<notin> (\<Union>g \<in> set (g # segs). seg_addrs g) \<longrightarrow> m' x = m x" using m'(3) w by auto
    ultimately show ?thesis
      using False rd c(1) m'(1) by (auto simp: n_def [symmetric] Let_def)
  qed
qed

end

context storage
begin

text \<open>Gathering a write from segments stores the buffer's logical bytes.\<close>

lemma write_segs_spec:
  assumes "inv s" "bs = 2 ^ unat (block_shift ops s)" "segs_aligned bs segs"
    "len = k * bs" "len \<le> sum_list (map seg_len segs)" "unat slba + k \<le> unat (nr_blocks ops s)"
  shows "\<exists>s'. default_write_segs (be_write ops) (unat (block_shift ops s)) slba segs len m s = Some (Inr (), s') \<and>
    inv s' \<and> disk s' = splice (unat slba * bs) (take len (segs_bytes m segs)) (disk s) \<and>
    block_shift ops s' = block_shift ops s \<and> nr_blocks ops s' = nr_blocks ops s"
  using assms
proof (induction segs arbitrary: slba k len s)
  case Nil
  then show ?case by simp
next
  case (Cons g segs)
  show ?case
  proof (cases "len = 0")
    case True
    then show ?thesis using Cons.prems(1) by simp
  next
    case False
    define n where "n = min len (seg_len g)"
    have bs0: "0 < bs" using Cons.prems(2) by simp
    have al: "segs_aligned bs segs" "segs \<noteq> [] \<longrightarrow> bs dvd seg_len g"
      using segs_aligned_Cons [OF Cons.prems(3)] by simp_all
    have "bs dvd n"
    proof (cases "seg_len g < len")
      case True
      then have "segs \<noteq> []" using Cons.prems(5) by auto
      then show ?thesis using True al(2) by (simp add: n_def min_def)
    next
      case False
      then show ?thesis using Cons.prems(4) by (simp add: n_def min_def)
    qed
    then obtain j where j: "n = j * bs" by (metis dvd_def mult.commute)
    have nle: "n \<le> len" "n \<le> seg_len g" by (simp_all add: n_def)
    then have "j * bs \<le> k * bs" using j Cons.prems(4) by simp
    then have jk: "j \<le> k" using bs0 by simp
    have sz: "unat slba * bs + len \<le> length (disk s)"
      using mult_le_mono1 [OF Cons.prems(6), of bs] disk_length [OF Cons.prems(1)] Cons.prems(2,4)
      by (simp add: add_mult_distrib)
    have fits: "n < 2 ^ 64" using sz disk_fits [OF Cons.prems(1)] nle by simp
    obtain s1 where s1: "be_write ops slba (mem_read m (seg_ptr g) n) s = Some (Inr (), s1)" "inv s1"
      "disk s1 = splice (unat slba * bs) (mem_read m (seg_ptr g) n) (disk s)"
      "block_shift ops s1 = block_shift ops s" "nr_blocks ops s1 = nr_blocks ops s"
      using write_ok [OF Cons.prems(1), of "mem_read m (seg_ptr g) n" j slba] j jk Cons.prems(2,6) by auto
    have "unat slba + j < 2 ^ 64"
      using jk Cons.prems(6) unsigned_less [of "nr_blocks ops s", where 'a = nat] by simp
    then obtain c where c: "checked_add slba (drop_bit (unat (block_shift ops s)) (of_nat n)) = Some c"
      "unat c = unat slba + j"
      using blocks_step [of n j "unat (block_shift ops s)" slba] j fits Cons.prems(2) by auto
    have "len - n = (k - j) * bs" using Cons.prems(4) j by (simp add: diff_mult_distrib)
    moreover have "len - n \<le> sum_list (map seg_len segs)" using Cons.prems(5) by (auto simp: n_def)
    moreover have "unat c + (k - j) \<le> unat (nr_blocks ops s1)" using c(2) jk Cons.prems(6) s1(5) by simp
    ultimately obtain s' where s': "default_write_segs (be_write ops) (unat (block_shift ops s1)) c segs (len - n) m s1 =
        Some (Inr (), s')" "inv s'"
      "disk s' = splice (unat c * bs) (take (len - n) (segs_bytes m segs)) (disk s1)"
      "block_shift ops s' = block_shift ops s1" "nr_blocks ops s' = nr_blocks ops s1"
      using Cons.IH [OF s1(2) _ al(1), of "len - n" "k - j" c] Cons.prems(2) s1(4) by auto
    let ?A = "mem_read m (seg_ptr g) n" and ?B = "take (len - n) (segs_bytes m segs)"
    have lB: "length ?B = len - n" using Cons.prems(5) by (auto simp: n_def)
    have cb: "unat c * bs = unat slba * bs + length ?A" using c(2) j by (simp add: add_mult_distrib)
    have "take len (segs_bytes m (g # segs)) = ?A @ ?B"
      by (cases "len \<le> seg_len g")
        (simp_all add: n_def mem_read_def take_map min_absorb2)
    then have "disk s' = splice (unat slba * bs) (take len (segs_bytes m (g # segs))) (disk s)"
      using s'(3) s1(3) splice_splice_adjacent [of "unat slba * bs" ?A ?B "disk s"] lB nle sz cb by simp
    then show ?thesis
      using False s1 c(1) s' by (auto simp: n_def [symmetric] Let_def)
  qed
qed

end

end
