(* ===== verification/Memory_Backend.thy ===== *)
theory Memory_Backend
  imports Backend_Model
begin

text \<open>
  The RAM backend and the null backend (\<^verbatim>\<open>crates/ioutgt-backend/src/memory.rs\<close> and
  \<^verbatim>\<open>null.rs\<close>). The store is a list of 2 MiB chunks that are allocated at the first write.
  Reads, writes and zeroing walk the chunks a byte range overlaps. The test-only write delay has no
  effect on the store and is left out. Both are interpreted as block devices.
\<close>

definition CHUNK_SIZE :: nat where "CHUNK_SIZE = 2 ^ 21"

type_synonym chunk = "bytes option"

record memory_backend =
  mb_block_shift :: u8
  mb_nr_blocks :: u64
  mb_chunks :: "chunk list"

definition memory_backend_new :: "u64 \<Rightarrow> u8 \<Rightarrow> memory_backend" where
  "memory_backend_new size_bytes shift =
     (let nr = drop_bit (unat shift) size_bytes;
          bytes = push_bit (unat shift) nr;
          nr_chunks = (unat bytes + CHUNK_SIZE - 1) div CHUNK_SIZE in
      \<lparr>mb_block_shift = shift, mb_nr_blocks = nr, mb_chunks = replicate nr_chunks None\<rparr>)"

text \<open>The arguments \<^verbatim>\<open>for_each_chunk\<close> calls its closure with: chunk index, offset in the chunk,
  length and offset in the buffer.\<close>

function chunk_spans :: "nat \<Rightarrow> nat \<Rightarrow> nat \<Rightarrow> (nat \<times> nat \<times> nat \<times> nat) list" where
  "chunk_spans pos remaining buf_off =
     (if remaining = 0 then []
      else
        let in_chunk = pos mod CHUNK_SIZE;
            n = min remaining (CHUNK_SIZE - in_chunk) in
        (pos div CHUNK_SIZE, in_chunk, n, buf_off) # chunk_spans (pos + n) (remaining - n) (buf_off + n))"
  by pat_completeness auto
termination
  by (relation "measure (\<lambda>(pos, remaining, off). remaining)")
    (auto simp: Let_def CHUNK_SIZE_def)

declare chunk_spans.simps [simp del]

fun read_spans :: "(nat \<times> nat \<times> nat \<times> nat) list \<Rightarrow> chunk list \<Rightarrow> bytes \<Rightarrow> bytes option" where
  "read_spans [] chunks buf = Some buf"
| "read_spans ((idx, in_chunk, n, off) # sp) chunks buf =
     (if length chunks \<le> idx then None
      else
        let src = (case chunks ! idx of Some data \<Rightarrow> slice in_chunk n data | None \<Rightarrow> replicate n 0) in
        read_spans sp chunks (splice off src buf))"

fun write_spans :: "(nat \<times> nat \<times> nat \<times> nat) list \<Rightarrow> bytes \<Rightarrow> chunk list \<Rightarrow> chunk list option" where
  "write_spans [] buf chunks = Some chunks"
| "write_spans ((idx, in_chunk, n, off) # sp) buf chunks =
     (if length chunks \<le> idx then None
      else
        let data = (case chunks ! idx of Some d \<Rightarrow> d | None \<Rightarrow> replicate CHUNK_SIZE 0) in
        write_spans sp buf (chunks[idx := Some (splice in_chunk (slice off n buf) data)]))"

fun zero_spans :: "(nat \<times> nat \<times> nat \<times> nat) list \<Rightarrow> chunk list \<Rightarrow> chunk list option" where
  "zero_spans [] chunks = Some chunks"
| "zero_spans ((idx, in_chunk, n, off) # sp) chunks =
     (if length chunks \<le> idx then None
      else zero_spans sp (case chunks ! idx of
          Some data \<Rightarrow> chunks[idx := Some (splice in_chunk (replicate n 0) data)]
        | None \<Rightarrow> chunks))"

definition memory_read :: "u64 \<Rightarrow> bytes \<Rightarrow> memory_backend \<Rightarrow> ((backend_error + unit) \<times> bytes) option" where
  "memory_read slba buf s =
     (case check_range (mb_nr_blocks s) slba (drop_bit (unat (mb_block_shift s)) (of_nat (length buf))) of
        Inl e \<Rightarrow> Some (Inl e, buf)
      | Inr _ \<Rightarrow>
          let offset = push_bit (unat (mb_block_shift s)) slba in
          map_option (Pair (Inr ())) (read_spans (chunk_spans (unat offset) (length buf) 0) (mb_chunks s) buf))"

definition memory_write ::
  "u64 \<Rightarrow> bytes \<Rightarrow> memory_backend \<Rightarrow> ((backend_error + unit) \<times> memory_backend) option" where
  "memory_write slba buf s =
     (case check_range (mb_nr_blocks s) slba (drop_bit (unat (mb_block_shift s)) (of_nat (length buf))) of
        Inl e \<Rightarrow> Some (Inl e, s)
      | Inr _ \<Rightarrow>
          let offset = push_bit (unat (mb_block_shift s)) slba in
          map_option (\<lambda>c. (Inr (), s\<lparr>mb_chunks := c\<rparr>))
            (write_spans (chunk_spans (unat offset) (length buf) 0) buf (mb_chunks s)))"

definition memory_flush :: "memory_backend \<Rightarrow> ((backend_error + unit) \<times> memory_backend) option" where
  "memory_flush s = Some (Inr (), s)"

definition memory_write_zeroes ::
  "lba_range \<Rightarrow> memory_backend \<Rightarrow> ((backend_error + unit) \<times> memory_backend) option" where
  "memory_write_zeroes r s =
     (case check_range (mb_nr_blocks s) (lr_slba r) (ucast (lr_nlb r)) of
        Inl e \<Rightarrow> Some (Inl e, s)
      | Inr _ \<Rightarrow>
          let offset = push_bit (unat (mb_block_shift s)) (lr_slba r);
              len = unat (push_bit (unat (mb_block_shift s)) (ucast (lr_nlb r) :: u64)) in
          map_option (\<lambda>c. (Inr (), s\<lparr>mb_chunks := c\<rparr>))
            (zero_spans (chunk_spans (unat offset) len 0) (mb_chunks s)))"

definition memory_ops :: "memory_backend backend" where
  "memory_ops = \<lparr>block_shift = mb_block_shift, nr_blocks = mb_nr_blocks,
     be_topology = (\<lambda>_. topology_default),
     be_read = memory_read, be_write = memory_write,
     be_read_segs = (\<lambda>slba segs len i s m.
       default_read_segs (\<lambda>b buf. memory_read b buf s) (unat (mb_block_shift s)) slba segs len m),
     be_write_segs = (\<lambda>slba segs len i m s.
       default_write_segs memory_write (unat (mb_block_shift s)) slba segs len m s),
     be_flush = memory_flush, be_discard = default_discard, be_write_zeroes = memory_write_zeroes\<rparr>"

section \<open>The null backend\<close>

record null_backend =
  nb_block_shift :: u8
  nb_nr_blocks :: u64

definition null_backend_new :: "u64 \<Rightarrow> u8 \<Rightarrow> null_backend" where
  "null_backend_new size_bytes shift =
     \<lparr>nb_block_shift = shift, nb_nr_blocks = drop_bit (unat shift) size_bytes\<rparr>"

definition null_read :: "u64 \<Rightarrow> bytes \<Rightarrow> null_backend \<Rightarrow> ((backend_error + unit) \<times> bytes) option" where
  "null_read slba buf s =
     (case check_range (nb_nr_blocks s) slba (drop_bit (unat (nb_block_shift s)) (of_nat (length buf))) of
        Inl e \<Rightarrow> Some (Inl e, buf)
      | Inr _ \<Rightarrow> Some (Inr (), replicate (length buf) 0))"

definition null_write :: "u64 \<Rightarrow> bytes \<Rightarrow> null_backend \<Rightarrow> ((backend_error + unit) \<times> null_backend) option" where
  "null_write slba buf s =
     Some (check_range (nb_nr_blocks s) slba (drop_bit (unat (nb_block_shift s)) (of_nat (length buf))), s)"

definition null_write_zeroes :: "lba_range \<Rightarrow> null_backend \<Rightarrow> ((backend_error + unit) \<times> null_backend) option" where
  "null_write_zeroes r s = Some (check_range (nb_nr_blocks s) (lr_slba r) (ucast (lr_nlb r)), s)"

definition null_ops :: "null_backend backend" where
  "null_ops = \<lparr>block_shift = nb_block_shift, nr_blocks = nb_nr_blocks,
     be_topology = (\<lambda>_. topology_default),
     be_read = null_read, be_write = null_write,
     be_read_segs = (\<lambda>slba segs len i s m.
       default_read_segs (\<lambda>b buf. null_read b buf s) (unat (nb_block_shift s)) slba segs len m),
     be_write_segs = (\<lambda>slba segs len i m s.
       default_write_segs null_write (unat (nb_block_shift s)) slba segs len m s),
     be_flush = (\<lambda>s. Some (Inr (), s)), be_discard = default_discard, be_write_zeroes = null_write_zeroes\<rparr>"

section \<open>The chunks as one string of bytes\<close>

definition chunk_bytes :: "chunk \<Rightarrow> bytes" where
  "chunk_bytes c = (case c of Some d \<Rightarrow> d | None \<Rightarrow> replicate CHUNK_SIZE 0)"

definition flat :: "chunk list \<Rightarrow> bytes" where
  "flat cs = concat (map chunk_bytes cs)"

definition chunks_ok :: "chunk list \<Rightarrow> bool" where
  "chunks_ok cs \<longleftrightarrow> (\<forall>d. Some d \<in> set cs \<longrightarrow> length d = CHUNK_SIZE)"

lemma CHUNK_SIZE_pos [simp]: "0 < CHUNK_SIZE"
  by (simp add: CHUNK_SIZE_def)

lemma length_chunk_bytes: "chunks_ok cs \<Longrightarrow> c \<in> set cs \<Longrightarrow> length (chunk_bytes c) = CHUNK_SIZE"
  by (cases c) (auto simp: chunk_bytes_def chunks_ok_def)

lemma length_flat: "chunks_ok cs \<Longrightarrow> length (flat cs) = length cs * CHUNK_SIZE"
proof (induction cs)
  case (Cons c cs)
  then have "chunks_ok cs" "length (chunk_bytes c) = CHUNK_SIZE"
    using length_chunk_bytes [of "c # cs" c] by (auto simp: chunks_ok_def)
  then show ?case using Cons.IH by (simp add: flat_def)
qed (simp add: flat_def)

lemma flat_split:
  assumes "chunks_ok cs" "i < length cs"
  shows "flat cs = flat (take i cs) @ chunk_bytes (cs ! i) @ flat (drop (Suc i) cs)"
    "length (flat (take i cs)) = i * CHUNK_SIZE" "length (chunk_bytes (cs ! i)) = CHUNK_SIZE"
proof -
  have "cs = take i cs @ cs ! i # drop (Suc i) cs" using assms(2) by (rule id_take_nth_drop)
  from arg_cong [OF this, of flat]
  show "flat cs = flat (take i cs) @ chunk_bytes (cs ! i) @ flat (drop (Suc i) cs)"
    by (simp only: flat_def map_append concat_append list.map concat.simps)
  have "chunks_ok (take i cs)" using assms(1) by (auto simp: chunks_ok_def dest: in_set_takeD)
  then show "length (flat (take i cs)) = i * CHUNK_SIZE" using length_flat assms(2) by simp
  show "length (chunk_bytes (cs ! i)) = CHUNK_SIZE"
    using length_chunk_bytes [OF assms(1)] assms(2) by simp
qed

lemma slice_flat:
  assumes "chunks_ok cs" "i < length cs" "j + n \<le> CHUNK_SIZE"
  shows "slice (i * CHUNK_SIZE + j) n (flat cs) = slice j n (chunk_bytes (cs ! i))"
  unfolding flat_split(1) [OF assms(1,2)]
  using flat_split(2,3) [OF assms(1,2)] assms(3) by (simp add: slice_append_right slice_append_left)

lemma splice_flat:
  assumes "chunks_ok cs" "i < length cs" "j + length src \<le> CHUNK_SIZE"
  shows "flat (cs[i := Some (splice j src (chunk_bytes (cs ! i)))]) = splice (i * CHUNK_SIZE + j) src (flat cs)"
    "chunks_ok (cs[i := Some (splice j src (chunk_bytes (cs ! i)))])"
proof -
  let ?c = "Some (splice j src (chunk_bytes (cs ! i)))"
  have len: "length (splice j src (chunk_bytes (cs ! i))) = CHUNK_SIZE"
    using flat_split(3) [OF assms(1,2)] assms(3) by simp
  show "chunks_ok (cs[i := ?c])"
    using assms(1) len set_update_subset_insert [of cs i ?c] by (auto simp: chunks_ok_def)
  have "cs[i := ?c] = take i cs @ ?c # drop (Suc i) cs" using assms(2) by (simp add: upd_conv_take_nth_drop)
  then have "flat (cs[i := ?c]) = flat (take i cs) @ splice j src (chunk_bytes (cs ! i)) @ flat (drop (Suc i) cs)"
    by (simp add: flat_def chunk_bytes_def)
  also have "\<dots> = splice (i * CHUNK_SIZE + j) src (flat cs)"
    unfolding flat_split(1) [OF assms(1,2)]
    using flat_split(2,3) [OF assms(1,2)] assms(3) by (simp add: splice_append_right splice_append_left)
  finally show "flat (cs[i := ?c]) = splice (i * CHUNK_SIZE + j) src (flat cs)" .
qed

lemma span_facts:
  assumes "pos + k \<le> length cs * CHUNK_SIZE" "k \<noteq> 0"
  defines "n \<equiv> min k (CHUNK_SIZE - pos mod CHUNK_SIZE)"
  shows "pos div CHUNK_SIZE < length cs" "pos mod CHUNK_SIZE + n \<le> CHUNK_SIZE" "n \<le> k"
    "pos div CHUNK_SIZE * CHUNK_SIZE + pos mod CHUNK_SIZE = pos"
proof -
  have m: "pos mod CHUNK_SIZE < CHUNK_SIZE" by simp
  then show "pos mod CHUNK_SIZE + n \<le> CHUNK_SIZE" unfolding n_def by linarith
  show "n \<le> k" by (simp add: n_def)
  show "pos div CHUNK_SIZE < length cs" using assms(1,2) by (simp add: div_less_iff_less_mult)
qed simp
lemma chunk_bytes_read:
  "j + n \<le> CHUNK_SIZE \<Longrightarrow>
    (case c of Some data \<Rightarrow> slice j n data | None \<Rightarrow> replicate n 0) = slice j n (chunk_bytes c)"
  by (cases c) (simp_all add: chunk_bytes_def slice_def min_absorb1)

lemma read_spans_spec:
  "chunks_ok cs \<Longrightarrow> pos + k \<le> length cs * CHUNK_SIZE \<Longrightarrow> off + k \<le> length buf \<Longrightarrow>
    read_spans (chunk_spans pos k off) cs buf = Some (splice off (slice pos k (flat cs)) buf)"
proof (induction pos k off arbitrary: buf rule: chunk_spans.induct)
  case (1 pos k off)
  show ?case
  proof (cases "k = 0")
    case True
    then show ?thesis by (simp add: chunk_spans.simps [of pos 0 off] slice_def)
  next
    case False
    define n where "n = min k (CHUNK_SIZE - pos mod CHUNK_SIZE)"
    note sf = span_facts [OF "1.prems"(2) False, folded n_def]
    let ?i = "pos div CHUNK_SIZE" and ?j = "pos mod CHUNK_SIZE"
    have src: "(case cs ! ?i of Some data \<Rightarrow> slice ?j n data | None \<Rightarrow> replicate n 0) = slice pos n (flat cs)"
      using slice_flat [OF "1.prems"(1) sf(1,2)] chunk_bytes_read [OF sf(2)] sf(4) by simp
    have ln: "length (slice pos n (flat cs)) = n"
      using "1.prems"(2) sf(3) length_flat [OF "1.prems"(1)] by simp
    have step: "chunk_spans pos k off = (?i, ?j, n, off) # chunk_spans (pos + n) (k - n) (off + n)"
      using False by (subst chunk_spans.simps) (simp add: n_def Let_def)
    have "read_spans (chunk_spans (pos + n) (k - n) (off + n)) cs (splice off (slice pos n (flat cs)) buf) =
        Some (splice (off + n) (slice (pos + n) (k - n) (flat cs)) (splice off (slice pos n (flat cs)) buf))"
      by (rule "1.IH" [OF False refl n_def]) (use "1.prems" sf(3) ln in simp_all)
    also have "splice (off + n) (slice (pos + n) (k - n) (flat cs)) (splice off (slice pos n (flat cs)) buf) =
        splice off (slice pos k (flat cs)) buf"
      using splice_splice_adjacent [of off "slice pos n (flat cs)" "slice (pos + n) (k - n) (flat cs)" buf]
        ln "1.prems"(2,3) sf(3) length_flat [OF "1.prems"(1)]
        slice_join [where a = pos and b = "pos + n" and n = n and m = "k - n" and xs = "flat cs"]
      by simp
    finally show ?thesis unfolding step using sf(1) src by simp
  qed
qed

lemma splice_same: "slice pos (length z) xs = z \<Longrightarrow> pos + length z \<le> length xs \<Longrightarrow> splice pos z xs = xs"
proof -
  assume "slice pos (length z) xs = z"
  then have "splice pos z xs = take pos xs @ take (length z) (drop pos xs) @ drop (length z) (drop pos xs)"
    by (simp add: splice_def slice_def add.commute)
  then show ?thesis by (simp del: drop_drop)
qed

text \<open>One step of a write, and of a zeroing, on the flat string.\<close>

lemma write_spans_spec:
  "chunks_ok cs \<Longrightarrow> pos + k \<le> length cs * CHUNK_SIZE \<Longrightarrow> off + k \<le> length buf \<Longrightarrow>
    \<exists>cs'. write_spans (chunk_spans pos k off) buf cs = Some cs' \<and> chunks_ok cs' \<and> length cs' = length cs \<and>
      flat cs' = splice pos (slice off k buf) (flat cs)"
proof (induction pos k off arbitrary: cs rule: chunk_spans.induct)
  case (1 pos k off)
  show ?case
  proof (cases "k = 0")
    case True
    then show ?thesis using "1.prems" by (simp add: chunk_spans.simps [of pos 0 off] slice_def)
  next
    case False
    define n where "n = min k (CHUNK_SIZE - pos mod CHUNK_SIZE)"
    note sf = span_facts [OF "1.prems"(2) False, folded n_def]
    let ?i = "pos div CHUNK_SIZE" and ?j = "pos mod CHUNK_SIZE"
    have ln: "length (slice off n buf) = n" using "1.prems"(3) sf(3) by simp
    let ?cs = "cs[?i := Some (splice ?j (slice off n buf) (chunk_bytes (cs ! ?i)))]"
    note up = splice_flat [OF "1.prems"(1) sf(1), of ?j "slice off n buf", unfolded ln sf(4), OF sf(2)]
    have step: "write_spans (chunk_spans pos k off) buf cs =
        write_spans (chunk_spans (pos + n) (k - n) (off + n)) buf ?cs"
      using False sf(1)
      by (subst chunk_spans.simps) (simp add: n_def Let_def chunk_bytes_def split: option.splits)
    obtain cs' where cs': "write_spans (chunk_spans (pos + n) (k - n) (off + n)) buf ?cs = Some cs'" "chunks_ok cs'"
      "length cs' = length ?cs" "flat cs' = splice (pos + n) (slice (off + n) (k - n) buf) (flat ?cs)"
      using "1.IH" [OF False refl n_def up(2)] "1.prems" sf(3) by auto
    have "flat cs' = splice pos (slice off n buf @ slice (off + n) (k - n) buf) (flat cs)"
      using cs'(4) up(1) splice_splice_adjacent [of pos "slice off n buf" "slice (off + n) (k - n) buf" "flat cs"]
        ln "1.prems" sf(3) length_flat [OF "1.prems"(1)] by simp
    then have "flat cs' = splice pos (slice off k buf) (flat cs)"
      using slice_join [where a = off and b = "off + n" and n = n and m = "k - n" and xs = buf] sf(3) by simp
    then show ?thesis using cs' step by simp
  qed
qed

lemma zero_spans_spec:
  "chunks_ok cs \<Longrightarrow> pos + k \<le> length cs * CHUNK_SIZE \<Longrightarrow>
    \<exists>cs'. zero_spans (chunk_spans pos k off) cs = Some cs' \<and> chunks_ok cs' \<and> length cs' = length cs \<and>
      flat cs' = splice pos (replicate k 0) (flat cs)"
proof (induction pos k off arbitrary: cs rule: chunk_spans.induct)
  case (1 pos k off)
  show ?case
  proof (cases "k = 0")
    case True
    then show ?thesis using "1.prems" by (simp add: chunk_spans.simps [of pos 0 off])
  next
    case False
    define n where "n = min k (CHUNK_SIZE - pos mod CHUNK_SIZE)"
    note sf = span_facts [OF "1.prems"(2) False, folded n_def]
    let ?i = "pos div CHUNK_SIZE" and ?j = "pos mod CHUNK_SIZE"
    define ds where "ds = (case cs ! ?i of
        Some data \<Rightarrow> cs[?i := Some (splice ?j (replicate n 0) data)] | None \<Rightarrow> cs)"
    have ds: "flat ds = splice pos (replicate n 0) (flat cs)" "chunks_ok ds" "length ds = length cs"
    proof -
      have b: "?j + length (replicate n (0 :: u8)) \<le> CHUNK_SIZE" using sf(2) by simp
      have "flat ds = splice pos (replicate n 0) (flat cs) \<and> chunks_ok ds"
      proof (cases "cs ! ?i")
        case None
        have "slice pos n (flat cs) = replicate n 0"
          using slice_flat [OF "1.prems"(1) sf(1,2)] sf(2,4) None
          by (simp add: chunk_bytes_def slice_def min_absorb1)
        then have "splice pos (replicate n 0) (flat cs) = flat cs"
          using "1.prems"(2) sf(3) length_flat [OF "1.prems"(1)] by (intro splice_same) simp_all
        then show ?thesis using None "1.prems"(1) by (simp add: ds_def)
      next
        case (Some d)
        then show ?thesis
          using splice_flat [OF "1.prems"(1) sf(1) b] sf(4) by (simp add: ds_def chunk_bytes_def)
      qed
      then show "flat ds = splice pos (replicate n 0) (flat cs)" "chunks_ok ds" by simp_all
      show "length ds = length cs" by (simp add: ds_def split: option.split)
    qed
    have step: "zero_spans (chunk_spans pos k off) cs = zero_spans (chunk_spans (pos + n) (k - n) (off + n)) ds"
      using False sf(1) by (subst chunk_spans.simps) (simp add: n_def Let_def ds_def split: option.splits)
    obtain cs' where cs': "zero_spans (chunk_spans (pos + n) (k - n) (off + n)) ds = Some cs'" "chunks_ok cs'"
      "length cs' = length ds" "flat cs' = splice (pos + n) (replicate (k - n) 0) (flat ds)"
      using "1.IH" [OF False refl n_def ds(2)] "1.prems" sf(3) ds(3) by auto
    have "flat cs' = splice pos (replicate n 0 @ replicate (k - n) 0) (flat cs)"
      using cs'(4) ds(1) splice_splice_adjacent [of pos "replicate n 0" "replicate (k - n) 0" "flat cs"]
        "1.prems" sf(3) length_flat [OF "1.prems"(1)] by simp
    then have "flat cs' = splice pos (replicate k 0) (flat cs)" using sf(3) by (simp flip: replicate_add)
    then show ?thesis using cs' step ds(3) by simp
  qed
qed

section \<open>The backends as block devices\<close>

definition dev_bytes :: "u8 \<Rightarrow> u64 \<Rightarrow> nat" where
  "dev_bytes shift nr = unat nr * 2 ^ unat shift"

definition memory_ok :: "memory_backend \<Rightarrow> bool" where
  "memory_ok s \<longleftrightarrow> unat (mb_block_shift s) < 32 \<and> dev_bytes (mb_block_shift s) (mb_nr_blocks s) < 2 ^ 64 \<and>
     chunks_ok (mb_chunks s) \<and> dev_bytes (mb_block_shift s) (mb_nr_blocks s) \<le> length (mb_chunks s) * CHUNK_SIZE"

definition memory_disk :: "memory_backend \<Rightarrow> bytes" where
  "memory_disk s = take (dev_bytes (mb_block_shift s) (mb_nr_blocks s)) (flat (mb_chunks s))"

definition null_ok :: "null_backend \<Rightarrow> bool" where
  "null_ok s \<longleftrightarrow> unat (nb_block_shift s) < 32 \<and> dev_bytes (nb_block_shift s) (nb_nr_blocks s) < 2 ^ 64"

definition null_disk :: "null_backend \<Rightarrow> bytes" where
  "null_disk s = replicate (dev_bytes (nb_block_shift s) (nb_nr_blocks s)) 0"

lemma check_range_iff:
  "check_range nr slba nlb = (if unat slba + unat nlb \<le> unat nr then Inr () else Inl OutOfRange)"
proof (cases "checked_add slba nlb")
  case None
  then have "2 ^ 64 \<le> unat slba + unat nlb" by (auto simp: checked_add_def split: if_splits)
  then show ?thesis using None unsigned_less [of nr, where 'a = nat] by (simp add: check_range_def)
next
  case (Some e)
  then show ?thesis using checked_add_Some [OF Some] by (simp add: check_range_def word_less_nat_alt)
qed

lemma unat_push_bit:
  fixes w :: "'a::len word"
  assumes "unat w * 2 ^ n < 2 ^ LENGTH('a)"
  shows "unat (push_bit n w) = unat w * 2 ^ n"
  unfolding unsigned_push_bit_eq using assms by (simp only: take_bit_nat_eq_self push_bit_eq_mult)

lemma dev_offset:
  assumes "dev_bytes shift nr < 2 ^ 64" "unat slba \<le> unat nr"
  shows "unat (push_bit (unat shift) (slba :: u64)) = unat slba * 2 ^ unat shift"
proof -
  have "unat slba * 2 ^ unat shift \<le> dev_bytes shift nr" using assms(2) by (simp add: dev_bytes_def)
  then show ?thesis using assms(1) by (intro unat_push_bit) simp
qed

lemma block_count:
  assumes "length buf = n * 2 ^ sh" "length buf < 2 ^ 64"
  shows "unat (drop_bit sh (of_nat (length buf)) :: u64) = n"
proof -
  have "unat (of_nat (length buf) :: u64) = length buf"
    using assms(2) by (simp add: unsigned_of_nat take_bit_nat_eq_self)
  then show ?thesis unfolding unat_drop_bit_eq using assms(1) by (simp add: drop_bit_eq_div)
qed

lemma dev_end: "a + n \<le> unat nr \<Longrightarrow> a * 2 ^ unat shift + n * 2 ^ unat shift \<le> dev_bytes shift nr"
  unfolding dev_bytes_def by (metis add_mult_distrib mult_le_mono1)

lemma slice_take: "off + n \<le> k \<Longrightarrow> slice off n (take k xs) = slice off n xs"
  by (simp add: slice_def drop_take min_absorb1)

lemma take_splice_below: "off + length src \<le> k \<Longrightarrow> k \<le> length xs \<Longrightarrow> take k (splice off src xs) = splice off src (take k xs)"
  by (simp add: splice_def drop_take min_absorb1 min_absorb2)

lemma memory_ok_write:
  assumes ok: "memory_ok s" and b: "off + length src \<le> dev_bytes (mb_block_shift s) (mb_nr_blocks s)"
    and c: "chunks_ok cs" "length cs = length (mb_chunks s)" "flat cs = splice off src (flat (mb_chunks s))"
  shows "memory_ok (s\<lparr>mb_chunks := cs\<rparr>)" "memory_disk (s\<lparr>mb_chunks := cs\<rparr>) = splice off src (memory_disk s)"
proof -
  show "memory_ok (s\<lparr>mb_chunks := cs\<rparr>)" using ok c by (simp add: memory_ok_def)
  have "dev_bytes (mb_block_shift s) (mb_nr_blocks s) \<le> length (flat (mb_chunks s))"
    using ok length_flat by (simp add: memory_ok_def)
  then show "memory_disk (s\<lparr>mb_chunks := cs\<rparr>) = splice off src (memory_disk s)"
    using take_splice_below [OF b] c(3) by (simp add: memory_disk_def)
qed

lemma memory_read_ok:
  assumes ok: "memory_ok s" and len: "length buf = n * 2 ^ unat (mb_block_shift s)"
    and b: "unat slba + n \<le> unat (mb_nr_blocks s)"
  shows "memory_read slba buf s =
    Some (Inr (), slice (unat slba * 2 ^ unat (mb_block_shift s)) (length buf) (memory_disk s))"
proof -
  let ?sh = "unat (mb_block_shift s)"
  have fits: "dev_bytes (mb_block_shift s) (mb_nr_blocks s) < 2 ^ 64" using ok by (simp add: memory_ok_def)
  note e = dev_end [OF b, of "mb_block_shift s"]
  have l64: "length buf < 2 ^ 64" using e fits len by simp
  have off: "unat (push_bit ?sh slba) = unat slba * 2 ^ ?sh" using dev_offset [OF fits] b by simp
  have "unat slba * 2 ^ ?sh + length buf \<le> length (mb_chunks s) * CHUNK_SIZE"
    using e len ok by (simp add: memory_ok_def)
  then have "read_spans (chunk_spans (unat slba * 2 ^ ?sh) (length buf) 0) (mb_chunks s) buf =
      Some (splice 0 (slice (unat slba * 2 ^ ?sh) (length buf) (flat (mb_chunks s))) buf)"
    using ok by (intro read_spans_spec) (simp_all add: memory_ok_def)
  moreover have "splice 0 (slice (unat slba * 2 ^ ?sh) (length buf) (flat (mb_chunks s))) buf =
      slice (unat slba * 2 ^ ?sh) (length buf) (memory_disk s)"
  proof -
    have "length (slice (unat slba * 2 ^ ?sh) (length buf) (flat (mb_chunks s))) = length buf"
      using ok e len length_flat [of "mb_chunks s"] by (auto simp add: memory_ok_def min_def)
    then show ?thesis using slice_take [of "unat slba * 2 ^ ?sh" "length buf" _ "flat (mb_chunks s)"] e len
      by (simp add: splice_def memory_disk_def)
  qed
  ultimately show ?thesis
    using b block_count [OF len l64] off by (simp add: memory_read_def check_range_iff Let_def)
qed

lemma memory_write_ok:
  assumes ok: "memory_ok s" and len: "length buf = n * 2 ^ unat (mb_block_shift s)"
    and b: "unat slba + n \<le> unat (mb_nr_blocks s)"
  shows "\<exists>cs. memory_write slba buf s = Some (Inr (), s\<lparr>mb_chunks := cs\<rparr>) \<and> memory_ok (s\<lparr>mb_chunks := cs\<rparr>) \<and>
    memory_disk (s\<lparr>mb_chunks := cs\<rparr>) = splice (unat slba * 2 ^ unat (mb_block_shift s)) buf (memory_disk s)"
proof -
  let ?sh = "unat (mb_block_shift s)"
  have fits: "dev_bytes (mb_block_shift s) (mb_nr_blocks s) < 2 ^ 64" using ok by (simp add: memory_ok_def)
  note e = dev_end [OF b, of "mb_block_shift s"]
  have l64: "length buf < 2 ^ 64" using e fits len by simp
  have off: "unat (push_bit ?sh slba) = unat slba * 2 ^ ?sh" using dev_offset [OF fits] b by simp
  have eb: "unat slba * 2 ^ ?sh + length buf \<le> dev_bytes (mb_block_shift s) (mb_nr_blocks s)" using e len by simp
  then have "unat slba * 2 ^ ?sh + length buf \<le> length (mb_chunks s) * CHUNK_SIZE" using ok by (simp add: memory_ok_def)
  then obtain cs where cs: "write_spans (chunk_spans (unat slba * 2 ^ ?sh) (length buf) 0) buf (mb_chunks s) = Some cs"
    "chunks_ok cs" "length cs = length (mb_chunks s)"
    "flat cs = splice (unat slba * 2 ^ ?sh) buf (flat (mb_chunks s))"
    using write_spans_spec [of "mb_chunks s" _ "length buf" 0 buf] ok by (auto simp: memory_ok_def slice_def)
  then show ?thesis
    using memory_ok_write [OF ok eb cs(2-4)] b block_count [OF len l64] off
    by (simp add: memory_write_def check_range_iff Let_def) blast
qed

lemma memory_zeroes_ok:
  assumes ok: "memory_ok s" and b: "unat (lr_slba r) + unat (lr_nlb r) \<le> unat (mb_nr_blocks s)"
  shows "\<exists>cs. memory_write_zeroes r s = Some (Inr (), s\<lparr>mb_chunks := cs\<rparr>) \<and> memory_ok (s\<lparr>mb_chunks := cs\<rparr>) \<and>
    memory_disk (s\<lparr>mb_chunks := cs\<rparr>) = splice (unat (lr_slba r) * 2 ^ unat (mb_block_shift s))
      (replicate (unat (lr_nlb r) * 2 ^ unat (mb_block_shift s)) 0) (memory_disk s)"
proof -
  let ?sh = "unat (mb_block_shift s)"
  let ?k = "unat (lr_nlb r) * 2 ^ ?sh"
  have fits: "dev_bytes (mb_block_shift s) (mb_nr_blocks s) < 2 ^ 64" using ok by (simp add: memory_ok_def)
  note e = dev_end [OF b, of "mb_block_shift s"]
  have off: "unat (push_bit ?sh (lr_slba r)) = unat (lr_slba r) * 2 ^ ?sh" using dev_offset [OF fits] b by simp
  have n: "unat (ucast (lr_nlb r) :: u64) = unat (lr_nlb r)"
    using unsigned_less [of "lr_nlb r", where 'a = nat] by (simp add: unsigned_ucast_eq take_bit_nat_eq_self)
  then have k: "unat (push_bit ?sh (ucast (lr_nlb r) :: u64)) = ?k" using dev_offset [OF fits] b by simp
  have eb: "unat (lr_slba r) * 2 ^ ?sh + length (replicate ?k (0 :: u8)) \<le> dev_bytes (mb_block_shift s) (mb_nr_blocks s)"
    using e by simp
  then have "unat (lr_slba r) * 2 ^ ?sh + ?k \<le> length (mb_chunks s) * CHUNK_SIZE" using ok by (simp add: memory_ok_def)
  then obtain cs where cs: "zero_spans (chunk_spans (unat (lr_slba r) * 2 ^ ?sh) ?k 0) (mb_chunks s) = Some cs"
    "chunks_ok cs" "length cs = length (mb_chunks s)"
    "flat cs = splice (unat (lr_slba r) * 2 ^ ?sh) (replicate ?k 0) (flat (mb_chunks s))"
    using zero_spans_spec [of "mb_chunks s" _ ?k 0] ok by (auto simp: memory_ok_def)
  then show ?thesis
    using memory_ok_write [OF ok eb cs(2-4)] b off n k
    by (simp add: memory_write_zeroes_def check_range_iff Let_def) blast
qed

interpretation mem: storage memory_ops memory_ok memory_disk
proof
  fix s assume ok: "memory_ok s"
  show "unat (block_shift memory_ops s) < 32"
    "length (memory_disk s) = unat (nr_blocks memory_ops s) * 2 ^ unat (block_shift memory_ops s)"
    "length (memory_disk s) < 2 ^ 64"
    using ok length_flat [of "mb_chunks s"]
    by (simp_all add: memory_ops_def memory_ok_def memory_disk_def dev_bytes_def)
next
  fix s n and buf :: bytes and slba :: u64 assume "memory_ok s" "length buf = n * 2 ^ unat (block_shift memory_ops s)"
    "unat slba + n \<le> unat (nr_blocks memory_ops s)"
  then show "be_read memory_ops slba buf s =
      Some (Inr (), slice (unat slba * 2 ^ unat (block_shift memory_ops s)) (length buf) (memory_disk s))"
    using memory_read_ok by (simp add: memory_ops_def)
next
  fix s n and buf :: bytes and slba :: u64 assume "memory_ok s" "length buf = n * 2 ^ unat (block_shift memory_ops s)" "length buf < 2 ^ 64"
    "unat (nr_blocks memory_ops s) < unat slba + n"
  then show "be_read memory_ops slba buf s = Some (Inl OutOfRange, buf)"
    "be_write memory_ops slba buf s = Some (Inl OutOfRange, s)"
    using block_count [of buf n "unat (mb_block_shift s)"]
    by (simp_all add: memory_ops_def memory_read_def memory_write_def check_range_iff)
next
  fix s n and buf :: bytes and slba :: u64 assume "memory_ok s" "length buf = n * 2 ^ unat (block_shift memory_ops s)"
    "unat slba + n \<le> unat (nr_blocks memory_ops s)"
  then show "\<exists>s'. be_write memory_ops slba buf s = Some (Inr (), s') \<and> memory_ok s' \<and>
      memory_disk s' = splice (unat slba * 2 ^ unat (block_shift memory_ops s)) buf (memory_disk s) \<and>
      block_shift memory_ops s' = block_shift memory_ops s \<and> nr_blocks memory_ops s' = nr_blocks memory_ops s"
    using memory_write_ok [of s buf n slba] by (auto simp: memory_ops_def)
next
  fix s and r :: lba_range assume "memory_ok s" "unat (lr_slba r) + unat (lr_nlb r) \<le> unat (nr_blocks memory_ops s)"
  then show "\<exists>s'. be_write_zeroes memory_ops r s = Some (Inr (), s') \<and> memory_ok s' \<and>
      memory_disk s' = splice (unat (lr_slba r) * 2 ^ unat (block_shift memory_ops s))
        (replicate (unat (lr_nlb r) * 2 ^ unat (block_shift memory_ops s)) 0) (memory_disk s) \<and>
      block_shift memory_ops s' = block_shift memory_ops s \<and> nr_blocks memory_ops s' = nr_blocks memory_ops s"
    using memory_zeroes_ok [of s r] by (auto simp: memory_ops_def)
qed (simp_all add: memory_ops_def)

text \<open>With blocks of at most a page the store serves an I/O queue.\<close>

definition ram_ok :: "memory_backend \<Rightarrow> bool" where
  "ram_ok s \<longleftrightarrow> memory_ok s \<and> unat (mb_block_shift s) \<le> 12"

interpretation ram: io_device memory_ops ram_ok memory_disk
proof unfold_locales
  fix s n and buf :: bytes and slba :: u64
  assume "ram_ok s" "length buf = n * 2 ^ unat (block_shift memory_ops s)" "unat slba + n \<le> unat (nr_blocks memory_ops s)"
  then show "\<exists>s'. be_write memory_ops slba buf s = Some (Inr (), s') \<and> ram_ok s' \<and>
      memory_disk s' = splice (unat slba * 2 ^ unat (block_shift memory_ops s)) buf (memory_disk s) \<and>
      block_shift memory_ops s' = block_shift memory_ops s \<and> nr_blocks memory_ops s' = nr_blocks memory_ops s"
    using memory_write_ok [of s buf n slba] by (auto simp: memory_ops_def ram_ok_def)
next
  fix s and r :: lba_range
  assume "ram_ok s" "unat (lr_slba r) + unat (lr_nlb r) \<le> unat (nr_blocks memory_ops s)"
  then show "\<exists>s'. be_write_zeroes memory_ops r s = Some (Inr (), s') \<and> ram_ok s' \<and>
      memory_disk s' = splice (unat (lr_slba r) * 2 ^ unat (block_shift memory_ops s))
        (replicate (unat (lr_nlb r) * 2 ^ unat (block_shift memory_ops s)) 0) (memory_disk s) \<and>
      block_shift memory_ops s' = block_shift memory_ops s \<and> nr_blocks memory_ops s' = nr_blocks memory_ops s"
    using memory_zeroes_ok [of s r] by (auto simp: memory_ops_def ram_ok_def)
next
  fix s and r :: lba_range
  assume "ram_ok s" "unat (nr_blocks memory_ops s) < unat (lr_slba r) + unat (lr_nlb r)"
  moreover have "unat (ucast (lr_nlb r) :: u64) = unat (lr_nlb r)"
    using unsigned_less [of "lr_nlb r", where 'a = nat] by (simp add: unsigned_ucast_eq take_bit_nat_eq_self)
  ultimately show "be_write_zeroes memory_ops r s = Some (Inl OutOfRange, s)"
    by (simp add: memory_ops_def memory_write_zeroes_def check_range_iff)
qed (use mem.shift_small mem.disk_length mem.disk_fits mem.read_ok mem.read_range mem.write_range mem.read_segs_default
    mem.write_segs_default in \<open>auto simp: ram_ok_def memory_ops_def memory_flush_def default_discard_def\<close>)

interpretation nul: block_device null_ops null_ok null_disk
proof
  fix s n and buf :: bytes and slba :: u64 assume a: "null_ok s" "length buf = n * 2 ^ unat (block_shift null_ops s)"
    "unat slba + n \<le> unat (nr_blocks null_ops s)"
  then have e: "unat slba * 2 ^ unat (nb_block_shift s) + length buf \<le> dev_bytes (nb_block_shift s) (nb_nr_blocks s)"
    using dev_end [of "unat slba" n "nb_nr_blocks s" "nb_block_shift s"] by (simp add: null_ops_def)
  then have "length buf < 2 ^ 64" using a(1) by (simp add: null_ok_def)
  then show "be_read null_ops slba buf s =
      Some (Inr (), slice (unat slba * 2 ^ unat (block_shift null_ops s)) (length buf) (null_disk s))"
    using a e block_count [of buf n "unat (nb_block_shift s)"]
    by (simp add: null_ops_def null_read_def check_range_iff null_disk_def slice_def min_absorb1)
next
  fix s n and buf :: bytes and slba :: u64 assume "null_ok s" "length buf = n * 2 ^ unat (block_shift null_ops s)" "length buf < 2 ^ 64"
    "unat (nr_blocks null_ops s) < unat slba + n"
  then show "be_read null_ops slba buf s = Some (Inl OutOfRange, buf)"
    "be_write null_ops slba buf s = Some (Inl OutOfRange, s)"
    using block_count [of buf n "unat (nb_block_shift s)"]
    by (simp_all add: null_ops_def null_read_def null_write_def check_range_iff)
qed (simp_all add: null_ops_def null_ok_def null_disk_def dev_bytes_def)

section \<open>The store against a flat disk\<close>

text \<open>The calls a namespace makes on its device, run against the chunked store and against one flat
  string of bytes with blocks of \<open>bs\<close> bytes.\<close>

datatype dev_op = DevRead u64 nat | DevWrite u64 bytes | DevZero lba_range | DevFlush

datatype dev_result = DevData bytes | DevDone | DevError backend_error

fun memory_call :: "dev_op \<Rightarrow> memory_backend \<Rightarrow> (dev_result \<times> memory_backend) option" where
  "memory_call (DevRead slba n) s =
     map_option (\<lambda>(r, buf). (case r of Inl e \<Rightarrow> DevError e | Inr _ \<Rightarrow> DevData buf, s))
       (memory_read slba (replicate n 0) s)"
| "memory_call (DevWrite slba buf) s =
     map_option (\<lambda>(r, s'). (case r of Inl e \<Rightarrow> DevError e | Inr _ \<Rightarrow> DevDone, s')) (memory_write slba buf s)"
| "memory_call (DevZero r) s =
     map_option (\<lambda>(r, s'). (case r of Inl e \<Rightarrow> DevError e | Inr _ \<Rightarrow> DevDone, s')) (memory_write_zeroes r s)"
| "memory_call DevFlush s =
     map_option (\<lambda>(r, s'). (case r of Inl e \<Rightarrow> DevError e | Inr _ \<Rightarrow> DevDone, s')) (memory_flush s)"

fun disk_call :: "nat \<Rightarrow> dev_op \<Rightarrow> bytes \<Rightarrow> dev_result \<times> bytes" where
  "disk_call bs (DevRead slba n) d =
     (if unat slba * bs + n \<le> length d then (DevData (slice (unat slba * bs) n d), d) else (DevError OutOfRange, d))"
| "disk_call bs (DevWrite slba buf) d =
     (if unat slba * bs + length buf \<le> length d then (DevDone, splice (unat slba * bs) buf d)
      else (DevError OutOfRange, d))"
| "disk_call bs (DevZero r) d =
     (if (unat (lr_slba r) + unat (lr_nlb r)) * bs \<le> length d
      then (DevDone, splice (unat (lr_slba r) * bs) (replicate (unat (lr_nlb r) * bs) 0) d)
      else (DevError OutOfRange, d))"
| "disk_call bs DevFlush d = (DevDone, d)"

text \<open>Whole blocks, of a length a \<^verbatim>\<open>u64\<close> holds.\<close>

fun dev_op_aligned :: "nat \<Rightarrow> dev_op \<Rightarrow> bool" where
  "dev_op_aligned bs (DevRead slba n) \<longleftrightarrow> bs dvd n \<and> n < 2 ^ 64"
| "dev_op_aligned bs (DevWrite slba buf) \<longleftrightarrow> bs dvd length buf \<and> length buf < 2 ^ 64"
| "dev_op_aligned bs _ \<longleftrightarrow> True"

fun memory_calls :: "dev_op list \<Rightarrow> memory_backend \<Rightarrow> (dev_result list \<times> memory_backend) option" where
  "memory_calls [] s = Some ([], s)"
| "memory_calls (c # cs) s =
     (case memory_call c s of None \<Rightarrow> None
      | Some (r, s') \<Rightarrow> map_option (\<lambda>(rs, t). (r # rs, t)) (memory_calls cs s'))"

fun disk_calls :: "nat \<Rightarrow> dev_op list \<Rightarrow> bytes \<Rightarrow> dev_result list \<times> bytes" where
  "disk_calls bs [] d = ([], d)"
| "disk_calls bs (c # cs) d =
     (case disk_call bs c d of (r, d') \<Rightarrow> case disk_calls bs cs d' of (rs, e) \<Rightarrow> (r # rs, e))"

lemma in_range_bytes: "length (memory_disk s) = unat nr * 2 ^ sh \<Longrightarrow>
    (a * 2 ^ sh + n * 2 ^ sh \<le> length (memory_disk s)) = (a + n \<le> unat nr)"
  by (simp add: add_mult_distrib [symmetric])

lemma memory_call_refines:
  assumes ok: "memory_ok s" and al: "dev_op_aligned (2 ^ unat (mb_block_shift s)) c"
  shows "\<exists>r s'. memory_call c s = Some (r, s') \<and> memory_ok s' \<and> mb_block_shift s' = mb_block_shift s \<and>
    disk_call (2 ^ unat (mb_block_shift s)) c (memory_disk s) = (r, memory_disk s')"
proof -
  let ?sh = "unat (mb_block_shift s)"
  have dl: "length (memory_disk s) = unat (mb_nr_blocks s) * 2 ^ ?sh"
    using mem.disk_length [OF ok] by (simp add: memory_ops_def)
  note range = in_range_bytes [OF dl]
  show ?thesis
  proof (cases c)
    case (DevRead slba n)
    obtain k where n: "n = k * 2 ^ ?sh" using al DevRead by (metis dev_op_aligned.simps(1) dvd_def mult.commute)
    have "memory_read slba (replicate n 0) s = Some (Inl OutOfRange, replicate n 0)" if "unat (mb_nr_blocks s) < unat slba + k"
      using mem.read_range [OF ok, of "replicate n 0" k slba] that n al DevRead by (simp add: memory_ops_def)
    then show ?thesis
      using DevRead ok n memory_read_ok [OF ok, of "replicate n 0" k slba] range
      by (cases "unat slba + k \<le> unat (mb_nr_blocks s)") simp_all
  next
    case (DevWrite slba buf)
    obtain k where n: "length buf = k * 2 ^ ?sh" using al DevWrite by (metis dev_op_aligned.simps(2) dvd_def mult.commute)
    have "memory_write slba buf s = Some (Inl OutOfRange, s)" if "unat (mb_nr_blocks s) < unat slba + k"
      using mem.write_range [OF ok, of buf k slba] that n al DevWrite by (simp add: memory_ops_def)
    then show ?thesis
      using DevWrite ok n memory_write_ok [OF ok n, of slba] range
      by (cases "unat slba + k \<le> unat (mb_nr_blocks s)") auto
  next
    case (DevZero r)
    have "unat (ucast (lr_nlb r) :: u64) = unat (lr_nlb r)"
      using unsigned_less [of "lr_nlb r", where 'a = nat] by (simp add: unsigned_ucast_eq take_bit_nat_eq_self)
    then show ?thesis
      using DevZero ok memory_zeroes_ok [OF ok, of r] range [of "unat (lr_slba r)" "unat (lr_nlb r)"]
      by (cases "unat (lr_slba r) + unat (lr_nlb r) \<le> unat (mb_nr_blocks s)")
        (auto simp: add_mult_distrib memory_write_zeroes_def check_range_iff)
  next
    case DevFlush
    then show ?thesis using ok by (simp add: memory_flush_def)
  qed
qed

lemma memory_calls_refine:
  "memory_ok s \<Longrightarrow> bs = 2 ^ unat (mb_block_shift s) \<Longrightarrow> list_all (dev_op_aligned bs) cs \<Longrightarrow>
    \<exists>rs s'. memory_calls cs s = Some (rs, s') \<and> memory_ok s' \<and> disk_calls bs cs (memory_disk s) = (rs, memory_disk s')"
proof (induction cs arbitrary: s)
  case (Cons c cs)
  obtain r s1 where s1: "memory_call c s = Some (r, s1)" "memory_ok s1" "mb_block_shift s1 = mb_block_shift s"
    "disk_call bs c (memory_disk s) = (r, memory_disk s1)"
    using memory_call_refines [OF Cons.prems(1), of c] Cons.prems(2,3) by auto
  obtain rs s2 where "memory_calls cs s1 = Some (rs, s2)" "memory_ok s2" "disk_calls bs cs (memory_disk s1) = (rs, memory_disk s2)"
    using Cons.IH [OF s1(2)] Cons.prems(2,3) s1(3) by auto
  then show ?case using s1 by simp
qed simp

lemma flat_fresh: "flat (replicate n None) = replicate (n * CHUNK_SIZE) 0"
  by (induction n) (simp_all add: flat_def chunk_bytes_def replicate_add [symmetric])

lemma memory_new_ok:
  assumes "unat shift < 32"
  shows "memory_ok (memory_backend_new size_bytes shift)"
    "memory_disk (memory_backend_new size_bytes shift) =
      replicate (unat size_bytes div 2 ^ unat shift * 2 ^ unat shift) 0"
proof -
  let ?nr = "drop_bit (unat shift) size_bytes"
  have nr: "unat ?nr = unat size_bytes div 2 ^ unat shift"
    unfolding unat_drop_bit_eq by (simp add: drop_bit_eq_div)
  have b: "dev_bytes shift ?nr = unat size_bytes div 2 ^ unat shift * 2 ^ unat shift" by (simp add: dev_bytes_def nr)
  also have "\<dots> \<le> unat size_bytes" by simp
  finally have lt: "dev_bytes shift ?nr < 2 ^ 64" using unsigned_less [of size_bytes, where 'a = nat] by simp
  have pb: "unat (push_bit (unat shift) ?nr) = dev_bytes shift ?nr"
    using dev_offset [OF lt order_refl] by (simp add: dev_bytes_def)
  let ?n = "(dev_bytes shift ?nr + CHUNK_SIZE - 1) div CHUNK_SIZE"
  have cover: "dev_bytes shift ?nr \<le> ?n * CHUNK_SIZE"
    using div_mult_mod_eq [of "dev_bytes shift ?nr + CHUNK_SIZE - 1" CHUNK_SIZE]
      mod_less_divisor [OF CHUNK_SIZE_pos, of "dev_bytes shift ?nr + CHUNK_SIZE - 1"] by linarith
  then show "memory_ok (memory_backend_new size_bytes shift)"
    using assms lt pb by (simp add: memory_ok_def memory_backend_new_def Let_def chunks_ok_def)
  show "memory_disk (memory_backend_new size_bytes shift) =
      replicate (unat size_bytes div 2 ^ unat shift * 2 ^ unat shift) 0"
    using cover pb b by (simp add: memory_disk_def memory_backend_new_def Let_def flat_fresh min_absorb1)
qed

section \<open>Properties\<close>

text \<open>C27. A RAM namespace is a flat zero-filled disk: any sequence of block-aligned reads, writes,
  write-zeroes and flushes on a new store runs without panic and gives the results, errors included,
  that the same sequence gives on one string of bytes.\<close>

theorem memory_refines_disk:
  assumes "unat shift < 32" "bs = 2 ^ unat shift" "list_all (dev_op_aligned bs) cs"
  shows "\<exists>rs s'. memory_calls cs (memory_backend_new size_bytes shift) = Some (rs, s') \<and>
    disk_calls bs cs (replicate (unat size_bytes div bs * bs) 0) = (rs, memory_disk s')"
proof -
  have "mb_block_shift (memory_backend_new size_bytes shift) = shift" by (simp add: memory_backend_new_def Let_def)
  then show ?thesis
    using memory_calls_refine [OF memory_new_ok(1) [OF assms(1), of size_bytes], of bs cs] assms
      memory_new_ok(2) [OF assms(1), of size_bytes] by auto
qed

theorem memory_refines_disk_witness:
  "\<exists>s'. memory_calls [DevWrite 1 (replicate 512 7), DevRead 1 1024, DevZero \<lparr>lr_slba = 1, lr_nlb = 1\<rparr>, DevRead 1 512, DevRead 4 512]
      (memory_backend_new 2048 9) =
    Some ([DevDone, DevData (replicate 512 7 @ replicate 512 0), DevDone, DevData (replicate 512 0), DevError OutOfRange], s')"
proof -
  let ?cs = "[DevWrite 1 (replicate 512 7), DevRead 1 1024, DevZero \<lparr>lr_slba = 1, lr_nlb = 1\<rparr>, DevRead 1 512, DevRead 4 512]"
  have "disk_calls 512 ?cs (replicate 2048 0) =
      ([DevDone, DevData (replicate 512 7 @ replicate 512 0), DevDone, DevData (replicate 512 0), DevError OutOfRange],
       replicate 512 0 @ replicate 512 0 @ replicate 1024 0)"
    by (simp add: splice_def slice_def)
  then show ?thesis
    using memory_refines_disk [of 9 512 ?cs 2048] by auto
qed

text \<open>C26. What a scattered write stores, a scattered read returns: after a write from one list of
  segments, reading the same blocks into another list of disjoint segments yields the same bytes in
  logical order, whatever the two lists' shapes, and memory outside the target segments is kept.\<close>

theorem memory_segs_write_read:
  assumes "memory_ok s" "bs = 2 ^ unat (mb_block_shift s)" "len = k * bs"
    "segs_aligned bs segs" "len \<le> sum_list (map seg_len segs)"
    "segs_aligned bs tgt" "len \<le> sum_list (map seg_len tgt)" "segs_disjoint tgt"
    "unat slba + k \<le> unat (mb_nr_blocks s)"
  shows "\<exists>s' m'. be_write_segs memory_ops slba segs len i m s = Some (Inr (), s') \<and> memory_ok s' \<and>
    be_read_segs memory_ops slba tgt len j s' m = Some (Inr (), m') \<and>
    take len (segs_bytes m' tgt) = take len (segs_bytes m segs) \<and>
    (\<forall>x. x \<notin> (\<Union>g \<in> set tgt. seg_addrs g) \<longrightarrow> m' x = m x)"
proof -
  have sh: "block_shift memory_ops s = mb_block_shift s" "nr_blocks memory_ops s = mb_nr_blocks s"
    by (simp_all add: memory_ops_def)
  obtain s' where s': "be_write_segs memory_ops slba segs len i m s = Some (Inr (), s')" "memory_ok s'"
    "memory_disk s' = splice (unat slba * bs) (take len (segs_bytes m segs)) (memory_disk s)"
    "block_shift memory_ops s' = mb_block_shift s" "nr_blocks memory_ops s' = mb_nr_blocks s"
    using mem.write_segs_spec [OF assms(1), of bs segs len k slba m] assms sh mem.write_segs_default [OF assms(1)] by auto
  obtain m' where m': "be_read_segs memory_ops slba tgt len j s' m = Some (Inr (), m')"
    "segs_bytes m' tgt = splice 0 (slice (unat slba * bs) len (memory_disk s')) (segs_bytes m tgt)"
    "\<forall>x. x \<notin> (\<Union>g \<in> set tgt. seg_addrs g) \<longrightarrow> m' x = m x"
    using mem.read_segs_spec [OF s'(2), of bs tgt len k slba m] assms s'(4,5) mem.read_segs_default [OF s'(2)] by auto
  have "unat slba * bs + len \<le> length (memory_disk s)"
    using mult_le_mono1 [OF assms(9), of bs] mem.disk_length [OF assms(1)] sh assms(2,3) by (simp add: add_mult_distrib)
  then have "slice (unat slba * bs) len (memory_disk s') = take len (segs_bytes m segs)"
    using s'(3) assms(5) by (simp add: splice_def slice_def min_absorb1 min_absorb2)
  then have "take len (segs_bytes m' tgt) = take len (segs_bytes m segs)"
    using m'(2) assms(5) by (simp add: splice_def)
  then show ?thesis using s' m' by blast
qed

theorem memory_segs_write_read_witness:
  "\<exists>s' m'. be_write_segs memory_ops 1 [\<lparr>seg_ptr = 0, seg_len = 1024\<rparr>] 1024 None (\<lambda>a. of_nat a) (memory_backend_new 2048 9) = Some (Inr (), s') \<and>
    be_read_segs memory_ops 1 [\<lparr>seg_ptr = 8192, seg_len = 512\<rparr>, \<lparr>seg_ptr = 4096, seg_len = 512\<rparr>] 1024 None s' (\<lambda>a. of_nat a) = Some (Inr (), m') \<and>
    mem_read m' 8192 512 @ mem_read m' 4096 512 = mem_read (\<lambda>a. of_nat a) 0 1024"
proof -
  have n: "mb_nr_blocks (memory_backend_new 2048 9) = 4" "mb_block_shift (memory_backend_new 2048 9) = 9"
    by (simp_all add: memory_backend_new_def Let_def)
  have "memory_ok (memory_backend_new 2048 9)" by (rule memory_new_ok) simp
  then show ?thesis
    using memory_segs_write_read [of "memory_backend_new 2048 9" 512 1024 2 "[\<lparr>seg_ptr = 0, seg_len = 1024\<rparr>]"
      "[\<lparr>seg_ptr = 8192, seg_len = 512\<rparr>, \<lparr>seg_ptr = 4096, seg_len = 512\<rparr>]" 1 None "\<lambda>a. of_nat a" None]
    by (auto simp: n seg_addrs_def)
qed

end
