(* ===== verification/Dispatch.thy ===== *)
theory Dispatch
  imports Registers Queue_Core Registry Subsystem Memory_Backend "HOL-Library.Monad_Syntax"
begin

text \<open>
  The per-connection context of command execution (\<^verbatim>\<open>crates/ioutgt-nvme/src/dispatch.rs\<close>): the
  state of an admin queue and of an I/O queue, completions, the keep-alive watchdog, namespace-change
  notices and teardown. The router \<^verbatim>\<open>execute\<close> is in the theory of the whole command path.

  A handler is a function on the \<open>world\<close> one connection sees: its own context, the registry and the
  port it shares with other connections, the stores behind the backends and memory. An
  \<^verbatim>\<open>Arc<Subsystem>\<close> is the key under which the port holds the subsystem, a traffic flag is an index
  into the registry's flags, a backend is an index into the stores, an instant is a number of
  milliseconds. The wakers a step wakes and the receive-ring buffers it releases are appended to two
  logs. A panic is \<^const>\<open>None\<close>.
\<close>

section \<open>Keep-alive intervals\<close>

abbreviation (input) KEEPALIVE_TICK_MIN :: nat where "KEEPALIVE_TICK_MIN \<equiv> 250"
abbreviation (input) KEEPALIVE_TICK_MAX :: nat where "KEEPALIVE_TICK_MAX \<equiv> 5000"
abbreviation (input) ADMIN_DATA_MAX :: nat where "ADMIN_DATA_MAX \<equiv> 8 * 1024"
abbreviation (input) RDMA_INLINE_DATA_SIZE :: u32 where "RDMA_INLINE_DATA_SIZE \<equiv> 4096"
abbreviation (input) INLINE_DATA_SIZE :: u32 where "INLINE_DATA_SIZE \<equiv> 16 * 1024"
abbreviation (input) AEN_CFG_NS_ATTR :: u32 where "AEN_CFG_NS_ATTR \<equiv> 0x100"
abbreviation (input) NS_ATTR_NOTICE :: u32 where "NS_ATTR_NOTICE \<equiv> 0x00040002"

definition keepalive_tick :: "u32 \<Rightarrow> nat" where
  "keepalive_tick kato_ms =
     (if kato_ms = 0 then KEEPALIVE_TICK_MAX
      else min (max (unat (kato_ms div 2)) KEEPALIVE_TICK_MIN) KEEPALIVE_TICK_MAX)"

section \<open>Connection context\<close>

record admin_state =
  regs :: register_state
  ad_cntlid :: u16
  ad_subsys :: "string option"
  ad_discovery :: bool
  ad_kato_ms :: u32
  last_heard :: nat
  ad_traffic :: "nat option"
  events :: "u32 list"
  aer_wakers :: "nat list"
  aec :: u32
  ns_changed :: bool
  closing :: bool

record io_state =
  io_cntlid :: u16
  io_subsys :: "string option"
  io_ns_cache :: "nat ns_cache"
  io_traffic :: "nat option"
  io_kato_ms :: u32

datatype role = Admin admin_state | Io io_state

record conn_ctx =
  cx_queue :: "sqe queue_core"
  cx_connect_data :: connect_data
  cx_peer :: string
  cx_role :: role

record 's world =
  w_ctx :: conn_ctx
  w_registry :: registry
  w_port :: "nat port_config"
  w_stores :: "nat \<Rightarrow> 's"
  w_mem :: memory
  w_woken :: "nat list"
  w_released :: "u16 list"

definition new_admin :: "nat \<Rightarrow> sqe queue_core \<Rightarrow> connect_data \<Rightarrow> string \<Rightarrow> conn_ctx option" where
  "new_admin now q data peer = do {
     r \<leftarrow> register_state_new MAX_QUEUE_ENTRIES;
     Some \<lparr>cx_queue = q, cx_connect_data = data, cx_peer = peer,
       cx_role = Admin \<lparr>regs = r, ad_cntlid = 0, ad_subsys = None, ad_discovery = False, ad_kato_ms = 0,
         last_heard = now, ad_traffic = None, events = [], aer_wakers = [], aec = AEN_CFG_NS_ATTR,
         ns_changed = False, closing = False\<rparr>\<rparr>}"

definition new_io :: "sqe queue_core \<Rightarrow> connect_data \<Rightarrow> string \<Rightarrow> conn_ctx" where
  "new_io q data peer =
     \<lparr>cx_queue = q, cx_connect_data = data, cx_peer = peer,
      cx_role = Io \<lparr>io_cntlid = 0, io_subsys = None, io_ns_cache = ns_cache_default,
        io_traffic = None, io_kato_ms = 0\<rparr>\<rparr>"

definition ctx_admin :: "conn_ctx \<Rightarrow> admin_state option" where
  "ctx_admin c = (case cx_role c of Admin a \<Rightarrow> Some a | Io _ \<Rightarrow> None)"

text \<open>Updates of one part of the world.\<close>

definition upd_queue :: "(sqe queue_core \<Rightarrow> sqe queue_core) \<Rightarrow> 's world \<Rightarrow> 's world" where
  "upd_queue f w = w\<lparr>w_ctx := (w_ctx w)\<lparr>cx_queue := f (cx_queue (w_ctx w))\<rparr>\<rparr>"

definition upd_stats :: "(queue_stats \<Rightarrow> queue_stats) \<Rightarrow> 's world \<Rightarrow> 's world" where
  "upd_stats f = upd_queue (\<lambda>q. q\<lparr>stats := f (stats q)\<rparr>)"

definition set_role :: "role \<Rightarrow> 's world \<Rightarrow> 's world" where
  "set_role r w = w\<lparr>w_ctx := (w_ctx w)\<lparr>cx_role := r\<rparr>\<rparr>"

definition wake_all :: "nat list \<Rightarrow> 's world \<Rightarrow> 's world" where
  "wake_all ws w = w\<lparr>w_woken := w_woken w @ ws\<rparr>"

text \<open>Replaces the slot array after an operation that wakes \<open>ws\<close> and releases the ring buffers \<open>bids\<close>.\<close>

definition put_slots :: "sqe slot_array \<Rightarrow> nat list \<Rightarrow> u16 list \<Rightarrow> 's world \<Rightarrow> 's world" where
  "put_slots a ws bids w =
     (let w = upd_queue (\<lambda>q. q\<lparr>qslots := a\<rparr>) w in
      w\<lparr>w_woken := w_woken w @ ws, w_released := w_released w @ bids\<rparr>)"

abbreviation w_queue :: "'s world \<Rightarrow> sqe queue_core" where "w_queue w \<equiv> cx_queue (w_ctx w)"
abbreviation w_slots :: "'s world \<Rightarrow> sqe slot_array" where "w_slots w \<equiv> qslots (cx_queue (w_ctx w))"
abbreviation w_role :: "'s world \<Rightarrow> role" where "w_role w \<equiv> cx_role (w_ctx w)"

section \<open>Completions\<close>

definition ctx_cqe :: "u32 \<Rightarrow> u16 \<Rightarrow> u16 \<Rightarrow> 's world \<Rightarrow> (cqe \<times> 's world) option" where
  "ctx_cqe result cmdid status_code w = do {
     (h, q) \<leftarrow> advance_sqhd (w_queue w);
     Some (cqe_new result h (qid q) cmdid status_code, upd_queue (\<lambda>_. q) w)}"

record outcome =
  oc_cqe :: cqe
  oc_data_len :: u32

definition outcome_status :: "cqe \<Rightarrow> outcome" where
  "outcome_status c = \<lparr>oc_cqe = c, oc_data_len = 0\<rparr>"

definition outcome_with_data :: "cqe \<Rightarrow> u32 \<Rightarrow> outcome" where
  "outcome_with_data c n = \<lparr>oc_cqe = c, oc_data_len = n\<rparr>"

text \<open>The expressions \<^verbatim>\<open>Outcome::status(ctx.cqe(..))\<close> and \<^verbatim>\<open>Outcome::with_data(ctx.cqe(..), n)\<close>.\<close>

definition reply :: "u32 \<Rightarrow> u16 \<Rightarrow> u16 \<Rightarrow> 's world \<Rightarrow> (outcome \<times> 's world) option" where
  "reply result cmdid code w = do { (c, w) \<leftarrow> ctx_cqe result cmdid code w; Some (outcome_status c, w) }"

definition reply_data :: "u16 \<Rightarrow> u32 \<Rightarrow> 's world \<Rightarrow> (outcome \<times> 's world) option" where
  "reply_data cmdid n w = do { (c, w) \<leftarrow> ctx_cqe 0 cmdid SUCCESS w; Some (outcome_with_data c n, w) }"

section \<open>Keep-alive, notices and teardown\<close>

definition as_u64 :: "nat \<Rightarrow> u64" where
  "as_u64 n = (if n < 2 ^ 64 then of_nat n else - 1)"

definition keepalive_expired ::
  "nat \<Rightarrow> admin_state \<Rightarrow> registry \<Rightarrow> (u64 option \<times> admin_state \<times> registry) option" where
  "keepalive_expired now a r =
     (let kato = ucast (ad_kato_ms a) :: u64 in
      if kato = 0 then Some (None, a, r)
      else
        let (heard, r) = (case ad_traffic a of None \<Rightarrow> (False, r) | Some i \<Rightarrow> traffic_take i r) in
        if heard then Some (None, a\<lparr>last_heard := now\<rparr>, r)
        else
          let silent = as_u64 (now - last_heard a);
              grace = of_nat (keepalive_tick (ad_kato_ms a)) :: u64 in do {
            d \<leftarrow> checked_mul kato 2;
            limit \<leftarrow> checked_add d grace;
            Some (if limit < silent then Some silent else None, a, r)})"

definition ctx_close :: "'s world \<Rightarrow> 's world" where
  "ctx_close w = (case w_role w of
     Admin a \<Rightarrow> wake_all (aer_wakers a) (set_role (Admin (a\<lparr>closing := True, aer_wakers := []\<rparr>)) w)
   | Io i \<Rightarrow> (case io_traffic i of
        None \<Rightarrow> w
      | Some f \<Rightarrow> w\<lparr>w_registry := traffic_set f (w_registry w)\<rparr>))"

definition fire_ns_changed :: "'s world \<Rightarrow> 's world" where
  "fire_ns_changed w = (case w_role w of
     Io _ \<Rightarrow> w
   | Admin a \<Rightarrow>
       let a = a\<lparr>ns_changed := True\<rparr> in
       if aec a AND AEN_CFG_NS_ATTR = 0 then set_role (Admin a) w
       else
         let a = (if NS_ATTR_NOTICE \<in> set (events a) then a else a\<lparr>events := events a @ [NS_ATTR_NOTICE]\<rparr>) in
         wake_all (aer_wakers a) (set_role (Admin (a\<lparr>aer_wakers := []\<rparr>)) w))"

section \<open>What every step keeps\<close>

definition queue_ok :: "'c queue_core \<Rightarrow> bool" where
  "queue_ok q \<longleftrightarrow> sqhd_disabled q \<or> sqhd q < sqsize q"

text \<open>
  \<open>world_ok ok R i tag w\<close>: the submission-queue head is in range, the slots and their pool are
  consistent (\<open>R\<close> are the pages reserved for sending), every buffer is made of whole pages or one
  segment, every store satisfies its backend's invariant \<open>ok\<close>, the queue is number \<open>i\<close>, and \<open>tag\<close> is
  a slot in use.
\<close>

definition world_ok :: "('s \<Rightarrow> bool) \<Rightarrow> nat set \<Rightarrow> u16 \<Rightarrow> u16 \<Rightarrow> 's world \<Rightarrow> bool" where
  "world_ok ok R i tag w \<longleftrightarrow> queue_ok (w_queue w) \<and> slots_inv R (w_slots w) \<and>
     (\<forall>s \<in> set (slots (w_slots w)). buf_shape (slot_data s)) \<and> (\<forall>b. ok (w_stores w b)) \<and>
     qid (w_queue w) = i \<and> (\<exists>s. slot_of (w_slots w) tag = Some s \<and> slot_state s \<noteq> Free)"

text \<open>The answer to command \<open>c\<close>: its completion names the command and the queue, and the data it
  announces is within the buffer of the slot.\<close>

definition answer_ok :: "u16 \<Rightarrow> u16 \<Rightarrow> u16 \<Rightarrow> outcome \<Rightarrow> 's world \<Rightarrow> bool" where
  "answer_ok i tag c out w \<longleftrightarrow> cqe_cid (oc_cqe out) = c \<and> sq_id (oc_cqe out) = i \<and>
     (\<exists>s. slot_of (w_slots w) tag = Some s \<and> unat (oc_data_len out) \<le> sd_len (slot_data s))"

definition answers :: "('s \<Rightarrow> bool) \<Rightarrow> nat set \<Rightarrow> u16 \<Rightarrow> u16 \<Rightarrow> u16 \<Rightarrow> (outcome \<times> 's world) option \<Rightarrow> bool" where
  "answers ok R i tag c r \<longleftrightarrow> (\<exists>out w'. r = Some (out, w') \<and> world_ok ok R i tag w' \<and> answer_ok i tag c out w')"

text \<open>Block sizes are in the range of a shift of \<^verbatim>\<open>u64\<close>.\<close>

definition shifts_ok :: "'s backend \<Rightarrow> ('s \<Rightarrow> bool) \<Rightarrow> bool" where
  "shifts_ok ops ok \<longleftrightarrow> (\<forall>s. ok s \<longrightarrow> unat (block_shift ops s) < 64)"

named_theorems world \<open>projections of updated worlds\<close>

lemma upd_queue_sel [world]:
  "w_queue (upd_queue f w) = f (w_queue w)" "w_role (upd_queue f w) = w_role w"
  "w_registry (upd_queue f w) = w_registry w" "w_port (upd_queue f w) = w_port w"
  "w_stores (upd_queue f w) = w_stores w" "w_mem (upd_queue f w) = w_mem w"
  "cx_connect_data (w_ctx (upd_queue f w)) = cx_connect_data (w_ctx w)" "cx_peer (w_ctx (upd_queue f w)) = cx_peer (w_ctx w)"
  "w_woken (upd_queue f w) = w_woken w" "w_released (upd_queue f w) = w_released w"
  by (simp_all add: upd_queue_def)

lemma upd_stats_sel [world]:
  "w_queue (upd_stats f w) = (w_queue w)\<lparr>stats := f (stats (w_queue w))\<rparr>" "w_role (upd_stats f w) = w_role w"
  "w_registry (upd_stats f w) = w_registry w" "w_port (upd_stats f w) = w_port w"
  "w_stores (upd_stats f w) = w_stores w" "w_mem (upd_stats f w) = w_mem w"
  "cx_connect_data (w_ctx (upd_stats f w)) = cx_connect_data (w_ctx w)" "cx_peer (w_ctx (upd_stats f w)) = cx_peer (w_ctx w)"
  "w_woken (upd_stats f w) = w_woken w" "w_released (upd_stats f w) = w_released w"
  by (simp_all add: upd_stats_def upd_queue_def)

lemma set_role_sel [world]:
  "w_queue (set_role r w) = w_queue w" "w_role (set_role r w) = r"
  "w_registry (set_role r w) = w_registry w" "w_port (set_role r w) = w_port w"
  "w_stores (set_role r w) = w_stores w" "w_mem (set_role r w) = w_mem w"
  "cx_connect_data (w_ctx (set_role r w)) = cx_connect_data (w_ctx w)" "cx_peer (w_ctx (set_role r w)) = cx_peer (w_ctx w)"
  "w_woken (set_role r w) = w_woken w" "w_released (set_role r w) = w_released w"
  by (simp_all add: set_role_def)

lemma put_slots_sel [world]:
  "w_queue (put_slots a ws bids w) = (w_queue w)\<lparr>qslots := a\<rparr>" "w_role (put_slots a ws bids w) = w_role w"
  "w_registry (put_slots a ws bids w) = w_registry w" "w_port (put_slots a ws bids w) = w_port w"
  "w_stores (put_slots a ws bids w) = w_stores w" "w_mem (put_slots a ws bids w) = w_mem w"
  by (simp_all add: put_slots_def upd_queue_def Let_def)

lemma wake_all_sel [world]:
  "w_ctx (wake_all ws w) = w_ctx w" "w_registry (wake_all ws w) = w_registry w" "w_port (wake_all ws w) = w_port w"
  "w_stores (wake_all ws w) = w_stores w" "w_mem (wake_all ws w) = w_mem w" "w_woken (wake_all ws w) = w_woken w @ ws"
  by (simp_all add: wake_all_def)

lemma world_ok_upd [simp]:
  "world_ok ok R i tag (set_role r w) = world_ok ok R i tag w"
  "world_ok ok R i tag (upd_stats f w) = world_ok ok R i tag w"
  "world_ok ok R i tag (w\<lparr>w_registry := g\<rparr>) = world_ok ok R i tag w"
  "world_ok ok R i tag (w\<lparr>w_mem := m\<rparr>) = world_ok ok R i tag w"
  "world_ok ok R i tag (wake_all ws w) = world_ok ok R i tag w"
  by (simp_all add: world_ok_def queue_ok_def world)

lemma ctx_cqe_ok:
  assumes "queue_ok (w_queue w)"
  obtains h h' where "ctx_cqe r c code w = Some (cqe_new r h (qid (w_queue w)) c code, upd_queue (\<lambda>q. q\<lparr>sqhd := h'\<rparr>) w)"
    "queue_ok ((w_queue w)\<lparr>sqhd := h'\<rparr>)"
proof (cases "sqhd_disabled (w_queue w)")
  case True
  then show thesis
    using that [of 0 "sqhd (w_queue w)"] by (simp add: ctx_cqe_def advance_sqhd_def upd_queue_def queue_ok_def)
next
  case False
  then obtain h where "advance_sqhd (w_queue w) = Some (h, (w_queue w)\<lparr>sqhd := h\<rparr>)" "h < sqsize (w_queue w)"
    using advance_sqhd_step [of "w_queue w"] assms by (auto simp: queue_ok_def)
  then show thesis using that [of h h] by (simp add: ctx_cqe_def upd_queue_def queue_ok_def)
qed

lemma world_ok_sqhd: "world_ok ok R i tag w \<Longrightarrow> queue_ok ((w_queue w)\<lparr>sqhd := h\<rparr>) \<Longrightarrow>
    world_ok ok R i tag (upd_queue (\<lambda>q. q\<lparr>sqhd := h\<rparr>) w)"
  by (simp add: world_ok_def world)

lemma reply_answers:
  assumes "world_ok ok R i tag w"
  shows "answers ok R i tag c (reply r c code w)"
proof -
  have q: "queue_ok (w_queue w)" "qid (w_queue w) = i" "\<exists>s. slot_of (w_slots w) tag = Some s"
    using assms by (auto simp: world_ok_def)
  obtain h h' where "ctx_cqe r c code w = Some (cqe_new r h (qid (w_queue w)) c code, upd_queue (\<lambda>q. q\<lparr>sqhd := h'\<rparr>) w)"
    "queue_ok ((w_queue w)\<lparr>sqhd := h'\<rparr>)" by (rule ctx_cqe_ok [OF q(1)])
  then show ?thesis
    using world_ok_sqhd [OF assms] q
    by (auto simp: answers_def reply_def answer_ok_def outcome_status_def cqe_new_def world)
qed

lemma reply_data_answers:
  assumes "world_ok ok R i tag w" "slot_of (w_slots w) tag = Some s" "unat n \<le> sd_len (slot_data s)"
  shows "answers ok R i tag c (reply_data c n w)"
proof -
  have q: "queue_ok (w_queue w)" "qid (w_queue w) = i" using assms by (auto simp: world_ok_def)
  obtain h h' where "ctx_cqe 0 c SUCCESS w = Some (cqe_new 0 h (qid (w_queue w)) c SUCCESS, upd_queue (\<lambda>q. q\<lparr>sqhd := h'\<rparr>) w)"
    "queue_ok ((w_queue w)\<lparr>sqhd := h'\<rparr>)" by (rule ctx_cqe_ok [OF q(1)])
  then show ?thesis
    using world_ok_sqhd [OF assms(1)] q assms(2,3)
    by (auto simp: answers_def reply_data_def answer_ok_def outcome_with_data_def cqe_new_def world)
qed

lemma world_ok_put_slots:
  assumes "world_ok ok R i tag w" "slots_inv R a" "slot_of (w_slots w) tag = Some s"
    "slots a = (slots (w_slots w))[unat tag := s']" "slot_state s' \<noteq> Free" "buf_shape (slot_data s')"
  shows "world_ok ok R i tag (put_slots a ws bids w)"
proof -
  have "\<forall>t \<in> set (slots a). buf_shape (slot_data t)"
    using assms(1,4,6) set_update_subset_insert [of "slots (w_slots w)" "unat tag" s'] unfolding world_ok_def by auto
  moreover have "slot_of a tag = Some s'" using assms(3,4) by (simp add: slot_of_Some)
  ultimately show ?thesis using assms(1,2,5) by (simp add: world_ok_def world queue_ok_def)
qed

end
