(* ===== verification/Fabrics_Exec.thy ===== *)
theory Fabrics_Exec
  imports Dispatch
begin

text \<open>
  Fabrics commands (\<^verbatim>\<open>crates/ioutgt-nvme/src/fabrics_exec.rs\<close>): Connect on an admin and on an I/O
  queue, Property Get and Property Set. The identity of the serving thread, which the code asks the
  operating system for, is an argument. Log lines have no effect and are left out.
\<close>

section \<open>NQN fields\<close>

text \<open>\<^verbatim>\<open>std::str::from_utf8\<close> accepts exactly well-formed UTF-8.\<close>

definition in_range :: "nat \<Rightarrow> nat \<Rightarrow> u8 \<Rightarrow> bool" where
  "in_range lo hi b \<longleftrightarrow> lo \<le> unat b \<and> unat b \<le> hi"

abbreviation (input) cont_byte :: "u8 \<Rightarrow> bool" where "cont_byte \<equiv> in_range 0x80 0xBF"

fun utf8_valid :: "bytes \<Rightarrow> bool" where
  "utf8_valid [] = True"
| "utf8_valid (a # bs) =
     (if unat a < 0x80 then utf8_valid bs
      else case bs of
        [] \<Rightarrow> False
      | b # cs \<Rightarrow>
          if in_range 0xC2 0xDF a then cont_byte b \<and> utf8_valid cs
          else case cs of
            [] \<Rightarrow> False
          | c # ds \<Rightarrow>
              if in_range 0xE0 0xEF a then
                in_range (if a = 0xE0 then 0xA0 else 0x80) (if a = 0xED then 0x9F else 0xBF) b \<and>
                cont_byte c \<and> utf8_valid ds
              else case ds of
                [] \<Rightarrow> False
              | d # es \<Rightarrow>
                  in_range 0xF0 0xF4 a \<and>
                  in_range (if a = 0xF0 then 0x90 else 0x80) (if a = 0xF4 then 0x8F else 0xBF) b \<and>
                  cont_byte c \<and> cont_byte d \<and> utf8_valid es)"

text \<open>\<^verbatim>\<open>str::trim_end\<close> drops trailing characters with the Unicode property White\_Space; the list is
  reversed, so that their last byte comes first.\<close>

definition ascii_space :: "u8 \<Rightarrow> bool" where
  "ascii_space b \<longleftrightarrow> in_range 9 13 b \<or> b = 32"

definition wide_space :: "u8 \<Rightarrow> u8 \<Rightarrow> u8 \<Rightarrow> bool" where
  "wide_space a b c \<longleftrightarrow>
     a = 0xE1 \<and> b = 0x9A \<and> c = 0x80 \<or>
     a = 0xE2 \<and> b = 0x80 \<and> (in_range 0x80 0x8A c \<or> c = 0xA8 \<or> c = 0xA9 \<or> c = 0xAF) \<or>
     a = 0xE2 \<and> b = 0x81 \<and> c = 0x9F \<or>
     a = 0xE3 \<and> b = 0x80 \<and> c = 0x80"

fun trim_rev :: "bytes \<Rightarrow> bytes" where
  "trim_rev [] = []"
| "trim_rev (c # bs) =
     (if ascii_space c then trim_rev bs
      else case bs of
        [] \<Rightarrow> [c]
      | b # as \<Rightarrow>
          if b = 0xC2 \<and> (c = 0x85 \<or> c = 0xA0) then trim_rev as
          else case as of
            [] \<Rightarrow> [c, b]
          | a # rest \<Rightarrow> if wide_space a b c then trim_rev rest else c # b # a # rest)"

definition trim_end :: "bytes \<Rightarrow> bytes" where
  "trim_end bs = rev (trim_rev (rev bs))"

definition bytes_str :: "bytes \<Rightarrow> string" where
  "bytes_str bs = map (\<lambda>b. char_of (unat b)) bs"

definition nqn_str :: "bytes \<Rightarrow> string" where
  "nqn_str raw =
     (let s = takeWhile (\<lambda>b. b \<noteq> 0) raw in
      bytes_str (trim_end (if utf8_valid s then s else [])))"

section \<open>Connect\<close>

text \<open>The thread that executes the command: its identifier and its processors.\<close>

record thread_id =
  th_tid :: int
  th_cpus :: string

definition ctx_queue_info :: "thread_id \<Rightarrow> conn_ctx \<Rightarrow> queue_info" where
  "ctx_queue_info th c =
     \<lparr>qi_qid = qid (cx_queue c), qi_sqsize = sqsize (cx_queue c), qi_tid = th_tid th,
      qi_cpus = th_cpus th, qi_peer = cx_peer c\<rparr>"

definition set_once :: "'a \<Rightarrow> 'a option \<Rightarrow> 'a option" where
  "set_once x cell = (case cell of None \<Rightarrow> Some x | Some y \<Rightarrow> Some y)"

text \<open>Connect on an admin queue: the subsystem is resolved first, then the controller is created. A
  refusal is the result and the status of its completion.\<close>

definition resolve_subsys :: "nat port_config \<Rightarrow> string \<Rightarrow> string \<Rightarrow> admin_state \<Rightarrow> u32 \<times> u16 + admin_state" where
  "resolve_subsys port subsysnqn hostnqn admin =
     (if subsysnqn = DISCOVERY_NQN then Inr (admin\<lparr>ad_discovery := True\<rparr>)
      else case port_subsystem port subsysnqn of
        None \<Rightarrow> Inl (connect_invalid_param_result True 256, CONNECT_INVALID_PARAM OR DNR)
      | Some subsys \<Rightarrow>
          if \<not> admits subsys hostnqn then Inl (0, CONNECT_INVALID_HOST OR DNR)
          else Inr (admin\<lparr>ad_subsys := Some subsysnqn\<rparr>))"

definition create_controller ::
  "thread_id \<Rightarrow> connect_command \<Rightarrow> string \<Rightarrow> string \<Rightarrow> admin_state \<Rightarrow> 's world \<Rightarrow> (outcome \<times> 's world) option" where
  "create_controller th cmd subsysnqn hostnqn admin w =
     (let c = con_cid cmd; discovery = (subsysnqn = DISCOVERY_NQN) in
      if cd_cntlid (cx_connect_data (w_ctx w)) \<noteq> 0xFFFF then
        reply (connect_invalid_param_result True 16) c (CONNECT_INVALID_PARAM OR DNR) w
      else
        let max = (if discovery then 0 else max_qid (w_port w));
            kato = (if con_kato cmd = 0 \<and> discovery then 120000 else con_kato cmd);
            (cntlid, r) = allocate subsysnqn hostnqn max kato (ctx_queue_info th (w_ctx w)) discovery (w_registry w);
            w = w\<lparr>w_registry := r\<rparr> in
        case cntlid of
          None \<Rightarrow> reply 0 c (CONNECT_CTRL_BUSY OR DNR) w
        | Some cntlid \<Rightarrow>
            let w = upd_stats (\<lambda>s. s\<lparr>st_cntlid := cntlid\<rparr>) w;
                admin = admin\<lparr>ad_cntlid := cntlid, ad_kato_ms := kato\<rparr>;
                admin = (case registry_traffic r cntlid of
                  None \<Rightarrow> admin
                | Some traffic \<Rightarrow> admin\<lparr>ad_traffic := set_once traffic (ad_traffic admin)\<rparr>) in
            reply (ucast cntlid) c SUCCESS (set_role (Admin admin) w))"

definition connect_admin ::
  "thread_id \<Rightarrow> connect_command \<Rightarrow> admin_state \<Rightarrow> 's world \<Rightarrow> (outcome \<times> 's world) option" where
  "connect_admin th cmd admin w =
     (let data = cx_connect_data (w_ctx w);
          subsysnqn = nqn_str (cd_subsysnqn data);
          hostnqn = nqn_str (cd_hostnqn data) in
      if ad_cntlid admin \<noteq> 0 then reply 0 (con_cid cmd) (CONNECT_INVALID_PARAM OR DNR) w
      else case resolve_subsys (w_port w) subsysnqn hostnqn admin of
        Inl (result, code) \<Rightarrow> reply result (con_cid cmd) code w
      | Inr admin \<Rightarrow> create_controller th cmd subsysnqn hostnqn admin (set_role (Admin admin) w))"

definition connect_io ::
  "thread_id \<Rightarrow> connect_command \<Rightarrow> io_state \<Rightarrow> 's world \<Rightarrow> (outcome \<times> 's world) option" where
  "connect_io th cmd io w =
     (let c = con_cid cmd;
          data = cx_connect_data (w_ctx w);
          hostnqn = nqn_str (cd_hostnqn data) in
      if io_cntlid io \<noteq> 0 then reply 0 c (CONNECT_INVALID_PARAM OR DNR) w
      else
        let cntlid = cd_cntlid data;
            (res, r) = install_io_queue cntlid hostnqn (ctx_queue_info th (w_ctx w)) (w_registry w);
            w = w\<lparr>w_registry := r\<rparr> in
        case res of
          Inr entry \<Rightarrow>
            let w = upd_stats (\<lambda>s. s\<lparr>st_cntlid := cntlid\<rparr>) w;
                io = io\<lparr>io_cntlid := cntlid, io_kato_ms := ce_kato_ms entry\<rparr>;
                io = (if ce_kato_ms entry \<noteq> 0 then io\<lparr>io_traffic := set_once (ce_traffic entry) (io_traffic io)\<rparr> else io);
                io = (if \<not> ce_discovery entry \<and> port_subsystem (w_port w) (ce_subsys_nqn entry) \<noteq> None
                      then io\<lparr>io_subsys := set_once (ce_subsys_nqn entry) (io_subsys io)\<rparr> else io) in
            reply (ucast cntlid) c SUCCESS (set_role (Io io) w)
        | Inl err \<Rightarrow> reply (connect_invalid_param_result True 16) c (CONNECT_INVALID_PARAM OR DNR) w)"

definition connect :: "thread_id \<Rightarrow> sqe \<Rightarrow> 's world \<Rightarrow> (outcome \<times> 's world) option" where
  "connect th s w =
     (let cmd = connect_of_bytes (sqe_as_bytes s) in
      if con_recfmt cmd \<noteq> 0 then reply 0 (con_cid cmd) (CONNECT_FORMAT OR DNR) w
      else case w_role w of
        Admin admin \<Rightarrow> connect_admin th cmd admin w
      | Io io \<Rightarrow> connect_io th cmd io w)"

section \<open>Properties of the controller\<close>

definition property_get :: "property_command \<Rightarrow> admin_state \<Rightarrow> 's world \<Rightarrow> (outcome \<times> 's world) option" where
  "property_get cmd admin w =
     (let c = prp_cid cmd; offset = prp_offset cmd;
          value = (if offset = prop_CAP then Some (reg_cap (regs admin))
                   else if offset = prop_VS then Some 0x00010300
                   else if offset = prop_CC then Some (ucast (reg_cc (regs admin)))
                   else if offset = prop_CSTS then Some (ucast (reg_csts (regs admin)))
                   else None) in
      case value of
        None \<Rightarrow> reply 0 c (INVALID_FIELD OR DNR) w
      | Some v \<Rightarrow> do {
          (e, w) \<leftarrow> ctx_cqe 0 c SUCCESS w;
          Some (outcome_status (e\<lparr>cqe_result := ucast (v :: u64), cqe_rsvd := ucast (drop_bit 32 v)\<rparr>), w)})"

definition property_set :: "property_command \<Rightarrow> admin_state \<Rightarrow> 's world \<Rightarrow> (outcome \<times> 's world) option" where
  "property_set cmd admin w =
     (let c = prp_cid cmd; v = prp_value cmd in
      if prp_offset cmd = prop_CC then
        if ad_cntlid admin = 0 then reply 0 c (INVALID_FIELD OR DNR) w
        else
          let (effect, r) = write_cc (ucast v) (regs admin) in
          reply 0 c SUCCESS (set_role (Admin (admin\<lparr>regs := r\<rparr>)) w)
      else reply 0 c (INVALID_FIELD OR DNR) w)"

definition property :: "sqe \<Rightarrow> u8 \<Rightarrow> 's world \<Rightarrow> (outcome \<times> 's world) option" where
  "property s fct w =
     (let cmd = property_of_bytes (sqe_as_bytes s) in
      case w_role w of
        Io _ \<Rightarrow> reply 0 (prp_cid cmd) (INVALID_FIELD OR DNR) w
      | Admin admin \<Rightarrow>
          if fct = FCTYPE_PROPERTY_GET then property_get cmd admin w else property_set cmd admin w)"

definition fabrics_execute :: "thread_id \<Rightarrow> sqe \<Rightarrow> 's world \<Rightarrow> (outcome \<times> 's world) option" where
  "fabrics_execute th s w =
     (let fct = sqe_as_bytes s ! 4 in
      if fct = FCTYPE_CONNECT then connect th s w
      else if fct = FCTYPE_PROPERTY_GET \<or> fct = FCTYPE_PROPERTY_SET then property s fct w
      else reply 0 (cid s) (INVALID_OPCODE OR DNR) w)"

section \<open>Every fabrics command is answered\<close>

lemma create_controller_answers:
  assumes "world_ok ok R i tag w"
  shows "answers ok R i tag (con_cid cmd) (create_controller th cmd n h a w)"
  unfolding create_controller_def Let_def
  using assms by (simp add: reply_answers split: if_split option.split prod.split)

lemma connect_admin_answers:
  assumes "world_ok ok R i tag w"
  shows "answers ok R i tag (con_cid cmd) (connect_admin th cmd a w)"
  unfolding connect_admin_def Let_def
  using assms by (simp add: reply_answers create_controller_answers split: if_split sum.split prod.split)

lemma connect_io_answers:
  assumes "world_ok ok R i tag w"
  shows "answers ok R i tag (con_cid cmd) (connect_io th cmd io w)"
  unfolding connect_io_def Let_def
  using assms by (simp add: reply_answers split: if_split sum.split prod.split)

lemma connect_answers:
  assumes "world_ok ok R i tag w"
  shows "answers ok R i tag (con_cid (connect_of_bytes (sqe_as_bytes s))) (connect th s w)"
  unfolding connect_def Let_def
  using assms by (simp add: reply_answers connect_admin_answers connect_io_answers split: role.split)

lemma property_get_answers:
  assumes "world_ok ok R i tag w"
  shows "answers ok R i tag (prp_cid cmd) (property_get cmd a w)"
proof -
  have q: "queue_ok (w_queue w)" "qid (w_queue w) = i" "\<exists>s. slot_of (w_slots w) tag = Some s"
    using assms by (auto simp: world_ok_def)
  obtain h h' where "ctx_cqe 0 (prp_cid cmd) SUCCESS w =
      Some (cqe_new 0 h (qid (w_queue w)) (prp_cid cmd) SUCCESS, upd_queue (\<lambda>q. q\<lparr>sqhd := h'\<rparr>) w)"
    "queue_ok ((w_queue w)\<lparr>sqhd := h'\<rparr>)" by (rule ctx_cqe_ok [OF q(1)])
  then have "\<And>f. (\<And>e. cqe_cid (f e) = cqe_cid e \<and> sq_id (f e) = sq_id e) \<Longrightarrow>
      answers ok R i tag (prp_cid cmd) (do { (e, w) \<leftarrow> ctx_cqe 0 (prp_cid cmd) SUCCESS w; Some (outcome_status (f e), w) })"
    using world_ok_sqhd [OF assms] q
    by (auto simp: answers_def answer_ok_def outcome_status_def cqe_new_def world)
  then show ?thesis
    unfolding property_get_def Let_def using reply_answers [OF assms] by (auto split: option.splits)
qed

lemma property_set_answers:
  assumes "world_ok ok R i tag w"
  shows "answers ok R i tag (prp_cid cmd) (property_set cmd a w)"
  unfolding property_set_def Let_def
  using assms by (simp add: reply_answers split: prod.split)

lemma property_answers:
  assumes "world_ok ok R i tag w"
  shows "answers ok R i tag (prp_cid (property_of_bytes (sqe_as_bytes s))) (property s f w)"
  unfolding property_def Let_def
  using assms by (simp add: reply_answers property_get_answers property_set_answers split: role.split)

lemma fabrics_answers:
  assumes "world_ok ok R i tag w" "sqe_wf s"
  shows "answers ok R i tag (cid s) (fabrics_execute th s w)"
  using connect_answers [OF assms(1), of s th] property_answers [OF assms(1), of s] reply_answers [OF assms(1)]
  by (simp add: fabrics_execute_def Let_def connect_of_sqe_cid [OF assms(2)] property_of_sqe_cid [OF assms(2)])

end
