(* ===== verification/Identify.thy ===== *)
theory Identify
  imports Wire_Spec
begin

text \<open>
  The Identify data structures (\<^verbatim>\<open>crates/ioutgt-nvme/src/identify.rs\<close>) and the discovery log
  structures (\<^verbatim>\<open>fabrics.rs\<close>): one record field per field of the struct, its bytes and its zeroed
  value. An array field is a list; the \<open>_wf\<close> predicates say that it has the length of its type. The
  lemmas are the size and offset assertions the source makes at compile time.
\<close>

abbreviation (input) ONCS_DSM :: u16 where "ONCS_DSM \<equiv> 0x4"
abbreviation (input) ONCS_WRITE_ZEROES :: u16 where "ONCS_WRITE_ZEROES \<equiv> 0x8"
abbreviation (input) VWC_PRESENT :: u8 where "VWC_PRESENT \<equiv> 0x1"
abbreviation (input) CTRATT_TBKAS :: u32 where "CTRATT_TBKAS \<equiv> 0x40"
abbreviation (input) CMIC_MULTI_CTRL :: u8 where "CMIC_MULTI_CTRL \<equiv> 0x2"
abbreviation (input) NSFEAT_ATOMICS :: u8 where "NSFEAT_ATOMICS \<equiv> 0x2"
abbreviation (input) NSFEAT_OPTPERF :: u8 where "NSFEAT_OPTPERF \<equiv> 0x30"
abbreviation (input) NMIC_SHARED :: u8 where "NMIC_SHARED \<equiv> 0x1"
abbreviation (input) SGLS_BYTE_ALIGNED :: u32 where "SGLS_BYTE_ALIGNED \<equiv> 0x1"
abbreviation (input) SGLS_KEYED :: u32 where "SGLS_KEYED \<equiv> 0x4"
abbreviation (input) SGLS_SAOS :: u32 where "SGLS_SAOS \<equiv> 0x100000"
abbreviation (input) TRTYPE_RDMA :: u8 where "TRTYPE_RDMA \<equiv> 1"
abbreviation (input) TRTYPE_TCP :: u8 where "TRTYPE_TCP \<equiv> 3"
abbreviation (input) SUBTYPE_NVM :: u8 where "SUBTYPE_NVM \<equiv> 2"

section \<open>Identify Controller\<close>

record identify_controller =
  ic_vid :: u16
  ic_ssvid :: u16
  ic_sn :: bytes
  ic_mn :: bytes
  ic_fr :: bytes
  ic_rab :: u8
  ic_ieee :: bytes
  ic_cmic :: u8
  ic_mdts :: u8
  ic_cntlid :: u16
  ic_ver :: u32
  ic_rtd3r :: u32
  ic_rtd3e :: u32
  ic_oaes :: u32
  ic_ctratt :: u32
  ic_rsvd100 :: bytes
  ic_cntrltype :: u8
  ic_fguid :: bytes
  ic_rsvd128 :: bytes
  ic_oacs :: u16
  ic_acl :: u8
  ic_aerl :: u8
  ic_frmw :: u8
  ic_lpa :: u8
  ic_elpe :: u8
  ic_npss :: u8
  ic_avscc :: u8
  ic_apsta :: u8
  ic_wctemp :: u16
  ic_cctemp :: u16
  ic_rsvd270 :: bytes
  ic_kas :: u16
  ic_rsvd322 :: bytes
  ic_sqes :: u8
  ic_cqes :: u8
  ic_maxcmd :: u16
  ic_nn :: u32
  ic_oncs :: u16
  ic_fuses :: u16
  ic_fna :: u8
  ic_vwc :: u8
  ic_awun :: u16
  ic_awupf :: u16
  ic_nvscc :: u8
  ic_nwpc :: u8
  ic_acwu :: u16
  ic_rsvd534 :: bytes
  ic_sgls :: u32
  ic_mnan :: u32
  ic_rsvd544 :: bytes
  ic_subnqn :: bytes
  ic_rsvd1024 :: bytes
  ic_ioccsz :: u32
  ic_iorcsz :: u32
  ic_icdoff :: u16
  ic_ctrattr :: u8
  ic_msdbd :: u8
  ic_rsvd1804 :: bytes
  ic_psd :: bytes
  ic_vs :: bytes

definition identify_controller_as_bytes :: "identify_controller \<Rightarrow> bytes" where
  "identify_controller_as_bytes d =
     le_bytes 2 (ic_vid d) @ le_bytes 2 (ic_ssvid d) @ ic_sn d @ ic_mn d @ ic_fr d @ [ic_rab d] @
     ic_ieee d @ [ic_cmic d] @ [ic_mdts d] @ le_bytes 2 (ic_cntlid d) @ le_bytes 4 (ic_ver d) @
     le_bytes 4 (ic_rtd3r d) @ le_bytes 4 (ic_rtd3e d) @ le_bytes 4 (ic_oaes d) @
     le_bytes 4 (ic_ctratt d) @ ic_rsvd100 d @ [ic_cntrltype d] @ ic_fguid d @ ic_rsvd128 d @
     le_bytes 2 (ic_oacs d) @ [ic_acl d] @ [ic_aerl d] @ [ic_frmw d] @ [ic_lpa d] @ [ic_elpe d] @
     [ic_npss d] @ [ic_avscc d] @ [ic_apsta d] @ le_bytes 2 (ic_wctemp d) @
     le_bytes 2 (ic_cctemp d) @ ic_rsvd270 d @ le_bytes 2 (ic_kas d) @ ic_rsvd322 d @ [ic_sqes d] @
     [ic_cqes d] @ le_bytes 2 (ic_maxcmd d) @ le_bytes 4 (ic_nn d) @ le_bytes 2 (ic_oncs d) @
     le_bytes 2 (ic_fuses d) @ [ic_fna d] @ [ic_vwc d] @ le_bytes 2 (ic_awun d) @
     le_bytes 2 (ic_awupf d) @ [ic_nvscc d] @ [ic_nwpc d] @ le_bytes 2 (ic_acwu d) @ ic_rsvd534 d @
     le_bytes 4 (ic_sgls d) @ le_bytes 4 (ic_mnan d) @ ic_rsvd544 d @ ic_subnqn d @ ic_rsvd1024 d @
     le_bytes 4 (ic_ioccsz d) @ le_bytes 4 (ic_iorcsz d) @ le_bytes 2 (ic_icdoff d) @
     [ic_ctrattr d] @ [ic_msdbd d] @ ic_rsvd1804 d @ ic_psd d @ ic_vs d"

definition identify_controller_zeroed :: identify_controller where
  "identify_controller_zeroed = \<lparr>
     ic_vid = 0, ic_ssvid = 0, ic_sn = replicate 20 0, ic_mn = replicate 40 0,
     ic_fr = replicate 8 0, ic_rab = 0, ic_ieee = replicate 3 0, ic_cmic = 0, ic_mdts = 0,
     ic_cntlid = 0, ic_ver = 0, ic_rtd3r = 0, ic_rtd3e = 0, ic_oaes = 0, ic_ctratt = 0,
     ic_rsvd100 = replicate 11 0, ic_cntrltype = 0, ic_fguid = replicate 16 0,
     ic_rsvd128 = replicate 128 0, ic_oacs = 0, ic_acl = 0, ic_aerl = 0, ic_frmw = 0, ic_lpa = 0,
     ic_elpe = 0, ic_npss = 0, ic_avscc = 0, ic_apsta = 0, ic_wctemp = 0, ic_cctemp = 0,
     ic_rsvd270 = replicate 50 0, ic_kas = 0, ic_rsvd322 = replicate 190 0, ic_sqes = 0,
     ic_cqes = 0, ic_maxcmd = 0, ic_nn = 0, ic_oncs = 0, ic_fuses = 0, ic_fna = 0, ic_vwc = 0,
     ic_awun = 0, ic_awupf = 0, ic_nvscc = 0, ic_nwpc = 0, ic_acwu = 0, ic_rsvd534 = replicate 2 0,
     ic_sgls = 0, ic_mnan = 0, ic_rsvd544 = replicate 224 0, ic_subnqn = replicate 256 0,
     ic_rsvd1024 = replicate 768 0, ic_ioccsz = 0, ic_iorcsz = 0, ic_icdoff = 0, ic_ctrattr = 0,
     ic_msdbd = 0, ic_rsvd1804 = replicate 244 0, ic_psd = replicate 1024 0,
     ic_vs = replicate 1024 0\<rparr>"

definition identify_controller_wf :: "identify_controller \<Rightarrow> bool" where
  "identify_controller_wf d \<longleftrightarrow>
     length (ic_sn d) = 20 \<and> length (ic_mn d) = 40 \<and> length (ic_fr d) = 8 \<and>
     length (ic_ieee d) = 3 \<and> length (ic_rsvd100 d) = 11 \<and>
     length (ic_fguid d) = 16 \<and> length (ic_rsvd128 d) = 128 \<and>
     length (ic_rsvd270 d) = 50 \<and> length (ic_rsvd322 d) = 190 \<and>
     length (ic_rsvd534 d) = 2 \<and> length (ic_rsvd544 d) = 224 \<and>
     length (ic_subnqn d) = 256 \<and> length (ic_rsvd1024 d) = 768 \<and>
     length (ic_rsvd1804 d) = 244 \<and> length (ic_psd d) = 1024 \<and> length (ic_vs d) = 1024"

section \<open>Identify Namespace\<close>

record lba_format =
  lf_ms :: u16
  lf_lbads :: u8
  lf_rp :: u8

definition lbaf_as_bytes :: "lba_format \<Rightarrow> bytes" where
  "lbaf_as_bytes f = le_bytes 2 (lf_ms f) @ [lf_lbads f, lf_rp f]"

definition lbaf_zeroed :: lba_format where
  "lbaf_zeroed = \<lparr>lf_ms = 0, lf_lbads = 0, lf_rp = 0\<rparr>"

record identify_namespace =
  in_nsze :: u64
  in_ncap :: u64
  in_nuse :: u64
  in_nsfeat :: u8
  in_nlbaf :: u8
  in_flbas :: u8
  in_mc :: u8
  in_dpc :: u8
  in_dps :: u8
  in_nmic :: u8
  in_rescap :: u8
  in_fpi :: u8
  in_dlfeat :: u8
  in_nawun :: u16
  in_nawupf :: u16
  in_nacwu :: u16
  in_nabsn :: u16
  in_nabo :: u16
  in_nabspf :: u16
  in_noiob :: u16
  in_nvmcap :: bytes
  in_npwg :: u16
  in_npwa :: u16
  in_npdg :: u16
  in_npda :: u16
  in_nows :: u16
  in_rsvd74 :: bytes
  in_anagrpid :: u32
  in_rsvd96 :: bytes
  in_nsattr :: u8
  in_nvmsetid :: u16
  in_endgid :: u16
  in_nguid :: bytes
  in_eui64 :: bytes
  in_lbaf :: "lba_format list"
  in_rsvd192 :: bytes
  in_vs :: bytes

definition identify_namespace_as_bytes :: "identify_namespace \<Rightarrow> bytes" where
  "identify_namespace_as_bytes d =
     le_bytes 8 (in_nsze d) @ le_bytes 8 (in_ncap d) @ le_bytes 8 (in_nuse d) @ [in_nsfeat d] @
     [in_nlbaf d] @ [in_flbas d] @ [in_mc d] @ [in_dpc d] @ [in_dps d] @ [in_nmic d] @
     [in_rescap d] @ [in_fpi d] @ [in_dlfeat d] @ le_bytes 2 (in_nawun d) @
     le_bytes 2 (in_nawupf d) @ le_bytes 2 (in_nacwu d) @ le_bytes 2 (in_nabsn d) @
     le_bytes 2 (in_nabo d) @ le_bytes 2 (in_nabspf d) @ le_bytes 2 (in_noiob d) @ in_nvmcap d @
     le_bytes 2 (in_npwg d) @ le_bytes 2 (in_npwa d) @ le_bytes 2 (in_npdg d) @
     le_bytes 2 (in_npda d) @ le_bytes 2 (in_nows d) @ in_rsvd74 d @ le_bytes 4 (in_anagrpid d) @
     in_rsvd96 d @ [in_nsattr d] @ le_bytes 2 (in_nvmsetid d) @ le_bytes 2 (in_endgid d) @
     in_nguid d @ in_eui64 d @ concat (map lbaf_as_bytes (in_lbaf d)) @ in_rsvd192 d @ in_vs d"

definition identify_namespace_zeroed :: identify_namespace where
  "identify_namespace_zeroed = \<lparr>
     in_nsze = 0, in_ncap = 0, in_nuse = 0, in_nsfeat = 0, in_nlbaf = 0, in_flbas = 0, in_mc = 0,
     in_dpc = 0, in_dps = 0, in_nmic = 0, in_rescap = 0, in_fpi = 0, in_dlfeat = 0, in_nawun = 0,
     in_nawupf = 0, in_nacwu = 0, in_nabsn = 0, in_nabo = 0, in_nabspf = 0, in_noiob = 0,
     in_nvmcap = replicate 16 0, in_npwg = 0, in_npwa = 0, in_npdg = 0, in_npda = 0, in_nows = 0,
     in_rsvd74 = replicate 18 0, in_anagrpid = 0, in_rsvd96 = replicate 3 0, in_nsattr = 0,
     in_nvmsetid = 0, in_endgid = 0, in_nguid = replicate 16 0, in_eui64 = replicate 8 0,
     in_lbaf = replicate 16 lbaf_zeroed, in_rsvd192 = replicate 192 0, in_vs = replicate 3712 0\<rparr>"

definition identify_namespace_wf :: "identify_namespace \<Rightarrow> bool" where
  "identify_namespace_wf d \<longleftrightarrow>
     length (in_nvmcap d) = 16 \<and> length (in_rsvd74 d) = 18 \<and>
     length (in_rsvd96 d) = 3 \<and> length (in_nguid d) = 16 \<and> length (in_eui64 d) = 8 \<and>
     length (in_lbaf d) = 16 \<and> length (in_rsvd192 d) = 192 \<and> length (in_vs d) = 3712"

section \<open>Discovery log\<close>

record discovery_log_header =
  dh_genctr :: u64
  dh_numrec :: u64
  dh_recfmt :: u16
  dh_resv :: bytes

definition discovery_log_header_as_bytes :: "discovery_log_header \<Rightarrow> bytes" where
  "discovery_log_header_as_bytes d =
     le_bytes 8 (dh_genctr d) @ le_bytes 8 (dh_numrec d) @ le_bytes 2 (dh_recfmt d) @ dh_resv d"

definition discovery_log_header_zeroed :: discovery_log_header where
  "discovery_log_header_zeroed = \<lparr>
     dh_genctr = 0, dh_numrec = 0, dh_recfmt = 0, dh_resv = replicate 1006 0\<rparr>"

definition discovery_log_header_wf :: "discovery_log_header \<Rightarrow> bool" where
  "discovery_log_header_wf d \<longleftrightarrow>
     length (dh_resv d) = 1006"

record discovery_log_entry =
  de_trtype :: u8
  de_adrfam :: u8
  de_subtype :: u8
  de_treq :: u8
  de_portid :: u16
  de_cntlid :: u16
  de_asqsz :: u16
  de_eflags :: u16
  de_resv12 :: bytes
  de_trsvcid :: bytes
  de_resv64 :: bytes
  de_subnqn :: bytes
  de_traddr :: bytes
  de_tsas :: bytes

definition discovery_log_entry_as_bytes :: "discovery_log_entry \<Rightarrow> bytes" where
  "discovery_log_entry_as_bytes d =
     [de_trtype d] @ [de_adrfam d] @ [de_subtype d] @ [de_treq d] @ le_bytes 2 (de_portid d) @
     le_bytes 2 (de_cntlid d) @ le_bytes 2 (de_asqsz d) @ le_bytes 2 (de_eflags d) @ de_resv12 d @
     de_trsvcid d @ de_resv64 d @ de_subnqn d @ de_traddr d @ de_tsas d"

definition discovery_log_entry_zeroed :: discovery_log_entry where
  "discovery_log_entry_zeroed = \<lparr>
     de_trtype = 0, de_adrfam = 0, de_subtype = 0, de_treq = 0, de_portid = 0, de_cntlid = 0,
     de_asqsz = 0, de_eflags = 0, de_resv12 = replicate 20 0, de_trsvcid = replicate 32 0,
     de_resv64 = replicate 192 0, de_subnqn = replicate 256 0, de_traddr = replicate 256 0,
     de_tsas = replicate 256 0\<rparr>"

definition discovery_log_entry_wf :: "discovery_log_entry \<Rightarrow> bool" where
  "discovery_log_entry_wf d \<longleftrightarrow>
     length (de_resv12 d) = 20 \<and> length (de_trsvcid d) = 32 \<and>
     length (de_resv64 d) = 192 \<and> length (de_subnqn d) = 256 \<and>
     length (de_traddr d) = 256 \<and> length (de_tsas d) = 256"

section \<open>Sizes and offsets\<close>

lemma identify_controller_zeroed_wf [simp]: "identify_controller_wf identify_controller_zeroed"
  by (simp add: identify_controller_wf_def identify_controller_zeroed_def)

lemma identify_namespace_zeroed_wf [simp]: "identify_namespace_wf identify_namespace_zeroed"
  by (simp add: identify_namespace_wf_def identify_namespace_zeroed_def)

lemma discovery_log_entry_zeroed_wf [simp]: "discovery_log_entry_wf discovery_log_entry_zeroed"
  by (simp add: discovery_log_entry_wf_def discovery_log_entry_zeroed_def)

lemma length_identify_controller:
  "identify_controller_wf d \<Longrightarrow> length (identify_controller_as_bytes d) = 4096"
  by (simp add: identify_controller_as_bytes_def identify_controller_wf_def)

lemma length_lbaf [simp]: "length (lbaf_as_bytes f) = 4"
  by (simp add: lbaf_as_bytes_def)

lemma length_lbafs: "length (concat (map lbaf_as_bytes fs)) = 4 * length fs"
  by (induction fs) simp_all

lemma length_identify_namespace:
  "identify_namespace_wf d \<Longrightarrow> length (identify_namespace_as_bytes d) = 4096"
  by (simp add: identify_namespace_as_bytes_def identify_namespace_wf_def length_lbafs del: length_concat)

lemma length_discovery_log_header:
  "discovery_log_header_wf d \<Longrightarrow> length (discovery_log_header_as_bytes d) = 1024"
  by (simp add: discovery_log_header_as_bytes_def discovery_log_header_wf_def)

lemma length_discovery_log_entry:
  "discovery_log_entry_wf d \<Longrightarrow> length (discovery_log_entry_as_bytes d) = 1024"
  by (simp add: discovery_log_entry_as_bytes_def discovery_log_entry_wf_def)

lemma identify_controller_offsets:
  assumes "identify_controller_wf d"
  shows "slice 78 2 (identify_controller_as_bytes d) = le_bytes 2 (ic_cntlid d)"
    "slice 320 2 (identify_controller_as_bytes d) = le_bytes 2 (ic_kas d)"
    "slice 512 1 (identify_controller_as_bytes d) = [ic_sqes d]"
    "slice 536 4 (identify_controller_as_bytes d) = le_bytes 4 (ic_sgls d)"
    "slice 768 256 (identify_controller_as_bytes d) = ic_subnqn d"
    "slice 1792 4 (identify_controller_as_bytes d) = le_bytes 4 (ic_ioccsz d)"
  using assms unfolding identify_controller_wf_def
  by (simp_all add: identify_controller_as_bytes_def wire)

lemma identify_namespace_offsets:
  assumes "identify_namespace_wf d"
  shows "slice 0 8 (identify_namespace_as_bytes d) = le_bytes 8 (in_nsze d)"
    "slice 92 4 (identify_namespace_as_bytes d) = le_bytes 4 (in_anagrpid d)"
    "slice 128 64 (identify_namespace_as_bytes d) = concat (map lbaf_as_bytes (in_lbaf d))"
  using assms unfolding identify_namespace_wf_def
  by (simp_all add: identify_namespace_as_bytes_def wire length_lbafs del: length_concat)

end
