(* ===== verification/Admin_Exec.thy ===== *)
theory Admin_Exec
  imports Fabrics_Exec Identify
begin

text \<open>
  Admin commands (\<^verbatim>\<open>crates/ioutgt-nvme/src/admin.rs\<close>): Identify, features, log pages, Keep Alive
  and asynchronous event requests. A handler takes the address where the global allocator would place
  a fallback buffer, and the operations \<open>ops\<close> of the backend type. The control plane acts between
  handler steps, so that the two looks at a namespace table that Identify takes see one table.
\<close>

section \<open>Data structures\<close>

abbreviation (input) KAS_UNITS :: u16 where "KAS_UNITS \<equiv> 100"

definition ascii_pad :: "nat \<Rightarrow> string \<Rightarrow> bytes" where
  "ascii_pad len src =
     (let n = min (length src) len in splice 0 (take n (str_bytes src)) (replicate len 32))"

definition nul_terminate :: "string \<Rightarrow> bytes" where
  "nul_terminate s =
     (let n = min (length s) 255 in splice 0 (take n (str_bytes s)) (replicate 256 0))"

text \<open>The subsystem an admin queue is bound to.\<close>

definition admin_subsys :: "nat port_config \<Rightarrow> admin_state \<Rightarrow> nat subsystem option" where
  "admin_subsys p a = (case ad_subsys a of None \<Rightarrow> None | Some k \<Rightarrow> port_subsystem p k)"

definition build_id_ctrl :: "nat port_config \<Rightarrow> admin_state \<Rightarrow> identify_controller" where
  "build_id_ctrl port admin =
     (let discovery = ad_discovery admin;
          subsys = admin_subsys port admin;
          d = identify_controller_zeroed;
          d = d\<lparr>ic_vid := 0, ic_ssvid := 0, ic_fr := ascii_pad 8 ''1.0'', ic_mn := ascii_pad 40 ''ioutgt''\<rparr>;
          d = (case subsys of
                 Some s \<Rightarrow> d\<lparr>ic_sn := ascii_pad 20 (sub_serial s), ic_subnqn := nul_terminate (sub_nqn s)\<rparr>
               | None \<Rightarrow> d\<lparr>ic_sn := ascii_pad 20 ''ioutgt-disc'', ic_subnqn := nul_terminate DISCOVERY_NQN\<rparr>);
          d = d\<lparr>ic_cntlid := ad_cntlid admin, ic_ver := 0x00010300, ic_oaes := AEN_CFG_NS_ATTR,
                ic_cntrltype := (if discovery then 2 else 1)\<rparr>;
          d = (if \<not> discovery then d\<lparr>ic_cmic := CMIC_MULTI_CTRL\<rparr> else d);
          d = d\<lparr>ic_kas := KAS_UNITS\<rparr>;
          d = (if \<not> discovery \<and> trtype port = Tcp then d\<lparr>ic_ctratt := CTRATT_TBKAS\<rparr> else d);
          d = d\<lparr>ic_sqes := 0x66, ic_cqes := 0x44, ic_maxcmd := io_queue_size port, ic_acl := 3,
                ic_aerl := 3, ic_mdts := 5\<rparr>;
          sgls = SGLS_BYTE_ALIGNED;
          sgls = (if trtype port = Rdma then sgls OR (SGLS_KEYED OR SGLS_SAOS) else sgls);
          d = d\<lparr>ic_sgls := sgls\<rparr> in
      if discovery then d\<lparr>ic_nn := 0\<rparr>
      else
        let inline = (if trtype port = Rdma then RDMA_INLINE_DATA_SIZE else INLINE_DATA_SIZE) in
        d\<lparr>ic_nn := (case subsys of None \<Rightarrow> 0 | Some s \<Rightarrow> max_nsid s),
          ic_oncs := ONCS_DSM OR ONCS_WRITE_ZEROES, ic_vwc := VWC_PRESENT,
          ic_ioccsz := (64 + inline) div 16, ic_iorcsz := 1, ic_icdoff := 0\<rparr>)"

record ns_limits =
  nl_nsfeat :: u8
  nl_nawun :: u16
  nl_npwg :: u16
  nl_npdg :: u16
  nl_nows :: u16

definition to0based :: "u64 \<Rightarrow> u32 \<Rightarrow> u16" where
  "to0based lbs b = (let blocks = min (max (ucast b div lbs) 1) 0x10000 in ucast (blocks - 1))"

text \<open>A shift by the width of the type or more is a panic.\<close>

definition ns_limits_of :: "topology \<Rightarrow> u8 \<Rightarrow> ns_limits option" where
  "ns_limits_of topo shift =
     (if topo = topology_default
      then Some \<lparr>nl_nsfeat = 0, nl_nawun = 0, nl_npwg = 0, nl_npdg = 0, nl_nows = 0\<rparr>
      else if 64 \<le> unat shift then None
      else
        let lbs = push_bit (unat shift) 1 in
        Some \<lparr>nl_nsfeat = NSFEAT_ATOMICS OR NSFEAT_OPTPERF, nl_nawun = to0based lbs (physical_block topo),
              nl_npwg = to0based lbs (io_min topo), nl_npdg = to0based lbs (discard_granularity topo),
              nl_nows = to0based lbs (io_opt topo)\<rparr>)"

definition build_id_ns :: "'s backend \<Rightarrow> 's \<Rightarrow> identify_namespace option" where
  "build_id_ns ops s =
     (let d = identify_namespace_zeroed;
          blocks = nr_blocks ops s;
          d = d\<lparr>in_nsze := blocks, in_ncap := blocks, in_nuse := blocks, in_nlbaf := 0, in_flbas := 0,
                in_nmic := NMIC_SHARED, in_dlfeat := 0x01,
                in_lbaf := (in_lbaf d)[0 := (in_lbaf d ! 0)\<lparr>lf_lbads := block_shift ops s, lf_ms := 0\<rparr>],
                in_anagrpid := 0\<rparr> in
      map_option (\<lambda>l. d\<lparr>in_nsfeat := nl_nsfeat l, in_nawun := nl_nawun l, in_nawupf := nl_nawun l,
          in_nacwu := nl_nawun l, in_npwg := nl_npwg l, in_npwa := nl_npwg l, in_npdg := nl_npdg l,
          in_npda := nl_npdg l, in_nows := nl_nows l\<rparr>)
        (ns_limits_of (be_topology ops s) (block_shift ops s)))"

section \<open>Staging response data\<close>

definition fill_slot :: "nat \<Rightarrow> u16 \<Rightarrow> bytes \<Rightarrow> 's world \<Rightarrow> (u32 \<times> 's world) option" where
  "fill_slot addr tag data w =
     (let n = min (length data) ADMIN_DATA_MAX in do {
        (m, a, ws, bids) \<leftarrow> lease_or_owned addr tag (max n 1) (w_mem w) (w_slots w);
        s \<leftarrow> slot_of a tag;
        m \<leftarrow> write_at (slot_data s) 0 (take n data) m;
        Some (of_nat n, put_slots a ws bids (w\<lparr>w_mem := m\<rparr>))})"

text \<open>\<^verbatim>\<open>fill_slot\<close> and the successful completion that follows it.\<close>

definition reply_filled :: "nat \<Rightarrow> u16 \<Rightarrow> u16 \<Rightarrow> bytes \<Rightarrow> 's world \<Rightarrow> (outcome \<times> 's world) option" where
  "reply_filled addr tag c data w = do { (n, w) \<leftarrow> fill_slot addr tag data w; reply_data c n w }"

section \<open>Identify\<close>

definition active_ns_list :: "u32 \<Rightarrow> nat subsystem option \<Rightarrow> bytes" where
  "active_ns_list start subsys =
     (case subsys of
        None \<Rightarrow> replicate 4096 0
      | Some s \<Rightarrow>
          splice 0 (concat (map (le_bytes 4) (take 1024 (filter (\<lambda>n. start < n) (map fst (sub_namespaces s))))))
            (replicate 4096 0))"

definition ns_desc :: "bytes \<Rightarrow> bytes" where
  "ns_desc uuid = splice 4 uuid ((replicate 4096 0)[0 := 3, 1 := 16])"

definition identify ::
  "'s backend \<Rightarrow> nat \<Rightarrow> u16 \<Rightarrow> sqe \<Rightarrow> admin_state \<Rightarrow> 's world \<Rightarrow> (outcome \<times> 's world) option" where
  "identify ops addr tag s admin w =
     (let c = cid s;
          which = ucast (cdw10 s AND 0xFF) :: u8;
          subsys = admin_subsys (w_port w) admin in
      if which = CNS_CONTROLLER then
        reply_filled addr tag c (identify_controller_as_bytes (build_id_ctrl (w_port w) admin)) w
      else if which = CNS_NAMESPACE then
        (case subsys of
           None \<Rightarrow> reply 0 c (INVALID_NS OR DNR) w
         | Some sub \<Rightarrow>
             (case map_of (sub_namespaces sub) (nsid s) of
                Some ns \<Rightarrow> do {
                  d \<leftarrow> build_id_ns ops (w_stores w (ns_backend ns));
                  reply_filled addr tag c (identify_namespace_as_bytes d) w}
              | None \<Rightarrow>
                  if nsid s \<le> max_nsid sub then
                    reply_filled addr tag c (identify_namespace_as_bytes identify_namespace_zeroed) w
                  else reply 0 c (INVALID_NS OR DNR) w))
      else if which = CNS_ACTIVE_NS_LIST then
        reply_filled addr tag c (active_ns_list (nsid s) subsys) w
      else if which = CNS_NS_DESC_LIST then
        (case (case subsys of None \<Rightarrow> None | Some sub \<Rightarrow> map_option ns_uuid (map_of (sub_namespaces sub) (nsid s))) of
           Some uuid \<Rightarrow> reply_filled addr tag c (ns_desc uuid) w
         | None \<Rightarrow> reply 0 c (INVALID_NS OR DNR) w)
      else reply 0 c (INVALID_FIELD OR DNR) w)"

section \<open>Features\<close>

definition io_queue_count :: "nat port_config \<Rightarrow> admin_state \<Rightarrow> u16" where
  "io_queue_count port admin = (if ad_subsys admin \<noteq> None then max (max_qid port) 1 else 1)"

definition get_features :: "sqe \<Rightarrow> admin_state \<Rightarrow> 's world \<Rightarrow> (outcome \<times> 's world) option" where
  "get_features s admin w =
     (let c = cid s; fid = ucast (cdw10 s AND 0xFF) :: u8 in
      if fid = FEAT_NUM_QUEUES then
        let queues = ucast (io_queue_count (w_port w) admin) - 1 in
        reply (queues OR push_bit 16 queues) c SUCCESS w
      else if fid = FEAT_KATO then reply (ad_kato_ms admin) c SUCCESS w
      else if fid = FEAT_ASYNC_EVENT_CONFIG then reply (aec admin) c SUCCESS w
      else if fid = FEAT_VOLATILE_WC \<and> \<not> ad_discovery admin then reply 1 c SUCCESS w
      else reply 0 c (INVALID_FIELD OR DNR) w)"

definition set_features :: "sqe \<Rightarrow> admin_state \<Rightarrow> 's world \<Rightarrow> (outcome \<times> 's world) option" where
  "set_features s admin w =
     (let c = cid s; fid = ucast (cdw10 s AND 0xFF) :: u8 in
      if fid = FEAT_NUM_QUEUES then
        let offered = ucast (io_queue_count (w_port w) admin) - 1;
            requested = cdw11 s AND 0xFFFF;
            granted = min requested offered in
        reply (granted OR push_bit 16 granted) c SUCCESS w
      else if fid = FEAT_KATO then reply 0 c SUCCESS (set_role (Admin (admin\<lparr>ad_kato_ms := cdw11 s\<rparr>)) w)
      else if fid = FEAT_ASYNC_EVENT_CONFIG then reply 0 c SUCCESS (set_role (Admin (admin\<lparr>aec := cdw11 s\<rparr>)) w)
      else if fid = FEAT_HOST_ID then reply 0 c SUCCESS w
      else reply 0 c (FEATURE_NOT_CHANGEABLE OR DNR) w)"

section \<open>Log pages\<close>

definition discovery_entry :: "nat port_config \<Rightarrow> nat \<Rightarrow> string \<Rightarrow> discovery_log_entry" where
  "discovery_entry port index nqn = discovery_log_entry_zeroed\<lparr>
     de_trtype := (case trtype port of Tcp \<Rightarrow> TRTYPE_TCP | Rdma \<Rightarrow> TRTYPE_RDMA),
     de_adrfam := 1, de_subtype := SUBTYPE_NVM, de_treq := 0,
     de_portid := (if index < 2 ^ 16 then of_nat index else 0),
     de_cntlid := 0xFFFF, de_asqsz := 32,
     de_trsvcid := ascii_pad 32 (trsvcid port), de_traddr := ascii_pad 256 (traddr port),
     de_subnqn := nul_terminate nqn\<rparr>"

definition build_discovery_log :: "nat port_config \<Rightarrow> bytes" where
  "build_discovery_log port =
     discovery_log_header_as_bytes
       \<lparr>dh_genctr = 1, dh_numrec = of_nat (length (subsystems port)), dh_recfmt = 0, dh_resv = replicate 1006 0\<rparr> @
     concat (map (\<lambda>(i, nqn, _). discovery_log_entry_as_bytes (discovery_entry port i nqn))
       (enumerate 0 (subsystems port)))"

definition log_length :: "sqe \<Rightarrow> u64" where
  "log_length s =
     (let numdl = drop_bit 16 (cdw10 s); numdu = cdw11 s AND 0xFFFF in
      ((push_bit 16 (ucast numdu) OR ucast numdl) + 1) * 4)"

definition log_offset :: "sqe \<Rightarrow> u64" where
  "log_offset s = push_bit 32 (ucast (cdw13 s)) OR ucast (cdw12 s)"

definition sat_add :: "u64 \<Rightarrow> u64 \<Rightarrow> u64" where
  "sat_add a b = (case checked_add a b of Some c \<Rightarrow> c | None \<Rightarrow> - 1)"

definition get_log_page ::
  "nat \<Rightarrow> u16 \<Rightarrow> sqe \<Rightarrow> admin_state \<Rightarrow> 's world \<Rightarrow> (outcome \<times> 's world) option" where
  "get_log_page addr tag s admin w =
     (let c = cid s;
          lid = ucast (cdw10 s AND 0xFF) :: u8;
          len = log_length s;
          offset = log_offset s in
      if lid = LOG_DISCOVERY \<and> ad_discovery admin then
        let log = build_discovery_log (w_port w);
            stop = min (unat (sat_add offset len)) (length log);
            start = min (unat offset) stop in
        reply_filled addr tag c (slice start (stop - start) log) w
      else if lid = LOG_CHANGED_NS then
        let page = (if ns_changed admin then splice 0 (le_bytes 4 (- 1 :: u32)) (replicate 4096 0) else replicate 4096 0);
            w = set_role (Admin (admin\<lparr>ns_changed := False\<rparr>)) w;
            n = min len 4096 in do {
          (written, w) \<leftarrow> fill_slot addr tag (take (unat n) page) w;
          if written = ucast n then reply_data c (ucast n) w else None}
      else if lid = LOG_ERROR \<or> lid = LOG_SMART \<or> lid = LOG_FW_SLOT then
        let n = min len 4096;
            take_n = unat n in do {
          (m, a, ws, bids) \<leftarrow> lease_or_owned addr tag (max take_n 1) (w_mem w) (w_slots w);
          sl \<leftarrow> slot_of a tag;
          (ptr, cap) \<leftarrow> as_mut_slice (slot_data sl);
          if cap < take_n then None
          else reply_data c (ucast n)
            (put_slots a ws bids (w\<lparr>w_mem := mem_write ptr (replicate take_n 0) m\<rparr>))}
      else reply 0 c (INVALID_LOG_PAGE OR DNR) w)"

section \<open>The admin queue\<close>

text \<open>One poll of a parked asynchronous event request.\<close>

definition aer_poll :: "nat \<Rightarrow> sqe \<Rightarrow> admin_state \<Rightarrow> 's world \<Rightarrow> (outcome poll \<times> 's world) option" where
  "aer_poll waker s admin w =
     (if closing admin then map_option (\<lambda>(out, w). (Ready out, w)) (reply 0 (cid s) SUCCESS w)
      else case events admin of
        e # es \<Rightarrow> map_option (\<lambda>(out, w). (Ready out, w))
          (reply e (cid s) SUCCESS (set_role (Admin (admin\<lparr>events := es\<rparr>)) w))
      | [] \<Rightarrow> Some (Pending, set_role (Admin (admin\<lparr>aer_wakers := aer_wakers admin @ [waker]\<rparr>)) w))"

definition admin_execute ::
  "'s backend \<Rightarrow> nat \<Rightarrow> nat \<Rightarrow> u16 \<Rightarrow> sqe \<Rightarrow> admin_state \<Rightarrow> 's world \<Rightarrow> (outcome poll \<times> 's world) option" where
  "admin_execute ops waker addr tag s admin w =
     (let ready = map_option (\<lambda>(out, w). (Ready out, w)) in
      if opcode s = IDENTIFY then ready (identify ops addr tag s admin w)
      else if opcode s = GET_FEATURES then ready (get_features s admin w)
      else if opcode s = SET_FEATURES then ready (set_features s admin w)
      else if opcode s = GET_LOG_PAGE then ready (get_log_page addr tag s admin w)
      else if opcode s = KEEP_ALIVE then ready (reply 0 (cid s) SUCCESS w)
      else if opcode s = ASYNC_EVENT then aer_poll waker s admin w
      else ready (reply 0 (cid s) (INVALID_OPCODE OR DNR) w))"

section \<open>Every admin command is answered or parked\<close>

lemma fill_slot_ok:
  assumes ok: "world_ok ok R i tag w" and n_def: "n = min (length data) ADMIN_DATA_MAX"
  obtains w' s where "fill_slot addr tag data w = Some (of_nat n, w')" "world_ok ok R i tag w'"
    "slot_of (w_slots w') tag = Some s" "n \<le> sd_len (slot_data s)" "slot_data_wf (slot_data s)"
    "take n (contents (w_mem w') (slot_data s)) = take n data" "w_role w' = w_role w" "w_port w' = w_port w"
proof -
  have inv: "slots_inv R (w_slots w)" using ok by (simp add: world_ok_def)
  obtain s where s: "slot_of (w_slots w) tag = Some s" "slot_state s \<noteq> Free" using ok by (auto simp: world_ok_def)
  obtain m a ws bids d where l: "lease_or_owned addr tag (max n 1) (w_mem w) (w_slots w) = Some (m, a, ws, bids)"
    "slots_inv R a" "slots a = (slots (w_slots w))[unat tag := s\<lparr>slot_data := d\<rparr>]"
    "slot_of a tag = Some (s\<lparr>slot_data := d\<rparr>)" "buf_shape d" "max n 1 \<le> sd_len d" "slot_data_wf d"
    using lease_or_owned_buf [OF inv s, of addr "max n 1" "w_mem w"] by metis
  have "0 + length (take n data) \<le> sd_len d" using l(6) by (simp add: n_def)
  then obtain m' where m': "write_at d 0 (take n data) m = Some m'" "contents m' d = splice 0 (take n data) (contents m d)"
    using write_at_spec [OF l(7)] by metis
  let ?w = "put_slots a ws bids (w\<lparr>w_mem := m'\<rparr>)"
  have f: "fill_slot addr tag data w = Some (of_nat n, ?w)"
    using l(1,4) m'(1) by (simp add: fill_slot_def n_def Let_def)
  have w: "world_ok ok R i tag ?w"
    using world_ok_put_slots [of ok R i tag "w\<lparr>w_mem := m'\<rparr>" a s] ok l s by simp
  have "length (take n data) = n" by (simp add: n_def)
  then have "take n (contents m' d) = take n data" unfolding m'(2) by (simp add: splice_def)
  then show thesis
    using that [OF f w, of "s\<lparr>slot_data := d\<rparr>"] l by (simp add: world)
qed

lemma reply_filled_answers [simp]:
  assumes "world_ok ok R i tag w"
  shows "answers ok R i tag c (reply_filled addr tag c data w)"
proof -
  obtain w' s where f: "fill_slot addr tag data w = Some (of_nat (min (length data) ADMIN_DATA_MAX), w')"
    "world_ok ok R i tag w'" "slot_of (w_slots w') tag = Some s"
    "min (length data) ADMIN_DATA_MAX \<le> sd_len (slot_data s)"
    by (rule fill_slot_ok [OF assms refl]) blast
  have "unat (of_nat (min (length data) ADMIN_DATA_MAX) :: u32) = min (length data) ADMIN_DATA_MAX"
    by (simp add: unsigned_of_nat take_bit_nat_eq_self)
  then show ?thesis using f reply_data_answers [OF f(2,3)] by (simp add: reply_filled_def)
qed

lemma build_id_ns_total: "unat (block_shift ops s) < 64 \<Longrightarrow> \<exists>d. build_id_ns ops s = Some d"
  by (simp add: build_id_ns_def ns_limits_of_def Let_def)

lemma identify_answers:
  assumes "world_ok ok R i tag w" "shifts_ok ops ok"
  shows "answers ok R i tag (cid s) (identify ops addr tag s a w)"
proof -
  have "\<exists>d. build_id_ns ops (w_stores w b) = Some d" for b
    using assms by (intro build_id_ns_total) (auto simp: shifts_ok_def world_ok_def)
  then obtain f where f: "\<And>b. build_id_ns ops (w_stores w b) = Some (f b)" by metis
  show ?thesis
    unfolding identify_def Let_def using assms(1)
    by (simp add: reply_answers f split: if_split option.split)
qed

lemma get_log_page_answers:
  assumes ok: "world_ok ok R i tag w"
  shows "answers ok R i tag (cid s) (get_log_page addr tag s a w)"
proof -
  define n where "n = min (log_length s) 4096"
  have n: "unat n \<le> 4096" by (simp add: n_def min_def word_le_nat_alt)
  then have cast: "unat (ucast n :: u32) = unat n"
    by (simp add: unsigned_ucast_eq take_bit_nat_eq_self)
  have nw: "(of_nat (unat n) :: u32) = ucast n" by (simp add: word_unat_eq_iff cast unsigned_of_nat take_bit_nat_eq_self n)
  have changed: "answers ok R i tag (cid s) (do { (written, w) \<leftarrow> fill_slot addr tag (take (unat n) page) w';
      if written = (ucast n :: u32) then reply_data (cid s) (ucast n) w else None })"
    if w': "world_ok ok R i tag w'" and p: "length page = 4096" for page w'
  proof -
    have l: "min (length (take (unat n) page)) ADMIN_DATA_MAX = unat n" using p n by simp
    obtain w2 t where "fill_slot addr tag (take (unat n) page) w' = Some (of_nat (unat n), w2)"
      "world_ok ok R i tag w2" "slot_of (w_slots w2) tag = Some t" "unat n \<le> sd_len (slot_data t)"
      by (rule fill_slot_ok [OF w' l [symmetric], of addr]) blast
    then show ?thesis using reply_data_answers [of ok R i tag w2 t "ucast n" "cid s"] cast by (simp add: nw)
  qed
  have zero: "answers ok R i tag (cid s) (do {
      (m, a, ws, bids) \<leftarrow> lease_or_owned addr tag (max (unat n) 1) (w_mem w) (w_slots w);
      sl \<leftarrow> slot_of a tag;
      (ptr, cap) \<leftarrow> as_mut_slice (slot_data sl);
      if cap < unat n then None
      else reply_data (cid s) (ucast n) (put_slots a ws bids (w\<lparr>w_mem := mem_write ptr (replicate (unat n) 0) m\<rparr>))})"
  proof -
    have inv: "slots_inv R (w_slots w)" using ok by (simp add: world_ok_def)
    obtain t where t: "slot_of (w_slots w) tag = Some t" "slot_state t \<noteq> Free" using ok by (auto simp: world_ok_def)
    obtain m a ws bids d where l: "lease_or_owned addr tag (max (unat n) 1) (w_mem w) (w_slots w) = Some (m, a, ws, bids)"
      "slots_inv R a" "slots a = (slots (w_slots w))[unat tag := t\<lparr>slot_data := d\<rparr>]"
      "slot_of a tag = Some (t\<lparr>slot_data := d\<rparr>)" "buf_shape d" "max (unat n) 1 \<le> sd_len d"
      "max (unat n) 1 \<le> PAGE \<longrightarrow> is_contiguous d"
      using lease_or_owned_buf [OF inv t, of addr "max (unat n) 1" "w_mem w"] by metis
    have "is_contiguous d" using l(7) n by (simp add: PAGE_def)
    then have c: "as_mut_slice d = Some (seg_ptr (hd (sd_segs d)), sd_len d)" by (simp add: as_mut_slice_def)
    let ?w = "put_slots a ws bids (w\<lparr>w_mem := mem_write (seg_ptr (hd (sd_segs d))) (replicate (unat n) 0) m\<rparr>)"
    have "world_ok ok R i tag ?w"
      using world_ok_put_slots [of ok R i tag "w\<lparr>w_mem := mem_write (seg_ptr (hd (sd_segs d))) (replicate (unat n) 0) m\<rparr>" a t] ok l t
      by simp
    then have "answers ok R i tag (cid s) (reply_data (cid s) (ucast n) ?w)"
      using l(4,6) cast by (intro reply_data_answers [where s = "t\<lparr>slot_data := d\<rparr>"]) (simp_all add: world)
    then show ?thesis using l(1,4,6) c by simp
  qed
  show ?thesis
    unfolding get_log_page_def Let_def n_def [symmetric]
    using ok zero changed [of "set_role (Admin (a\<lparr>ns_changed := False\<rparr>)) w"]
    by (simp add: reply_answers splice_def)
qed

definition polls :: "('s \<Rightarrow> bool) \<Rightarrow> nat set \<Rightarrow> u16 \<Rightarrow> u16 \<Rightarrow> u16 \<Rightarrow> (outcome poll \<times> 's world) option \<Rightarrow> bool" where
  "polls ok R i tag c r \<longleftrightarrow> (\<exists>p w'. r = Some (p, w') \<and> world_ok ok R i tag w' \<and>
     (case p of Ready out \<Rightarrow> answer_ok i tag c out w' | Pending \<Rightarrow> True))"

lemma polls_ready: "answers ok R i tag c r \<Longrightarrow> polls ok R i tag c (map_option (\<lambda>(out, w). (Ready out, w)) r)"
  by (auto simp: answers_def polls_def)

lemma aer_polls:
  assumes "world_ok ok R i tag w"
  shows "polls ok R i tag (cid s) (aer_poll waker s a w)"
proof -
  have "polls ok R i tag (cid s) (Some (Pending, set_role (Admin b) w))" for b
    using assms by (simp add: polls_def)
  then show ?thesis
    unfolding aer_poll_def using assms
    by (simp add: reply_answers polls_ready split: if_split list.split)
qed

lemma admin_polls:
  assumes "world_ok ok R i tag w" "shifts_ok ops ok"
  shows "polls ok R i tag (cid s) (admin_execute ops waker addr tag s a w)"
  unfolding admin_execute_def Let_def get_features_def set_features_def
  using assms(1) identify_answers [OF assms] get_log_page_answers [OF assms(1)] aer_polls [OF assms(1)]
  by (simp add: polls_ready reply_answers)

end
