(* ===== verification/Io_Exec.thy ===== *)
theory Io_Exec
  imports Fabrics_Exec
begin

text \<open>
  I/O commands (\<^verbatim>\<open>crates/ioutgt-nvme/src/io.rs\<close>): Read, Write, Flush, Write Zeroes and Dataset
  Management. A command that waits for a pool buffer suspends and is resumed where it stopped; the
  backend's operations are one step each. The step takes from outside what \<open>env\<close> lists: the backend
  operations, the table from ring buffers to registered buffers, the serving thread, the clock, the
  allocator's next address and the waker of the slot task.
\<close>

record 's env =
  ev_ops :: "'s backend"
  ev_ring_index :: "u16 \<Rightarrow> u16 option"
  ev_thread :: thread_id
  ev_now :: nat
  ev_addr :: nat
  ev_waker :: nat

text \<open>Where a suspended command waits: a parked event request, or a read that waits for its buffer.\<close>

datatype suspension = AwaitEvent | AwaitLease nat rw_command u32

datatype exec_result = Finished outcome | Suspended suspension

definition finished :: "(outcome \<times> 's world) option \<Rightarrow> (exec_result \<times> 's world) option" where
  "finished = map_option (\<lambda>(out, w). (Finished out, w))"

section \<open>Status and checks\<close>

definition nvme_status :: "backend_error \<Rightarrow> u16" where
  "nvme_status err = (case err of
     OutOfRange \<Rightarrow> LBA_RANGE OR DNR
   | NoSpace \<Rightarrow> CAP_EXCEEDED OR DNR
   | Unsupported \<Rightarrow> INVALID_OPCODE OR DNR
   | IoErr _ \<Rightarrow> INTERNAL OR DNR)"

definition err_outcome :: "u16 \<Rightarrow> u16 \<Rightarrow> 's world \<Rightarrow> (outcome \<times> 's world) option" where
  "err_outcome c code w = reply 0 c code (upd_stats (\<lambda>s. s\<lparr>errors := errors s + 1\<rparr>) w)"

definition map_backend :: "u16 \<Rightarrow> backend_error + unit \<Rightarrow> u32 \<Rightarrow> 's world \<Rightarrow> (outcome \<times> 's world) option" where
  "map_backend c result data_len w =
     (case result of
        Inr _ \<Rightarrow> reply_data c data_len w
      | Inl err \<Rightarrow> err_outcome c (nvme_status err) w)"

text \<open>The outer \<^const>\<open>None\<close> is a shift by the width of the type or more.\<close>

definition checked_len :: "'s backend \<Rightarrow> 's \<Rightarrow> sqe \<Rightarrow> (u16 + rw_command \<times> u32) option" where
  "checked_len ops st s =
     (let rw = rw_parse s;
          nlb = ucast (rw_nlb rw) + 1 :: u64;
          len = push_bit (unat (block_shift ops st)) nlb in
      if 64 \<le> unat (block_shift ops st) then None
      else if ucast MDTS_BYTES < len then Some (Inl (INVALID_FIELD OR DNR))
      else if ucast (sgl_length (dptr s) AND 0x00FFFFFF) \<noteq> len then Some (Inl (DATA_SGL_LEN_INVALID OR DNR))
      else case check_range (nr_blocks ops st) (rw_slba rw) nlb of
        Inl e \<Rightarrow> Some (Inl (nvme_status e))
      | Inr _ \<Rightarrow> Some (Inr (rw, ucast len)))"

section \<open>Read and Write\<close>

definition put_store :: "nat \<Rightarrow> 's \<Rightarrow> 's world \<Rightarrow> 's world" where
  "put_store b st w = w\<lparr>w_stores := (w_stores w)(b := st)\<rparr>"

definition slot_index :: "'s env \<Rightarrow> 's world \<Rightarrow> slot_data \<Rightarrow> u16 option" where
  "slot_index ev w d = slot_buf_index (pool_buf_index (pool (w_slots w))) (ev_ring_index ev) d"

text \<open>From \<^verbatim>\<open>lease_await\<close> on: one poll of the lease, and the transfer once it is there.\<close>

definition read_resume ::
  "'s env \<Rightarrow> u16 \<Rightarrow> sqe \<Rightarrow> nat \<Rightarrow> rw_command \<Rightarrow> u32 \<Rightarrow> 's world \<Rightarrow> (exec_result \<times> 's world) option" where
  "read_resume ev tag s b rw len w = do {
     (p, a, ws, bids) \<leftarrow> lease_await_poll (ev_waker ev) tag (unat len) (w_slots w);
     let w = put_slots a ws bids w;
     case p of
       Pending \<Rightarrow> Some (Suspended (AwaitLease b rw len), w)
     | Ready _ \<Rightarrow> do {
         slot \<leftarrow> slot_of a tag;
         let buf = slot_data slot;
         (result, m) \<leftarrow> be_read_segs (ev_ops ev) (rw_slba rw) (sd_segs buf) (unat len) (slot_index ev w buf)
           (w_stores w b) (w_mem w);
         let w = w\<lparr>w_mem := m\<rparr>;
         let w = (case result of
           Inr _ \<Rightarrow> upd_stats (\<lambda>st. st\<lparr>read_bytes := read_bytes st + ucast len\<rparr>) w
         | Inl _ \<Rightarrow> w);
         finished (map_backend (cid s) result len w)}}"

definition io_read :: "'s env \<Rightarrow> nat \<Rightarrow> u16 \<Rightarrow> sqe \<Rightarrow> 's world \<Rightarrow> (exec_result \<times> 's world) option" where
  "io_read ev b tag s w = do {
     r \<leftarrow> checked_len (ev_ops ev) (w_stores w b) s;
     case r of
       Inl code \<Rightarrow> finished (err_outcome (cid s) code w)
     | Inr (rw, len) \<Rightarrow> read_resume ev tag s b rw len w}"

definition io_write :: "'s env \<Rightarrow> nat \<Rightarrow> u16 \<Rightarrow> sqe \<Rightarrow> 's world \<Rightarrow> (outcome \<times> 's world) option" where
  "io_write ev b tag s w = do {
     r \<leftarrow> checked_len (ev_ops ev) (w_stores w b) s;
     case r of
       Inl code \<Rightarrow> err_outcome (cid s) code w
     | Inr (rw, len) \<Rightarrow> do {
         slot \<leftarrow> slot_of (w_slots w) tag;
         if slot_data_len slot \<noteq> len then err_outcome (cid s) (DATA_XFER_ERROR OR DNR) w
         else do {
           let buf = slot_data slot;
           (result, st) \<leftarrow> be_write_segs (ev_ops ev) (rw_slba rw) (sd_segs buf) (unat len) (slot_index ev w buf)
             (w_mem w) (w_stores w b);
           (result, st) \<leftarrow> (case result of
               Inr _ \<Rightarrow> if rw_fua rw then be_flush (ev_ops ev) st else Some (result, st)
             | Inl _ \<Rightarrow> Some (result, st));
           let w = put_store b st w;
           let w = (case result of
             Inr _ \<Rightarrow> upd_stats (\<lambda>st. st\<lparr>write_bytes := write_bytes st + ucast len\<rparr>) w
           | Inl _ \<Rightarrow> w);
           map_backend (cid s) result 0 w}}}"

section \<open>Dataset management\<close>

definition dsm_ranges :: "nat \<Rightarrow> bytes \<Rightarrow> lba_range list" where
  "dsm_ranges nr bs =
     map (\<lambda>i. let raw = dsm_of_bytes (slice (i * 16) 16 bs) in \<lparr>lr_slba = dsm_slba raw, lr_nlb = dsm_nlb raw\<rparr>)
       [0..<nr]"

definition io_dsm :: "'s env \<Rightarrow> nat \<Rightarrow> u16 \<Rightarrow> sqe \<Rightarrow> 's world \<Rightarrow> (outcome \<times> 's world) option" where
  "io_dsm ev b tag s w = do {
     let deallocate = (cdw11 s AND 4 \<noteq> 0);
     let nr = unat (cdw10 s AND 0xFF) + 1;
     let needed = nr * 16;
     slot \<leftarrow> slot_of (w_slots w) tag;
     if unat (slot_data_len slot) < needed then err_outcome (cid s) (DATA_SGL_LEN_INVALID OR DNR) w
     else if \<not> deallocate then reply 0 (cid s) SUCCESS w
     else do {
       chunks \<leftarrow> for_each_seg (w_mem w) (slot_data slot) 0 needed;
       (result, st) \<leftarrow> be_discard (ev_ops ev) (dsm_ranges nr (concat chunks)) (w_stores w b);
       map_backend (cid s) result 0 (put_store b st w)}}"

section \<open>The I/O queue\<close>

definition io_execute :: "'s env \<Rightarrow> u16 \<Rightarrow> sqe \<Rightarrow> io_state \<Rightarrow> 's world \<Rightarrow> (exec_result \<times> 's world) option" where
  "io_execute ev tag s io w =
     (let c = cid s in
      case (case io_subsys io of None \<Rightarrow> None | Some k \<Rightarrow> port_subsystem (w_port w) k) of
        None \<Rightarrow> finished (err_outcome c (CMD_SEQ_ERROR OR DNR) w)
      | Some subsys \<Rightarrow>
          let (table, cache) = ns_cache_get (sub_generation subsys) subsys (io_ns_cache io);
              w = set_role (Io (io\<lparr>io_ns_cache := cache\<rparr>)) w in
          case map_of table (nsid s) of
            None \<Rightarrow> finished (err_outcome c (INVALID_NS OR DNR) w)
          | Some ns \<Rightarrow>
              let b = ns_backend ns; ops = ev_ops ev in
              if opcode s = FLUSH then
                let w = upd_stats (\<lambda>st. st\<lparr>flush_cmds := flush_cmds st + 1\<rparr>) w in do {
                (result, st) \<leftarrow> be_flush ops (w_stores w b);
                finished (map_backend c result 0 (put_store b st w))}
              else if opcode s = READ then
                io_read ev b tag s (upd_stats (\<lambda>st. st\<lparr>read_cmds := read_cmds st + 1\<rparr>) w)
              else if opcode s = WRITE then
                finished (io_write ev b tag s (upd_stats (\<lambda>st. st\<lparr>write_cmds := write_cmds st + 1\<rparr>) w))
              else if opcode s = WRITE_ZEROES then
                let w = upd_stats (\<lambda>st. st\<lparr>other_cmds := other_cmds st + 1\<rparr>) w;
                    rw = rw_parse s;
                    range = \<lparr>lr_slba = rw_slba rw, lr_nlb = ucast (rw_nlb rw) + 1\<rparr> in do {
                (result, st) \<leftarrow> be_write_zeroes ops range (w_stores w b);
                finished (map_backend c result 0 (put_store b st w))}
              else if opcode s = DSM then
                finished (io_dsm ev b tag s (upd_stats (\<lambda>st. st\<lparr>other_cmds := other_cmds st + 1\<rparr>) w))
              else
                finished (err_outcome c (INVALID_OPCODE OR DNR)
                  (upd_stats (\<lambda>st. st\<lparr>other_cmds := other_cmds st + 1\<rparr>) w)))"

section \<open>The transfer check\<close>

lemma unat_succ16: "unat (ucast (x :: u16) + 1 :: u64) = unat x + 1"
proof -
  have "unat x < 65536" using unsigned_less [of x, where 'a = nat] by simp
  then show ?thesis by (simp add: unat_word_ariths unsigned_ucast_eq take_bit_nat_eq_self)
qed

lemma unat_of_nat_32: "n \<le> 131072 \<Longrightarrow> unat (of_nat n :: u32) = n"
  by (simp add: unsigned_of_nat take_bit_nat_eq_self)

lemma checked_len_spec:
  fixes ops :: "'s backend" and st :: 's and s :: sqe
  assumes sh: "unat (block_shift ops st) < 32"
  defines "k \<equiv> unat (rw_nlb (rw_parse s)) + 1" and "bs \<equiv> 2 ^ unat (block_shift ops st)"
  shows "checked_len ops st s = Some (
    if 131072 < k * bs then Inl (INVALID_FIELD OR DNR)
    else if unat (sgl_length (dptr s) AND 0x00FFFFFF) \<noteq> k * bs then Inl (DATA_SGL_LEN_INVALID OR DNR)
    else if unat (nr_blocks ops st) < unat (rw_slba (rw_parse s)) + k then Inl (LBA_RANGE OR DNR)
    else Inr (rw_parse s, of_nat (k * bs)))"
proof -
  let ?nlb = "ucast (rw_nlb (rw_parse s)) + 1 :: u64"
  have nlb: "unat ?nlb = k" by (simp add: k_def unat_succ16)
  have "k \<le> 2 ^ 16" unfolding k_def using unsigned_less [of "rw_nlb (rw_parse s)", where 'a = nat] by simp
  moreover have "bs < 2 ^ 32" unfolding bs_def using sh by (intro power_strict_increasing) simp_all
  ultimately have "k * bs < 2 ^ 16 * 2 ^ 32" by (intro mult_le_less_imp_less) (simp_all add: k_def bs_def)
  then have lt: "k * bs < 2 ^ 64" by simp
  then have len: "unat (push_bit (unat (block_shift ops st)) ?nlb) = k * bs"
    using unat_push_bit [of ?nlb "unat (block_shift ops st)"] unfolding nlb bs_def by simp
  have big: "(ucast MDTS_BYTES < push_bit (unat (block_shift ops st)) ?nlb) = (131072 < k * bs)"
    unfolding word_less_nat_alt len by simp
  have sgl: "(ucast (sgl_length (dptr s) AND 0x00FFFFFF) = push_bit (unat (block_shift ops st)) ?nlb) =
      (unat (sgl_length (dptr s) AND 0x00FFFFFF) = k * bs)"
    unfolding word_unat_eq_iff len
    using unsigned_less [of "sgl_length (dptr s) AND 0x00FFFFFF", where 'a = nat]
    by (simp add: unsigned_ucast_eq take_bit_nat_eq_self)
  have cast: "(ucast (push_bit (unat (block_shift ops st)) ?nlb) :: u32) = of_nat (k * bs)" if "k * bs \<le> 131072"
    using len that by (simp add: word_unat_eq_iff unsigned_ucast_eq unsigned_of_nat take_bit_nat_eq_self del: of_nat_mult)
  show ?thesis
    using sh cast unfolding checked_len_def Let_def big sgl check_range_iff nlb by (auto simp: nvme_status_def)
qed

section \<open>Every I/O command is answered or waits for its buffer\<close>

lemma buf_shape_aligned:
  assumes "buf_shape d" "bs dvd PAGE"
  shows "segs_aligned bs (sd_segs d)"
proof -
  have "segs_aligned bs gs" if "\<forall>g \<in> set gs. PAGE dvd seg_len g" for gs
    using that dvd_trans [OF assms(2)] by (induction bs gs rule: segs_aligned.induct) auto
  moreover have "segs_aligned bs gs" if "length gs \<le> 1" for gs
    using that by (cases gs) auto
  ultimately show ?thesis using assms(1) by (auto simp: buf_shape_def)
qed

text \<open>A read that waits for its buffer is within its store.\<close>

definition suspension_ok :: "'s backend \<Rightarrow> suspension \<Rightarrow> 's world \<Rightarrow> bool" where
  "suspension_ok ops p w \<longleftrightarrow> (case p of
     AwaitEvent \<Rightarrow> (\<exists>a. w_role w = Admin a)
   | AwaitLease b rw len \<Rightarrow> (\<exists>k. unat len = k * 2 ^ unat (block_shift ops (w_stores w b)) \<and>
       unat (rw_slba rw) + k \<le> unat (nr_blocks ops (w_stores w b))))"

definition executes ::
  "'s backend \<Rightarrow> ('s \<Rightarrow> bool) \<Rightarrow> nat set \<Rightarrow> u16 \<Rightarrow> u16 \<Rightarrow> u16 \<Rightarrow> (exec_result \<times> 's world) option \<Rightarrow> bool" where
  "executes ops ok R i tag c r \<longleftrightarrow> (\<exists>x w'. r = Some (x, w') \<and> world_ok ok R i tag w' \<and>
     (case x of Finished out \<Rightarrow> answer_ok i tag c out w' | Suspended p \<Rightarrow> suspension_ok ops p w'))"

lemma executes_finished: "answers ok R i tag c r \<Longrightarrow> executes ops ok R i tag c (finished r)"
  by (auto simp: answers_def executes_def finished_def)

lemma put_store_sel [world]:
  "w_ctx (put_store b st w) = w_ctx w" "w_registry (put_store b st w) = w_registry w"
  "w_port (put_store b st w) = w_port w" "w_mem (put_store b st w) = w_mem w"
  "w_stores (put_store b st w) = (w_stores w)(b := st)"
  by (simp_all add: put_store_def)

lemma world_ok_put_store: "world_ok ok R i tag w \<Longrightarrow> ok st \<Longrightarrow> world_ok ok R i tag (put_store b st w)"
  by (simp add: world_ok_def world)

lemma err_outcome_answers: "world_ok ok R i tag w \<Longrightarrow> answers ok R i tag c (err_outcome c code w)"
  by (simp add: err_outcome_def reply_answers)

lemma map_backend_answers:
  assumes "world_ok ok R i tag w" "slot_of (w_slots w) tag = Some s" "unat n \<le> sd_len (slot_data s)"
  shows "answers ok R i tag c (map_backend c r n w)"
  using err_outcome_answers [OF assms(1)] reply_data_answers [OF assms]
  by (simp add: map_backend_def split: sum.split)

lemma map_backend_status: "world_ok ok R i tag w \<Longrightarrow> answers ok R i tag c (map_backend c r 0 w)"
  using map_backend_answers [of ok R i tag w _ 0] by (auto simp: world_ok_def)

context io_device
begin

lemma block_dvd_page: "inv s \<Longrightarrow> 2 ^ unat (block_shift ops s) dvd PAGE"
  using shift_page [of s] le_imp_power_dvd [of "unat (block_shift ops s)" 12 "2 :: nat"] by (simp add: PAGE_def)

lemma shifts: "shifts_ok ops inv"
  using shift_small by (force simp: shifts_ok_def)

lemma read_resume_ok:
  assumes w: "world_ok inv R i tag w" and ops: "ev_ops ev = ops"
    and len: "unat len = k * 2 ^ unat (block_shift ops (w_stores w b))"
    and range: "unat (rw_slba rw) + k \<le> unat (nr_blocks ops (w_stores w b))"
  shows "executes ops inv R i tag (cid s) (read_resume ev tag s b rw len w)"
proof -
  have inv: "slots_inv R (w_slots w)" and st: "inv (w_stores w b)" using w by (simp_all add: world_ok_def)
  obtain t where t: "slot_of (w_slots w) tag = Some t" "slot_state t \<noteq> Free" using w by (auto simp: world_ok_def)
  from inv t show ?thesis
  proof (cases rule: lease_await_buf [where w = "ev_waker ev" and len = "unat len"])
    case (parked a')
    have "world_ok inv R i tag (put_slots a' [] [] w)"
      using world_ok_put_slots [OF w parked(2) t(1), of t] parked(3) t w
      by (simp add: slot_of_Some world_ok_def)
    moreover have "suspension_ok ops (AwaitLease b rw len) (put_slots a' [] [] w)"
      using len range by (auto simp: suspension_ok_def world)
    ultimately show ?thesis using parked(1) by (simp add: read_resume_def executes_def)
  next
    case (leased a' ws bids d)
    let ?w = "put_slots a' ws bids w"
    have w1: "world_ok inv R i tag ?w"
      using world_ok_put_slots [OF w leased(2) t(1) leased(3)] leased(5) t(2) by simp
    have "segs_disjoint (sd_segs d)" "sd_len d = sum_list (map seg_len (sd_segs d))"
      using leased(7) by (simp_all add: slot_data_wf_def)
    then obtain m where m: "be_read_segs ops (rw_slba rw) (sd_segs d) (unat len) (slot_index ev ?w d)
        (w_stores w b) (w_mem w) = Some (Inr (), m)"
      using read_segs_spec [OF st refl _ buf_shape_aligned [OF leased(5) block_dvd_page [OF st]] len, of "rw_slba rw" "w_mem w"]
        read_segs_default [OF st] range leased(6) by auto
    show ?thesis
      unfolding read_resume_def using leased(1,4,6) m w1 ops
      by (auto simp: world intro!: executes_finished map_backend_answers [where s = "t\<lparr>slot_data := d\<rparr>"])
  qed
qed

lemma io_read_ok:
  assumes w: "world_ok inv R i tag w" and ops: "ev_ops ev = ops"
  shows "executes ops inv R i tag (cid s) (io_read ev b tag s w)"
proof -
  let ?st = "w_stores w b"
  define k where "k = unat (rw_nlb (rw_parse s)) + 1"
  define n where "n = k * 2 ^ unat (block_shift ops ?st)"
  have st: "inv ?st" using w by (simp add: world_ok_def)
  note c = checked_len_spec [OF shift_small [OF st], of s, folded k_def, folded n_def]
  have "executes ops inv R i tag (cid s) (read_resume ev tag s b (rw_parse s) (of_nat n) w)"
    if "n \<le> 131072" "unat (rw_slba (rw_parse s)) + k \<le> unat (nr_blocks ops ?st)"
    using that by (intro read_resume_ok [OF w ops, of _ k]) (simp_all add: unat_of_nat_32, simp add: n_def)
  then show ?thesis
    unfolding io_read_def ops c using err_outcome_answers [OF w] by (simp add: executes_finished)
qed

lemma io_write_ok:
  assumes w: "world_ok inv R i tag w" and ops: "ev_ops ev = ops"
    and cap: "\<forall>t. slot_of (w_slots w) tag = Some t \<longrightarrow> unat (slot_data_len t) \<le> sd_len (slot_data t)"
  shows "answers inv R i tag (cid s) (io_write ev b tag s w)"
proof -
  let ?st = "w_stores w b" and ?rw = "rw_parse s"
  define k where "k = unat (rw_nlb ?rw) + 1"
  define n where "n = k * 2 ^ unat (block_shift ops ?st)"
  have st: "inv ?st" using w by (simp add: world_ok_def)
  obtain t where t: "slot_of (w_slots w) tag = Some t" using w by (auto simp: world_ok_def)
  have tt: "buf_shape (slot_data t)" "slot_data_wf (slot_data t)"
    using w t tags_inv_slot(4) [OF _ t] by (auto simp: world_ok_def slots_inv_def slot_of_Some)
  note c = checked_len_spec [OF shift_small [OF st], of s, folded k_def, folded n_def]
  show ?thesis
  proof (cases "n \<le> 131072 \<and> unat (rw_slba ?rw) + k \<le> unat (nr_blocks ops ?st) \<and> slot_data_len t = of_nat n")
    case True
    then have n: "unat (of_nat n :: u32) = n" using unat_of_nat_32 by blast
    then have "n \<le> sum_list (map seg_len (sd_segs (slot_data t)))"
      using cap t tt(2) True by (auto simp: slot_data_wf_def)
    then obtain x st' where x: "be_write_segs ops (rw_slba ?rw) (sd_segs (slot_data t)) n
        (slot_index ev w (slot_data t)) (w_mem w) ?st = Some (x, st')" "inv st'"
      using write_segs_spec [OF st refl buf_shape_aligned [OF tt(1) block_dvd_page [OF st]] n_def, of "rw_slba ?rw" "w_mem w"]
        write_segs_default [OF st] True by auto
    obtain y st'' where y: "be_flush ops st' = Some (y, st'')" "inv st''" using flush_ok [OF x(2)] by blast
    have st2: "world_ok inv R i tag (put_store b st' w)" "world_ok inv R i tag (put_store b st'' w)"
      using world_ok_put_store [OF w] x(2) y(2) by blast+
    show ?thesis
      unfolding io_write_def ops c using True t x(1) y(1) n st2
      by (cases x; cases y) (simp_all add: map_backend_status err_outcome_answers [OF w])
  next
    case False
    then show ?thesis
      unfolding io_write_def ops c using t err_outcome_answers [OF w] by auto
  qed
qed

lemma io_dsm_ok:
  assumes w: "world_ok inv R i tag w" and ops: "ev_ops ev = ops"
    and cap: "\<forall>t. slot_of (w_slots w) tag = Some t \<longrightarrow> unat (slot_data_len t) \<le> sd_len (slot_data t)"
  shows "answers inv R i tag (cid s) (io_dsm ev b tag s w)"
proof -
  let ?nr = "unat (cdw10 s AND 0xFF) + 1"
  have st: "inv (w_stores w b)" using w by (simp add: world_ok_def)
  obtain t where t: "slot_of (w_slots w) tag = Some t" using w by (auto simp: world_ok_def)
  have tt: "slot_data_wf (slot_data t)" using w tags_inv_slot(4) [OF _ t] by (auto simp: world_ok_def slots_inv_def)
  show ?thesis
  proof (cases "?nr * 16 \<le> unat (slot_data_len t)")
    case True
    then have "0 + ?nr * 16 \<le> sd_len (slot_data t)" using cap t by auto
    then obtain cs where cs: "for_each_seg (w_mem w) (slot_data t) 0 (?nr * 16) = Some cs"
      by (rule for_each_seg_spec [OF tt])
    obtain x st' where x: "be_discard ops (dsm_ranges ?nr (concat cs)) (w_stores w b) = Some (x, st')" "inv st'"
      using discard_ok [OF st] by blast
    have "world_ok inv R i tag (put_store b st' w)" by (rule world_ok_put_store [OF w x(2)])
    then show ?thesis
      unfolding io_dsm_def using True t cs x(1) ops reply_answers [OF w] by (simp add: map_backend_status)
  next
    case False
    then show ?thesis unfolding io_dsm_def using t err_outcome_answers [OF w] by simp
  qed
qed

lemma io_execute_ok:
  assumes w: "world_ok inv R i tag w" and ops: "ev_ops ev = ops"
    and cap: "\<forall>t. slot_of (w_slots w) tag = Some t \<longrightarrow> unat (slot_data_len t) \<le> sd_len (slot_data t)"
  shows "executes ops inv R i tag (cid s) (io_execute ev tag s io w)"
proof -
  have flush: "executes ops inv R i tag (cid s) (do {
      (result, st) \<leftarrow> be_flush ops (w_stores v b); finished (map_backend (cid s) result 0 (put_store b st v))})"
    if v: "world_ok inv R i tag v" for v b
  proof -
    have "inv (w_stores v b)" using v by (simp add: world_ok_def)
    then obtain x st where "be_flush ops (w_stores v b) = Some (x, st)" "inv st" using flush_ok by blast
    then show ?thesis
      using executes_finished [OF map_backend_status [OF world_ok_put_store [OF v, of st b]], of ops "cid s" x]
      by (simp only: Option.bind.simps prod.case)
  qed
  have zeroes: "executes ops inv R i tag (cid s) (do {
      (result, st) \<leftarrow> be_write_zeroes ops r (w_stores v b); finished (map_backend (cid s) result 0 (put_store b st v))})"
    if v: "world_ok inv R i tag v" for v b r
  proof -
    have st: "inv (w_stores v b)" using v by (simp add: world_ok_def)
    then obtain x st where "be_write_zeroes ops r (w_stores v b) = Some (x, st)" "inv st"
      using zeroes_ok [OF st, of r] zeroes_range [OF st, of r] st by (metis not_less)
    then show ?thesis
      using executes_finished [OF map_backend_status [OF world_ok_put_store [OF v, of st b]], of ops "cid s" x]
      by (simp only: Option.bind.simps prod.case)
  qed
  show ?thesis
  proof (cases "case io_subsys io of None \<Rightarrow> None | Some k \<Rightarrow> port_subsystem (w_port w) k")
    case None
    then show ?thesis using w by (simp add: io_execute_def executes_finished err_outcome_answers)
  next
    case (Some subsys)
    obtain table cache where tc: "ns_cache_get (sub_generation subsys) subsys (io_ns_cache io) = (table, cache)" by fastforce
    define v where "v = set_role (Io (io\<lparr>io_ns_cache := cache\<rparr>)) w"
    have v: "world_ok inv R i tag (upd_stats f v)" "w_slots (upd_stats f v) = w_slots w" "world_ok inv R i tag v" for f
      using w by (simp_all add: v_def world)
    show ?thesis
    proof (cases "map_of table (nsid s)")
      case None
      then show ?thesis
        using Some tc v(3) by (simp add: io_execute_def v_def [symmetric] executes_finished err_outcome_answers)
    next
      case ns: (Some ns)
      show ?thesis
        unfolding io_execute_def Let_def Some option.case tc prod.case v_def [symmetric] ns ops
        using cap by (simp only: if_split flush [OF v(1)] zeroes [OF v(1)] io_read_ok [OF v(1) ops] io_write_ok [OF v(1) ops]
          io_dsm_ok [OF v(1) ops] v(2) executes_finished err_outcome_answers [OF v(1)] simp_thms)
    qed
  qed
qed

end

end
