(* ===== verification/Nvme_Exec.thy ===== *)
theory Nvme_Exec
  imports Admin_Exec Io_Exec
begin

text \<open>
  The command router (\<^verbatim>\<open>execute\<close> of \<^verbatim>\<open>crates/ioutgt-nvme/src/dispatch.rs\<close>) and the properties of
  the command path as a whole.
\<close>

definition execute :: "'s env \<Rightarrow> u16 \<Rightarrow> sqe \<Rightarrow> 's world \<Rightarrow> (exec_result \<times> 's world) option" where
  "execute ev tag s w =
     (let w = (case w_role w of Admin a \<Rightarrow> set_role (Admin (a\<lparr>last_heard := ev_now ev\<rparr>)) w | Io _ \<Rightarrow> w);
          other = upd_stats (\<lambda>st. st\<lparr>other_cmds := other_cmds st + 1\<rparr>) in
      if opcode s = FABRICS then finished (fabrics_execute (ev_thread ev) s (other w))
      else case w_role w of
        Admin a \<Rightarrow>
          if \<not> ready (regs a) then finished (reply 0 (cid s) (CONNECT_CTRL_BUSY OR DNR) (other w))
          else map_option (\<lambda>(p, w). (case p of Ready out \<Rightarrow> Finished out | Pending \<Rightarrow> Suspended AwaitEvent, w))
            (admin_execute (ev_ops ev) (ev_waker ev) (ev_addr ev) tag s a (other w))
      | Io io \<Rightarrow> io_execute ev tag s io w)"

text \<open>A later poll of a suspended command.\<close>

definition resume :: "'s env \<Rightarrow> u16 \<Rightarrow> sqe \<Rightarrow> suspension \<Rightarrow> 's world \<Rightarrow> (exec_result \<times> 's world) option" where
  "resume ev tag s p w =
     (case p of
        AwaitEvent \<Rightarrow>
          (case w_role w of
             Io _ \<Rightarrow> None
           | Admin a \<Rightarrow>
               map_option (\<lambda>(p, w). (case p of Ready out \<Rightarrow> Finished out | Pending \<Rightarrow> Suspended AwaitEvent, w))
                 (aer_poll (ev_waker ev) s a w))
      | AwaitLease b rw len \<Rightarrow> read_resume ev tag s b rw len w)"

section \<open>No command panics the target\<close>

text \<open>The payload the transport delivered is in the buffer of the slot.\<close>

definition payload_ok :: "u16 \<Rightarrow> 's world \<Rightarrow> bool" where
  "payload_ok tag w \<longleftrightarrow> (\<forall>t. slot_of (w_slots w) tag = Some t \<longrightarrow> unat (slot_data_len t) \<le> sd_len (slot_data t))"

lemma executes_poll:
  assumes "polls ok R i tag c r" and "\<forall>w'. r = Some (Pending, w') \<longrightarrow> (\<exists>a. w_role w' = Admin a)"
  shows "executes ops ok R i tag c
    (map_option (\<lambda>(p, w). (case p of Ready out \<Rightarrow> Finished out | Pending \<Rightarrow> Suspended AwaitEvent, w)) r)"
proof -
  obtain p w' where r: "r = Some (p, w')" "world_ok ok R i tag w'"
    "case p of Ready out \<Rightarrow> answer_ok i tag c out w' | Pending \<Rightarrow> True"
    using assms(1) by (auto simp: polls_def)
  then show ?thesis using assms(2) by (cases p) (auto simp: executes_def suspension_ok_def)
qed

lemma aer_pending: "aer_poll waker s a w = Some (Pending, w') \<Longrightarrow> \<exists>a. w_role w' = Admin a"
  by (auto simp: aer_poll_def world split: if_splits list.splits)

lemma admin_pending: "admin_execute ops waker addr tag s a w = Some (Pending, w') \<Longrightarrow> \<exists>a. w_role w' = Admin a"
  by (auto simp: admin_execute_def Let_def dest: aer_pending split: if_splits)

context io_device
begin

lemma execute_ok:
  assumes w: "world_ok inv R i tag w" and ops: "ev_ops ev = ops" and s: "sqe_wf s" and p: "payload_ok tag w"
  shows "executes ops inv R i tag (cid s) (execute ev tag s w)"
proof -
  define v where "v = (case w_role w of Admin a \<Rightarrow> set_role (Admin (a\<lparr>last_heard := ev_now ev\<rparr>)) w | Io _ \<Rightarrow> w)"
  have v: "world_ok inv R i tag v" "world_ok inv R i tag (upd_stats f v)" for f
    using w by (simp_all add: v_def split: role.split)
  have slots: "w_slots v = w_slots w" by (simp add: v_def world split: role.split)
  have admin: "executes ops inv R i tag (cid s)
      (map_option (\<lambda>(p, w). (case p of Ready out \<Rightarrow> Finished out | Pending \<Rightarrow> Suspended AwaitEvent, w))
        (admin_execute ops (ev_waker ev) (ev_addr ev) tag s a (upd_stats f v)))" for f a
    by (intro executes_poll admin_polls [OF v(2) shifts] allI impI) (rule admin_pending)
  show ?thesis
    unfolding execute_def Let_def v_def [symmetric] ops
    using executes_finished [OF fabrics_answers [OF v(2) s]] executes_finished [OF reply_answers [OF v(2)]] admin
      io_execute_ok [OF v(1) ops] p unfolding payload_ok_def slots
    by (simp split: role.split)
qed

lemma resume_ok:
  assumes w: "world_ok inv R i tag w" and ops: "ev_ops ev = ops" and p: "suspension_ok ops p w"
  shows "executes ops inv R i tag (cid s) (resume ev tag s p w)"
proof (cases p)
  case AwaitEvent
  then obtain a where a: "w_role w = Admin a" using p by (auto simp: suspension_ok_def)
  have "executes ops inv R i tag (cid s)
      (map_option (\<lambda>(p, w). (case p of Ready out \<Rightarrow> Finished out | Pending \<Rightarrow> Suspended AwaitEvent, w))
        (aer_poll (ev_waker ev) s a w))"
    by (intro executes_poll aer_polls [OF w] allI impI) (rule aer_pending)
  then show ?thesis using AwaitEvent a by (simp add: resume_def)
next
  case (AwaitLease b rw len)
  then obtain k where "unat len = k * 2 ^ unat (block_shift ops (w_stores w b))"
    "unat (rw_slba rw) + k \<le> unat (nr_blocks ops (w_stores w b))" using p by (auto simp: suspension_ok_def)
  then show ?thesis using AwaitLease read_resume_ok [OF w ops] by (simp add: resume_def)
qed

end

section \<open>What a Write stores, a Read returns\<close>

text \<open>The store behind a namespace, as an I/O queue resolves it.\<close>

definition io_backend :: "'s world \<Rightarrow> u32 \<Rightarrow> nat option" where
  "io_backend w n = (case w_role w of
     Admin _ \<Rightarrow> None
   | Io io \<Rightarrow> do {
       k \<leftarrow> io_subsys io;
       sub \<leftarrow> port_subsystem (w_port w) k;
       ns \<leftarrow> map_of (fst (ns_cache_get (sub_generation sub) sub (io_ns_cache io))) n;
       Some (ns_backend ns)})"

text \<open>A transfer that passes the checks: at most 128 KiB, as long as its SGL says, within the store.\<close>

definition transfer_ok :: "'s backend \<Rightarrow> 's \<Rightarrow> sqe \<Rightarrow> nat \<Rightarrow> nat \<Rightarrow> bool" where
  "transfer_ok ops st s off n \<longleftrightarrow>
     n = (unat (rw_nlb (rw_parse s)) + 1) * 2 ^ unat (block_shift ops st) \<and> n \<le> 131072 \<and>
     unat (sgl_length (dptr s) AND 0x00FFFFFF) = n \<and>
     unat (rw_slba (rw_parse s)) + (unat (rw_nlb (rw_parse s)) + 1) \<le> unat (nr_blocks ops st) \<and>
     off = unat (rw_slba (rw_parse s)) * 2 ^ unat (block_shift ops st)"

lemma ns_cache_get_again:
  "ns_cache_get g s c = (t, c') \<Longrightarrow> ns_cache_get g s c' = (t, c')"
  by (auto simp: ns_cache_get_def Let_def split: if_splits)

lemma reply_data_eq:
  assumes "world_ok ok R i tag w"
  obtains h h' where "reply_data c n w = Some (outcome_with_data (cqe_new 0 h i c SUCCESS) n, upd_queue (\<lambda>q. q\<lparr>sqhd := h'\<rparr>) w)"
    "world_ok ok R i tag (upd_queue (\<lambda>q. q\<lparr>sqhd := h'\<rparr>) w)"
proof -
  have q: "queue_ok (w_queue w)" "qid (w_queue w) = i" using assms by (auto simp: world_ok_def)
  obtain h h' where "ctx_cqe 0 c SUCCESS w = Some (cqe_new 0 h (qid (w_queue w)) c SUCCESS, upd_queue (\<lambda>q. q\<lparr>sqhd := h'\<rparr>) w)"
    "queue_ok ((w_queue w)\<lparr>sqhd := h'\<rparr>)" by (rule ctx_cqe_ok [OF q(1)])
  then show thesis using that world_ok_sqhd [OF assms] q(2) by (simp add: reply_data_def)
qed

text \<open>A command on a queue that resolves its namespace reaches the handler of its opcode.\<close>

lemma execute_io:
  assumes "io_backend w (nsid s) = Some b" "opcode s \<noteq> FABRICS"
  obtains v where "\<And>t. w_slots (upd_stats t v) = w_slots w" "w_stores v = w_stores w" "w_mem v = w_mem w"
    "\<And>ok R i tag. world_ok ok R i tag v = world_ok ok R i tag w" "\<And>n. io_backend v n = io_backend w n"
    "opcode s = READ \<Longrightarrow> execute ev tag s w = io_read ev b tag s (upd_stats (\<lambda>st. st\<lparr>read_cmds := read_cmds st + 1\<rparr>) v)"
    "opcode s = WRITE \<Longrightarrow> execute ev tag s w = finished (io_write ev b tag s (upd_stats (\<lambda>st. st\<lparr>write_cmds := write_cmds st + 1\<rparr>) v))"
proof -
  obtain io k sub where io: "w_role w = Io io" "io_subsys io = Some k" "port_subsystem (w_port w) k = Some sub"
    using assms(1) by (auto simp: io_backend_def split: role.splits bind_splits)
  obtain table cache where tc: "ns_cache_get (sub_generation sub) sub (io_ns_cache io) = (table, cache)" by fastforce
  then obtain ns where ns: "map_of table (nsid s) = Some ns" "ns_backend ns = b"
    using assms(1) io by (auto simp: io_backend_def split: bind_splits)
  define v where "v = set_role (Io (io\<lparr>io_ns_cache := cache\<rparr>)) w"
  have e: "execute ev tag s w = io_execute ev tag s io w" using io(1) assms(2) by (simp add: execute_def)
  have "io_backend v n = io_backend w n" for n
    using io tc ns_cache_get_again [OF tc] by (simp add: io_backend_def v_def world)
  then show thesis
    using that [of v] io ns tc assms(2) unfolding e
    by (simp add: v_def world io_execute_def)
qed

lemma io_backend_upd [simp]:
  "io_backend (upd_stats f w) n = io_backend w n" "io_backend (upd_queue g w) n = io_backend w n"
  "io_backend (put_store b st w) n = io_backend w n" "io_backend (put_slots a ws bids w) n = io_backend w n"
  "io_backend (w\<lparr>w_mem := m\<rparr>) n = io_backend w n"
  by (cases "w_role w"; simp add: io_backend_def world)+

context io_device
begin

lemma checked_len_ok:
  "inv st \<Longrightarrow> transfer_ok ops st s off n \<Longrightarrow> checked_len ops st s = Some (Inr (rw_parse s, of_nat n))"
  unfolding checked_len_spec [OF shift_small] transfer_ok_def by auto

lemma write_stores:
  assumes w: "world_ok inv R i tag w" and ops: "ev_ops ev = ops" and b: "io_backend w (nsid s) = Some b"
    and op: "opcode s = WRITE" and tr: "transfer_ok ops (w_stores w b) s off n"
    and t: "slot_of (w_slots w) tag = Some t" "unat (slot_data_len t) = n" "n \<le> sd_len (slot_data t)"
  obtains out w' where "execute ev tag s w = Some (Finished out, w')" "cqe_status (oc_cqe out) = 0" "cqe_cid (oc_cqe out) = cid s"
    "world_ok inv R i tag w'" "w_slots w' = w_slots w" "w_mem w' = w_mem w" "\<And>m. io_backend w' m = io_backend w m"
    "disk (w_stores w' b) = splice off (take n (contents (w_mem w) (slot_data t))) (disk (w_stores w b))"
    "block_shift ops (w_stores w' b) = block_shift ops (w_stores w b)" "nr_blocks ops (w_stores w' b) = nr_blocks ops (w_stores w b)"
    "\<And>b'. b' \<noteq> b \<Longrightarrow> w_stores w' b' = w_stores w b'"
proof -
  let ?rw = "rw_parse s" and ?st = "w_stores w b"
  have st: "inv ?st" using w by (simp add: world_ok_def)
  have n: "n \<le> 131072" "n = (unat (rw_nlb ?rw) + 1) * 2 ^ unat (block_shift ops ?st)"
    "unat (rw_slba ?rw) + (unat (rw_nlb ?rw) + 1) \<le> unat (nr_blocks ops ?st)"
    "off = unat (rw_slba ?rw) * 2 ^ unat (block_shift ops ?st)" using tr by (simp_all add: transfer_ok_def)
  have nw: "unat (of_nat n :: u32) = n" by (rule unat_of_nat_32 [OF n(1)])
  then have dl: "slot_data_len t = of_nat n" using t(2) by (simp add: word_unat_eq_iff)
  have tt: "buf_shape (slot_data t)" "slot_data_wf (slot_data t)"
    using w t tags_inv_slot(4) [OF _ t(1)] by (auto simp: world_ok_def slots_inv_def slot_of_Some)
  have cap: "n \<le> sum_list (map seg_len (sd_segs (slot_data t)))" using t(3) tt(2) by (simp add: slot_data_wf_def)
  obtain st1 where st1: "\<And>j. be_write_segs ops (rw_slba ?rw) (sd_segs (slot_data t)) n j (w_mem w) ?st = Some (Inr (), st1)"
    "inv st1" "disk st1 = splice off (take n (contents (w_mem w) (slot_data t))) (disk ?st)"
    "block_shift ops st1 = block_shift ops ?st" "nr_blocks ops st1 = nr_blocks ops ?st"
    using write_segs_spec [OF st refl buf_shape_aligned [OF tt(1) block_dvd_page [OF st]] n(2) cap n(3), of "w_mem w"]
      write_segs_default [OF st] n(4) by (auto simp: contents_def)
  obtain st2 where st2: "be_flush ops st1 = Some (Inr (), st2)" "inv st2" "disk st2 = disk st1"
    "block_shift ops st2 = block_shift ops st1" "nr_blocks ops st2 = nr_blocks ops st1" using flush_ok [OF st1(2)] by blast
  define fin where "fin = (if rw_fua ?rw then st2 else st1)"
  have fin: "inv fin" "disk fin = splice off (take n (contents (w_mem w) (slot_data t))) (disk ?st)"
    "block_shift ops fin = block_shift ops ?st" "nr_blocks ops fin = nr_blocks ops ?st"
    using st1 st2 by (simp_all add: fin_def)
  obtain v where v: "\<And>t. w_slots (upd_stats t v) = w_slots w" "w_stores v = w_stores w" "w_mem v = w_mem w"
    "\<And>ok R i tag. world_ok ok R i tag v = world_ok ok R i tag w" "\<And>n. io_backend v n = io_backend w n"
    "execute ev tag s w = finished (io_write ev b tag s (upd_stats (\<lambda>st. st\<lparr>write_cmds := write_cmds st + 1\<rparr>) v))"
  proof (rule execute_io [OF b, of ev tag])
    show "opcode s \<noteq> FABRICS" using op by simp
  qed (use op in blast)
  define u where "u = upd_stats (\<lambda>st. st\<lparr>write_cmds := write_cmds st + 1\<rparr>) v"
  define x where "x = upd_stats (\<lambda>st. st\<lparr>write_bytes := write_bytes st + ucast (of_nat n :: u32)\<rparr>) (put_store b fin u)"
  have u: "w_slots u = w_slots w" "w_stores u = w_stores w" "w_mem u = w_mem w" using v by (simp_all add: u_def world)
  have x: "world_ok inv R i tag x" using w v(4) fin(1) by (simp add: x_def u_def world_ok_put_store)
  have "io_write ev b tag s u = reply_data (cid s) 0 x"
    unfolding io_write_def ops u using checked_len_ok [OF st tr] t(1) dl nw st1(1) st2(1)
    by (simp add: x_def fin_def map_backend_def)
  moreover obtain h h' where "reply_data (cid s) 0 x = Some (outcome_with_data (cqe_new 0 h i (cid s) SUCCESS) 0, upd_queue (\<lambda>q. q\<lparr>sqhd := h'\<rparr>) x)"
    "world_ok inv R i tag (upd_queue (\<lambda>q. q\<lparr>sqhd := h'\<rparr>) x)" by (rule reply_data_eq [OF x])
  ultimately show thesis
    using v(5,6) u fin unfolding u_def [symmetric]
    by (intro that [of "outcome_with_data (cqe_new 0 h i (cid s) SUCCESS) 0" "upd_queue (\<lambda>q. q\<lparr>sqhd := h'\<rparr>) x"])
      (simp_all add: finished_def outcome_with_data_def cqe_new_def x_def world, simp add: u_def)
qed

lemma read_returns:
  assumes w: "world_ok inv R i tag w" and ops: "ev_ops ev = ops" and b: "io_backend w (nsid s) = Some b"
    and op: "opcode s = READ" and tr: "transfer_ok ops (w_stores w b) s off n"
    and p: "pool_alloc n (pool (w_slots w)) = Some (Some d, q)"
  obtains out w' t where "execute ev tag s w = Some (Finished out, w')" "cqe_status (oc_cqe out) = 0" "cqe_cid (oc_cqe out) = cid s"
    "unat (oc_data_len out) = n" "world_ok inv R i tag w'" "slot_of (w_slots w') tag = Some t" "slot_data t = d"
    "take n (contents (w_mem w') d) = slice off n (disk (w_stores w b))" "w_stores w' = w_stores w"
    "\<And>a. a \<notin> data_addrs d \<Longrightarrow> w_mem w' a = w_mem w a"
proof -
  let ?rw = "rw_parse s" and ?st = "w_stores w b"
  have st: "inv ?st" using w by (simp add: world_ok_def)
  have n: "n \<le> 131072" "n = (unat (rw_nlb ?rw) + 1) * 2 ^ unat (block_shift ops ?st)"
    "unat (rw_slba ?rw) + (unat (rw_nlb ?rw) + 1) \<le> unat (nr_blocks ops ?st)"
    "off = unat (rw_slba ?rw) * 2 ^ unat (block_shift ops ?st)" using tr by (simp_all add: transfer_ok_def)
  have nw: "unat (of_nat n :: u32) = n" by (rule unat_of_nat_32 [OF n(1)])
  obtain v where v: "\<And>t. w_slots (upd_stats t v) = w_slots w" "w_stores v = w_stores w" "w_mem v = w_mem w"
    "\<And>ok R i tag. world_ok ok R i tag v = world_ok ok R i tag w"
    "execute ev tag s w = io_read ev b tag s (upd_stats (\<lambda>st. st\<lparr>read_cmds := read_cmds st + 1\<rparr>) v)"
  proof (rule execute_io [OF b, of ev tag])
    show "opcode s \<noteq> FABRICS" using op by simp
  qed (use op in blast)
  define u where "u = upd_stats (\<lambda>st. st\<lparr>read_cmds := read_cmds st + 1\<rparr>) v"
  have u: "w_slots u = w_slots w" "w_stores u = w_stores w" "w_mem u = w_mem w" using v by (simp_all add: u_def world)
  have uok: "world_ok inv R i tag u" using w v(4) by (simp add: u_def)
  obtain t where t: "slot_of (w_slots w) tag = Some t" "slot_state t \<noteq> Free" using w by (auto simp: world_ok_def)
  have sinv: "slots_inv R (w_slots w)" using w by (simp add: world_ok_def)
  obtain a e where sd: "set_data tag d ((w_slots w)\<lparr>pool := q\<rparr>) = Some (a, e)" "slots_inv R a"
    using set_data_lease [OF sinv p t] by blast
  obtain ws bids where ee: "e = (ws, bids)" by (cases e)
  have sl: "slots a = (slots (w_slots w))[unat tag := t\<lparr>slot_data := d\<rparr>]" using set_data_slots [OF sd(1)] t(1) by simp
  then have at: "slot_of a tag = Some (t\<lparr>slot_data := d\<rparr>)" using t(1) by (simp add: slot_of_Some)
  have la: "lease_await_poll (ev_waker ev) tag n (w_slots w) = Some (Ready (), a, ws, bids)"
    using p sd(1) ee by (simp add: lease_await_poll_def alloc_poll_def)
  note sh = lease_shape [OF slots_inv_pool [OF sinv] p]
  have cap: "n \<le> sum_list (map seg_len (sd_segs d))" "segs_disjoint (sd_segs d)" using sh(2,3) by (simp_all add: slot_data_wf_def)
  obtain m where m: "\<And>j. be_read_segs ops (rw_slba ?rw) (sd_segs d) n j ?st (w_mem w) = Some (Inr (), m)"
    "contents m d = splice 0 (slice off n (disk ?st)) (contents (w_mem w) d)"
    "\<And>x. x \<notin> data_addrs d \<Longrightarrow> m x = w_mem w x"
    using read_segs_spec [OF st refl cap(2) buf_shape_aligned [OF sh(1) block_dvd_page [OF st]] n(2) cap(1) n(3), of "w_mem w"]
      read_segs_default [OF st] n(4) by (auto simp: contents_def data_addrs_def)
  define x where "x = upd_stats (\<lambda>st. st\<lparr>read_bytes := read_bytes st + ucast (of_nat n :: u32)\<rparr>) ((put_slots a ws bids u)\<lparr>w_mem := m\<rparr>)"
  have x: "world_ok inv R i tag x" unfolding x_def world_ok_upd
    using world_ok_put_slots [OF uok sd(2) _ _ _ _, of t "t\<lparr>slot_data := d\<rparr>" ws bids] u(1) t sl sh(1) by simp
  have "io_read ev b tag s u = finished (reply_data (cid s) (of_nat n) x)"
    unfolding io_read_def read_resume_def ops u using checked_len_ok [OF st tr] la at m(1) nw
    by (simp add: x_def map_backend_def u world)
  moreover obtain h h' where "reply_data (cid s) (of_nat n) x =
      Some (outcome_with_data (cqe_new 0 h i (cid s) SUCCESS) (of_nat n), upd_queue (\<lambda>q. q\<lparr>sqhd := h'\<rparr>) x)"
    "world_ok inv R i tag (upd_queue (\<lambda>q. q\<lparr>sqhd := h'\<rparr>) x)" by (rule reply_data_eq [OF x])
  moreover have "take n (contents m d) = slice off n (disk ?st)"
  proof -
    have "off + n \<le> length (disk ?st)"
      using mult_le_mono1 [OF n(3), of "2 ^ unat (block_shift ops ?st)"] disk_length [OF st] n(2,4)
      by (simp add: add_mult_distrib)
    then have "length (slice off n (disk ?st)) = n" by simp
    then show ?thesis unfolding m(2) by (simp add: splice_def)
  qed
  ultimately show thesis
    using v(5) u at m(3) nw unfolding u_def [symmetric]
    by (intro that [of "outcome_with_data (cqe_new 0 h i (cid s) SUCCESS) (of_nat n)" "upd_queue (\<lambda>q. q\<lparr>sqhd := h'\<rparr>) x" "t\<lparr>slot_data := d\<rparr>"])
      (simp_all add: finished_def outcome_with_data_def cqe_new_def x_def world)
qed

end

lemma world_ok_tag:
  "world_ok ok R i tag w \<Longrightarrow> slot_of (w_slots w) tag' = Some s \<Longrightarrow> slot_state s \<noteq> Free \<Longrightarrow> world_ok ok R i tag' w"
  by (simp add: world_ok_def)

section \<open>A sample target\<close>

text \<open>A queue with two slots in use: slot 0 holds 512 bytes in a leased page, slot 1 no buffer yet. The
  namespace 1 is a RAM disk of 64 KiB.\<close>

definition demo_slots :: "sqe slot_array" where
  "demo_slots =
     the (set_data_len 0 512 (fst (snd (the (try_lease 0 512
       (snd (the (claim_tag (snd (the (claim_tag (fst (the (slot_array_new 4096 2 8192 sqe_zeroed (\<lambda>_. 0)))))))))))))))"

definition demo_world :: "memory_backend world" where
  "demo_world = \<lparr>
     w_ctx = (new_io \<lparr>qslots = demo_slots, sqsize = 2, qid = 1, sqhd = 0, sqhd_disabled = False, stats = queue_stats_new 1\<rparr>
       (connect_data_of_bytes (replicate 1024 0)) ''peer'')
       \<lparr>cx_role := Io \<lparr>io_cntlid = 1, io_subsys = Some ''nqn.a'', io_ns_cache = ns_cache_default, io_traffic = None, io_kato_ms = 0\<rparr>\<rparr>,
     w_registry = the (registry_new 1 100),
     w_port = \<lparr>traddr = ''127.0.0.1'', trsvcid = ''4420'', trtype = Tcp, max_qid = 4, io_queue_size = 128,
       queue_buf_bytes = 8192, recv_buf_bytes = 8192, port_poll = False,
       subsystems = [(''nqn.a'', subsystem_new ''nqn.a'' ''serial'' ''model'' True []
         [(1, \<lparr>ns_nsid = 1, ns_backend = 0, ns_uuid = namespace_uuid ''nqn.a'' 1\<rparr>)])]\<rparr>,
     w_stores = (\<lambda>_. memory_backend_new 65536 9), w_mem = (\<lambda>a. if a < 8192 then 7 else 0), w_woken = [], w_released = []\<rparr>"

definition demo_env :: "memory_backend env" where
  "demo_env = \<lparr>ev_ops = memory_ops, ev_ring_index = (\<lambda>_. None), ev_thread = \<lparr>th_tid = 1, th_cpus = ''0''\<rparr>,
     ev_now = 0, ev_addr = 65536, ev_waker = 5\<rparr>"

definition demo_sqe :: "u8 \<Rightarrow> u16 \<Rightarrow> sqe" where
  "demo_sqe op c = sqe_zeroed\<lparr>opcode := op, cid := c, nsid := 1, cdw10 := 3,
     dptr := (dptr sqe_zeroed)\<lparr>sgl_length := 512\<rparr>\<rparr>"

lemma le_word_zeroes [simp]: "le_word (replicate n 0) = 0"
  by (induction n) simp_all

lemma sqe_zeroed_sel [simp]:
  "cdw10 sqe_zeroed = 0" "cdw11 sqe_zeroed = 0" "cdw12 sqe_zeroed = 0" "cdw13 sqe_zeroed = 0"
  by (simp_all add: sqe_zeroed_def sqe_of_bytes_def slice_def)

lemma demo_sqe_wf: "sqe_wf (demo_sqe op c)"
  using sqe_wf_zeroed by (simp add: demo_sqe_def sqe_wf_def sgl_wf_def)

lemma demo_slots_eval:
  "slots demo_slots =
     [(slot_new sqe_zeroed)\<lparr>slot_state := Receiving, slot_data_len := 512,
        slot_data := \<lparr>sd_segs = [\<lparr>seg_ptr = 4096, seg_len = 4096\<rparr>], sd_len = 4096, sd_owner = OwnerPool\<rparr>\<rparr>,
      (slot_new sqe_zeroed)\<lparr>slot_state := Receiving\<rparr>]"
  "pool demo_slots = \<lparr>pool_base = 4096, npages = 2, free_runs = [\<lparr>run_start = 1, run_len = 1\<rparr>], free_pages = 1,
     pool_waiters = [], pool_buf_index = None, send_arena = None\<rparr>"
  by (simp_all add: demo_slots_def slot_array_new_def buf_pool_new_def pages_for_def
      PAGE_def aligned_buf_zeroed_def claim_tag_def slot_of_def put_slot_def slot_new_def try_lease_def
      pool_alloc_def take_run_def make_lease_def page_ptr_def set_data_def slot_data_drop_def
      slot_data_empty_def upt_rec Let_def vec_remove_def set_data_len_def)

lemma demo_slots_inv: "slots_inv {} demo_slots"
proof -
  have claim: "slots_inv {} (snd (the (claim_tag a)))" if "slots_inv {} a" for a :: "sqe slot_array"
    using claim_tag_inv [OF that] by (cases "claim_tag a") auto
  have "slot_array_new 4096 2 8192 sqe_zeroed (\<lambda>_. 0) \<noteq> None"
    by (simp add: slot_array_new_def buf_pool_new_def pages_for_def PAGE_def aligned_buf_zeroed_def)
  then have "slots_inv {} (fst (the (slot_array_new 4096 2 8192 sqe_zeroed (\<lambda>_. 0))))"
    using slot_array_new_inv(1) by fastforce
  note a = claim [OF claim [OF this]]
  let ?a = "snd (the (claim_tag (snd (the (claim_tag (fst (the (slot_array_new 4096 2 8192 sqe_zeroed (\<lambda>_. 0)))))))))"
  obtain s where "slot_of ?a 0 = Some s" "slot_state s \<noteq> Free"
    by (simp add: slot_array_new_def buf_pool_new_def pages_for_def PAGE_def aligned_buf_zeroed_def claim_tag_def
        slot_of_def put_slot_def slot_new_def upt_rec Let_def)
  then obtain x a' e where a': "try_lease 0 512 ?a = Some (x, a', e)" "slots_inv {} a'"
    using leases_ok(1) [OF a] by blast
  have "set_data_len 0 512 a' \<noteq> None \<Longrightarrow> slots_inv {} (the (set_data_len 0 512 a'))"
    using set_data_len_inv [OF a'(2)] by auto
  moreover have "the (set_data_len 0 512 a') = demo_slots" using a'(1) by (simp add: demo_slots_def)
  moreover have "slots demo_slots \<noteq> []" by (simp add: demo_slots_eval)
  moreover have "set_data_len 0 512 a' = None \<Longrightarrow> slots a' = []" by (simp add: set_data_len_def slot_of_def split: if_splits)
  moreover have "slots a' \<noteq> []" using a'(1)
    by (auto simp: slot_array_new_def buf_pool_new_def pages_for_def PAGE_def aligned_buf_zeroed_def claim_tag_def
        slot_of_def put_slot_def slot_new_def upt_rec Let_def try_lease_def pool_alloc_def take_run_def make_lease_def
        page_ptr_def set_data_def slot_data_drop_def slot_data_empty_def vec_remove_def)
  ultimately show ?thesis by metis
qed

lemma demo_slot [simp]:
  "slot_of demo_slots 0 = Some (slots demo_slots ! 0)" "slot_of demo_slots 1 = Some (slots demo_slots ! 1)"
  by (simp_all add: slot_of_def demo_slots_eval)

lemma demo_store_ok: "ram_ok (memory_backend_new 65536 9)"
  using memory_new_ok(1) [of 9 65536] by (simp add: ram_ok_def memory_backend_new_def Let_def)

lemma demo_world_sel [simp]:
  "w_slots demo_world = demo_slots" "w_stores demo_world = (\<lambda>_. memory_backend_new 65536 9)"
  "w_mem demo_world = (\<lambda>a. if a < 8192 then 7 else 0)" "qid (w_queue demo_world) = 1"
  by (simp_all add: demo_world_def new_io_def)

lemma demo_world_ok: "world_ok ram_ok {} 1 0 demo_world" "world_ok ram_ok {} 1 1 demo_world" "payload_ok 0 demo_world"
  using demo_slots_inv demo_store_ok
  by (simp_all add: world_ok_def demo_slots_eval buf_shape_def slot_new_def slot_data_empty_def PAGE_def payload_ok_def)
    (simp_all add: queue_ok_def demo_world_def new_io_def)

lemma demo_backend: "io_backend demo_world 1 = Some 0"
  by (simp add: io_backend_def demo_world_def new_io_def port_subsystem_def subsystem_new_def ns_cache_get_def
      ns_cache_default_def Let_def)

lemma demo_transfer: "transfer_ok memory_ops (memory_backend_new 65536 9) (demo_sqe op c) 1536 512"
  by (simp add: transfer_ok_def demo_sqe_def rw_parse_def memory_ops_def memory_backend_new_def Let_def)

section \<open>Properties\<close>

text \<open>C3. No command a host sends panics the target, and every answer is safe to send: executing any
  well-formed submission entry, on an admin queue or on an I/O queue over RAM namespaces, either
  finishes with a completion for that command and that queue whose announced data lies within the
  slot's buffer, or suspends; the slots, the pool, the head and the stores stay consistent. Polling a
  suspended command again has the same guarantee.\<close>

theorem execute_safe:
  assumes "world_ok ram_ok R i tag w" "ev_ops ev = memory_ops"
  shows "(sqe_wf s \<and> payload_ok tag w \<longrightarrow> (\<exists>x w'. execute ev tag s w = Some (x, w') \<and> world_ok ram_ok R i tag w' \<and>
      (case x of
         Finished out \<Rightarrow> cqe_cid (oc_cqe out) = cid s \<and> sq_id (oc_cqe out) = i \<and>
           (\<exists>t. slot_of (w_slots w') tag = Some t \<and> unat (oc_data_len out) \<le> sd_len (slot_data t))
       | Suspended p \<Rightarrow> suspension_ok memory_ops p w'))) \<and>
    (suspension_ok memory_ops p w \<longrightarrow> executes memory_ops ram_ok R i tag (cid s) (resume ev tag s p w))"
proof -
  have "executes memory_ops ram_ok R i tag (cid s) (execute ev tag s w)" if "sqe_wf s" "payload_ok tag w"
    using ram.execute_ok [OF assms that] .
  then show ?thesis using ram.resume_ok [OF assms] unfolding executes_def answer_ok_def by simp
qed

theorem execute_safe_witness:
  "\<exists>x w'. execute demo_env 0 (demo_sqe WRITE 9) demo_world = Some (x, w') \<and> world_ok ram_ok {} 1 0 w'"
proof -
  have "ev_ops demo_env = memory_ops" by (simp add: demo_env_def)
  from execute_safe [OF demo_world_ok(1) this, of "demo_sqe WRITE 9"] demo_sqe_wf demo_world_ok(3) show ?thesis by blast
qed

text \<open>C2. What a Write stores, a Read returns: a Write that passes the transfer checks, followed by a
  Read of the same blocks into another slot of the same queue, both complete with success, and the
  bytes in the Read's buffer are the payload bytes of the Write, however the two buffers are
  fragmented.\<close>

theorem write_then_read:
  assumes "world_ok ram_ok R i t1 w" "slot_of (w_slots w) t1 = Some a" "slot_of (w_slots w) t2 = Some b" "slot_state b \<noteq> Free"
    "ev_ops ev1 = memory_ops" "ev_ops ev2 = memory_ops"
    "opcode s1 = WRITE" "opcode s2 = READ" "io_backend w (nsid s1) = Some k" "nsid s2 = nsid s1"
    "transfer_ok memory_ops (w_stores w k) s1 off n" "transfer_ok memory_ops (w_stores w k) s2 off n"
    "unat (slot_data_len a) = n" "n \<le> sd_len (slot_data a)"
    "pool_alloc n (pool (w_slots w)) = Some (Some d, q)"
  shows "\<exists>o1 w1 o2 w2 c. execute ev1 t1 s1 w = Some (Finished o1, w1) \<and> execute ev2 t2 s2 w1 = Some (Finished o2, w2) \<and>
    cqe_status (oc_cqe o1) = 0 \<and> cqe_cid (oc_cqe o1) = cid s1 \<and> cqe_status (oc_cqe o2) = 0 \<and> cqe_cid (oc_cqe o2) = cid s2 \<and>
    unat (oc_data_len o2) = n \<and> slot_of (w_slots w2) t2 = Some c \<and>
    take n (contents (w_mem w2) (slot_data c)) = take n (contents (w_mem w) (slot_data a))"
proof -
  let ?p = "take n (contents (w_mem w) (slot_data a))"
  obtain o1 w1 where w1: "execute ev1 t1 s1 w = Some (Finished o1, w1)" "cqe_status (oc_cqe o1) = 0" "cqe_cid (oc_cqe o1) = cid s1"
    "world_ok ram_ok R i t1 w1" "w_slots w1 = w_slots w" "w_mem w1 = w_mem w" "\<And>m. io_backend w1 m = io_backend w m"
    "memory_disk (w_stores w1 k) = splice off ?p (memory_disk (w_stores w k))"
    "block_shift memory_ops (w_stores w1 k) = block_shift memory_ops (w_stores w k)"
    "nr_blocks memory_ops (w_stores w1 k) = nr_blocks memory_ops (w_stores w k)"
    "\<And>b'. b' \<noteq> k \<Longrightarrow> w_stores w1 b' = w_stores w b'"
    by (rule ram.write_stores [OF assms(1,5,9,7,11,2,13,14)], rule that)
  have r1: "world_ok ram_ok R i t2 w1" using world_ok_tag [OF w1(4)] assms(3,4) w1(5) by simp
  have r2: "io_backend w1 (nsid s2) = Some k" using w1(7) assms(9,10) by simp
  have r3: "transfer_ok memory_ops (w_stores w1 k) s2 off n" using assms(12) w1(9,10) by (simp add: transfer_ok_def)
  have r4: "pool_alloc n (pool (w_slots w1)) = Some (Some d, q)" using assms(15) w1(5) by simp
  obtain o2 w2 c where w2: "execute ev2 t2 s2 w1 = Some (Finished o2, w2)" "cqe_status (oc_cqe o2) = 0"
    "cqe_cid (oc_cqe o2) = cid s2" "unat (oc_data_len o2) = n" "world_ok ram_ok R i t2 w2" "slot_of (w_slots w2) t2 = Some c"
    "slot_data c = d" "take n (contents (w_mem w2) d) = slice off n (memory_disk (w_stores w1 k))" "w_stores w2 = w_stores w1"
    "\<And>x. x \<notin> data_addrs d \<Longrightarrow> w_mem w2 x = w_mem w1 x"
    by (rule ram.read_returns [OF r1 assms(6) r2 assms(8) r3 r4], rule that)
  have st: "ram_ok (w_stores w k)" "slot_data_wf (slot_data a)"
    using assms(1) tags_inv_slot(4) [OF _ assms(2)] by (simp_all add: world_ok_def slots_inv_def)
  have "off + n \<le> length (memory_disk (w_stores w k))"
    using assms(11) ram.disk_length [OF st(1)] mult_le_mono1 [of _ _ "2 ^ unat (block_shift memory_ops (w_stores w k))"]
    unfolding transfer_ok_def by (metis add_mult_distrib)
  then have "slice off n (memory_disk (w_stores w1 k)) = ?p"
    using slice_splice_same [of off ?p "memory_disk (w_stores w k)"] w1(8) assms(14) st(2) by (simp add: min_absorb2)
  then have "take n (contents (w_mem w2) (slot_data c)) = ?p" using w2(7,8) by simp
  then show ?thesis using w1(1-3) w2(1-4,6) by blast
qed

theorem write_then_read_witness:
  "\<exists>o1 w1 o2 w2 c. execute demo_env 0 (demo_sqe WRITE 9) demo_world = Some (Finished o1, w1) \<and>
    execute demo_env 1 (demo_sqe READ 10) w1 = Some (Finished o2, w2) \<and> cqe_cid (oc_cqe o2) = 10 \<and>
    slot_of (w_slots w2) 1 = Some c \<and> take 512 (contents (w_mem w2) (slot_data c)) = replicate 512 7"
proof -
  have al: "pool_alloc 512 (pool demo_slots) =
      Some (Some \<lparr>sd_segs = [\<lparr>seg_ptr = 8192, seg_len = 4096\<rparr>], sd_len = 4096, sd_owner = OwnerPool\<rparr>,
        (pool demo_slots)\<lparr>free_runs := [], free_pages := 0\<rparr>)"
    by (simp add: demo_slots_eval pool_alloc_def pages_for_def PAGE_def take_run_def make_lease_def page_ptr_def Let_def vec_remove_def)
  have ev: "ev_ops demo_env = memory_ops" by (simp add: demo_env_def)
  have "mem_read (\<lambda>a. if a < 8192 then 7 else 0) 4096 4096 = replicate 4096 (7 :: u8)"
    by (rule nth_equalityI) simp_all
  then have "take 512 (contents (\<lambda>a. if a < 8192 then 7 else 0) (slot_data (slots demo_slots ! 0))) = replicate 512 7"
    by (simp add: demo_slots_eval contents_def)
  moreover have "slot_data_len (slots demo_slots ! 0) = 512" "512 \<le> sd_len (slot_data (slots demo_slots ! 0))"
    "slot_state (slots demo_slots ! 1) \<noteq> Free" by (simp_all add: demo_slots_eval)
  moreover have "opcode (demo_sqe x c) = x" "nsid (demo_sqe x c) = 1" "cid (demo_sqe x c) = c" for x c
    by (simp_all add: demo_sqe_def)
  ultimately show ?thesis
    using write_then_read [of "{}" 1 0 demo_world "slots demo_slots ! 0" 1 "slots demo_slots ! 1" demo_env demo_env
      "demo_sqe WRITE 9" "demo_sqe READ 10" 0 1536 512] demo_world_ok(1) demo_transfer demo_backend al ev
    by simp metis
qed

text \<open>C34. A Read or Write that fails one of the three transfer checks is answered with the status of the
  first it fails, in the order transfer size, SGL length, range, with no data, and leaves every store,
  the memory and the slots as they were. The check of a Write that all its data arrived comes later and
  is not part of this.\<close>

theorem io_rejects:
  assumes w: "world_ok ram_ok R i tag w" and ops: "ev_ops ev = memory_ops" and b: "io_backend w (nsid s) = Some b"
    and op: "opcode s = READ \<or> opcode s = WRITE"
    and n: "n = (unat (rw_nlb (rw_parse s)) + 1) * 2 ^ unat (mb_block_shift (w_stores w b))"
    and bad: "\<not> (\<exists>off. transfer_ok memory_ops (w_stores w b) s off n)"
  shows "\<exists>out w'. execute ev tag s w = Some (Finished out, w') \<and> oc_data_len out = 0 \<and> cqe_cid (oc_cqe out) = cid s \<and>
    cqe_status (oc_cqe out) = push_bit 1
      (if 131072 < n then INVALID_FIELD OR DNR
       else if unat (sgl_length (dptr s) AND 0x00FFFFFF) \<noteq> n then DATA_SGL_LEN_INVALID OR DNR
       else LBA_RANGE OR DNR) \<and>
    w_stores w' = w_stores w \<and> w_mem w' = w_mem w \<and> w_slots w' = w_slots w"
proof -
  let ?code = "if 131072 < n then INVALID_FIELD OR DNR
       else if unat (sgl_length (dptr s) AND 0x00FFFFFF) \<noteq> n then DATA_SGL_LEN_INVALID OR DNR
       else (LBA_RANGE OR DNR :: u16)"
  have sh: "block_shift memory_ops (w_stores w b) = mb_block_shift (w_stores w b)" by (simp add: memory_ops_def)
  have st: "ram_ok (w_stores w b)" using w by (simp add: world_ok_def)
  have c: "checked_len memory_ops (w_stores w b) s = Some (Inl ?code)"
    using bad unfolding checked_len_spec [OF ram.shift_small [OF st]] transfer_ok_def sh n [symmetric] by auto
  have nf: "opcode s \<noteq> FABRICS" using op by auto
  obtain v where v: "\<And>t. w_slots (upd_stats t v) = w_slots w" "w_stores v = w_stores w" "w_mem v = w_mem w"
    "\<And>ok R i tag. world_ok ok R i tag v = world_ok ok R i tag w" "\<And>n. io_backend v n = io_backend w n"
    "opcode s = READ \<Longrightarrow> execute ev tag s w = io_read ev b tag s (upd_stats (\<lambda>st. st\<lparr>read_cmds := read_cmds st + 1\<rparr>) v)"
    "opcode s = WRITE \<Longrightarrow> execute ev tag s w = finished (io_write ev b tag s (upd_stats (\<lambda>st. st\<lparr>write_cmds := write_cmds st + 1\<rparr>) v))"
    by (rule execute_io [OF b nf], rule that)
  have e: "\<exists>f. execute ev tag s w = finished (err_outcome (cid s) ?code (upd_stats f v))"
    using op v(2,6,7) c ops by (auto simp: io_read_def io_write_def world simp del: if_split)
  then obtain f where f: "execute ev tag s w = finished (err_outcome (cid s) ?code (upd_stats f v))" by blast
  define x where "x = upd_stats (\<lambda>s. s\<lparr>errors := errors s + 1\<rparr>) (upd_stats f v)"
  have xok: "world_ok ram_ok R i tag x" using w v(4) by (simp add: x_def)
  have x: "w_stores x = w_stores w" "w_mem x = w_mem w" "w_slots x = w_slots w"
    using v(1-3) by (simp_all add: x_def world)
  have q: "queue_ok (w_queue x)" using xok by (simp add: world_ok_def)
  obtain h h' where "ctx_cqe 0 (cid s) ?code x =
      Some (cqe_new 0 h (qid (w_queue x)) (cid s) ?code, upd_queue (\<lambda>q. q\<lparr>sqhd := h'\<rparr>) x)" by (rule ctx_cqe_ok [OF q])
  then have "execute ev tag s w = Some (Finished (outcome_status (cqe_new 0 h (qid (w_queue x)) (cid s) ?code)),
      upd_queue (\<lambda>q. q\<lparr>sqhd := h'\<rparr>) x)"
    unfolding f err_outcome_def x_def [symmetric] by (simp add: reply_def finished_def del: if_split)
  then show ?thesis
    using x by (simp add: outcome_status_def cqe_new_def world del: if_split)
qed

theorem io_rejects_witness:
  "\<exists>out w'. execute demo_env 0 ((demo_sqe WRITE 9)\<lparr>cdw10 := 128\<rparr>) demo_world = Some (Finished out, w') \<and>
    cqe_status (oc_cqe out) = push_bit 1 (LBA_RANGE OR DNR) \<and> w_stores w' = w_stores demo_world"
proof -
  let ?s = "(demo_sqe WRITE 9)\<lparr>cdw10 := 128\<rparr>"
  have ev: "ev_ops demo_env = memory_ops" by (simp add: demo_env_def)
  have s: "opcode ?s = WRITE" "nsid ?s = 1" "sgl_length (dptr ?s) = 512" "rw_nlb (rw_parse ?s) = 0" "rw_slba (rw_parse ?s) = 128"
    by (simp_all add: demo_sqe_def rw_parse_def)
  have m: "mb_block_shift (memory_backend_new 65536 9) = 9" "nr_blocks memory_ops (memory_backend_new 65536 9) = 128"
    by (simp_all add: memory_backend_new_def memory_ops_def Let_def)
  have "\<not> (\<exists>off. transfer_ok memory_ops (w_stores demo_world 0) ?s off 512)"
    unfolding transfer_ok_def s demo_world_sel m by simp
  then show ?thesis
    using io_rejects [OF demo_world_ok(1) ev, of ?s 0 512] demo_backend s m by simp blast
qed

end
