(* ===== verification/Target.thy ===== *)
theory Target
  imports Nvme_Exec
begin

text \<open>
  The target as a whole: any number of connections that share one registry, one port, the stores and
  memory, with commands, later polls, namespace changes by the control plane, notices and
  disconnections interleaved in any order. The invariant is access control: a queue is bound only to a
  subsystem that admits its host, and a controller is enabled only after Connect.
\<close>

section \<open>Interleaved connections\<close>

record 's target =
  conns :: "nat \<Rightarrow> conn_ctx option"
  tg_registry :: registry
  tg_port :: "nat port_config"
  tg_stores :: "nat \<Rightarrow> 's"
  tg_mem :: memory

definition world_of :: "conn_ctx \<Rightarrow> 's target \<Rightarrow> 's world" where
  "world_of c g = \<lparr>w_ctx = c, w_registry = tg_registry g, w_port = tg_port g, w_stores = tg_stores g,
     w_mem = tg_mem g, w_woken = [], w_released = []\<rparr>"

definition put_world :: "nat \<Rightarrow> 's world \<Rightarrow> 's target \<Rightarrow> 's target" where
  "put_world i w g = g\<lparr>conns := (conns g)(i \<mapsto> w_ctx w), tg_registry := w_registry w, tg_port := w_port w,
     tg_stores := w_stores w, tg_mem := w_mem w\<rparr>"

definition upd_subsystem :: "string \<Rightarrow> (nat subsystem \<Rightarrow> nat subsystem) \<Rightarrow> nat port_config \<Rightarrow> nat port_config" where
  "upd_subsystem k f p = p\<lparr>subsystems := map (\<lambda>(n, s). if n = k then (n, f s) else (n, s)) (subsystems p)\<rparr>"

text \<open>A connection ends: teardown, and with the admin queue its controller goes.\<close>

definition disconnect :: "nat \<Rightarrow> conn_ctx \<Rightarrow> 's target \<Rightarrow> 's target" where
  "disconnect i c g =
     (let w = ctx_close (world_of c g);
          r = (case cx_role c of
                 Admin a \<Rightarrow> if ad_cntlid a \<noteq> 0 then snd (registry_remove (ad_cntlid a) (w_registry w)) else w_registry w
               | Io _ \<Rightarrow> w_registry w) in
      g\<lparr>conns := (conns g)(i := None), tg_registry := r\<rparr>)"

inductive target_step :: "'s target \<Rightarrow> 's target \<Rightarrow> bool" where
  admin_opens: "conns g i = None \<Longrightarrow> new_admin now q data peer = Some c \<Longrightarrow>
    target_step g (g\<lparr>conns := (conns g)(i \<mapsto> c)\<rparr>)"
| io_opens: "conns g i = None \<Longrightarrow> target_step g (g\<lparr>conns := (conns g)(i \<mapsto> new_io q data peer)\<rparr>)"
| command: "conns g i = Some c \<Longrightarrow> execute ev tag s (world_of c g) = Some (x, w') \<Longrightarrow> target_step g (put_world i w' g)"
| later_poll: "conns g i = Some c \<Longrightarrow> resume ev tag s p (world_of c g) = Some (x, w') \<Longrightarrow> target_step g (put_world i w' g)"
| ns_added: "target_step g (g\<lparr>tg_port := upd_subsystem k (\<lambda>s. snd (add_namespace ns s)) (tg_port g)\<rparr>)"
| ns_removed: "target_step g (g\<lparr>tg_port := upd_subsystem k (\<lambda>s. snd (remove_namespace n s)) (tg_port g)\<rparr>)"
| ns_notice: "conns g i = Some c \<Longrightarrow> target_step g (put_world i (fire_ns_changed (world_of c g)) g)"
| watchdog: "conns g i = Some c \<Longrightarrow> cx_role c = Admin a \<Longrightarrow> keepalive_expired now a (tg_registry g) = Some (v, a', r) \<Longrightarrow>
    target_step g (g\<lparr>conns := (conns g)(i \<mapsto> c\<lparr>cx_role := Admin a'\<rparr>), tg_registry := r\<rparr>)"
| disconnects: "conns g i = Some c \<Longrightarrow> target_step g (disconnect i c g)"

inductive target_reach :: "'s target \<Rightarrow> bool" where
  start: "registry_new lo hi = Some r \<Longrightarrow>
    target_reach \<lparr>conns = (\<lambda>_. None), tg_registry = r, tg_port = p, tg_stores = st, tg_mem = m\<rparr>"
| step: "target_reach g \<Longrightarrow> target_step g g' \<Longrightarrow> target_reach g'"

section \<open>Admission\<close>

definition admitted :: "nat port_config \<Rightarrow> string \<Rightarrow> string \<Rightarrow> bool" where
  "admitted p k host \<longleftrightarrow> (\<exists>s. port_subsystem p k = Some s \<and> admits s host)"

definition ctx_host :: "conn_ctx \<Rightarrow> string" where
  "ctx_host c = nqn_str (cd_hostnqn (cx_connect_data c))"

text \<open>The subsystem a queue is bound to, and the register state of an admin queue.\<close>

definition bound :: "conn_ctx \<Rightarrow> string option" where
  "bound c = (case cx_role c of Admin a \<Rightarrow> ad_subsys a | Io io \<Rightarrow> io_subsys io)"

definition regs_of :: "conn_ctx \<Rightarrow> (register_state \<times> u16) option" where
  "regs_of c = (case cx_role c of Admin a \<Rightarrow> Some (regs a, ad_cntlid a) | Io _ \<Rightarrow> None)"

definition ctx_admitted :: "nat port_config \<Rightarrow> conn_ctx \<Rightarrow> bool" where
  "ctx_admitted p c \<longleftrightarrow> (\<forall>k. bound c = Some k \<longrightarrow> admitted p k (ctx_host c)) \<and>
     (\<forall>r n. regs_of c = Some (r, n) \<longrightarrow> ready r \<longrightarrow> n \<noteq> 0)"

definition registry_admitted :: "nat port_config \<Rightarrow> registry \<Rightarrow> bool" where
  "registry_admitted p r \<longleftrightarrow> (\<forall>n e. controllers r n = Some e \<longrightarrow>
     ce_discovery e \<or> admitted p (ce_subsys_nqn e) (ce_hostnqn e))"

definition world_admitted :: "'s world \<Rightarrow> bool" where
  "world_admitted w \<longleftrightarrow> registry_admitted (w_port w) (w_registry w) \<and> ctx_admitted (w_port w) (w_ctx w)"

text \<open>What all commands but Connect and Property Set leave alone.\<close>

definition keeps :: "'s world \<Rightarrow> 's world \<Rightarrow> bool" where
  "keeps w w' \<longleftrightarrow> w_registry w' = w_registry w \<and> w_port w' = w_port w \<and>
     cx_connect_data (w_ctx w') = cx_connect_data (w_ctx w) \<and> bound (w_ctx w') = bound (w_ctx w) \<and>
     regs_of (w_ctx w') = regs_of (w_ctx w)"

lemma keeps_refl [simp]: "keeps w w"
  by (simp add: keeps_def)

lemma keeps_trans [trans]: "keeps w v \<Longrightarrow> keeps v u \<Longrightarrow> keeps w u"
  by (simp add: keeps_def)

lemma keeps_admitted: "world_admitted w \<Longrightarrow> keeps w w' \<Longrightarrow> world_admitted w'"
  by (simp add: world_admitted_def keeps_def ctx_admitted_def ctx_host_def)

lemma keeps_upd [simp]:
  "keeps w (upd_queue f v) = keeps w v" "keeps w (upd_stats g v) = keeps w v" "keeps w (put_slots a ws bids v) = keeps w v"
  "keeps w (put_store b st v) = keeps w v" "keeps w (v\<lparr>w_mem := m\<rparr>) = keeps w v" "keeps w (wake_all ws v) = keeps w v"
  by (simp_all add: keeps_def bound_def regs_of_def upd_queue_def upd_stats_def put_slots_def put_store_def wake_all_def Let_def)

lemma keeps_set_admin:
  "w_role v = Admin a \<Longrightarrow> ad_subsys a' = ad_subsys a \<Longrightarrow> regs a' = regs a \<Longrightarrow> ad_cntlid a' = ad_cntlid a \<Longrightarrow>
    keeps w (set_role (Admin a') v) = keeps w v"
  by (simp add: keeps_def bound_def regs_of_def set_role_def)

lemma keeps_set_io:
  "w_role v = Io a \<Longrightarrow> io_subsys a' = io_subsys a \<Longrightarrow> keeps w (set_role (Io a') v) = keeps w v"
  by (simp add: keeps_def bound_def regs_of_def set_role_def)

lemma reply_keeps: "reply r c code w = Some (out, w') \<Longrightarrow> keeps v w \<Longrightarrow> keeps v w'"
  by (auto simp: reply_def ctx_cqe_def split: bind_splits)

lemma reply_data_keeps: "reply_data c n w = Some (out, w') \<Longrightarrow> keeps v w \<Longrightarrow> keeps v w'"
  by (auto simp: reply_data_def ctx_cqe_def split: bind_splits)

lemma fill_slot_keeps: "fill_slot addr tag d w = Some (n, w') \<Longrightarrow> keeps v w \<Longrightarrow> keeps v w'"
  by (auto simp: fill_slot_def Let_def split: bind_splits)

lemma reply_filled_keeps: "reply_filled addr tag c d w = Some (out, w') \<Longrightarrow> keeps v w \<Longrightarrow> keeps v w'"
  by (auto simp: reply_filled_def elim!: reply_data_keeps fill_slot_keeps split: bind_splits)

lemmas keeps_intros = reply_keeps reply_data_keeps fill_slot_keeps reply_filled_keeps

lemma identify_keeps: "identify ops addr tag s a w = Some (out, w') \<Longrightarrow> keeps w w'"
  by (auto simp: identify_def Let_def elim!: keeps_intros split: if_splits option.splits bind_splits)

lemma get_features_keeps: "get_features s a w = Some (out, w') \<Longrightarrow> keeps w w'"
  by (auto simp: get_features_def Let_def elim!: keeps_intros split: if_splits)

lemma set_features_keeps: "w_role w = Admin a \<Longrightarrow> set_features s a w = Some (out, w') \<Longrightarrow> keeps w w'"
  by (auto simp: set_features_def Let_def keeps_set_admin elim!: keeps_intros split: if_splits)

lemma get_log_page_keeps: "w_role w = Admin a \<Longrightarrow> get_log_page addr tag s a w = Some (out, w') \<Longrightarrow> keeps w w'"
  by (auto simp: get_log_page_def Let_def keeps_set_admin elim!: keeps_intros split: if_splits bind_splits)

lemma aer_poll_keeps: "w_role w = Admin a \<Longrightarrow> aer_poll waker s a w = Some (p, w') \<Longrightarrow> keeps w w'"
  by (auto simp: aer_poll_def keeps_set_admin elim!: keeps_intros split: if_splits list.splits)

lemma admin_execute_keeps: "w_role w = Admin a \<Longrightarrow> admin_execute ops waker addr tag s a w = Some (p, w') \<Longrightarrow> keeps w w'"
  unfolding admin_execute_def Let_def
  by (auto dest: aer_poll_keeps identify_keeps get_features_keeps set_features_keeps get_log_page_keeps
      elim!: reply_keeps split: if_splits)

lemma err_outcome_keeps: "err_outcome c code w = Some (out, w') \<Longrightarrow> keeps v w \<Longrightarrow> keeps v w'"
  by (auto simp: err_outcome_def elim!: reply_keeps)

lemma map_backend_keeps: "map_backend c r n w = Some (out, w') \<Longrightarrow> keeps v w \<Longrightarrow> keeps v w'"
  by (auto simp: map_backend_def elim!: reply_data_keeps err_outcome_keeps split: sum.splits)

lemma finished_keeps:
  "finished r = Some (x, w') \<Longrightarrow> (\<And>out. r = Some (out, w') \<Longrightarrow> keeps v w') \<Longrightarrow> keeps v w'"
  by (auto simp: finished_def)

lemma read_resume_keeps: "read_resume ev tag s b rw len w = Some (x, w') \<Longrightarrow> keeps v w \<Longrightarrow> keeps v w'"
  by (auto simp: read_resume_def Let_def elim!: finished_keeps map_backend_keeps split: bind_splits poll.splits sum.splits)

lemma io_read_keeps: "io_read ev b tag s w = Some (x, w') \<Longrightarrow> keeps v w \<Longrightarrow> keeps v w'"
  by (auto simp: io_read_def elim!: finished_keeps err_outcome_keeps read_resume_keeps split: bind_splits sum.splits)

lemma io_write_keeps: "io_write ev b tag s w = Some (out, w') \<Longrightarrow> keeps v w \<Longrightarrow> keeps v w'"
  by (auto simp: io_write_def Let_def elim!: err_outcome_keeps map_backend_keeps split: bind_splits sum.splits if_splits)

lemma io_dsm_keeps: "io_dsm ev b tag s w = Some (out, w') \<Longrightarrow> keeps v w \<Longrightarrow> keeps v w'"
  by (auto simp: io_dsm_def Let_def elim!: err_outcome_keeps map_backend_keeps reply_keeps split: bind_splits if_splits)

lemma io_execute_keeps:
  assumes r: "w_role w = Io io" and e: "io_execute ev tag s io w = Some (x, w')"
  shows "keeps w w'"
proof (cases "case io_subsys io of None \<Rightarrow> None | Some k \<Rightarrow> port_subsystem (w_port w) k")
  case None
  then show ?thesis using e by (auto simp: io_execute_def elim!: finished_keeps err_outcome_keeps)
next
  case (Some sub)
  obtain table cache where tc: "ns_cache_get (sub_generation sub) sub (io_ns_cache io) = (table, cache)" by fastforce
  define v where "v = set_role (Io (io\<lparr>io_ns_cache := cache\<rparr>)) w"
  have v: "keeps w v" using keeps_set_io [OF r] by (simp add: v_def)
  show ?thesis
  proof (cases "map_of table (nsid s)")
    case None
    then show ?thesis
      using e Some tc v by (auto simp: io_execute_def v_def [symmetric] elim!: finished_keeps err_outcome_keeps)
  next
    case ns: (Some ns)
    show ?thesis
      using e v unfolding io_execute_def Let_def Some option.case tc prod.case v_def [symmetric] ns
      by (auto elim!: finished_keeps err_outcome_keeps map_backend_keeps io_read_keeps io_write_keeps io_dsm_keeps
          split: if_splits bind_splits)
  qed
qed

section \<open>Commands keep admission\<close>

lemma reply_admitted:
  assumes "world_admitted v" "w_port v = p" "reply x y z v = Some (out, w')"
  shows "world_admitted w' \<and> w_port w' = p"
  using keeps_admitted [OF assms(1) reply_keeps [OF assms(3) keeps_refl]] reply_keeps [OF assms(3) keeps_refl] assms(2)
  by (simp add: keeps_def)

lemma allocate_entries:
  "allocate n h m k q d r = (x, r') \<Longrightarrow> controllers r' c = Some e \<Longrightarrow>
    controllers r c = Some e \<or> ce_subsys_nqn e = n \<and> ce_hostnqn e = h \<and> ce_discovery e = d"
  unfolding allocate_def Let_def
  by (auto simp del: scan_cntlid.simps split: option.splits if_splits)

lemma create_controller_admitted:
  assumes w: "world_admitted w" and r: "w_role w = Admin a" "\<not> ready (regs a)"
    and adm: "n = DISCOVERY_NQN \<or> admitted (w_port w) n h"
    and c: "create_controller th cmd n h a w = Some (out, w')"
  shows "world_admitted w' \<and> w_port w' = w_port w"
proof -
  have rg: "registry_admitted (w_port w) (w_registry w)" using w by (simp add: world_admitted_def)
  have bd: "\<forall>k. ad_subsys a = Some k \<longrightarrow> admitted (w_port w) k (ctx_host (w_ctx w))"
    using w r by (simp add: world_admitted_def ctx_admitted_def bound_def)
  define kato where "kato = (if con_kato cmd = 0 \<and> n = DISCOVERY_NQN then 120000 else con_kato cmd)"
  obtain o2 r2 where al: "allocate n h (if n = DISCOVERY_NQN then 0 else max_qid (w_port w)) kato
      (ctx_queue_info th (w_ctx w)) (n = DISCOVERY_NQN) (w_registry w) = (o2, r2)" by fastforce
  have r2: "registry_admitted (w_port w) r2"
    using rg adm allocate_entries [OF al] unfolding registry_admitted_def by blast
  have wr: "world_admitted (w\<lparr>w_registry := r2\<rparr>)" using w r2 by (simp add: world_admitted_def)
  have fin: "world_admitted (set_role (Admin d) (upd_stats f (w\<lparr>w_registry := r2\<rparr>)))"
    if "regs d = regs a" "ad_subsys d = ad_subsys a" for d f
    using r2 bd r(2) that by (simp add: world_admitted_def ctx_admitted_def regs_of_def bound_def ctx_host_def world)
  show ?thesis
  proof (cases "cd_cntlid (cx_connect_data (w_ctx w)) = 0xFFFF")
    case False
    then show ?thesis using reply_admitted [OF w refl] c by (simp add: create_controller_def Let_def)
  next
    case True
    show ?thesis
    proof (cases o2)
      case None
      then show ?thesis
        using reply_admitted [OF wr refl] c True
        unfolding create_controller_def Let_def kato_def [symmetric] al prod.case by simp
    next
      case (Some x)
      define d where "d = (let b = a\<lparr>ad_cntlid := x, ad_kato_ms := kato\<rparr> in case registry_traffic r2 x of
        None \<Rightarrow> b | Some t \<Rightarrow> b\<lparr>ad_traffic := set_once t (ad_traffic b)\<rparr>)"
      have d: "regs d = regs a" "ad_subsys d = ad_subsys a" by (simp_all add: d_def Let_def split: option.split)
      show ?thesis
        using reply_admitted [OF fin [OF d] refl] c True Some
        unfolding create_controller_def Let_def kato_def [symmetric] al prod.case by (simp add: d_def Let_def world)
    qed
  qed
qed

lemma connect_admin_admitted:
  assumes w: "world_admitted w" and r: "w_role w = Admin a" and c: "connect_admin th cmd a w = Some (out, w')"
  shows "world_admitted w' \<and> w_port w' = w_port w"
proof -
  let ?n = "nqn_str (cd_subsysnqn (cx_connect_data (w_ctx w)))" and ?h = "nqn_str (cd_hostnqn (cx_connect_data (w_ctx w)))"
  have rdy: "ready (regs a) \<longrightarrow> ad_cntlid a \<noteq> 0" and bd: "\<forall>k. ad_subsys a = Some k \<longrightarrow> admitted (w_port w) k ?h"
    using w r by (simp_all add: world_admitted_def ctx_admitted_def regs_of_def bound_def ctx_host_def)
  show ?thesis
  proof (cases "ad_cntlid a = 0 \<and> (\<exists>b. resolve_subsys (w_port w) ?n ?h a = Inr b)")
    case True
    then obtain b where b: "resolve_subsys (w_port w) ?n ?h a = Inr b" by blast
    have b': "regs b = regs a" "ad_cntlid b = ad_cntlid a" "?n = DISCOVERY_NQN \<or> admitted (w_port w) ?n ?h"
      "\<forall>k. ad_subsys b = Some k \<longrightarrow> admitted (w_port w) k ?h"
      using b bd by (auto simp: resolve_subsys_def admitted_def split: if_splits option.splits)
    have "world_admitted (set_role (Admin b) w)"
      using w b' rdy by (simp add: world_admitted_def ctx_admitted_def regs_of_def bound_def ctx_host_def world)
    moreover have "create_controller th cmd ?n ?h b (set_role (Admin b) w) = Some (out, w')"
      using c True b by (simp add: connect_admin_def Let_def)
    ultimately show ?thesis
      using create_controller_admitted [of "set_role (Admin b) w" b ?n ?h] b' rdy True by (simp add: world)
  next
    case False
    then obtain x y z where "reply x y z w = Some (out, w')"
      using c by (auto simp: connect_admin_def Let_def split: if_splits sum.splits)
    then show ?thesis by (rule reply_admitted [OF w refl])
  qed
qed

lemma install_entry:
  assumes "install_io_queue n h q r = (res, r')"
  shows "controllers r' c = Some e \<Longrightarrow> \<exists>e0. controllers r c = Some e0 \<and> ce_hostnqn e = ce_hostnqn e0 \<and>
      ce_subsys_nqn e = ce_subsys_nqn e0 \<and> ce_discovery e = ce_discovery e0"
    and "res = Inr e \<Longrightarrow> \<exists>e0. controllers r n = Some e0 \<and> ce_hostnqn e0 = h \<and> ce_subsys_nqn e = ce_subsys_nqn e0 \<and>
      ce_discovery e = ce_discovery e0"
  using assms by (auto simp: install_io_queue_def Let_def split: option.splits if_splits)

lemma connect_io_admitted:
  assumes w: "world_admitted w" and r: "w_role w = Io io" and c: "connect_io th cmd io w = Some (out, w')"
  shows "world_admitted w' \<and> w_port w' = w_port w"
proof -
  let ?h = "nqn_str (cd_hostnqn (cx_connect_data (w_ctx w)))" and ?n = "cd_cntlid (cx_connect_data (w_ctx w))"
  have rg: "registry_admitted (w_port w) (w_registry w)" using w by (simp add: world_admitted_def)
  have bd: "\<forall>k. io_subsys io = Some k \<longrightarrow> admitted (w_port w) k ?h"
    using w r by (simp add: world_admitted_def ctx_admitted_def bound_def ctx_host_def)
  obtain res r2 where ins: "install_io_queue ?n ?h (ctx_queue_info th (w_ctx w)) (w_registry w) = (res, r2)" by fastforce
  have r2: "registry_admitted (w_port w) r2"
    using rg install_entry(1) [OF ins] unfolding registry_admitted_def by metis
  have wr: "world_admitted (w\<lparr>w_registry := r2\<rparr>)" using w r2 by (simp add: world_admitted_def)
  show ?thesis
  proof (cases "io_cntlid io = 0")
    case False
    then show ?thesis using reply_admitted [OF w refl] c by (simp add: connect_io_def Let_def)
  next
    case True
    show ?thesis
    proof (cases res)
      case (Inl e)
      then show ?thesis
        using reply_admitted [OF wr refl] c True unfolding connect_io_def Let_def ins prod.case by simp
    next
      case (Inr e)
      obtain e0 where e0: "controllers (w_registry w) ?n = Some e0" "ce_hostnqn e0 = ?h" "ce_subsys_nqn e = ce_subsys_nqn e0"
        "ce_discovery e = ce_discovery e0" using install_entry(2) [OF ins Inr] by blast
      have ad: "ce_discovery e \<or> admitted (w_port w) (ce_subsys_nqn e) ?h"
        using rg e0 unfolding registry_admitted_def by metis
      define j where "j = (let i = io\<lparr>io_cntlid := ?n, io_kato_ms := ce_kato_ms e\<rparr>;
          i = (if ce_kato_ms e \<noteq> 0 then i\<lparr>io_traffic := set_once (ce_traffic e) (io_traffic i)\<rparr> else i) in
        if \<not> ce_discovery e \<and> port_subsystem (w_port w) (ce_subsys_nqn e) \<noteq> None
        then i\<lparr>io_subsys := set_once (ce_subsys_nqn e) (io_subsys i)\<rparr> else i)"
      have "\<forall>k. io_subsys j = Some k \<longrightarrow> admitted (w_port w) k ?h"
        using bd ad by (auto simp: j_def Let_def set_once_def split: option.splits if_splits)
      then have "world_admitted (set_role (Io j) (upd_stats (\<lambda>s. s\<lparr>st_cntlid := ?n\<rparr>) (w\<lparr>w_registry := r2\<rparr>)))"
        using r2 by (simp add: world_admitted_def ctx_admitted_def regs_of_def bound_def ctx_host_def world)
      moreover have "reply (ucast ?n) (con_cid cmd) SUCCESS
          (set_role (Io j) (upd_stats (\<lambda>s. s\<lparr>st_cntlid := ?n\<rparr>) (w\<lparr>w_registry := r2\<rparr>))) = Some (out, w')"
        using c True Inr unfolding connect_io_def Let_def ins prod.case by (simp add: j_def Let_def world)
      ultimately show ?thesis by (intro reply_admitted [of _ "w_port w"]) (simp_all add: world)
    qed
  qed
qed

lemma property_admitted:
  assumes w: "world_admitted w" and c: "property s f w = Some (out, w')"
  shows "world_admitted w' \<and> w_port w' = w_port w"
proof (cases "w_role w")
  case (Io io)
  then show ?thesis using reply_admitted [OF w refl] c by (simp add: property_def Let_def)
next
  case (Admin a)
  let ?cmd = "property_of_bytes (sqe_as_bytes s)"
  have "world_admitted w' \<and> w_port w' = w_port w" if "property_get ?cmd a w = Some (out, w')"
  proof -
    have "keeps w w'"
      using that by (auto simp: property_get_def Let_def ctx_cqe_def elim!: reply_keeps split: option.splits bind_splits)
    then show ?thesis using keeps_admitted [OF w] by (simp add: keeps_def)
  qed
  moreover have "world_admitted w' \<and> w_port w' = w_port w" if p: "property_set ?cmd a w = Some (out, w')"
  proof (cases "prp_offset ?cmd = prop_CC \<and> ad_cntlid a \<noteq> 0")
    case True
    obtain e r where wc: "write_cc (ucast (prp_value ?cmd)) (regs a) = (e, r)" by fastforce
    have "world_admitted (set_role (Admin (a\<lparr>regs := r\<rparr>)) w)"
      using w Admin True by (simp add: world_admitted_def ctx_admitted_def regs_of_def bound_def ctx_host_def world)
    from reply_admitted [OF this refl] show ?thesis
      using p True wc by (simp add: property_set_def Let_def world)
  next
    case False
    then show ?thesis using p reply_admitted [OF w refl] by (auto simp: property_set_def Let_def split: if_splits)
  qed
  ultimately show ?thesis using c Admin by (auto simp: property_def Let_def split: if_splits)
qed

lemma fabrics_admitted:
  assumes w: "world_admitted w" and c: "fabrics_execute th s w = Some (out, w')"
  shows "world_admitted w' \<and> w_port w' = w_port w"
  using c reply_admitted [OF w refl] connect_admin_admitted [OF w] connect_io_admitted [OF w] property_admitted [OF w]
  by (auto simp: fabrics_execute_def connect_def Let_def split: if_splits role.splits)

lemma execute_admitted:
  assumes w: "world_admitted w" and c: "execute ev tag s w = Some (x, w')"
  shows "world_admitted w' \<and> w_port w' = w_port w"
proof -
  define v where "v = (case w_role w of Admin a \<Rightarrow> set_role (Admin (a\<lparr>last_heard := ev_now ev\<rparr>)) w | Io _ \<Rightarrow> w)"
  define u where "u = upd_stats (\<lambda>st. st\<lparr>other_cmds := other_cmds st + 1\<rparr>) v"
  have kv: "keeps w v" by (auto simp: v_def keeps_set_admin split: role.split)
  then have ku: "keeps w u" by (simp add: u_def)
  have wu: "world_admitted u" by (rule keeps_admitted [OF w ku])
  have pu: "w_port u = w_port w" using ku by (simp add: keeps_def)
  have fin: ?thesis if "keeps w w'" using keeps_admitted [OF w that] that by (simp add: keeps_def)
  show ?thesis
  proof (cases "opcode s = FABRICS")
    case True
    then obtain out where "fabrics_execute (ev_thread ev) s u = Some (out, w')"
      using c by (auto simp: execute_def Let_def v_def [symmetric] u_def [symmetric] finished_def)
    then show ?thesis using fabrics_admitted [OF wu] pu by simp
  next
    case False
    show ?thesis
    proof (cases "w_role v")
      case (Admin a)
      then have "w_role u = Admin a" by (simp add: u_def world)
      note ak = admin_execute_keeps [OF this]
      have "keeps u w'"
        using c False Admin ak by (auto simp: execute_def Let_def v_def [symmetric] u_def [symmetric] finished_def
          elim!: reply_keeps split: if_splits)
      then show ?thesis using fin keeps_trans [OF ku] by blast
    next
      case (Io io)
      then have "io_execute ev tag s io v = Some (x, w')"
        using c False by (simp add: execute_def Let_def v_def [symmetric])
      then show ?thesis using fin keeps_trans [OF kv io_execute_keeps [OF Io]] by blast
    qed
  qed
qed

lemma resume_keeps:
  assumes "resume ev tag s p w = Some (x, w')"
  shows "keeps w w'"
  using assms by (auto simp: resume_def elim!: read_resume_keeps dest: aer_poll_keeps
      split: suspension.splits role.splits)

section \<open>Every interleaving keeps admission\<close>

definition target_inv :: "'s target \<Rightarrow> bool" where
  "target_inv g \<longleftrightarrow> registry_admitted (tg_port g) (tg_registry g) \<and>
     (\<forall>i c. conns g i = Some c \<longrightarrow> ctx_admitted (tg_port g) c)"

lemma admits_namespaces [simp]:
  "admits (snd (add_namespace ns s)) h = admits s h" "admits (snd (remove_namespace n s)) h = admits s h"
  by (simp_all add: admits_def add_namespace_def remove_namespace_def)

lemma map_of_upd_key: "map_of (map (\<lambda>(n, s). if n = k then (n, f s) else (n, s)) xs) n = (if n = k then map_option f (map_of xs n) else map_of xs n)"
  by (induction xs) auto

lemma admitted_upd:
  assumes "\<And>s. admits (f s) h = admits s h"
  shows "admitted (upd_subsystem k f p) n h = admitted p n h"
  using assms by (auto simp: admitted_def port_subsystem_def upd_subsystem_def map_of_upd_key)

lemma target_inv_port:
  assumes "target_inv g" "\<And>n h. admitted p n h = admitted (tg_port g) n h"
  shows "target_inv (g\<lparr>tg_port := p\<rparr>)"
  using assms by (simp add: target_inv_def registry_admitted_def ctx_admitted_def)

lemma target_inv_world:
  assumes g: "target_inv g" and w: "world_admitted w'" "w_port w' = tg_port g"
  shows "target_inv (put_world i w' g)"
  using assms by (simp add: target_inv_def world_admitted_def put_world_def)

lemma world_of_admitted: "target_inv g \<Longrightarrow> conns g i = Some c \<Longrightarrow> world_admitted (world_of c g)"
  by (simp add: target_inv_def world_admitted_def world_of_def)

lemma fire_keeps: "keeps w (fire_ns_changed w)"
  by (auto simp: fire_ns_changed_def Let_def keeps_set_admin split: role.split)

lemma new_admitted: "new_admin now q data peer = Some c \<Longrightarrow> ctx_admitted p c" "ctx_admitted p (new_io q data peer)"
  by (auto simp: new_admin_def new_io_def ctx_admitted_def bound_def regs_of_def register_state_new_def ready_def Let_def)

lemma registry_admitted_controllers:
  "registry_admitted p r \<Longrightarrow> (\<And>n e. controllers r' n = Some e \<Longrightarrow> controllers r n = Some e) \<Longrightarrow> registry_admitted p r'"
  unfolding registry_admitted_def by blast

lemma disconnect_inv:
  assumes g: "target_inv g"
  shows "target_inv (disconnect i c g)"
proof -
  have "controllers (w_registry (ctx_close (world_of c g))) n = controllers (tg_registry g) n" for n
    by (simp add: ctx_close_def world_of_def traffic_set_def world split: role.split option.split)
  then have "controllers (tg_registry (disconnect i c g)) n = Some e \<Longrightarrow> controllers (tg_registry g) n = Some e" for n e
    by (auto simp: disconnect_def Let_def registry_remove_def split: role.splits if_splits)
  moreover have "registry_admitted (tg_port g) (tg_registry g)" using g by (simp add: target_inv_def)
  ultimately have "registry_admitted (tg_port g) (tg_registry (disconnect i c g))" by (rule registry_admitted_controllers [rotated])
  then show ?thesis using g by (simp add: target_inv_def disconnect_def Let_def)
qed

lemma keepalive_frame:
  "keepalive_expired now a r = Some (v, a', r') \<Longrightarrow>
    controllers r' = controllers r \<and> ad_subsys a' = ad_subsys a \<and> regs a' = regs a \<and> ad_cntlid a' = ad_cntlid a"
  by (auto simp: keepalive_expired_def Let_def traffic_take_def split: if_splits option.splits prod.splits bind_splits)

lemma target_step_inv:
  assumes "target_step g g'" "target_inv g"
  shows "target_inv g'"
  using assms
proof cases
  case (admin_opens i now q data peer c)
  then show ?thesis using assms(2) new_admitted(1) by (auto simp: target_inv_def)
next
  case (io_opens i q data peer)
  then show ?thesis using assms(2) new_admitted(2) by (auto simp: target_inv_def)
next
  case (command i c ev tag s x w')
  have "world_admitted w' \<and> w_port w' = w_port (world_of c g)"
    by (rule execute_admitted [OF world_of_admitted [OF assms(2) command(2)] command(3)])
  then show ?thesis unfolding command(1) by (intro target_inv_world [OF assms(2)]) (simp_all add: world_of_def)
next
  case (later_poll i c ev tag s p x w')
  have k: "keeps (world_of c g) w'" by (rule resume_keeps [OF later_poll(3)])
  then have "world_admitted w'" by (rule keeps_admitted [OF world_of_admitted [OF assms(2) later_poll(2)]])
  then show ?thesis unfolding later_poll(1)
    using k by (intro target_inv_world [OF assms(2)]) (simp_all add: world_of_def keeps_def)
next
  case (ns_added k ns)
  then show ?thesis using target_inv_port [OF assms(2)] admitted_upd by simp
next
  case (ns_removed k n)
  then show ?thesis using target_inv_port [OF assms(2)] admitted_upd by simp
next
  case (ns_notice i c)
  have k: "keeps (world_of c g) (fire_ns_changed (world_of c g))" by (rule fire_keeps)
  then have "world_admitted (fire_ns_changed (world_of c g))"
    by (rule keeps_admitted [OF world_of_admitted [OF assms(2) ns_notice(2)]])
  then show ?thesis unfolding ns_notice(1)
    using k by (intro target_inv_world [OF assms(2)]) (simp_all add: world_of_def keeps_def)
next
  case (watchdog i c a now v a' r)
  note f = keepalive_frame [OF watchdog(4)]
  have "ctx_admitted (tg_port g) (c\<lparr>cx_role := Admin a'\<rparr>)"
    using assms(2) watchdog(2,3) f by (force simp: target_inv_def ctx_admitted_def bound_def regs_of_def ctx_host_def)
  then show ?thesis using assms(2) f watchdog(1) by (simp add: target_inv_def registry_admitted_def)
next
  case (disconnects i c)
  then show ?thesis using disconnect_inv [OF assms(2)] by simp
qed

lemma target_reach_inv: "target_reach g \<Longrightarrow> target_inv g"
proof (induction rule: target_reach.induct)
  case (start lo hi r p st m)
  then show ?case by (auto simp: target_inv_def registry_admitted_def registry_new_def split: if_splits)
next
  case (step g g')
  then show ?case by (blast intro: target_step_inv)
qed

section \<open>Properties\<close>

text \<open>C4. Access control: whatever the order of connections, commands, namespace changes and
  disconnections, a queue is bound only to a subsystem of the port that admits the host named in its
  Connect data, and a controller is ready only after a Connect gave it an identifier.\<close>

theorem queues_reach_only_admitted:
  assumes "target_reach g" "conns g i = Some c"
  shows "(\<forall>k. bound c = Some k \<longrightarrow>
      (\<exists>sub. port_subsystem (tg_port g) k = Some sub \<and> admits sub (nqn_str (cd_hostnqn (cx_connect_data c))))) \<and>
    (\<forall>a. cx_role c = Admin a \<longrightarrow> ready (regs a) \<longrightarrow> ad_cntlid a \<noteq> 0)"
  using target_reach_inv [OF assms(1)] assms(2)
  by (auto simp: target_inv_def ctx_admitted_def admitted_def ctx_host_def regs_of_def)

definition demo_connect :: connect_data where
  "demo_connect = \<lparr>cd_hostid = replicate 16 0, cd_cntlid = 0xFFFF, cd_resv4 = replicate 238 0,
     cd_subsysnqn = str_bytes ''nqn.a'' @ replicate 251 0, cd_hostnqn = str_bytes ''nqn.h'' @ replicate 251 0,
     cd_resv5 = replicate 256 0\<rparr>"

definition demo_port :: "nat port_config" where
  "demo_port = (w_port demo_world)\<lparr>subsystems :=
     [(''nqn.a'', subsystem_new ''nqn.a'' ''serial'' ''model'' False [''nqn.h''] [])]\<rparr>"

definition demo_queue :: "sqe queue_core" where
  "demo_queue = \<lparr>qslots = demo_slots, sqsize = 2, qid = 0, sqhd = 0, sqhd_disabled = False, stats = queue_stats_new 0\<rparr>"

definition demo_start :: "memory_backend target" where
  "demo_start = \<lparr>conns = (\<lambda>_. None), tg_registry = the (registry_new 1 100), tg_port = demo_port,
     tg_stores = (\<lambda>_. memory_backend_new 65536 9), tg_mem = (\<lambda>_. 0)\<rparr>"

definition connect_sqe :: sqe where
  "connect_sqe = sqe_zeroed\<lparr>opcode := FABRICS, cid := 3, nsid := 1\<rparr>"

lemma demo_nqn:
  "nqn_str (cd_subsysnqn demo_connect) = ''nqn.a''" "nqn_str (cd_hostnqn demo_connect) = ''nqn.h''"
  by (simp_all add: demo_connect_def nqn_str_def str_bytes_def bytes_str_def trim_end_def ascii_space_def in_range_def
      wide_space_def Let_def) code_simp+

lemma demo_cntlid: "cd_cntlid demo_connect = 0xFFFF"
  by (simp add: demo_connect_def)

lemma first_cntlid: "\<exists>r. allocate n h m k q d (the (registry_new 1 100)) = (Some 1, r)"
proof -
  have "scan_cntlid r 1 100 0 (Suc 99) = Some 1" if "controllers r 1 = None" "cntlid_min r = 1" for r
    unfolding scan_cntlid.simps using that by simp
  then show ?thesis by (simp add: allocate_def registry_new_def CNTLID_MAX_def)
qed

lemma demo_connects:
  assumes "cx_connect_data (w_ctx w) = demo_connect" "w_registry w = the (registry_new 1 100)" "w_port w = demo_port"
    and "ad_cntlid a = 0" "sqhd (w_queue w) = 0" "sqsize (w_queue w) = 2"
  shows "\<exists>x w'. connect_admin th cmd a w = Some (x, w') \<and> bound (w_ctx w') = Some ''nqn.a'' \<and>
    cx_connect_data (w_ctx w') = demo_connect"
proof -
  have "resolve_subsys demo_port ''nqn.a'' ''nqn.h'' a = Inr (a\<lparr>ad_subsys := Some ''nqn.a''\<rparr>)"
    by (simp add: resolve_subsys_def DISCOVERY_NQN_def demo_port_def port_subsystem_def subsystem_new_def admits_def)
  moreover obtain r where "\<And>m k q d. allocate ''nqn.a'' ''nqn.h'' m k q d (the (registry_new 1 100)) = (Some 1, r m k q d)"
    using first_cntlid by metis
  ultimately show ?thesis
    using assms
    by (simp add: connect_admin_def demo_nqn create_controller_def demo_cntlid Let_def DISCOVERY_NQN_def bound_def
        reply_def ctx_cqe_def advance_sqhd_def checked_add_def upd_queue_def upd_stats_def set_role_def split: option.split)
qed

theorem queues_reach_only_admitted_witness:
  "\<exists>(g :: memory_backend target) c sub. target_reach g \<and> conns g 0 = Some c \<and> bound c = Some ''nqn.a'' \<and>
    port_subsystem (tg_port g) ''nqn.a'' = Some sub \<and> admits sub ''nqn.h''"
proof -
  have s0: "target_reach demo_start"
    unfolding demo_start_def by (rule target_reach.start [of 1 100]) (simp add: registry_new_def CNTLID_MAX_def)
  obtain c0 a0 where c0: "new_admin 0 demo_queue demo_connect ''peer'' = Some c0" "cx_role c0 = Admin a0"
    "ad_cntlid a0 = 0" "cx_connect_data c0 = demo_connect" "cx_queue c0 = demo_queue" "ad_subsys a0 = None"
    by (simp add: new_admin_def register_state_new_def Let_def)
  define g1 where "g1 = demo_start\<lparr>conns := (conns demo_start)(0 \<mapsto> c0)\<rparr>"
  have "conns demo_start 0 = None" by (simp add: demo_start_def)
  then have s1: "target_reach g1"
    unfolding g1_def by (rule target_reach.step [OF s0 target_step.admin_opens [OF _ c0(1)]])
  have cmd: "sqe_as_bytes connect_sqe ! 4 = 1" "con_recfmt (connect_of_bytes (sqe_as_bytes connect_sqe)) = 0"
    by code_simp+
  define w0 where "w0 = upd_stats (\<lambda>st. st\<lparr>other_cmds := other_cmds st + 1\<rparr>)
    (set_role (Admin (a0\<lparr>last_heard := ev_now demo_env\<rparr>)) (world_of c0 g1))"
  have "w_role (world_of c0 g1) = Admin a0" using c0(2) by (simp add: world_of_def)
  then have "execute demo_env 0 connect_sqe (world_of c0 g1) = finished (connect (ev_thread demo_env) connect_sqe w0)"
    by (simp add: execute_def w0_def connect_sqe_def fabrics_execute_def cmd(1)[unfolded connect_sqe_def])
  also have "\<dots> = finished (connect_admin (ev_thread demo_env) (connect_of_bytes (sqe_as_bytes connect_sqe)) (a0\<lparr>last_heard := ev_now demo_env\<rparr>) w0)"
    by (simp add: connect_def cmd(2) w0_def Let_def upd_stats_def upd_queue_def set_role_def)
  finally have ex: "execute demo_env 0 connect_sqe (world_of c0 g1) = \<dots>" .
  have w0: "cx_connect_data (w_ctx w0) = demo_connect" "w_registry w0 = the (registry_new 1 100)" "w_port w0 = demo_port"
    "sqhd (w_queue w0) = 0" "sqsize (w_queue w0) = 2"
    using c0(4,5) by (simp_all add: w0_def upd_stats_def upd_queue_def set_role_def world_of_def g1_def demo_start_def demo_queue_def)
  have "ad_cntlid (a0\<lparr>last_heard := ev_now demo_env\<rparr>) = 0" using c0(3) by simp
  from demo_connects [OF w0(1-3) this w0(4,5), of "ev_thread demo_env" "connect_of_bytes (sqe_as_bytes connect_sqe)"]
  obtain x w where "connect_admin (ev_thread demo_env) (connect_of_bytes (sqe_as_bytes connect_sqe))
      (a0\<lparr>last_heard := ev_now demo_env\<rparr>) w0 = Some (x, w)"
    and w: "bound (w_ctx w) = Some ''nqn.a''" "cx_connect_data (w_ctx w) = demo_connect" by blast
  then have e: "execute demo_env 0 connect_sqe (world_of c0 g1) = Some (Finished x, w)"
    unfolding ex by (simp add: finished_def)
  have "conns g1 0 = Some c0" by (simp add: g1_def)
  from target_reach.step [OF s1 target_step.command [OF this e]] have r: "target_reach (put_world 0 w g1)" .
  moreover have "conns (put_world 0 w g1) 0 = Some (w_ctx w)" by (simp add: put_world_def)
  moreover obtain sub where "port_subsystem (tg_port (put_world 0 w g1)) ''nqn.a'' = Some sub" "admits sub ''nqn.h''"
    using queues_reach_only_admitted [OF calculation] w demo_nqn by auto
  ultimately show ?thesis using w(1) by blast
qed

end
