(* ===== verification/Reactor.thy ===== *)
theory Reactor
  imports Prelude
begin

text \<open>
  The io_uring reactor of a queue thread (\<^verbatim>\<open>ioutgt-uring/src/{cqe,op,reactor}.rs\<close>): the slab of
  in-flight operations, the futures that wait on them, the routing of completions, the tables of
  fixed buffers and files, and the counters. The kernel and the \<^verbatim>\<open>io_uring\<close> and \<^verbatim>\<open>slab\<close> crates are
  the environment: the key a new entry gets, the outcome of a push to the submission ring and of a
  registration are arguments, and a step relation says what the kernel may do with a submitted
  operation. \<open>mr\<close> is \<^verbatim>\<open>io_uring::cqueue::more\<close>, the test of a completion's MORE flag.
\<close>

section \<open>Completions and operation entries\<close>

datatype io_error = Errno int | IoOther string | WriteZero | UnexpectedEof | InvalidData

record cqe_result =
  cr_result :: "32 word"
  cr_flags :: u32

definition cqe_io :: "cqe_result \<Rightarrow> io_error + u32" where
  "cqe_io c = (if sint (cr_result c) < 0 then Inl (Errno (- sint (cr_result c))) else Inr (cr_result c))"

record 'r op_entry =
  oe_first :: "cqe_result option"
  oe_overflow :: "cqe_result list"
  oe_waker :: "nat option"
  terminated :: bool
  orphaned :: bool
  oe_resources :: 'r

definition op_entry_new :: "'r \<Rightarrow> 'r op_entry" where
  "op_entry_new res = \<lparr>oe_first = None, oe_overflow = [], oe_waker = None, terminated = False,
     orphaned = False, oe_resources = res\<rparr>"

definition push_result :: "cqe_result \<Rightarrow> 'r op_entry \<Rightarrow> 'r op_entry" where
  "push_result c e =
     (if oe_first e = None \<and> oe_overflow e = [] then e\<lparr>oe_first := Some c\<rparr>
      else e\<lparr>oe_overflow := oe_overflow e @ [c]\<rparr>)"

definition pop_result :: "'r op_entry \<Rightarrow> cqe_result option \<times> 'r op_entry" where
  "pop_result e =
     (case oe_first e of
        Some c \<Rightarrow> (Some c, e\<lparr>oe_first := None\<rparr>)
      | None \<Rightarrow>
          (case oe_overflow e of
             [] \<Rightarrow> (None, e)
           | c # cs \<Rightarrow> (Some c, e\<lparr>oe_overflow := cs\<rparr>)))"

definition has_result :: "'r op_entry \<Rightarrow> bool" where
  "has_result e \<longleftrightarrow> oe_first e \<noteq> None \<or> oe_overflow e \<noteq> []"

section \<open>The reactor\<close>

definition MAX_REG_BUFS :: u16 where "MAX_REG_BUFS = 64"
definition MAX_REG_FILES :: u16 where "MAX_REG_FILES = 64"
definition IGNORE_USER_DATA :: nat where "IGNORE_USER_DATA = 2 ^ 64 - 1"

datatype sqe_class = OtherSqe | SendSqe | RecvSqe | ReadSqe | WriteSqe

record reactor_stats =
  rs_parks :: u64
  rs_sqes :: u64
  rs_send_sqes :: u64
  rs_recv_sqes :: u64
  rs_read_sqes :: u64
  rs_write_sqes :: u64
  rs_cqes :: u64
  rw_submit_hist :: "u64 list"
  last_rw :: u64

definition reactor_stats_default :: reactor_stats where
  "reactor_stats_default = \<lparr>rs_parks = 0, rs_sqes = 0, rs_send_sqes = 0, rs_recv_sqes = 0, rs_read_sqes = 0,
     rs_write_sqes = 0, rs_cqes = 0, rw_submit_hist = replicate 6 0, last_rw = 0\<rparr>"

definition note_submit :: "reactor_stats \<Rightarrow> reactor_stats" where
  "note_submit s =
     (let rw = rs_read_sqes s + rs_write_sqes s;
          batch = rw - last_rw s;
          s = s\<lparr>last_rw := rw\<rparr> in
      if batch = 0 then s
      else
        let idx = (if batch = 1 then 0 else if batch = 2 then 1 else if batch \<le> 4 then 2
                   else if batch \<le> 8 then 3 else if batch \<le> 16 then 4 else 5) in
        s\<lparr>rw_submit_hist := (rw_submit_hist s)[idx := rw_submit_hist s ! idx + 1]\<rparr>)"

definition count_sqe :: "sqe_class \<Rightarrow> reactor_stats \<Rightarrow> reactor_stats" where
  "count_sqe cls s =
     (let s = s\<lparr>rs_sqes := rs_sqes s + 1\<rparr> in
      case cls of
        SendSqe \<Rightarrow> s\<lparr>rs_send_sqes := rs_send_sqes s + 1\<rparr>
      | RecvSqe \<Rightarrow> s\<lparr>rs_recv_sqes := rs_recv_sqes s + 1\<rparr>
      | ReadSqe \<Rightarrow> s\<lparr>rs_read_sqes := rs_read_sqes s + 1\<rparr>
      | WriteSqe \<Rightarrow> s\<lparr>rs_write_sqes := rs_write_sqes s + 1\<rparr>
      | OtherSqe \<Rightarrow> s)"

record 'r reactor =
  slab :: "nat \<rightharpoonup> 'r op_entry"
  rstats :: reactor_stats
  free_bufs :: "u16 list"
  fixed_supported :: bool
  free_files :: "u16 list"
  files_supported :: bool
  file_index_cache :: "(int \<times> u16 option) list"

definition reactor_init :: "bool \<Rightarrow> bool \<Rightarrow> 'r reactor" where
  "reactor_init fixed files = \<lparr>slab = (\<lambda>_. None), rstats = reactor_stats_default,
     free_bufs = (if fixed then rev (map of_nat [0..<unat MAX_REG_BUFS]) else []), fixed_supported = fixed,
     free_files = (if files then rev (map of_nat [0..<unat MAX_REG_FILES]) else []), files_supported = files,
     file_index_cache = []\<rparr>"

definition reset_stats :: "'r reactor \<Rightarrow> 'r reactor" where
  "reset_stats r = r\<lparr>rstats := reactor_stats_default\<rparr>"

text \<open>What the ring answers: to the first push, to the flush, and to the push after it.\<close>

record push_env =
  first_push :: bool
  flush_error :: "io_error option"
  second_push :: bool

definition push_sqe :: "push_env \<Rightarrow> sqe_class \<Rightarrow> 'r reactor \<Rightarrow> (io_error + unit) \<times> 'r reactor" where
  "push_sqe ev cls r =
     (if first_push ev then (Inr (), r\<lparr>rstats := count_sqe cls (rstats r)\<rparr>)
      else
        let r = r\<lparr>rstats := note_submit (rstats r)\<rparr> in
        case flush_error ev of
          Some e \<Rightarrow> (Inl e, r)
        | None \<Rightarrow>
            if second_push ev then (Inr (), r\<lparr>rstats := count_sqe cls (rstats r)\<rparr>)
            else (Inl (IoOther ''SQ ring full after flush''), r))"

text \<open>\<open>key\<close> is the vacant key the slab hands out.\<close>

definition submit_op :: "push_env \<Rightarrow> nat \<Rightarrow> 'r \<Rightarrow> sqe_class \<Rightarrow> 'r reactor \<Rightarrow> (io_error + nat) \<times> 'r reactor" where
  "submit_op ev key res cls r =
     (let r = r\<lparr>slab := (slab r)(key \<mapsto> op_entry_new res)\<rparr> in
      case push_sqe ev cls r of
        (Inl e, r) \<Rightarrow> (Inl e, r\<lparr>slab := (slab r)(key := None)\<rparr>)
      | (Inr _, r) \<Rightarrow> (Inr key, r))"

definition orphan :: "push_env \<Rightarrow> nat \<Rightarrow> 'r reactor \<Rightarrow> 'r reactor" where
  "orphan ev key r =
     (case slab r key of
        None \<Rightarrow> r
      | Some e \<Rightarrow>
          if terminated e then r\<lparr>slab := (slab r)(key := None)\<rparr>
          else snd (push_sqe ev OtherSqe
            (r\<lparr>slab := (slab r)(key \<mapsto> e\<lparr>orphaned := True, oe_waker := None\<rparr>)\<rparr>)))"

text \<open>One completion of \<^verbatim>\<open>reap\<close>'s loop, and the loop; a completion for an unknown operation trips
  the debug assertion.\<close>

definition reap_one :: "(u32 \<Rightarrow> bool) \<Rightarrow> nat \<times> cqe_result \<Rightarrow> 'r reactor \<Rightarrow> (nat list \<times> 'r reactor) option" where
  "reap_one mr cqe r =
     (let (key, c) = cqe;
          r = r\<lparr>rstats := (rstats r)\<lparr>rs_cqes := rs_cqes (rstats r) + 1\<rparr>\<rparr> in
      if key = IGNORE_USER_DATA then Some ([], r)
      else case slab r key of
        None \<Rightarrow> None
      | Some e \<Rightarrow>
          let e = (if \<not> mr (cr_flags c) then e\<lparr>terminated := True\<rparr> else e) in
          if orphaned e then
            Some ([], r\<lparr>slab := (slab r)(key := (if terminated e then None else Some e))\<rparr>)
          else
            let e = push_result c e in
            Some (option_list (oe_waker e), r\<lparr>slab := (slab r)(key \<mapsto> e\<lparr>oe_waker := None\<rparr>)\<rparr>))"

fun reap :: "(u32 \<Rightarrow> bool) \<Rightarrow> (nat \<times> cqe_result) list \<Rightarrow> 'r reactor \<Rightarrow> (nat list \<times> 'r reactor) option" where
  "reap mr [] r = Some ([], r)"
| "reap mr (c # cs) r =
     (case reap_one mr c r of
        None \<Rightarrow> None
      | Some (ws, r) \<Rightarrow> map_option (\<lambda>(ws', r). (ws @ ws', r)) (reap mr cs r))"

section \<open>Futures\<close>

text \<open>A handle is its key and whether it has seen its end; \<open>None\<close> is a panic.\<close>

record op_handle =
  oh_key :: nat
  oh_done :: bool

definition poll_single ::
  "nat \<Rightarrow> op_handle \<Rightarrow> 'r reactor \<Rightarrow> ((cqe_result \<times> 'r) poll \<times> op_handle \<times> 'r reactor) option" where
  "poll_single waker h r =
     (if oh_done h then None
      else case slab r (oh_key h) of
        None \<Rightarrow> None
      | Some e \<Rightarrow>
          if \<not> has_result e then
            Some (Pending, h, r\<lparr>slab := (slab r)(oh_key h \<mapsto> e\<lparr>oe_waker := Some waker\<rparr>)\<rparr>)
          else if \<not> terminated e then None
          else case pop_result e of
            (None, _) \<Rightarrow> None
          | (Some c, e) \<Rightarrow>
              Some (Ready (c, oe_resources e), h\<lparr>oh_done := True\<rparr>, r\<lparr>slab := (slab r)(oh_key h := None)\<rparr>))"

definition poll_next_cqe ::
  "nat \<Rightarrow> op_handle \<Rightarrow> 'r reactor \<Rightarrow> (cqe_result option poll \<times> op_handle \<times> 'r reactor) option" where
  "poll_next_cqe waker h r =
     (if oh_done h then Some (Ready None, h, r)
      else case slab r (oh_key h) of
        None \<Rightarrow> None
      | Some e \<Rightarrow>
          (case pop_result e of
             (Some c, e) \<Rightarrow>
               if terminated e \<and> \<not> has_result e
               then Some (Ready (Some c), h\<lparr>oh_done := True\<rparr>, r\<lparr>slab := (slab r)(oh_key h := None)\<rparr>)
               else Some (Ready (Some c), h, r\<lparr>slab := (slab r)(oh_key h \<mapsto> e)\<rparr>)
           | (None, e) \<Rightarrow>
               if terminated e
               then Some (Ready None, h\<lparr>oh_done := True\<rparr>, r\<lparr>slab := (slab r)(oh_key h := None)\<rparr>)
               else Some (Pending, h, r\<lparr>slab := (slab r)(oh_key h \<mapsto> e\<lparr>oe_waker := Some waker\<rparr>)\<rparr>)))"

text \<open>Dropping either kind of handle.\<close>

definition op_drop :: "push_env \<Rightarrow> op_handle \<Rightarrow> 'r reactor \<Rightarrow> 'r reactor" where
  "op_drop ev h r = (if oh_done h then r else orphan ev (oh_key h) r)"

section \<open>Fixed buffers and files\<close>

text \<open>\<open>ok\<close> is the kernel's answer to the table update.\<close>

definition register_buffer :: "bool \<Rightarrow> 'r reactor \<Rightarrow> u16 option \<times> 'r reactor" where
  "register_buffer ok r =
     (if free_bufs r = [] then (None, r)
      else
        let idx = last (free_bufs r); r = r\<lparr>free_bufs := butlast (free_bufs r)\<rparr> in
        if ok then (Some idx, r) else (None, r\<lparr>free_bufs := free_bufs r @ [idx]\<rparr>))"

definition unregister_buffer :: "u16 \<Rightarrow> 'r reactor \<Rightarrow> 'r reactor" where
  "unregister_buffer idx r = r\<lparr>free_bufs := free_bufs r @ [idx]\<rparr>"

definition register_file :: "bool \<Rightarrow> 'r reactor \<Rightarrow> u16 option \<times> 'r reactor" where
  "register_file ok r =
     (if free_files r = [] then (None, r)
      else
        let idx = last (free_files r); r = r\<lparr>free_files := butlast (free_files r)\<rparr> in
        if ok then (Some idx, r) else (None, r\<lparr>free_files := free_files r @ [idx]\<rparr>))"

definition fixed_file_index :: "bool \<Rightarrow> int \<Rightarrow> 'r reactor \<Rightarrow> u16 option \<times> 'r reactor" where
  "fixed_file_index ok fd r =
     (case map_of (file_index_cache r) fd of
        Some i \<Rightarrow> (i, r)
      | None \<Rightarrow>
          let (i, r) = register_file ok r in
          (i, r\<lparr>file_index_cache := file_index_cache r @ [(fd, i)]\<rparr>))"

section \<open>The reactor and the kernel\<close>

text \<open>
  The whole system: the reactor; the operations the kernel still works on; the completions it has
  posted and the reactor has not reaped; the live handles and the kind of each operation (\<open>True\<close> for
  one that may complete more than once). For each key, \<open>sys_posted\<close> are the results the kernel posted for
  the current operation, \<open>sys_got\<close> those its future has returned, and \<open>sys_finished\<close> says that the future
  has seen its end, by a poll and not by being dropped.
\<close>

record 'r ring_system =
  sys_reactor :: "'r reactor"
  kops :: "nat set"
  cqring :: "(nat \<times> cqe_result) list"
  sys_handles :: "nat \<rightharpoonup> bool"
  multishot :: "nat \<Rightarrow> bool"
  sys_posted :: "nat \<Rightarrow> cqe_result list"
  sys_got :: "nat \<Rightarrow> cqe_result list"
  sys_finished :: "nat set"

abbreviation the_slab :: "'r ring_system \<Rightarrow> nat \<rightharpoonup> 'r op_entry" where
  "the_slab s \<equiv> slab (sys_reactor s)"

text \<open>
  The slab hands out vacant keys. The kernel completes only what was submitted, an operation without
  the MORE flag is finished, and a single-shot operation completes once.
\<close>

inductive ring_step :: "(u32 \<Rightarrow> bool) \<Rightarrow> 'r ring_system \<Rightarrow> 'r ring_system \<Rightarrow> bool" for mr where
  submitted: "the_slab s k = None \<Longrightarrow> k < IGNORE_USER_DATA \<Longrightarrow>
    submit_op ev k res cls (sys_reactor s) = (Inr k', r) \<Longrightarrow>
    ring_step mr s (s\<lparr>sys_reactor := r, kops := insert k (kops s), sys_handles := (sys_handles s)(k \<mapsto> m),
      multishot := (multishot s)(k := m), sys_posted := (sys_posted s)(k := []), sys_got := (sys_got s)(k := []),
      sys_finished := sys_finished s - {k}\<rparr>)"
| refused: "the_slab s k = None \<Longrightarrow> submit_op ev k res cls (sys_reactor s) = (Inl e, r) \<Longrightarrow>
    ring_step mr s (s\<lparr>sys_reactor := r\<rparr>)"
| completes: "k \<in> kops s \<Longrightarrow> multishot s k \<or> \<not> mr (cr_flags c) \<Longrightarrow>
    ring_step mr s (s\<lparr>cqring := cqring s @ [(k, c)], sys_posted := (sys_posted s)(k := sys_posted s k @ [c]),
      kops := (if mr (cr_flags c) then kops s else kops s - {k})\<rparr>)"
| cancel_done: "ring_step mr s (s\<lparr>cqring := cqring s @ [(IGNORE_USER_DATA, c)]\<rparr>)"
| reaps: "reap mr (cqring s) (sys_reactor s) = Some (ws, r) \<Longrightarrow>
    ring_step mr s (s\<lparr>sys_reactor := r, cqring := []\<rparr>)"
| polls_single: "sys_handles s k = Some False \<Longrightarrow>
    poll_single w \<lparr>oh_key = k, oh_done = False\<rparr> (sys_reactor s) = Some (p, h, r) \<Longrightarrow>
    ring_step mr s (s\<lparr>sys_reactor := r, sys_handles := (sys_handles s)(k := (if oh_done h then None else Some False)),
      sys_finished := (if oh_done h then insert k (sys_finished s) else sys_finished s),
      sys_got := (case p of Ready (c, _) \<Rightarrow> (sys_got s)(k := sys_got s k @ [c]) | Pending \<Rightarrow> sys_got s)\<rparr>)"
| polls_multi: "sys_handles s k = Some True \<Longrightarrow>
    poll_next_cqe w \<lparr>oh_key = k, oh_done = False\<rparr> (sys_reactor s) = Some (p, h, r) \<Longrightarrow>
    ring_step mr s (s\<lparr>sys_reactor := r, sys_handles := (sys_handles s)(k := (if oh_done h then None else Some True)),
      sys_finished := (if oh_done h then insert k (sys_finished s) else sys_finished s),
      sys_got := (case p of Ready (Some c) \<Rightarrow> (sys_got s)(k := sys_got s k @ [c]) | _ \<Rightarrow> sys_got s)\<rparr>)"
| drops: "sys_handles s k = Some m \<Longrightarrow>
    ring_step mr s (s\<lparr>sys_reactor := op_drop ev \<lparr>oh_key = k, oh_done = False\<rparr> (sys_reactor s),
      sys_handles := (sys_handles s)(k := None)\<rparr>)"

inductive ring_reach :: "(u32 \<Rightarrow> bool) \<Rightarrow> 'r ring_system \<Rightarrow> bool" for mr where
  start: "ring_reach mr \<lparr>sys_reactor = reactor_init fx fl, kops = {}, cqring = [], sys_handles = (\<lambda>_. None),
    multishot = ms, sys_posted = p, sys_got = g, sys_finished = {}\<rparr>"
| step: "ring_reach mr s \<Longrightarrow> ring_step mr s t \<Longrightarrow> ring_reach mr t"

section \<open>The invariant\<close>

text \<open>The results an entry holds for its future: a queue.\<close>

definition results :: "'r op_entry \<Rightarrow> cqe_result list" where
  "results e = option_list (oe_first e) @ oe_overflow e"

lemma results_simps [simp]:
  "results (op_entry_new res) = []" "results (push_result c e) = results e @ [c]"
  "results (e\<lparr>oe_waker := w\<rparr>) = results e" "results (e\<lparr>terminated := t\<rparr>) = results e"
  "results (e\<lparr>orphaned := b\<rparr>) = results e" "has_result e \<longleftrightarrow> results e \<noteq> []"
  by (auto simp: results_def op_entry_new_def push_result_def has_result_def option_list_def split: option.splits)

lemma push_result_simps [simp]:
  "oe_waker (push_result c e) = oe_waker e" "terminated (push_result c e) = terminated e"
  "orphaned (push_result c e) = orphaned e" "oe_resources (push_result c e) = oe_resources e"
  by (simp_all add: push_result_def)

lemma pop_result_queue:
  "pop_result e = (case results e of [] \<Rightarrow> (None, e) | c # cs \<Rightarrow> (Some c, snd (pop_result e)))"
  "results (snd (pop_result e)) = tl (results e)"
  "terminated (snd (pop_result e)) = terminated e" "orphaned (snd (pop_result e)) = orphaned e"
  by (auto simp: pop_result_def results_def option_list_def split: option.splits list.splits)

lemma pop_result_cases:
  obtains (empty) "results e = []" "pop_result e = (None, e)"
  | (item) c e' where "results e = c # results e'" "pop_result e = (Some c, e')" "terminated e' = terminated e"
      "orphaned e' = orphaned e"
  using pop_result_queue [of e] by (cases "results e") (auto simp: prod_eq_iff)

text \<open>The completions of one key in the ring, and what holds of one key.\<close>

definition ring_of :: "nat \<Rightarrow> (nat \<times> cqe_result) list \<Rightarrow> cqe_result list" where
  "ring_of k cs = map snd (filter (\<lambda>x. fst x = k) cs)"

lemma ring_of_simps [simp]:
  "ring_of k [] = []" "ring_of k (x # cs) = (if fst x = k then snd x # ring_of k cs else ring_of k cs)"
  "ring_of k (cs @ ds) = ring_of k cs @ ring_of k ds"
  by (simp_all add: ring_of_def)

fun finishing :: "(u32 \<Rightarrow> bool) \<Rightarrow> bool \<Rightarrow> cqe_result list \<Rightarrow> bool" where
  "finishing mr live [] \<longleftrightarrow> True"
| "finishing mr live [c] \<longleftrightarrow> (mr (cr_flags c) \<longleftrightarrow> live)"
| "finishing mr live (c # cs) \<longleftrightarrow> mr (cr_flags c) \<and> finishing mr live cs"

lemma finishing_Cons: "finishing mr live (c # cs) \<longleftrightarrow> (mr (cr_flags c) \<longleftrightarrow> cs \<noteq> [] \<or> live) \<and> finishing mr live cs"
  by (cases cs) auto

lemma finishing_snoc:
  "finishing mr True cs \<Longrightarrow> finishing mr (mr (cr_flags c)) (cs @ [c])"
  by (induction cs) (auto simp: finishing_Cons)

definition key_ok ::
  "(u32 \<Rightarrow> bool) \<Rightarrow> 'r op_entry option \<Rightarrow> bool \<Rightarrow> cqe_result list \<Rightarrow> bool option \<Rightarrow> bool \<Rightarrow>
   cqe_result list \<Rightarrow> cqe_result list \<Rightarrow> bool \<Rightarrow> bool" where
  "key_ok mr entry live ring handle multi po go fin \<longleftrightarrow>
     (case entry of
        None \<Rightarrow> \<not> live \<and> ring = [] \<and> handle = None \<and> (fin \<longrightarrow> po = go)
      | Some e \<Rightarrow>
          \<not> fin \<and> finishing mr live ring \<and> (terminated e \<longleftrightarrow> \<not> live \<and> ring = []) \<and> (orphaned e \<longleftrightarrow> handle = None) \<and>
          (handle \<noteq> None \<longrightarrow> handle = Some multi) \<and> (orphaned e \<longrightarrow> \<not> terminated e) \<and>
          (\<not> orphaned e \<longrightarrow> po = go @ results e @ ring) \<and>
          (\<not> multi \<longrightarrow> (\<forall>c \<in> set ring. \<not> mr (cr_flags c)) \<and> 
            (\<not> orphaned e \<longrightarrow> length (results e) + length ring + (if live then 1 else 0) \<le> 1)))"

definition ring_inv :: "(u32 \<Rightarrow> bool) \<Rightarrow> 'r ring_system \<Rightarrow> bool" where
  "ring_inv mr s \<longleftrightarrow> (\<forall>k \<in> kops s. k < IGNORE_USER_DATA) \<and>
     (\<forall>k < IGNORE_USER_DATA. key_ok mr (the_slab s k) (k \<in> kops s) (ring_of k (cqring s)) (sys_handles s k)
        (multishot s k) (sys_posted s k) (sys_got s k) (k \<in> sys_finished s)) \<and>
     (\<forall>x \<in> set (cqring s). fst x \<le> IGNORE_USER_DATA) \<and> 
     (\<forall>k \<ge> IGNORE_USER_DATA. the_slab s k = None \<and> sys_handles s k = None \<and> k \<notin> sys_finished s)"

lemma push_sqe_slab [simp]: "slab (snd (push_sqe ev cls r)) = slab r"
  by (simp add: push_sqe_def Let_def split: option.split)

lemma submit_op_Inr: "submit_op ev k res cls r = (Inr k', r') \<Longrightarrow> slab r' = (slab r)(k \<mapsto> op_entry_new res)"
  using push_sqe_slab [of ev cls "r\<lparr>slab := (slab r)(k \<mapsto> op_entry_new res)\<rparr>"]
  by (auto simp: submit_op_def Let_def simp del: push_sqe_slab split: prod.splits sum.splits)

lemma submit_op_Inl: "submit_op ev k res cls r = (Inl e, r') \<Longrightarrow> slab r k = None \<Longrightarrow> slab r' = slab r"
  using push_sqe_slab [of ev cls "r\<lparr>slab := (slab r)(k \<mapsto> op_entry_new res)\<rparr>"]
  by (auto simp: submit_op_def Let_def simp del: push_sqe_slab split: prod.splits sum.splits)

text \<open>Every step changes one key; the others are as they were.\<close>

lemma ring_inv_key:
  "ring_inv mr s \<Longrightarrow> k < IGNORE_USER_DATA \<Longrightarrow>
    key_ok mr (the_slab s k) (k \<in> kops s) (ring_of k (cqring s)) (sys_handles s k) (multishot s k) (sys_posted s k) (sys_got s k) (k \<in> sys_finished s)"
  by (simp add: ring_inv_def)

lemma ring_inv_update:
  assumes "ring_inv mr s" and k: "k < IGNORE_USER_DATA"
    and "key_ok mr (the_slab t k) (k \<in> kops t) (ring_of k (cqring t)) (sys_handles t k) (multishot t k) (sys_posted t k) (sys_got t k) (k \<in> sys_finished t)"
    and "\<And>j. j \<noteq> k \<Longrightarrow> the_slab t j = the_slab s j \<and> (j \<in> kops t \<longleftrightarrow> j \<in> kops s) \<and>
      (j < IGNORE_USER_DATA \<longrightarrow> ring_of j (cqring t) = ring_of j (cqring s)) \<and> sys_handles t j = sys_handles s j \<and> multishot t j = multishot s j \<and>
      sys_posted t j = sys_posted s j \<and> sys_got t j = sys_got s j \<and> (j \<in> sys_finished t \<longleftrightarrow> j \<in> sys_finished s)"
    and "\<forall>x \<in> set (cqring t). fst x \<le> IGNORE_USER_DATA"
  shows "ring_inv mr t"
proof -
  have "key_ok mr (the_slab t j) (j \<in> kops t) (ring_of j (cqring t)) (sys_handles t j) (multishot t j) (sys_posted t j) (sys_got t j) (j \<in> sys_finished t)"
    if "j < IGNORE_USER_DATA" for j
    using assms(3) assms(4) [of j] ring_inv_key [OF assms(1) that] that by (cases "j = k") simp_all
  moreover have "the_slab t j = None \<and> sys_handles t j = None \<and> j \<notin> kops t \<and> j \<notin> sys_finished t" if "IGNORE_USER_DATA \<le> j" for j
    using assms(1) k assms(4) [of j] that by (fastforce simp: ring_inv_def)
  ultimately show ?thesis using assms(5) unfolding ring_inv_def by (metis not_less)
qed

lemma reap_one_inv:
  assumes inv: "ring_inv mr s" and c: "cqring s = x # cs"
  obtains ws r where "reap_one mr x (sys_reactor s) = Some (ws, r)"
    "ring_inv mr (s\<lparr>sys_reactor := r, cqring := cs\<rparr>)"
proof (cases "fst x = IGNORE_USER_DATA")
  case True
  have "ring_of k cs = ring_of k (cqring s)" if "k < IGNORE_USER_DATA" for k using c True that by simp
  then have "ring_inv mr (s\<lparr>sys_reactor := snd (the (reap_one mr x (sys_reactor s))), cqring := cs\<rparr>)"
    using inv c True by (auto simp: ring_inv_def reap_one_def Let_def case_prod_beta)
  then show ?thesis using True that by (simp add: reap_one_def Let_def case_prod_beta)
next
  case False
  define k where "k = fst x"
  have k: "k < IGNORE_USER_DATA" using inv c False by (auto simp: ring_inv_def k_def)
  note ok = ring_inv_key [OF inv k]
  obtain e where e: "the_slab s k = Some e" using ok c by (cases "the_slab s k") (auto simp: key_ok_def k_def)
  let ?q = "snd x"
  define e' where "e' = (if \<not> mr (cr_flags ?q) then e\<lparr>terminated := True\<rparr> else e)"
  define entry where "entry = (if orphaned e then if terminated e' then None else Some e'
    else Some ((push_result ?q e')\<lparr>oe_waker := None\<rparr>))"
  have "orphaned e' = orphaned e" by (simp add: e'_def)
  then have "\<exists>ws r. reap_one mr x (sys_reactor s) = Some (ws, r) \<and> slab r = (the_slab s)(k := entry)"
    using e False unfolding reap_one_def Let_def case_prod_beta k_def [symmetric]
    by (simp add: entry_def flip: e'_def)
  then obtain ws r where r: "reap_one mr x (sys_reactor s) = Some (ws, r)" and sl: "slab r = (the_slab s)(k := entry)"
    by blast
  have "key_ok mr entry (k \<in> kops s) (ring_of k cs) (sys_handles s k) (multishot s k) (sys_posted s k) (sys_got s k) (k \<in> sys_finished s)"
    using ok e c by (auto simp: key_ok_def entry_def e'_def k_def finishing_Cons)
  then have "ring_inv mr (s\<lparr>sys_reactor := r, cqring := cs\<rparr>)"
    by (intro ring_inv_update [OF inv k]) (use sl c inv in \<open>auto simp: k_def ring_inv_def\<close>)
  with r that show ?thesis by blast
qed

lemma reap_inv:
  assumes "ring_inv mr s"
  shows "\<exists>ws r. reap mr (cqring s) (sys_reactor s) = Some (ws, r) \<and> ring_inv mr (s\<lparr>sys_reactor := r, cqring := []\<rparr>)"
  using assms
proof (induction "cqring s" arbitrary: s)
  case Nil
  then show ?case by (cases s) auto
next
  case (Cons x cs)
  obtain ws r where r: "reap_one mr x (sys_reactor s) = Some (ws, r)" "ring_inv mr (s\<lparr>sys_reactor := r, cqring := cs\<rparr>)"
    using reap_one_inv [OF Cons.prems Cons.hyps(2) [symmetric]] by blast
  from Cons.hyps(1) [OF _ r(2)] obtain ws' r' where "reap mr cs r = Some (ws', r')" "ring_inv mr (s\<lparr>sys_reactor := r', cqring := []\<rparr>)"
    by auto
  with r(1) show ?case by (simp flip: Cons.hyps(2))
qed

lemma handle_entry:
  assumes "ring_inv mr s" "sys_handles s k = Some m"
  obtains e where "k < IGNORE_USER_DATA" "the_slab s k = Some e" "\<not> orphaned e" "m = multishot s k"
    "sys_posted s k = sys_got s k @ results e @ ring_of k (cqring s)"
    "\<not> m \<Longrightarrow> length (results e) + length (ring_of k (cqring s)) + (if k \<in> kops s then 1 else 0) \<le> 1" "terminated e \<longleftrightarrow> k \<notin> kops s \<and> ring_of k (cqring s) = []"
    "finishing mr (k \<in> kops s) (ring_of k (cqring s))" "\<not> m \<Longrightarrow> (\<forall>c \<in> set (ring_of k (cqring s)). \<not> mr (cr_flags c))"
    "k \<notin> sys_finished s"
proof -
  have k: "k < IGNORE_USER_DATA" using assms by (fastforce simp: ring_inv_def not_less [symmetric])
  note ok = ring_inv_key [OF assms(1) k]
  obtain e where e: "the_slab s k = Some e" using ok assms(2) by (cases "the_slab s k") (auto simp: key_ok_def)
  show ?thesis by (rule that [OF k e]) (use ok assms(2) e in \<open>auto simp: key_ok_def\<close>)
qed

lemma poll_single_inv:
  assumes inv: "ring_inv mr s" and h: "sys_handles s k = Some False"
  obtains p h' r where "poll_single w \<lparr>oh_key = k, oh_done = False\<rparr> (sys_reactor s) = Some (p, h', r)"
    "ring_inv mr (s\<lparr>sys_reactor := r, sys_handles := (sys_handles s)(k := (if oh_done h' then None else Some False)),
      sys_finished := (if oh_done h' then insert k (sys_finished s) else sys_finished s),
      sys_got := (case p of Ready (c, _) \<Rightarrow> (sys_got s)(k := sys_got s k @ [c]) | Pending \<Rightarrow> sys_got s)\<rparr>)"
proof -
  obtain e where e: "k < IGNORE_USER_DATA" "the_slab s k = Some e" "\<not> orphaned e" "\<not> multishot s k"
    "sys_posted s k = sys_got s k @ results e @ ring_of k (cqring s)" 
    "length (results e) + length (ring_of k (cqring s)) + (if k \<in> kops s then 1 else 0) \<le> 1" "terminated e \<longleftrightarrow> k \<notin> kops s \<and> ring_of k (cqring s) = []"
    "finishing mr (k \<in> kops s) (ring_of k (cqring s))" "\<forall>c \<in> set (ring_of k (cqring s)). \<not> mr (cr_flags c)"
    "k \<notin> sys_finished s"
    by (rule handle_entry [OF inv h]) simp
  have cq: "\<forall>x \<in> set (cqring s). fst x \<le> IGNORE_USER_DATA" using inv by (simp add: ring_inv_def)
  show ?thesis
  proof (cases rule: pop_result_cases [of e])
    case empty
    then show ?thesis
      using e h cq by (intro that, simp add: poll_single_def) (rule ring_inv_update [OF inv e(1)], auto simp: key_ok_def)
  next
    case (item c e')
    then have one: "results e' = []" "k \<notin> kops s" "ring_of k (cqring s) = []" "terminated e"
      using e(6,7) by (auto split: if_splits)
    with item e(2) have p: "poll_single w \<lparr>oh_key = k, oh_done = False\<rparr> (sys_reactor s) =
        Some (Ready (c, oe_resources e'), \<lparr>oh_key = k, oh_done = True\<rparr>, (sys_reactor s)\<lparr>slab := (the_slab s)(k := None)\<rparr>)"
      by (simp add: poll_single_def)
    show ?thesis
      by (rule that [OF p], rule ring_inv_update [OF inv e(1)]) (use one item e h cq in \<open>auto simp: key_ok_def\<close>)
  qed
qed

lemma poll_multi_inv:
  assumes inv: "ring_inv mr s" and h: "sys_handles s k = Some True"
  obtains p h' r where "poll_next_cqe w \<lparr>oh_key = k, oh_done = False\<rparr> (sys_reactor s) = Some (p, h', r)"
    "ring_inv mr (s\<lparr>sys_reactor := r, sys_handles := (sys_handles s)(k := (if oh_done h' then None else Some True)),
      sys_finished := (if oh_done h' then insert k (sys_finished s) else sys_finished s),
      sys_got := (case p of Ready (Some c) \<Rightarrow> (sys_got s)(k := sys_got s k @ [c]) | _ \<Rightarrow> sys_got s)\<rparr>)"
proof -
  obtain e where e: "k < IGNORE_USER_DATA" "the_slab s k = Some e" "\<not> orphaned e" "multishot s k"
    "sys_posted s k = sys_got s k @ results e @ ring_of k (cqring s)"
    "terminated e \<longleftrightarrow> k \<notin> kops s \<and> ring_of k (cqring s) = []"
    "finishing mr (k \<in> kops s) (ring_of k (cqring s))" "k \<notin> sys_finished s"
    by (rule handle_entry [OF inv h]) simp
  have cq: "\<forall>x \<in> set (cqring s). fst x \<le> IGNORE_USER_DATA" using inv by (simp add: ring_inv_def)
  show ?thesis
  proof (cases rule: pop_result_cases [of e])
    case empty
    show ?thesis
    proof (cases "terminated e")
      case True
      with empty e(2) have p: "poll_next_cqe w \<lparr>oh_key = k, oh_done = False\<rparr> (sys_reactor s) =
          Some (Ready None, \<lparr>oh_key = k, oh_done = True\<rparr>, (sys_reactor s)\<lparr>slab := (the_slab s)(k := None)\<rparr>)"
        by (simp add: poll_next_cqe_def)
      show ?thesis
        by (rule that [OF p], rule ring_inv_update [OF inv e(1)]) (use True empty e h cq in \<open>auto simp: key_ok_def\<close>)
    next
      case False
      with empty e(2) have p: "poll_next_cqe w \<lparr>oh_key = k, oh_done = False\<rparr> (sys_reactor s) =
          Some (Pending, \<lparr>oh_key = k, oh_done = False\<rparr>, (sys_reactor s)\<lparr>slab := (the_slab s)(k \<mapsto> e\<lparr>oe_waker := Some w\<rparr>)\<rparr>)"
        by (simp add: poll_next_cqe_def)
      show ?thesis
        by (rule that [OF p], rule ring_inv_update [OF inv e(1)]) (use False empty e h cq in \<open>auto simp: key_ok_def\<close>)
    qed
  next
    case (item c e')
    show ?thesis
    proof (cases "terminated e \<and> results e' = []")
      case True
      with item e(2) have p: "poll_next_cqe w \<lparr>oh_key = k, oh_done = False\<rparr> (sys_reactor s) =
          Some (Ready (Some c), \<lparr>oh_key = k, oh_done = True\<rparr>, (sys_reactor s)\<lparr>slab := (the_slab s)(k := None)\<rparr>)"
        by (simp add: poll_next_cqe_def)
      show ?thesis
        by (rule that [OF p], rule ring_inv_update [OF inv e(1)]) (use True item e h cq in \<open>auto simp: key_ok_def\<close>)
    next
      case False
      with item e(2) have p: "poll_next_cqe w \<lparr>oh_key = k, oh_done = False\<rparr> (sys_reactor s) =
          Some (Ready (Some c), \<lparr>oh_key = k, oh_done = False\<rparr>, (sys_reactor s)\<lparr>slab := (the_slab s)(k \<mapsto> e')\<rparr>)"
        by (simp add: poll_next_cqe_def)
      show ?thesis
        by (rule that [OF p], rule ring_inv_update [OF inv e(1)]) (use False item e h cq in \<open>auto simp: key_ok_def\<close>)
    qed
  qed
qed

lemma drop_inv:
  assumes inv: "ring_inv mr s" and h: "sys_handles s k = Some m"
  shows "ring_inv mr (s\<lparr>sys_reactor := op_drop ev \<lparr>oh_key = k, oh_done = False\<rparr> (sys_reactor s),
      sys_handles := (sys_handles s)(k := None)\<rparr>)"
proof -
  obtain e where e: "k < IGNORE_USER_DATA" "the_slab s k = Some e" "\<not> orphaned e"
    "terminated e \<longleftrightarrow> k \<notin> kops s \<and> ring_of k (cqring s) = []"
    "finishing mr (k \<in> kops s) (ring_of k (cqring s))" "\<not> multishot s k \<longrightarrow> (\<forall>c \<in> set (ring_of k (cqring s)). \<not> mr (cr_flags c))"
    "k \<notin> sys_finished s"
    by (rule handle_entry [OF inv h]) auto
  have "slab (op_drop ev \<lparr>oh_key = k, oh_done = False\<rparr> (sys_reactor s)) = (the_slab s)(k :=
      (if terminated e then None else Some (e\<lparr>orphaned := True, oe_waker := None\<rparr>)))"
    using e(2) by (simp add: op_drop_def orphan_def)
  then show ?thesis
    by (intro ring_inv_update [OF inv e(1)]) (use e inv in \<open>auto simp: key_ok_def ring_inv_def\<close>)
qed

lemma submitted_inv:
  assumes inv: "ring_inv mr s" and k: "the_slab s k = None" "k < IGNORE_USER_DATA"
    and r: "submit_op ev k res cls (sys_reactor s) = (Inr k', r)"
  shows "ring_inv mr (s\<lparr>sys_reactor := r, kops := insert k (kops s), sys_handles := (sys_handles s)(k \<mapsto> m),
      multishot := (multishot s)(k := m), sys_posted := (sys_posted s)(k := []), sys_got := (sys_got s)(k := []),
      sys_finished := sys_finished s - {k}\<rparr>)"
  using ring_inv_key [OF inv k(2)] k submit_op_Inr [OF r] inv
  by (intro ring_inv_update [OF inv k(2)]) (auto simp: key_ok_def op_entry_new_def results_def option_list_def ring_inv_def)

lemma completes_inv:
  assumes inv: "ring_inv mr s" and k: "k \<in> kops s" "multishot s k \<or> \<not> mr (cr_flags c)"
  shows "ring_inv mr (s\<lparr>cqring := cqring s @ [(k, c)], sys_posted := (sys_posted s)(k := sys_posted s k @ [c]),
      kops := (if mr (cr_flags c) then kops s else kops s - {k})\<rparr>)"
proof -
  have lt: "k < IGNORE_USER_DATA" using inv k(1) by (simp add: ring_inv_def)
  note ok = ring_inv_key [OF inv lt]
  obtain e where e: "the_slab s k = Some e" using ok k(1) by (cases "the_slab s k") (auto simp: key_ok_def)
  have f: "finishing mr (mr (cr_flags c)) (ring_of k (cqring s) @ [c])"
    using ok e k(1) by (intro finishing_snoc) (simp add: key_ok_def)
  show ?thesis
    by (rule ring_inv_update [OF inv lt]) (use ok e k f lt inv in \<open>auto simp: key_ok_def ring_inv_def\<close>)
qed

lemma ring_step_inv: "ring_step mr s t \<Longrightarrow> ring_inv mr s \<Longrightarrow> ring_inv mr t"
proof (induction rule: ring_step.induct)
  case (refused s k ev res cls e r)
  then show ?case using submit_op_Inl [OF refused(2)] by (simp add: ring_inv_def)
next
  case (reaps s ws r)
  then show ?case using reap_inv [OF reaps(2)] by simp
next
  case (polls_single s k w p h r)
  then show ?case by - (rule poll_single_inv [OF polls_single(3,1), of w], simp)
next
  case (polls_multi s k w p h r)
  then show ?case by - (rule poll_multi_inv [OF polls_multi(3,1), of w], simp)
next
  case (cancel_done s c)
  then show ?case by (auto simp: ring_inv_def)
qed (rule submitted_inv completes_inv drop_inv; assumption)+

lemma ring_reach_inv: "ring_reach mr s \<Longrightarrow> ring_inv mr s"
proof (induction rule: ring_reach.induct)
  case (start fx fl ms p g)
  then show ?case by (simp add: ring_inv_def key_ok_def reactor_init_def)
next
  case (step s t)
  then show ?case by (blast intro: ring_step_inv)
qed

lemma ring_inv_no_leak:
  assumes "ring_inv mr s" "kops s = {}" "cqring s = []" "sys_handles s = (\<lambda>_. None)"
  shows "the_slab s = (\<lambda>_. None)"
proof
  fix k
  show "the_slab s k = None"
  proof (cases "k < IGNORE_USER_DATA")
    case True
    then show ?thesis using ring_inv_key [OF assms(1) True] assms by (cases "the_slab s k") (auto simp: key_ok_def)
  qed (use assms(1) in \<open>simp add: ring_inv_def\<close>)
qed

lemma ring_inv_alive:
  assumes "ring_inv mr s" "k \<in> kops s \<or> ring_of k (cqring s) \<noteq> [] \<and> k < IGNORE_USER_DATA"
  shows "the_slab s k \<noteq> None"
proof -
  have k: "k < IGNORE_USER_DATA" using assms by (auto simp: ring_inv_def)
  show ?thesis using ring_inv_key [OF assms(1) k] assms(2) by (cases "the_slab s k") (auto simp: key_ok_def)
qed

lemma ring_inv_finished:
  assumes "ring_inv mr s" "k \<in> sys_finished s"
  shows "sys_got s k = sys_posted s k \<and> k \<notin> kops s \<and> ring_of k (cqring s) = []"
proof -
  have "k < IGNORE_USER_DATA" using assms by (meson not_less ring_inv_def)
  note ok = ring_inv_key [OF assms(1) this]
  then show ?thesis using assms(2) by (cases "the_slab s k") (auto simp: key_ok_def)
qed

section \<open>Properties\<close>

text \<open>C35. The memory an io_uring operation refers to outlives the operation, whatever futures are
  dropped and in whatever order completions arrive: as long as the kernel works on an operation or one
  of its completions is unreaped, the slab keeps its entry and resources. No completion is for an
  unknown operation and no poll of a live future panics. A future gets the results the kernel posted,
  in order and without loss: while it is live, what it has not returned yet is in its entry or in the
  ring, and when a poll has ended it, it has returned everything the kernel posted and the kernel posts
  no more. Once the kernel is idle and every future is gone the slab is empty.\<close>

theorem op_memory_outlives_kernel:
  assumes "ring_reach mr s"
  shows "(\<forall>k \<in> kops s. the_slab s k \<noteq> None) \<and> reap mr (cqring s) (sys_reactor s) \<noteq> None \<and>
    (\<forall>k w. sys_handles s k = Some False \<longrightarrow> poll_single w \<lparr>oh_key = k, oh_done = False\<rparr> (sys_reactor s) \<noteq> None) \<and>
    (\<forall>k w. sys_handles s k = Some True \<longrightarrow> poll_next_cqe w \<lparr>oh_key = k, oh_done = False\<rparr> (sys_reactor s) \<noteq> None) \<and>
    (\<forall>k m. sys_handles s k = Some m \<longrightarrow>
       (\<exists>e. the_slab s k = Some e \<and> sys_posted s k = sys_got s k @ results e @ ring_of k (cqring s))) \<and>
    (\<forall>k \<in> sys_finished s. sys_got s k = sys_posted s k \<and> k \<notin> kops s \<and> ring_of k (cqring s) = []) \<and>
    (kops s = {} \<and> cqring s = [] \<and> sys_handles s = (\<lambda>_. None) \<longrightarrow> the_slab s = (\<lambda>_. None))"
proof -
  note inv = ring_reach_inv [OF assms]
  have "poll_single w \<lparr>oh_key = k, oh_done = False\<rparr> (sys_reactor s) \<noteq> None" if "sys_handles s k = Some False" for k w
    by (rule poll_single_inv [OF inv that, of w]) simp
  moreover have "poll_next_cqe w \<lparr>oh_key = k, oh_done = False\<rparr> (sys_reactor s) \<noteq> None" if "sys_handles s k = Some True" for k w
    by (rule poll_multi_inv [OF inv that, of w]) simp
  moreover have "\<exists>e. the_slab s k = Some e \<and> sys_posted s k = sys_got s k @ results e @ ring_of k (cqring s)"
    if "sys_handles s k = Some m" for k m
    by (rule handle_entry [OF inv that]) blast
  moreover have "reap mr (cqring s) (sys_reactor s) \<noteq> None" using reap_inv [OF inv] by auto
  moreover have "\<forall>k \<in> sys_finished s. sys_got s k = sys_posted s k \<and> k \<notin> kops s \<and> ring_of k (cqring s) = []"
    using ring_inv_finished [OF inv] by blast
  ultimately show ?thesis using ring_inv_alive [OF inv] ring_inv_no_leak [OF inv] by auto
qed

definition ring_sample :: "unit ring_system" where
  "ring_sample = \<lparr>sys_reactor = snd (submit_op \<lparr>first_push = True, flush_error = None, second_push = True\<rparr> 0 () RecvSqe
       (reactor_init True True)), kops = {}, cqring = [(0, \<lparr>cr_result = 5, cr_flags = 0\<rparr>)], sys_handles = [0 \<mapsto> False],
     multishot = (\<lambda>_. False), sys_posted = (\<lambda>_. [])(0 := [\<lparr>cr_result = 5, cr_flags = 0\<rparr>]), sys_got = (\<lambda>_. []), sys_finished = {}\<rparr>"

theorem op_memory_outlives_kernel_witness:
  "ring_reach (\<lambda>f. f = 2) ring_sample \<and> the_slab ring_sample 0 \<noteq> None \<and>
    reap (\<lambda>f. f = 2) (cqring ring_sample) (sys_reactor ring_sample) \<noteq> None"
proof -
  let ?ev = "\<lparr>first_push = True, flush_error = None, second_push = True\<rparr>"
  define s0 :: "unit ring_system" where "s0 = \<lparr>sys_reactor = reactor_init True True, kops = {}, cqring = [],
    sys_handles = (\<lambda>_. None), multishot = (\<lambda>_. False), sys_posted = (\<lambda>_. []), sys_got = (\<lambda>_. []), sys_finished = {}\<rparr>"
  define r where "r = snd (submit_op ?ev 0 () RecvSqe (sys_reactor s0))"
  define s1 where "s1 = s0\<lparr>sys_reactor := r, kops := insert 0 (kops s0), sys_handles := (sys_handles s0)(0 \<mapsto> False),
      multishot := (multishot s0)(0 := False), sys_posted := (sys_posted s0)(0 := []), sys_got := (sys_got s0)(0 := []),
      sys_finished := sys_finished s0 - {0}\<rparr>"
  have "ring_reach (\<lambda>f. f = 2) s0" unfolding s0_def by (rule ring_reach.start)
  moreover have "ring_step (\<lambda>f. f = 2) s0 s1"
    unfolding s1_def by (rule ring_step.submitted [of s0 0 ?ev "()" RecvSqe 0])
      (simp_all add: s0_def reactor_init_def submit_op_def push_sqe_def r_def IGNORE_USER_DATA_def)
  moreover have "ring_step (\<lambda>f. f = 2) s1 ring_sample"
    using ring_step.completes [of 0 s1 "\<lambda>f. f = 2" "\<lparr>cr_result = 5, cr_flags = 0\<rparr>"]
    by (simp add: s1_def s0_def ring_sample_def r_def fun_upd_idem)
  ultimately have r: "ring_reach (\<lambda>f. f = 2) ring_sample" by (blast intro: ring_reach.step)
  have "sys_handles ring_sample 0 = Some False" by (simp add: ring_sample_def)
  with r op_memory_outlives_kernel [OF r] show ?thesis by auto
qed

end
