(* ===== verification/Buf_Ring.thy ===== *)
theory Buf_Ring
  imports Reactor Seg_Buffer
begin

text \<open>
  The provided-buffer ring of a connection (\<^verbatim>\<open>ioutgt-uring/src/bufring.rs\<close>): two receive
  sub-buffers that the kernel fills and the target hands back, unless a write still borrows bytes of
  them. The ring's memory shared with the kernel is the list of entries and the published tail; the
  addresses come from the allocator, the registrations from the reactor. Wakers are numbers, \<open>None\<close>
  is a panic, and the results carry the wakers that are woken.
\<close>

section \<open>State\<close>

definition NBUFS :: u16 where "NBUFS = 2"
definition BUF_MASK :: u16 where "BUF_MASK = NBUFS - 1"
definition BGID_RANGE :: u16 where "BGID_RANGE = 64"

record recv_chunk =
  rc_bid :: u16
  rc_len :: u32
  rc_more :: bool
  rc_buf_more :: bool

record ring_entry =
  re_addr :: nat
  re_len :: u32
  re_bid :: u16

record buf_ring =
  bgid :: u16
  bgid_owned :: bool
  ring_entries :: "ring_entry list"
  shared_tail :: u16
  ring_data :: nat
  buf_size :: u32
  ring_tail :: u16
  ring_pending :: "u32 list"
  ring_awaiting :: "bool list"
  recv_offs :: "nat list"
  provide_gen :: u64
  provide_waker :: "nat option"
  ring_buf_index :: "u16 option list"

definition bix :: "u16 \<Rightarrow> nat" where
  "bix bid = unat (bid AND BUF_MASK)"

definition ring_index :: "buf_ring \<Rightarrow> u16 \<Rightarrow> u16 option" where
  "ring_index r bid = ring_buf_index r ! bix bid"

definition ring_buf :: "buf_ring \<Rightarrow> u16 \<Rightarrow> nat option" where
  "ring_buf r bid = (if bid < NBUFS then Some (ring_data r + bix bid * unat (buf_size r)) else None)"

section \<open>Handing buffers to the kernel\<close>

definition kernel_provide :: "u16 \<Rightarrow> buf_ring \<Rightarrow> (buf_ring \<times> nat list) option" where
  "kernel_provide bid r =
     (if ring_pending r ! bix bid \<noteq> 0 then None
      else case ring_buf r bid of
        None \<Rightarrow> None
      | Some addr \<Rightarrow>
          let tail = ring_tail r;
              idx = unat (tail AND BUF_MASK);
              new_tail = tail + 1;
              i = bix bid in
          Some (r\<lparr>ring_entries := (ring_entries r)[idx := \<lparr>re_addr = addr, re_len = buf_size r, re_bid = bid\<rparr>],
                  ring_tail := new_tail, shared_tail := new_tail,
                  ring_awaiting := (ring_awaiting r)[i := False], recv_offs := (recv_offs r)[i := 0],
                  provide_gen := provide_gen r + 1, provide_waker := None\<rparr>,
                option_list (provide_waker r)))"

text \<open>One poll of \<^verbatim>\<open>wait_for_provide\<close>.\<close>

definition wait_for_provide :: "nat \<Rightarrow> u64 \<Rightarrow> buf_ring \<Rightarrow> unit poll \<times> buf_ring" where
  "wait_for_provide waker since r =
     (if provide_gen r \<noteq> since then (Ready (), r) else (Pending, r\<lparr>provide_waker := Some waker\<rparr>))"

definition ring_borrow :: "u16 \<Rightarrow> buf_ring \<Rightarrow> buf_ring option" where
  "ring_borrow bid r =
     map_option (\<lambda>n. r\<lparr>ring_pending := (ring_pending r)[bix bid := n]\<rparr>) (checked_add (ring_pending r ! bix bid) 1)"

definition ring_release :: "u16 \<Rightarrow> buf_ring \<Rightarrow> (buf_ring \<times> nat list) option" where
  "ring_release bid r =
     (let i = bix bid in
      if ring_pending r ! i = 0 then None
      else
        let n = ring_pending r ! i - 1;
            r = r\<lparr>ring_pending := (ring_pending r)[i := n]\<rparr> in
        if n = 0 \<and> ring_awaiting r ! i then kernel_provide bid r else Some (r, []))"

definition recv_off :: "buf_ring \<Rightarrow> u16 \<Rightarrow> nat" where
  "recv_off r bid = recv_offs r ! bix bid"

definition recv_advance :: "u16 \<Rightarrow> nat \<Rightarrow> buf_ring \<Rightarrow> buf_ring" where
  "recv_advance bid len r = r\<lparr>recv_offs := (recv_offs r)[bix bid := recv_offs r ! bix bid + len]\<rparr>"

definition recv_done :: "u16 \<Rightarrow> buf_ring \<Rightarrow> (buf_ring \<times> nat list) option" where
  "recv_done bid r =
     (let i = bix bid in
      if ring_pending r ! i = 0 then kernel_provide bid r
      else Some (r\<lparr>ring_awaiting := (ring_awaiting r)[i := True]\<rparr>, []))"

section \<open>Setting a ring up and down\<close>

definition alloc_bgid :: "u16 list option \<Rightarrow> u16 option \<times> u16 list option" where
  "alloc_bgid pool =
     (let ids = (case pool of Some l \<Rightarrow> l | None \<Rightarrow> rev (map of_nat [0..<unat BGID_RANGE])) in
      if ids = [] then (None, Some ids) else (Some (last ids), Some (butlast ids)))"

definition free_bgid :: "u16 \<Rightarrow> u16 list option \<Rightarrow> u16 list option" where
  "free_bgid b pool = map_option (\<lambda>l. l @ [b]) pool"

fun unregister_all :: "u16 option list \<Rightarrow> 'r reactor \<Rightarrow> 'r reactor" where
  "unregister_all [] r = r"
| "unregister_all (None # is) r = unregister_all is r"
| "unregister_all (Some i # is) r = unregister_all is (unregister_buffer i r)"

text \<open>Registers the sub-buffers one after the other; \<open>oks\<close> are the kernel's answers. \<open>None\<close>: a
  registration failed where it is required, and those before it are undone.\<close>

fun register_bufs :: "bool \<Rightarrow> bool list \<Rightarrow> u16 option list \<Rightarrow> 'r reactor \<Rightarrow> u16 option list option \<times> 'r reactor" where
  "register_bufs require_fixed [] acc r = (Some acc, r)"
| "register_bufs require_fixed (ok # oks) acc r =
     (case register_buffer ok r of
        (Some idx, r) \<Rightarrow> register_bufs require_fixed oks (acc @ [Some idx]) r
      | (None, r) \<Rightarrow>
          if require_fixed then (None, unregister_all acc r)
          else register_bufs require_fixed oks (acc @ [None]) r)"

definition ring_buf_size :: "nat \<Rightarrow> nat" where
  "ring_buf_size ring_bytes = max (ring_bytes div 2 div PAGE * PAGE) PAGE"

text \<open>The ring once registered, with no buffer provided yet.\<close>

definition ring_fresh :: "u16 \<Rightarrow> bool \<Rightarrow> nat \<Rightarrow> nat \<Rightarrow> u16 option list \<Rightarrow> buf_ring" where
  "ring_fresh b owned ring_bytes data idxs =
     \<lparr>bgid = b, bgid_owned = owned, ring_entries = replicate 2 \<lparr>re_addr = 0, re_len = 0, re_bid = 0\<rparr>,
      shared_tail = 0, ring_data = data, buf_size = of_nat (ring_buf_size ring_bytes), ring_tail = 0,
      ring_pending = [0, 0], ring_awaiting = [False, False], recv_offs = [0, 0], provide_gen = 0,
      provide_waker = None, ring_buf_index = idxs\<rparr>"

text \<open>\<open>current\<close> is the thread's reactor, if it has one.\<close>

definition ring_build ::
  "bool list \<Rightarrow> io_error option \<Rightarrow> nat \<Rightarrow> u16 \<Rightarrow> bool \<Rightarrow> bool \<Rightarrow> nat \<Rightarrow> memory \<Rightarrow> 'r reactor option \<Rightarrow>
   ((io_error + buf_ring) \<times> memory \<times> 'r reactor option) option" where
  "ring_build oks ring_error data b owned require_fixed ring_bytes m current =
     (case current of
        None \<Rightarrow> Some (Inl (IoOther ''no ioutgt-uring reactor on this thread''), m, None)
      | Some r \<Rightarrow>
          let m = mem_write data (replicate (2 * ring_buf_size ring_bytes) 0) m in
          (case register_bufs require_fixed oks [] r of
             (None, r) \<Rightarrow> Some (Inl (IoOther ''fixed-buffer table full''), m, Some r)
           | (Some idxs, r) \<Rightarrow>
               (case ring_error of
                  Some e \<Rightarrow> Some (Inl e, m, Some (unregister_all idxs r))
                | None \<Rightarrow>
                    (case kernel_provide 0 (ring_fresh b owned ring_bytes data idxs) of
                       None \<Rightarrow> None
                     | Some (br, _) \<Rightarrow> map_option (\<lambda>(br, _). (Inr br, m, Some r)) (kernel_provide 1 br)))))"

definition for_connection ::
  "bool list \<Rightarrow> io_error option \<Rightarrow> nat \<Rightarrow> nat \<Rightarrow> u16 list option \<Rightarrow> memory \<Rightarrow> 'r reactor option \<Rightarrow>
   (buf_ring option \<times> u16 list option \<times> memory \<times> 'r reactor option) option" where
  "for_connection oks ring_error data ring_bytes ids m current =
     (case alloc_bgid ids of
        (None, ids) \<Rightarrow> Some (None, ids, m, current)
      | (Some b, ids) \<Rightarrow>
          map_option (\<lambda>(res, m, current).
            case res of Inr br \<Rightarrow> (Some br, ids, m, current) | Inl _ \<Rightarrow> (None, free_bgid b ids, m, current))
            (ring_build oks ring_error data b True True ring_bytes m current))"

definition ring_drop :: "buf_ring \<Rightarrow> u16 list option \<Rightarrow> 'r reactor \<Rightarrow> u16 list option \<times> 'r reactor" where
  "ring_drop br ids r =
     (if bgid_owned br then free_bgid (bgid br) ids else ids, unregister_all (ring_buf_index br) r)"

end
