(* ===== verification/Stream_Reader.thy ===== *)
theory Stream_Reader
  imports Buf_Ring
begin

text \<open>
  The byte source of a stream connection (\<^verbatim>\<open>ioutgt-stream/src/reader.rs\<close> and the multishot receive
  of \<^verbatim>\<open>ioutgt-uring/src/ops.rs\<close>): a scratch buffer refilled by plain receives, or windows into the
  connection's provided-buffer ring; and the direct receive of a payload tail into caller memory.
  What the kernel answers is an argument; an asynchronous method is modelled by its polls.
\<close>

section \<open>Classic mode\<close>

record classic_mode =
  cm_buf :: bytes
  cm_filled :: nat
  cm_pos :: nat

definition classic_new :: "nat \<Rightarrow> classic_mode" where
  "classic_new cap = \<lparr>cm_buf = replicate cap 0, cm_filled = 0, cm_pos = 0\<rparr>"

text \<open>\<open>got\<close> is the outcome of the receive that is issued when the window is drained.\<close>

definition classic_fill :: "io_error + bytes \<Rightarrow> classic_mode \<Rightarrow> (io_error + bytes) \<times> classic_mode" where
  "classic_fill got c =
     (if cm_pos c = cm_filled c then
        (case got of
           Inl e \<Rightarrow> (Inl e, c)
         | Inr bs \<Rightarrow>
             let c = c\<lparr>cm_buf := splice 0 bs (cm_buf c), cm_pos := 0, cm_filled := length bs\<rparr> in
             (Inr (slice (cm_pos c) (cm_filled c - cm_pos c) (cm_buf c)), c))
      else (Inr (slice (cm_pos c) (cm_filled c - cm_pos c) (cm_buf c)), c))"

definition classic_consume :: "nat \<Rightarrow> classic_mode \<Rightarrow> classic_mode option" where
  "classic_consume n c = (if cm_filled c < cm_pos c + n then None else Some (c\<lparr>cm_pos := cm_pos c + n\<rparr>))"

section \<open>Direct receive\<close>

type_synonym iovec = "nat \<times> nat"

definition iov_total :: "iovec list \<Rightarrow> nat" where
  "iov_total vs = sum_list (map snd vs)"

text \<open>A scatter receive puts the bytes into the vectors in order; the loop then steps over what
  arrived. Indexing past the last vector is a panic.\<close>

fun scatter_write :: "iovec list \<Rightarrow> bytes \<Rightarrow> memory \<Rightarrow> memory" where
  "scatter_write [] bs m = m"
| "scatter_write ((p, n) # vs) bs m = scatter_write vs (drop n bs) (mem_write p (take n bs) m)"

fun iov_skip :: "nat \<Rightarrow> iovec list \<Rightarrow> iovec list option" where
  "iov_skip adv [] = (if adv = 0 then Some [] else None)"
| "iov_skip adv ((p, n) # vs) =
     (if adv = 0 then Some ((p, n) # vs)
      else if n \<le> adv then iov_skip (adv - n) vs
      else Some ((p + adv, n - adv) # vs))"

text \<open>
  \<^verbatim>\<open>read_direct_vectored\<close> against the answers of its receives, an empty answer being end of
  stream; when they run out it is still waiting.
\<close>

fun read_direct :: "(io_error + bytes) list \<Rightarrow> iovec list \<Rightarrow> nat \<Rightarrow> nat \<Rightarrow> memory \<Rightarrow>
    ((io_error + nat) poll \<times> memory) option" where
  "read_direct rs vs want got m =
     (if want \<le> got then Some (Ready (Inr got), m)
      else case rs of
        [] \<Rightarrow> Some (Pending, m)
      | Inl e # rs \<Rightarrow> Some (Ready (Inl e), m)
      | Inr bs # rs \<Rightarrow>
          if bs = [] then Some (Ready (Inr got), m)
          else case iov_skip (length bs) vs of
            None \<Rightarrow> None
          | Some vs' \<Rightarrow> read_direct rs vs' want (got + length bs) (scatter_write vs bs m))"

declare read_direct.simps [simp del]

section \<open>Ring mode\<close>

definition ENOBUFS :: int where "ENOBUFS = 105"

record cur_chunk =
  cur_bid :: u16
  cur_off :: nat
  cur_len :: nat
  cur_pos :: nat
  cur_buf_more :: bool

record ring_mode =
  rm_ring :: buf_ring
  rm_op :: bool
  rm_cur :: "cur_chunk option"
  rm_armed_gen :: u64

definition ring_mode_new :: "buf_ring \<Rightarrow> ring_mode" where
  "ring_mode_new r = \<lparr>rm_ring = r, rm_op = False, rm_cur = None, rm_armed_gen = 0\<rparr>"

text \<open>What the multishot receive yields; the arguments are the flag tests of \<^verbatim>\<open>io_uring::cqueue\<close>.\<close>

datatype recv_next = NextChunk recv_chunk | NextError io_error | NextEnd

definition recv_multi_next ::
  "(u32 \<Rightarrow> bool) \<Rightarrow> (u32 \<Rightarrow> bool) \<Rightarrow> (u32 \<Rightarrow> u16 option) \<Rightarrow> cqe_result option \<Rightarrow> recv_next" where
  "recv_multi_next mr buffer_more buffer_select res =
     (case res of
        None \<Rightarrow> NextEnd
      | Some c \<Rightarrow>
          (case cqe_io c of
             Inl e \<Rightarrow> NextError e
           | Inr n \<Rightarrow>
               if n = 0 then NextEnd
               else (case buffer_select (cr_flags c) of
                   Some b \<Rightarrow> NextChunk \<lparr>rc_bid = b, rc_len = n, rc_more = mr (cr_flags c),
                     rc_buf_more = buffer_more (cr_flags c)\<rparr>
                 | None \<Rightarrow> NextError (IoOther ''recv CQE carried no buffer''))))"

text \<open>A window is an address, a length and the sub-buffer it lies in.\<close>

datatype fill_result = Window nat nat u16 | FillEof | FillError io_error

text \<open>The suspension points of \<^verbatim>\<open>fill_bid\<close>: the next completion, or a buffer coming back.\<close>

datatype fill_at = AtNext | AtProvide

definition fill_arm :: "io_error option \<Rightarrow> ring_mode \<Rightarrow> io_error option \<times> ring_mode" where
  "fill_arm err r =
     (if rm_op r then (None, r)
      else
        let r = r\<lparr>rm_armed_gen := provide_gen (rm_ring r)\<rparr> in
        (case err of Some e \<Rightarrow> (Some e, r) | None \<Rightarrow> (None, r\<lparr>rm_op := True\<rparr>)))"

definition fill_wait :: "io_error option \<Rightarrow> ring_mode \<Rightarrow> fill_result poll \<times> ring_mode" where
  "fill_wait err r =
     (case fill_arm err r of (Some e, r) \<Rightarrow> (Ready (FillError e), r) | (None, r) \<Rightarrow> (Pending, r))"

text \<open>The call: hands out what is left of the current chunk, or retires it and starts to wait.
  The results carry the wakers woken.\<close>

definition fill_begin ::
  "io_error option \<Rightarrow> ring_mode \<Rightarrow> (fill_result poll \<times> ring_mode \<times> nat list) option" where
  "fill_begin err r =
     (case rm_cur r of
        None \<Rightarrow> (let (p, r) = fill_wait err r in Some (p, r, []))
      | Some c \<Rightarrow>
          if cur_pos c < cur_len c then
            map_option (\<lambda>a. (Ready (Window (a + (cur_off c + cur_pos c)) (cur_len c - cur_pos c) (cur_bid c)), r, []))
              (ring_buf (rm_ring r) (cur_bid c))
          else if cur_buf_more c then (let (p, r) = fill_wait err (r\<lparr>rm_cur := None\<rparr>) in Some (p, r, []))
          else (case recv_done (cur_bid c) (rm_ring r) of
              None \<Rightarrow> None
            | Some (br, ws) \<Rightarrow> (let (p, r) = fill_wait err (r\<lparr>rm_ring := br, rm_cur := None\<rparr>) in Some (p, r, ws))))"

definition fill_chunk :: "recv_chunk \<Rightarrow> ring_mode \<Rightarrow> (fill_result \<times> ring_mode) option" where
  "fill_chunk ch r =
     (let r = (if rc_more ch then r else r\<lparr>rm_op := False\<rparr>);
          len = unat (rc_len ch);
          off = recv_off (rm_ring r) (rc_bid ch);
          r = (if rc_buf_more ch then r\<lparr>rm_ring := recv_advance (rc_bid ch) len (rm_ring r)\<rparr> else r);
          r = r\<lparr>rm_cur := Some \<lparr>cur_bid = rc_bid ch, cur_off = off, cur_len = len, cur_pos = 0,
                 cur_buf_more = rc_buf_more ch\<rparr>\<rparr> in
      map_option (\<lambda>a. (Window (a + off) len (rc_bid ch), r)) (ring_buf (rm_ring r) (rc_bid ch)))"

text \<open>Parking until a buffer comes back, and arming again when one already has.\<close>

definition fill_park :: "nat \<Rightarrow> io_error option \<Rightarrow> ring_mode \<Rightarrow> fill_result poll \<times> fill_at \<times> ring_mode" where
  "fill_park waker err r =
     (case wait_for_provide waker (rm_armed_gen r) (rm_ring r) of
        (Pending, br) \<Rightarrow> (Pending, AtProvide, r\<lparr>rm_ring := br\<rparr>)
      | (Ready _, br) \<Rightarrow> (let (p, r) = fill_wait err (r\<lparr>rm_ring := br\<rparr>) in (p, AtNext, r)))"

definition fill_event ::
  "nat \<Rightarrow> io_error option \<Rightarrow> recv_next \<Rightarrow> ring_mode \<Rightarrow> (fill_result poll \<times> fill_at \<times> ring_mode) option" where
  "fill_event waker err ev r =
     (case ev of
        NextChunk ch \<Rightarrow> map_option (\<lambda>(w, r). (Ready w, AtNext, r)) (fill_chunk ch r)
      | NextError e \<Rightarrow>
          if e = Errno ENOBUFS then Some (fill_park waker err (r\<lparr>rm_op := False\<rparr>))
          else Some (Ready (FillError e), AtNext, r)
      | NextEnd \<Rightarrow> Some (Ready FillEof, AtNext, r))"

definition ring_consume :: "nat \<Rightarrow> ring_mode \<Rightarrow> ring_mode option" where
  "ring_consume n r =
     (case rm_cur r of
        None \<Rightarrow> None
      | Some c \<Rightarrow>
          if cur_len c < cur_pos c + n then None
          else Some (r\<lparr>rm_cur := Some (c\<lparr>cur_pos := cur_pos c + n\<rparr>)\<rparr>))"

end
