(* ===== verification/Gather_Batch.thy ===== *)
theory Gather_Batch
  imports Stream_Reader
begin

text \<open>
  Gather-send staging (\<^verbatim>\<open>ioutgt-uring/src/sendbatch.rs\<close>): headers are encoded into an arena, payloads
  are referenced in place, and the list of pieces is sent by one vectored send that is resumed after
  a short one. An arena is an address range of the memory; what is on the wire is the list of the
  addresses whose bytes are sent, so that it does not depend on when the memory is read.
\<close>

section \<open>State\<close>

definition UIO_MAXIOV :: nat where "UIO_MAXIOV = 1024"

record gather_batch =
  gb_arena :: nat
  gb_arena_len :: nat
  gb_buf_index :: "u16 option"
  gb_arena_used :: nat
  gb_iovs :: "iovec list"
  gb_iov_cap :: nat
  gb_live :: nat
  gb_payload_bytes :: nat
  gb_payload_items :: nat

definition gather_build :: "nat \<Rightarrow> nat \<Rightarrow> u16 option \<Rightarrow> nat \<Rightarrow> gather_batch" where
  "gather_build ptr len idx cap =
     \<lparr>gb_arena = ptr, gb_arena_len = len, gb_buf_index = idx, gb_arena_used = 0, gb_iovs = [],
      gb_iov_cap = min cap UIO_MAXIOV, gb_live = 0, gb_payload_bytes = 0, gb_payload_items = 0\<rparr>"

text \<open>A heap arena, zeroed, at the allocator's address.\<close>

definition gather_new :: "nat \<Rightarrow> nat \<Rightarrow> nat \<Rightarrow> memory \<Rightarrow> gather_batch \<times> memory" where
  "gather_new addr arena_bytes cap m =
     (let len = max arena_bytes 4096 in (gather_build addr len None cap, mem_write addr (replicate len 0) m))"

definition from_pool_arena :: "nat \<Rightarrow> nat \<Rightarrow> u16 \<Rightarrow> nat \<Rightarrow> gather_batch" where
  "from_pool_arena ptr len idx cap = gather_build ptr len (Some idx) cap"

definition gather_reset :: "gather_batch \<Rightarrow> gather_batch" where
  "gather_reset b = b\<lparr>gb_arena_used := 0, gb_iovs := [], gb_live := 0, gb_payload_bytes := 0, gb_payload_items := 0\<rparr>"

section \<open>Staging\<close>

definition note_payload :: "nat \<Rightarrow> gather_batch \<Rightarrow> gather_batch" where
  "note_payload n b = b\<lparr>gb_payload_bytes := gb_payload_bytes b + n, gb_payload_items := gb_payload_items b + 1\<rparr>"

definition avg_payload :: "gather_batch \<Rightarrow> nat" where
  "avg_payload b = (if gb_payload_items b = 0 then 0 else gb_payload_bytes b div gb_payload_items b)"

definition fits :: "nat \<Rightarrow> nat \<Rightarrow> gather_batch \<Rightarrow> bool" where
  "fits arena_need iovs_need b \<longleftrightarrow>
     gb_arena_used b + arena_need \<le> gb_arena_len b \<and> length (gb_iovs b) + iovs_need \<le> gb_iov_cap b"

text \<open>Encoding into \<^verbatim>\<open>arena_tail\<close>: a piece that does not fit is an index panic.\<close>

definition arena_tail :: "gather_batch \<Rightarrow> nat \<times> nat" where
  "arena_tail b = (gb_arena b + gb_arena_used b, gb_arena_len b - gb_arena_used b)"

definition arena_put :: "bytes \<Rightarrow> gather_batch \<Rightarrow> memory \<Rightarrow> memory option" where
  "arena_put bs b m =
     (let (p, n) = arena_tail b in if length bs \<le> n then Some (mem_write p bs m) else None)"

definition push_raw :: "nat \<Rightarrow> nat \<Rightarrow> gather_batch \<Rightarrow> gather_batch" where
  "push_raw ptr len b =
     (if len = 0 then b
      else if gb_iovs b \<noteq> [] \<and> fst (last (gb_iovs b)) + snd (last (gb_iovs b)) = ptr
      then b\<lparr>gb_iovs := butlast (gb_iovs b) @ [(fst (last (gb_iovs b)), snd (last (gb_iovs b)) + len)]\<rparr>
      else b\<lparr>gb_iovs := gb_iovs b @ [(ptr, len)]\<rparr>)"

definition push_arena :: "nat \<Rightarrow> gather_batch \<Rightarrow> gather_batch" where
  "push_arena len b =
     push_raw (gb_arena b + gb_arena_used b) len (b\<lparr>gb_arena_used := gb_arena_used b + len\<rparr>)"

section \<open>Sending\<close>

text \<open>The unsent suffix, what \<^verbatim>\<open>msghdr\<close> and \<^verbatim>\<open>live_iov\<close> describe to the kernel.\<close>

definition live_iov :: "gather_batch \<Rightarrow> iovec list" where
  "live_iov b = drop (gb_live b) (gb_iovs b)"

function advance_iovecs :: "iovec list \<Rightarrow> nat \<Rightarrow> nat \<Rightarrow> bool \<times> iovec list \<times> nat" where
  "advance_iovecs vs live sent =
     (if live < length vs then
        let (p, n) = vs ! live in
        if sent < n then (False, vs[live := (p + sent, n - sent)], live)
        else advance_iovecs vs (live + 1) (sent - n)
      else (True, vs, live))"
  by pat_completeness auto
termination by (relation "measure (\<lambda>(vs, live, sent). length vs - live)") auto

declare advance_iovecs.simps [simp del]

definition advance :: "nat \<Rightarrow> gather_batch \<Rightarrow> bool \<times> gather_batch" where
  "advance sent b =
     (let (d, vs, live) = advance_iovecs (gb_iovs b) (gb_live b) sent in (d, b\<lparr>gb_iovs := vs, gb_live := live\<rparr>))"

section \<open>Addresses on the wire\<close>

definition iov_addrs :: "iovec list \<Rightarrow> nat list" where
  "iov_addrs vs = concat (map (\<lambda>(p, n). [p..<p + n]) vs)"

definition wire :: "gather_batch \<Rightarrow> nat list" where
  "wire b = iov_addrs (live_iov b)"

lemma iov_addrs_simps [simp]: "iov_addrs [] = []" "iov_addrs ((p, n) # vs) = [p..<p + n] @ iov_addrs vs"
  "iov_addrs (vs @ ws) = iov_addrs vs @ iov_addrs ws"
  by (simp_all add: iov_addrs_def)

lemma length_iov_addrs: "length (iov_addrs vs) = iov_total vs"
  by (induction vs) (auto simp: iov_total_def)

lemma map_iov_addrs: "map m (iov_addrs vs) = concat (map (\<lambda>(p, n). mem_read m p n) vs)"
  by (induction vs) (auto simp: mem_read_def)

text \<open>Every staged piece has a length, and nothing is sent while a batch is staged.\<close>

definition batch_ok :: "gather_batch \<Rightarrow> bool" where
  "batch_ok b \<longleftrightarrow> (\<forall>(p, n) \<in> set (gb_iovs b). 0 < n) \<and> gb_live b \<le> length (gb_iovs b) \<and>
     gb_arena_used b \<le> gb_arena_len b"

text \<open>What lies in the unused part of the arena is not on the wire.\<close>

definition free_arena :: "gather_batch \<Rightarrow> nat set" where
  "free_arena g = {gb_arena g + gb_arena_used g..<gb_arena g + gb_arena_len g}"

definition staged_ok :: "gather_batch \<Rightarrow> bool" where
  "staged_ok g \<longleftrightarrow> batch_ok g \<and> gb_live g = 0 \<and> set (wire g) \<inter> free_arena g = {}"

lemma iov_addrs_merge:
  assumes "vs \<noteq> []" "fst (last vs) + snd (last vs) = ptr"
  shows "iov_addrs (butlast vs @ [(fst (last vs), snd (last vs) + len)]) = iov_addrs vs @ [ptr..<ptr + len]"
proof (cases vs rule: rev_cases)
  case (snoc ws v)
  obtain p n where v: "v = (p, n)" by fastforce
  have ptr: "ptr = p + n" using assms(2) by (simp add: snoc v)
  have "[p..<p + n + len] = [p..<p + n] @ [p + n..<p + n + len]" by (rule upt_add_eq_append) simp
  then show ?thesis by (simp add: snoc v ptr add.assoc)
qed (use assms in simp)

lemma push_raw_wire:
  assumes "gb_live b = 0"
  shows "wire (push_raw ptr len b) = wire b @ [ptr..<ptr + len]" "gb_live (push_raw ptr len b) = 0"
  using assms iov_addrs_merge [of "gb_iovs b" ptr len] by (simp_all add: push_raw_def wire_def live_iov_def)

lemma push_raw_frame [simp]:
  "gb_arena (push_raw p n b) = gb_arena b" "gb_arena_len (push_raw p n b) = gb_arena_len b"
  "gb_arena_used (push_raw p n b) = gb_arena_used b" "gb_iov_cap (push_raw p n b) = gb_iov_cap b"
  "gb_live (push_raw p n b) = gb_live b" "gb_buf_index (push_raw p n b) = gb_buf_index b"
  by (simp_all add: push_raw_def)

lemma push_raw_len: "length (gb_iovs (push_raw p n b)) \<le> length (gb_iovs b) + 1"
  by (auto simp: push_raw_def)

lemma push_raw_ok: "batch_ok b \<Longrightarrow> batch_ok (push_raw p n b)"
proof -
  assume b: "batch_ok b"
  have "\<forall>(p, n) \<in> set (gb_iovs (push_raw p n b)). 0 < n"
    using b by (auto simp: batch_ok_def push_raw_def dest: in_set_butlastD)
  moreover have "length (gb_iovs b) \<le> length (gb_iovs (push_raw p n b))" by (cases "gb_iovs b = []") (auto simp: push_raw_def)
  ultimately show ?thesis using b by (auto simp: batch_ok_def)
qed

lemma push_arena_ok:
  "batch_ok b \<Longrightarrow> gb_arena_used b + n \<le> gb_arena_len b \<Longrightarrow> batch_ok (push_arena n b)"
  unfolding push_arena_def by (rule push_raw_ok) (auto simp: batch_ok_def)

text \<open>A short send: the unsent suffix is what is left, and it is empty exactly when all was sent.\<close>

lemma advance_iovecs_spec:
  assumes "\<forall>(p, n) \<in> set vs. 0 < n" "live \<le> length vs" "sent \<le> iov_total (drop live vs)"
    and "advance_iovecs vs live sent = (d, vs', live')"
  shows "iov_addrs (drop live' vs') = drop sent (iov_addrs (drop live vs)) \<and>
    (d \<longleftrightarrow> sent = iov_total (drop live vs)) \<and> (\<forall>(p, n) \<in> set vs'. 0 < n) \<and> live' \<le> length vs'"
  using assms
proof (induction vs live sent arbitrary: d vs' live' rule: advance_iovecs.induct)
  case (1 vs live sent)
  note eq = "1.prems"(4) [unfolded advance_iovecs.simps [of vs live sent]]
  show ?case
  proof (cases "live < length vs")
    case False
    then show ?thesis using "1.prems" eq by (auto simp: iov_total_def)
  next
    case True
    obtain p n where e: "vs ! live = (p, n)" by fastforce
    have c: "drop live vs = (p, n) # drop (live + 1) vs" using True e by (metis Cons_nth_drop_Suc Suc_eq_plus1)
    show ?thesis
    proof (cases "sent < n")
      case short: True
      then have r: "d = False" "vs' = vs[live := (p + sent, n - sent)]" "live' = live"
        using eq True e by auto
      have dr: "drop live' vs' = (p + sent, n - sent) # drop (live + 1) vs"
        using True by (simp add: r Cons_nth_drop_Suc [symmetric])
      have "\<forall>(p, n) \<in> set vs'. 0 < n"
        using "1.prems"(1) short unfolding r by (auto dest!: set_update_subset_insert [THEN subsetD])
      moreover have "iov_addrs (drop live' vs') = drop sent (iov_addrs (drop live vs))"
        unfolding dr c using short by simp
      moreover have "sent \<noteq> iov_total (drop live vs)" unfolding c using short by (simp add: iov_total_def)
      ultimately show ?thesis using r(1,3) True by (simp add: r(2))
    next
      case False
      have st: "advance_iovecs vs (live + 1) (sent - n) = (d, vs', live')" using eq True e False by simp
      have "live + 1 \<le> length vs" "sent - n \<le> iov_total (drop (live + 1) vs)"
        using True "1.prems"(3) c by (simp_all add: iov_total_def)
      note ih = "1.IH" [OF True e [symmetric] refl False "1.prems"(1) this st]
      show ?thesis using ih c False "1.prems"(3) by (auto simp: iov_total_def)
    qed
  qed
qed

lemma advance_spec:
  assumes "batch_ok b" "n \<le> length (wire b)" "advance n b = (d, b')"
  shows "wire b' = drop n (wire b)" "d \<longleftrightarrow> n = length (wire b)" "batch_ok b'"
proof -
  obtain vs l where a: "advance_iovecs (gb_iovs b) (gb_live b) n = (d, vs, l)" "b' = b\<lparr>gb_iovs := vs, gb_live := l\<rparr>"
    using assms(3) by (auto simp: advance_def split: prod.splits)
  have "n \<le> iov_total (drop (gb_live b) (gb_iovs b))"
    using assms(2) by (simp add: wire_def live_iov_def length_iov_addrs)
  note s = advance_iovecs_spec [OF _ _ this a(1)]
  show "wire b' = drop n (wire b)" "d \<longleftrightarrow> n = length (wire b)" "batch_ok b'"
    using s assms(1) by (simp_all add: batch_ok_def wire_def live_iov_def length_iov_addrs a(2))
qed

end
