(* ===== verification/Stream_Sender.thy ===== *)
theory Stream_Sender
  imports Gather_Batch Slotq
begin

text \<open>
  The send path's driver (\<^verbatim>\<open>ioutgt-stream/src/lib.rs\<close>): work items are staged into one of two gather
  batches, a batch is sent by one operation at a time, possibly without copying, and the tags of the
  commands it answers are released when the kernel no longer refers to their buffers. The staging of
  one item is the transport's (an argument), its errors, counts and notifications are the kernel's.
  The asynchronous methods are the steps of \<open>send_step\<close> between their suspension points; operations
  and their notifications are numbered. \<open>None\<close> is a panic. The results of releasing tags carry the
  wakers woken and the receive-ring buffers given back.
\<close>

section \<open>Batches\<close>

datatype staged = NoRelease | AtCqe u16 | AtNotif u16

record send_batch =
  sb_gather :: gather_batch
  sb_arena_per_item :: nat
  sb_iovs_per_item :: nat
  tags_at_cqe :: "u16 list"
  tags_at_notif :: "u16 list"
  pending_notifs :: "nat list"

definition send_batch_around :: "gather_batch \<Rightarrow> nat \<Rightarrow> nat \<Rightarrow> send_batch" where
  "send_batch_around g arena_per_item iovs_per_item =
     \<lparr>sb_gather = g, sb_arena_per_item = arena_per_item, sb_iovs_per_item = iovs_per_item,
      tags_at_cqe = [], tags_at_notif = [], pending_notifs = []\<rparr>"

definition send_batch_new :: "nat \<Rightarrow> u16 \<Rightarrow> nat \<Rightarrow> nat \<Rightarrow> memory \<Rightarrow> send_batch \<times> memory" where
  "send_batch_new addr depth arena_per_item iovs_per_item m =
     (let n = unat depth;
          (g, m) = gather_new addr (n * arena_per_item) (n * iovs_per_item + iovs_per_item) m in
      (send_batch_around g arena_per_item iovs_per_item, m))"

definition with_pool_arena :: "u16 \<Rightarrow> nat \<Rightarrow> nat \<Rightarrow> nat \<Rightarrow> u16 \<Rightarrow> send_batch" where
  "with_pool_arena depth arena_per_item iovs_per_item ptr idx =
     (let n = unat depth in
      send_batch_around (from_pool_arena ptr (n * arena_per_item) idx (n * iovs_per_item + iovs_per_item))
        arena_per_item iovs_per_item)"

definition batch_reset :: "send_batch \<Rightarrow> send_batch option" where
  "batch_reset b =
     (if pending_notifs b \<noteq> [] then None
      else Some (b\<lparr>sb_gather := gather_reset (sb_gather b), tags_at_cqe := [], tags_at_notif := []\<rparr>))"

definition batch_fits :: "send_batch \<Rightarrow> bool" where
  "batch_fits b \<longleftrightarrow> fits (sb_arena_per_item b) (sb_iovs_per_item b) (sb_gather b)"

fun release_tags :: "u16 list \<Rightarrow> 'c slot_array \<Rightarrow> ('c slot_array \<times> nat list \<times> u16 list) option" where
  "release_tags [] a = Some (a, [], [])"
| "release_tags (t # ts) a =
     (case release_tag t a of
        None \<Rightarrow> None
      | Some (a, ws, bids) \<Rightarrow>
          map_option (\<lambda>(a, ws', bids'). (a, ws @ ws', bids @ bids')) (release_tags ts a))"

definition recycle :: "send_batch \<Rightarrow> 'c slot_array \<Rightarrow> (send_batch \<times> 'c slot_array \<times> nat list \<times> u16 list) option" where
  "recycle b a =
     (case release_tags (tags_at_notif b) a of
        None \<Rightarrow> None
      | Some (a, e) \<Rightarrow> map_option (\<lambda>b. (b, a, e)) (batch_reset b))"

section \<open>The sender\<close>

definition ZC_GATHER_CAP :: nat where "ZC_GATHER_CAP = 1024 * 1024"
definition DEFAULT_ZC_MIN_BYTES :: nat where "DEFAULT_ZC_MIN_BYTES = 12288"

record stream_sender =
  sd_batches :: "send_batch list"
  sd_inflight :: "nat list"
  zc_batches :: u64
  zc_copied :: u64
  zc_fallbacks :: u64
  vec_fixed_ok :: bool
  zc_min_avg :: nat

text \<open>\<open>a\<close> and \<open>b\<close> are the addresses of heap arenas.\<close>

definition sender_new ::
  "nat \<Rightarrow> nat \<Rightarrow> u16 \<Rightarrow> nat \<Rightarrow> nat \<Rightarrow> (nat \<times> u16) option \<Rightarrow> nat \<Rightarrow> memory \<Rightarrow> stream_sender \<times> memory" where
  "sender_new a b depth arena_per_item iovs_per_item pool_arena zc_min m =
     (let (bs, m) = (case pool_arena of
            Some (ptr, idx) \<Rightarrow>
              ([with_pool_arena depth arena_per_item iovs_per_item ptr idx,
                with_pool_arena depth arena_per_item iovs_per_item (ptr + unat depth * arena_per_item) idx], m)
          | None \<Rightarrow>
              let (x, m) = send_batch_new a depth arena_per_item iovs_per_item m;
                  (y, m) = send_batch_new b depth arena_per_item iovs_per_item m in ([x, y], m)) in
      (\<lparr>sd_batches = bs, sd_inflight = [], zc_batches = 0, zc_copied = 0, zc_fallbacks = 0,
        vec_fixed_ok = (pool_arena \<noteq> None), zc_min_avg = zc_min\<rparr>, m))"

section \<open>Staging\<close>

text \<open>The transport's staging of one item: it sees the slots, extends the gather and may write into
  its arena.\<close>

type_synonym ('c, 'w) stager = "'c slot_array \<Rightarrow> gather_batch \<Rightarrow> 'w \<Rightarrow> memory \<Rightarrow> (gather_batch \<times> staged \<times> memory) option"

definition add_staged :: "staged \<Rightarrow> send_batch \<Rightarrow> send_batch" where
  "add_staged s b =
     (case s of
        NoRelease \<Rightarrow> b
      | AtCqe t \<Rightarrow> b\<lparr>tags_at_cqe := tags_at_cqe b @ [t]\<rparr>
      | AtNotif t \<Rightarrow> b\<lparr>tags_at_notif := tags_at_notif b @ [t]\<rparr>)"

definition cap_reached :: "nat option \<Rightarrow> gather_batch \<Rightarrow> bool" where
  "cap_reached cap g \<longleftrightarrow>
     (case cap of None \<Rightarrow> False | Some zc_min \<Rightarrow> zc_min \<le> avg_payload g \<and> ZC_GATHER_CAP \<le> gb_payload_bytes g)"

fun stage_items ::
  "('c, 'w) stager \<Rightarrow> nat option \<Rightarrow> 'c slot_array \<Rightarrow> 'w \<Rightarrow> 'w list \<Rightarrow> send_batch \<Rightarrow> memory \<Rightarrow>
   ('w option \<times> 'w list \<times> send_batch \<times> memory) option" where
  "stage_items stage cap a w ws b m =
     (if \<not> batch_fits b then Some (Some w, ws, b, m)
      else case stage a (sb_gather b) w m of
        None \<Rightarrow> None
      | Some (g, st, m) \<Rightarrow>
          let b = add_staged st (b\<lparr>sb_gather := g\<rparr>) in
          if cap_reached cap (sb_gather b) then Some (None, ws, b, m)
          else (case ws of
              [] \<Rightarrow> Some (None, [], b, m)
            | w' # ws' \<Rightarrow> stage_items stage cap a w' ws' b m))"

declare stage_items.simps [simp del]

definition stage_batch ::
  "('c, 'w) stager \<Rightarrow> nat option \<Rightarrow> 'c slot_array \<Rightarrow> 'w \<Rightarrow> 'w send_list \<Rightarrow> send_batch \<Rightarrow> memory \<Rightarrow>
   ('w option \<times> 'w send_list \<times> send_batch \<times> memory) option" where
  "stage_batch stage cap a first l b m =
     map_option (\<lambda>(carry, ws, b, m). (carry, l\<lparr>work := ws\<rparr>, b, m)) (stage_items stage cap a first (work l) b m)"

section \<open>Sending a batch\<close>

datatype send_op = SendZcVec u16 | SendMsgZc | SendMsg

definition ship_choose :: "bool \<Rightarrow> bool \<Rightarrow> send_batch \<Rightarrow> send_op" where
  "ship_choose use_zc vec_ok b =
     (if use_zc then
        (case gb_buf_index (sb_gather b) of
           Some i \<Rightarrow> if vec_ok then SendZcVec i else SendMsgZc
         | None \<Rightarrow> SendMsgZc)
      else SendMsg)"

datatype ship_next = ShipOk | ShipErr io_error | ShipAgain bool

definition vec_rejected :: "io_error \<Rightarrow> bool" where
  "vec_rejected e \<longleftrightarrow> e \<in> {Errno 22, Errno 14, Errno 95}"

definition zc_exhausted :: "io_error \<Rightarrow> bool" where
  "zc_exhausted e \<longleftrightarrow> e \<in> {Errno 12, Errno 105}"

text \<open>The completion of a send: \<open>k\<close> is the number of the operation, for its notification.\<close>

definition ship_result ::
  "send_op \<Rightarrow> nat \<Rightarrow> io_error + nat \<Rightarrow> bool \<Rightarrow> send_batch \<Rightarrow> stream_sender \<Rightarrow> ship_next \<times> send_batch \<times> stream_sender" where
  "ship_result opn k res use_zc b s =
     (let b = (if opn = SendMsg then b else b\<lparr>pending_notifs := pending_notifs b @ [k]\<rparr>) in
      case res of
        Inr n \<Rightarrow>
          if n = 0 then (ShipErr WriteZero, b, s)
          else
            let (d, g) = advance n (sb_gather b) in
            (if d then ShipOk else ShipAgain use_zc, b\<lparr>sb_gather := g\<rparr>, s)
      | Inl e \<Rightarrow>
          if (\<exists>i. opn = SendZcVec i) \<and> vec_rejected e then (ShipAgain use_zc, b, s\<lparr>vec_fixed_ok := False\<rparr>)
          else if opn \<noteq> SendMsg \<and> zc_exhausted e then (ShipAgain False, b, s\<lparr>zc_fallbacks := zc_fallbacks s + 1\<rparr>)
          else (ShipErr e, b, s))"

definition put_batch :: "nat \<Rightarrow> send_batch \<Rightarrow> stream_sender \<Rightarrow> stream_sender" where
  "put_batch i b s = s\<lparr>sd_batches := (sd_batches s)[i := b]\<rparr>"

definition retire :: "nat \<Rightarrow> stream_sender \<Rightarrow> 'c slot_array \<Rightarrow> (stream_sender \<times> 'c slot_array \<times> nat list \<times> u16 list) option" where
  "retire i s a =
     (let b = sd_batches s ! i in
      case release_tags (tags_at_cqe b) a of
        None \<Rightarrow> None
      | Some (a, ws, bids) \<Rightarrow>
          let b = b\<lparr>tags_at_cqe := []\<rparr> in
          if pending_notifs b = [] then
            map_option (\<lambda>(b, a, ws', bids'). (put_batch i b s, a, ws @ ws', bids @ bids')) (recycle b a)
          else Some ((put_batch i b s)\<lparr>zc_batches := zc_batches s + 1, sd_inflight := sd_inflight s @ [i]\<rparr>, a, ws, bids))"

section \<open>Notifications\<close>

definition swap_remove :: "nat \<Rightarrow> 'a list \<Rightarrow> 'a list" where
  "swap_remove i xs = (if i + 1 = length xs then butlast xs else (butlast xs)[i := last xs])"

text \<open>\<open>ready k\<close> is the outcome of notification \<open>k\<close> once it has arrived: whether the kernel copied.\<close>

function poll_notifs :: "(nat \<Rightarrow> bool option) \<Rightarrow> nat \<Rightarrow> nat list \<Rightarrow> u64 \<Rightarrow> nat list \<times> u64" where
  "poll_notifs ready i ns copied =
     (if i < length ns then
        (case ready (ns ! i) of
           Some c \<Rightarrow> poll_notifs ready i (swap_remove i ns) (if c then copied + 1 else copied)
         | None \<Rightarrow> poll_notifs ready (i + 1) ns copied)
      else (ns, copied))"
  by pat_completeness auto
termination
  by (relation "measure (\<lambda>(r, i, ns, c). length ns - i)") (auto simp: swap_remove_def)

declare poll_notifs.simps [simp del]

definition acquire_free :: "stream_sender \<Rightarrow> nat option" where
  "acquire_free s = find (\<lambda>i. i \<notin> set (sd_inflight s)) [0..<length (sd_batches s)]"

section \<open>The loop\<close>

text \<open>
  Where the task is: in \<^verbatim>\<open>next_work_reaping\<close>; about to take a batch; in \<^verbatim>\<open>reap\<close> of a batch taken off
  the in-flight list; about to issue a send, or waiting for its completion; in the final drain with
  the batches still to reap; done. The errors are the result of the run.
\<close>

datatype 'w send_pc =
    NextWork
  | Acquiring 'w
  | ReapOldest nat 'w
  | Shipping nat bool "'w option"
  | Sending nat bool "'w option" send_op nat
  | Draining "io_error option" "nat list"
  | Finished "io_error option"

text \<open>
  The kernel: the memory an operation or its notification still refers to, the notifications that
  have arrived, and the bytes the socket has taken. \<open>ss_due\<close> is what the items queued so far encode to.
\<close>

record ('c, 'w) send_sys =
  ss_sender :: stream_sender
  ss_pc :: "'w send_pc"
  ss_slots :: "'c slot_array"
  ss_work :: "'w send_list"
  ss_mem :: memory
  ss_pins :: "nat \<Rightarrow> nat set"
  ss_notified :: "nat \<Rightarrow> bool option"
  ss_next :: nat
  ss_wire :: bytes
  ss_due :: bytes
  ss_woken :: "nat list"
  ss_bids :: "u16 list"

text \<open>The slots after releasing tags, with the wakers woken and the ring buffers given back.\<close>

definition put_released :: "'c slot_array \<times> nat list \<times> u16 list \<Rightarrow> ('c, 'w) send_sys \<Rightarrow> ('c, 'w) send_sys" where
  "put_released r s = (case r of (a, ws, bids) \<Rightarrow>
     s\<lparr>ss_slots := a, ss_woken := ss_woken s @ ws, ss_bids := ss_bids s @ bids\<rparr>)"

definition drain_list :: "stream_sender \<Rightarrow> nat list" where
  "drain_list s = sd_inflight s @ [0..<length (sd_batches s)]"

text \<open>The final drain: the batches taken off the in-flight list, then both.\<close>

definition start_drain :: "io_error option \<Rightarrow> ('c, 'w) send_sys \<Rightarrow> ('c, 'w) send_sys" where
  "start_drain r s = s\<lparr>ss_pc := Draining r (drain_list (ss_sender s)), ss_sender := (ss_sender s)\<lparr>sd_inflight := []\<rparr>\<rparr>"

text \<open>One poll in \<^verbatim>\<open>next_work_reaping\<close>.\<close>

definition next_work :: "nat \<Rightarrow> ('c, 'w) send_sys \<Rightarrow> ('c, 'w) send_sys option" where
  "next_work waker s =
     (case poll_next waker (ss_work s) of
        (Ready (Some w), l) \<Rightarrow> Some (s\<lparr>ss_work := l, ss_pc := Acquiring w\<rparr>)
      | (Ready None, l) \<Rightarrow> Some (start_drain None (s\<lparr>ss_work := l\<rparr>))
      | (Pending, l) \<Rightarrow>
          let s = s\<lparr>ss_work := l\<rparr> in
          (case sd_inflight (ss_sender s) of
             [] \<Rightarrow> Some s
           | i # is \<Rightarrow>
               let b = sd_batches (ss_sender s) ! i;
                   (ns, copied) = poll_notifs (ss_notified s) 0 (pending_notifs b) (zc_copied (ss_sender s));
                   b = b\<lparr>pending_notifs := ns\<rparr>;
                   sd = (put_batch i b (ss_sender s))\<lparr>zc_copied := copied\<rparr> in
               if ns = [] then
                 map_option (\<lambda>(b, r). put_released r (s\<lparr>ss_sender := put_batch i b (sd\<lparr>sd_inflight := is\<rparr>)\<rparr>))
                   (recycle b (ss_slots s))
               else Some (s\<lparr>ss_sender := sd\<rparr>)))"

text \<open>\<^verbatim>\<open>acquire\<close> and the staging of the batch it returns.\<close>

definition acquire_stage :: "('c, 'w) stager \<Rightarrow> bool \<Rightarrow> 'w \<Rightarrow> ('c, 'w) send_sys \<Rightarrow> ('c, 'w) send_sys option" where
  "acquire_stage stage send_zc w s =
     (let sd = ss_sender s in
      if length (sd_inflight sd) = length (sd_batches sd) then
        (case sd_inflight sd of
           [] \<Rightarrow> None
         | i # is \<Rightarrow> Some (s\<lparr>ss_sender := sd\<lparr>sd_inflight := is\<rparr>, ss_pc := ReapOldest i w\<rparr>))
      else case acquire_free sd of
        None \<Rightarrow> None
      | Some i \<Rightarrow>
          (case stage_batch stage (if send_zc then Some (zc_min_avg sd) else None) (ss_slots s) w (ss_work s)
              (sd_batches sd ! i) (ss_mem s) of
             None \<Rightarrow> None
           | Some (carry, l, b, m) \<Rightarrow>
               Some (s\<lparr>ss_sender := put_batch i b sd, ss_work := l, ss_mem := m,
                 ss_pc := Shipping i (send_zc \<and> zc_min_avg sd \<le> avg_payload (sb_gather b)) carry\<rparr>)))"

text \<open>One poll of \<^verbatim>\<open>reap\<close>: the last notification, or the batch is recycled.\<close>

definition reap_poll :: "nat \<Rightarrow> ('c, 'w) send_sys \<Rightarrow> (bool \<times> ('c, 'w) send_sys) option" where
  "reap_poll i s =
     (let b = sd_batches (ss_sender s) ! i in
      if pending_notifs b = [] then
        map_option (\<lambda>(b, r). (True, put_released r (s\<lparr>ss_sender := put_batch i b (ss_sender s)\<rparr>))) (recycle b (ss_slots s))
      else case ss_notified s (last (pending_notifs b)) of
        None \<Rightarrow> Some (False, s)
      | Some c \<Rightarrow>
          let sd = put_batch i (b\<lparr>pending_notifs := butlast (pending_notifs b)\<rparr>) (ss_sender s) in
          Some (False, s\<lparr>ss_sender := sd\<lparr>zc_copied := if c then zc_copied sd + 1 else zc_copied sd\<rparr>\<rparr>))"

text \<open>After a batch: the item that did not fit is next.\<close>

definition after_ship :: "'w option \<Rightarrow> 'w send_pc" where
  "after_ship carry = (case carry of Some w \<Rightarrow> Acquiring w | None \<Rightarrow> NextWork)"

definition ship_complete ::
  "nat \<Rightarrow> bool \<Rightarrow> 'w option \<Rightarrow> send_op \<Rightarrow> nat \<Rightarrow> io_error + nat \<Rightarrow> ('c, 'w) send_sys \<Rightarrow> ('c, 'w) send_sys option" where
  "ship_complete i use_zc carry opn k res s =
     (let (nx, b, sd) = ship_result opn k res use_zc (sd_batches (ss_sender s) ! i) (ss_sender s);
          s = s\<lparr>ss_sender := put_batch i b sd\<rparr> in
      case nx of
        ShipErr e \<Rightarrow> Some (start_drain (Some e) s)
      | ShipAgain zc \<Rightarrow> Some (s\<lparr>ss_pc := Shipping i zc carry\<rparr>)
      | ShipOk \<Rightarrow>
          map_option (\<lambda>(sd, r). put_released r (s\<lparr>ss_sender := sd, ss_pc := after_ship carry\<rparr>))
            (retire i (ss_sender s) (ss_slots s)))"

end
