(* ===== verification/Sender_Safety.thy ===== *)
theory Sender_Safety
  imports Stream_Sender "HOL-Library.Multiset"
begin

text \<open>
  The sender of \<^verbatim>\<open>ioutgt-stream/src/lib.rs\<close> together with the kernel and the tasks that produce its work.
  The memory the kernel may still read is tracked from the moment an operation is issued until its
  notification; a transport's staging is described by the locale \<open>staging\<close>.
\<close>

section \<open>The system\<close>

definition staged_tags :: "staged \<Rightarrow> u16 list" where
  "staged_tags st = (case st of NoRelease \<Rightarrow> [] | AtCqe t \<Rightarrow> [t] | AtNotif t \<Rightarrow> [t])"

text \<open>A transport: its staging, the class of an item, the bytes an item stands for and whether its data
  are in the slot.\<close>

record ('c, 'w) transport =
  tr_stage :: "('c, 'w) stager"
  tr_class :: "'w \<Rightarrow> staged"
  tr_bytes :: "'c slot_array \<Rightarrow> memory \<Rightarrow> 'w \<Rightarrow> bytes"
  tr_ready :: "'c slot_array \<Rightarrow> 'w \<Rightarrow> bool"

definition batch_arena :: "send_batch \<Rightarrow> nat set" where
  "batch_arena b = {gb_arena (sb_gather b)..<gb_arena (sb_gather b) + gb_arena_len (sb_gather b)}"

definition slot_addrs :: "'c slot_array \<Rightarrow> u16 \<Rightarrow> nat set" where
  "slot_addrs a t = (case slot_of a t of Some s \<Rightarrow> data_addrs (slot_data s) | None \<Rightarrow> {})"

definition batch_addrs :: "'c slot_array \<Rightarrow> send_batch \<Rightarrow> nat set" where
  "batch_addrs a b = batch_arena b \<union> (\<Union>t \<in> set (tags_at_notif b). slot_addrs a t)"

definition responding :: "'c slot_array \<Rightarrow> u16 \<Rightarrow> bool" where
  "responding a t \<longleftrightarrow> (\<exists>s. slot_of a t = Some s \<and> slot_state s = Responding)"

text \<open>
  The steps: the sender's own between two suspension points, the kernel's completions and
  notifications, and those of other tasks, which answer a command and queue the answer, queue an item
  with no tag, close the list, or work on slots that are not being answered. The buffer of an answered
  slot and the arenas are different allocations, and no other task writes into either.
\<close>

inductive send_step :: "('c, 'w) transport \<Rightarrow> bool \<Rightarrow> ('c, 'w) send_sys \<Rightarrow> ('c, 'w) send_sys \<Rightarrow> bool"
  for tr :: "('c, 'w) transport" and zc :: bool where
  next_work: "ss_pc s = NextWork \<Longrightarrow> next_work waker s = Some s' \<Longrightarrow> send_step tr zc s s'"
| acquire: "ss_pc s = Acquiring w \<Longrightarrow> acquire_stage (tr_stage tr) zc w s = Some s' \<Longrightarrow> send_step tr zc s s'"
| reap: "ss_pc s = ReapOldest i w \<Longrightarrow> reap_poll i s = Some (fin, s') \<Longrightarrow>
    send_step tr zc s (s'\<lparr>ss_pc := if fin then Acquiring w else ReapOldest i w\<rparr>)"
| issue: "ss_pc s = Shipping i z carry \<Longrightarrow>
    send_step tr zc s (s\<lparr>ss_pc := Sending i z carry (ship_choose z (vec_fixed_ok (ss_sender s)) (sd_batches (ss_sender s) ! i)) (ss_next s),
      ss_pins := (ss_pins s)(ss_next s := set (wire (sb_gather (sd_batches (ss_sender s) ! i)))), ss_next := ss_next s + 1\<rparr>)"
| reject: "ss_pc s = Shipping i z carry \<Longrightarrow> send_step tr zc s (start_drain (Some e) s)"
| complete: "ss_pc s = Sending i z carry opn k \<Longrightarrow>
    (case res of Inr n \<Rightarrow> n \<le> length (wire (sb_gather (sd_batches (ss_sender s) ! i))) | Inl _ \<Rightarrow> True) \<Longrightarrow>
    ship_complete i z carry opn k res (s\<lparr>ss_pins := if opn = SendMsg then (ss_pins s)(k := {}) else ss_pins s,
      ss_wire := ss_wire s @ (case res of
        Inr n \<Rightarrow> map (ss_mem s) (take n (wire (sb_gather (sd_batches (ss_sender s) ! i)))) | Inl _ \<Rightarrow> [])\<rparr>) = Some s' \<Longrightarrow>
    send_step tr zc s s'"
| notify: "k < ss_next s \<Longrightarrow> (\<forall>i z carry opn. ss_pc s \<noteq> Sending i z carry opn k) \<Longrightarrow>
    send_step tr zc s (s\<lparr>ss_pins := (ss_pins s)(k := {}), ss_notified := (ss_notified s)(k := Some copied)\<rparr>)"
| drain: "ss_pc s = Draining r (i # is) \<Longrightarrow> reap_poll i s = Some (fin, s') \<Longrightarrow>
    send_step tr zc s (s'\<lparr>ss_pc := Draining r (if fin then is else i # is)\<rparr>)"
| finish: "ss_pc s = Draining r [] \<Longrightarrow> send_step tr zc s (s\<lparr>ss_pc := Finished r\<rparr>)"
| answer: "begin_respond tag (ss_slots s) = Some a \<or> respond_receiving tag (ss_slots s) = Some a \<Longrightarrow> staged_tags (tr_class tr w) = [tag] \<Longrightarrow>
    tr_ready tr a w \<Longrightarrow> (\<forall>b \<in> set (sd_batches (ss_sender s)). slot_addrs a tag \<inter> batch_arena b = {}) \<Longrightarrow>
    send_step tr zc s (s\<lparr>ss_slots := a, ss_work := fst (send_push w (ss_work s)), ss_due := ss_due s @ tr_bytes tr a (ss_mem s) w\<rparr>)"
| solicit: "tr_class tr w = NoRelease \<Longrightarrow> tr_ready tr (ss_slots s) w \<Longrightarrow>
    send_step tr zc s (s\<lparr>ss_work := fst (send_push w (ss_work s)), ss_due := ss_due s @ tr_bytes tr (ss_slots s) (ss_mem s) w\<rparr>)"
| close: "send_step tr zc s (s\<lparr>ss_work := fst (send_close (ss_work s))\<rparr>)"
| other: "slot_step (ss_slots s) a \<Longrightarrow>
    (\<forall>t sl. slot_of (ss_slots s) t = Some sl \<longrightarrow> slot_state sl = Responding \<longrightarrow> slot_of a t = Some sl) \<Longrightarrow>
    (\<forall>x. (\<exists>b \<in> set (sd_batches (ss_sender s)). x \<in> batch_arena b) \<or> (\<exists>t. responding (ss_slots s) t \<and> x \<in> slot_addrs (ss_slots s) t) \<longrightarrow>
      m x = ss_mem s x) \<Longrightarrow>
    send_step tr zc s (s\<lparr>ss_slots := a, ss_mem := m\<rparr>)"

definition send_start :: "stream_sender \<Rightarrow> 'c slot_array \<Rightarrow> memory \<Rightarrow> ('c, 'w) send_sys" where
  "send_start sd a m = \<lparr>ss_sender = sd, ss_pc = NextWork, ss_slots = a, ss_work = send_list_new, ss_mem = m,
     ss_pins = (\<lambda>_. {}), ss_notified = (\<lambda>_. None), ss_next = 0, ss_wire = [], ss_due = [], ss_woken = [], ss_bids = []\<rparr>"

inductive send_reach :: "('c, 'w) transport \<Rightarrow> bool \<Rightarrow> nat set \<Rightarrow> ('c, 'w) send_sys \<Rightarrow> bool"
  for tr :: "('c, 'w) transport" and zc :: bool and R :: "nat set" where
  start: "slots_inv R a \<Longrightarrow> sender_new x y depth api ipi pa zm m = (sd, m') \<Longrightarrow> send_reach tr zc R (send_start sd a m')"
| step: "send_reach tr zc R s \<Longrightarrow> send_step tr zc s s' \<Longrightarrow> send_reach tr zc R s'"

section \<open>The invariant\<close>

definition pc_items :: "'w send_pc \<Rightarrow> 'w list" where
  "pc_items pc =
     (case pc of
        Acquiring w \<Rightarrow> [w]
      | ReapOldest _ w \<Rightarrow> [w]
      | Shipping _ _ c \<Rightarrow> option_list c
      | Sending _ _ c _ _ \<Rightarrow> option_list c
      | _ \<Rightarrow> [])"

definition item_tags :: "('w \<Rightarrow> staged) \<Rightarrow> 'w list \<Rightarrow> u16 multiset" where
  "item_tags cls ws = mset (concat (map (\<lambda>w. staged_tags (cls w)) ws))"

definition batch_tags :: "send_batch \<Rightarrow> u16 multiset" where
  "batch_tags b = mset (tags_at_cqe b @ tags_at_notif b)"

text \<open>The tags the sender owes a release to.\<close>

definition owned :: "('w \<Rightarrow> staged) \<Rightarrow> ('c, 'w) send_sys \<Rightarrow> u16 multiset" where
  "owned cls s = item_tags cls (pc_items (ss_pc s) @ work (ss_work s)) +
     batch_tags (sd_batches (ss_sender s) ! 0) + batch_tags (sd_batches (ss_sender s) ! 1)"

definition clean :: "send_batch \<Rightarrow> bool" where
  "clean b \<longleftrightarrow> pending_notifs b = [] \<and> tags_at_cqe b = [] \<and> tags_at_notif b = [] \<and>
     gb_iovs (sb_gather b) = [] \<and> gb_live (sb_gather b) = 0"

text \<open>The batches the task is busy with, besides those in flight.\<close>

definition pc_busy :: "'w send_pc \<Rightarrow> nat set" where
  "pc_busy pc =
     (case pc of
        ReapOldest i _ \<Rightarrow> {i}
      | Shipping i _ _ \<Rightarrow> {i}
      | Sending i _ _ _ _ \<Rightarrow> {i}
      | Draining _ is \<Rightarrow> set is
      | _ \<Rightarrow> {})"

definition in_op :: "'w send_pc \<Rightarrow> nat \<Rightarrow> nat \<Rightarrow> bool" where
  "in_op pc i k \<longleftrightarrow> (case pc of Sending j _ _ _ l \<Rightarrow> j = i \<and> l = k | _ \<Rightarrow> False)"

definition sender_inv :: "('w \<Rightarrow> staged) \<Rightarrow> nat set \<Rightarrow> ('c, 'w) send_sys \<Rightarrow> bool" where
  "sender_inv cls R s \<longleftrightarrow>
     (let B = sd_batches (ss_sender s); F = sd_inflight (ss_sender s) in
      slots_inv R (ss_slots s) \<and> length B = 2 \<and> distinct F \<and> set F \<subseteq> {0, 1} \<and>
      pc_busy (ss_pc s) \<subseteq> {0, 1} \<and> (pc_busy (ss_pc s) \<inter> set F = {}) \<and>
      (\<forall>i < 2. batch_ok (sb_gather (B ! i)) \<and> set (wire (sb_gather (B ! i))) \<subseteq> batch_addrs (ss_slots s) (B ! i) \<and>
         (i \<notin> set F \<union> pc_busy (ss_pc s) \<longrightarrow> clean (B ! i))) \<and>
      (\<forall>t. count (owned cls s) t \<le> 1) \<and> (\<forall>t \<in># owned cls s. responding (ss_slots s) t) \<and>
      (\<forall>k. \<forall>x \<in> ss_pins s k. \<exists>i < 2. (k \<in> set (pending_notifs (B ! i)) \<or> in_op (ss_pc s) i k) \<and>
         x \<in> batch_addrs (ss_slots s) (B ! i)) \<and>
      (\<forall>k c. ss_notified s k = Some c \<longrightarrow> ss_pins s k = {}) \<and>
      (\<forall>k \<ge> ss_next s. ss_pins s k = {} \<and> ss_notified s k = None))"

section \<open>Releasing tags\<close>

lemma release_tag_frame:
  assumes "release_tag t a = Some (a', e)" "t' \<noteq> t"
  shows "slot_of a' t' = slot_of a t'"
proof -
  have "unat t' \<noteq> unat t" using assms(2) word_unat_eq_iff by blast
  then show ?thesis using assms(1)
    by (auto simp: release_tag_def release_data_def set_data_def slot_of_def split: option.splits if_splits)
qed

lemma responding_cong: "slot_of a' t = slot_of a t \<Longrightarrow> responding a' t = responding a t"
  by (simp add: responding_def)

lemma release_tags_ok:
  assumes "slots_inv R a" "distinct ts" "\<forall>t \<in> set ts. responding a t"
  shows "\<exists>a' e. release_tags ts a = Some (a', e) \<and> slots_inv R a' \<and> (\<forall>t. t \<notin> set ts \<longrightarrow> slot_of a' t = slot_of a t)"
  using assms
proof (induction ts arbitrary: a)
  case (Cons t ts)
  obtain s where s: "slot_of a t = Some s" "slot_state s = Responding" using Cons.prems(3) by (auto simp: responding_def)
  obtain b ws bids where r: "release_tag t a = Some (b, ws, bids)" "slots_inv R b"
    by (rule release_tag_ok [OF Cons.prems(1) s])
  have f: "slot_of b t' = slot_of a t'" if "t' \<noteq> t" for t' by (rule release_tag_frame [OF r(1) that])
  have "responding b x" if "x \<in> set ts" for x
    using that Cons.prems(2,3) responding_cong [OF f, of x] by fastforce
  then have "\<forall>x \<in> set ts. responding b x" by blast
  then obtain a' e where i: "release_tags ts b = Some (a', e)" "slots_inv R a'" "\<forall>t. t \<notin> set ts \<longrightarrow> slot_of a' t = slot_of b t"
    using Cons.IH [OF r(2)] Cons.prems(2) by auto
  then show ?case using r f by (cases e) auto
qed simp

definition spent :: "send_batch \<Rightarrow> send_batch" where
  "spent b = b\<lparr>sb_gather := gather_reset (sb_gather b), tags_at_cqe := [], tags_at_notif := []\<rparr>"

lemma spent_clean:
  "pending_notifs b = [] \<Longrightarrow> clean (spent b)" "batch_ok (sb_gather (spent b))" "wire (sb_gather (spent b)) = []"
  "batch_tags (spent b) = {#}" "tags_at_notif (spent b) = []" "batch_arena (spent b) = batch_arena b"
  "pending_notifs (spent b) = pending_notifs b"
  by (simp_all add: spent_def clean_def batch_ok_def wire_def live_iov_def gather_reset_def batch_tags_def batch_arena_def)

lemma recycle_ok:
  assumes "slots_inv R a" "distinct (tags_at_notif b)" "\<forall>t \<in> set (tags_at_notif b). responding a t" "pending_notifs b = []"
  shows "\<exists>a' e. recycle b a = Some (spent b, a', e) \<and> slots_inv R a' \<and>
    (\<forall>t. t \<notin> set (tags_at_notif b) \<longrightarrow> slot_of a' t = slot_of a t)"
  using release_tags_ok [OF assms(1-3)] assms(4) by (auto simp: recycle_def batch_reset_def spent_def)

section \<open>Keeping the invariant\<close>

lemma batch_addrs_cong:
  "\<forall>t \<in> set (tags_at_notif b). slot_of a' t = slot_of a t \<Longrightarrow> batch_addrs a' b = batch_addrs a b"
  by (auto simp: batch_addrs_def slot_addrs_def)

lemma count_owned:
  "i < 2 \<Longrightarrow> owned cls s = item_tags cls (pc_items (ss_pc s) @ work (ss_work s)) +
    batch_tags (sd_batches (ss_sender s) ! i) + batch_tags (sd_batches (ss_sender s) ! (1 - i))"
  by (auto simp: owned_def less_2_cases_iff ac_simps)

lemma all_two: "i < 2 \<Longrightarrow> (\<forall>j < 2. P j) \<longleftrightarrow> P i \<and> P (1 - i :: nat)"
  by (auto simp: less_2_cases_iff)

lemma ex_two: "i < 2 \<Longrightarrow> (\<exists>j < 2. P j) \<longleftrightarrow> P i \<or> P (1 - i :: nat)"
  by (auto simp: less_2_cases_iff)

lemma inv_parts:
  assumes "sender_inv cls R s" and "i < 2"
  shows "slots_inv R (ss_slots s)" "length (sd_batches (ss_sender s)) = 2"
    "batch_ok (sb_gather (sd_batches (ss_sender s) ! i))"
    "set (wire (sb_gather (sd_batches (ss_sender s) ! i))) \<subseteq> batch_addrs (ss_slots s) (sd_batches (ss_sender s) ! i)"
    "count (owned cls s) t \<le> 1" "t \<in># owned cls s \<Longrightarrow> responding (ss_slots s) t"
    "ss_notified s k = Some c \<Longrightarrow> ss_pins s k = {}"
    "x \<in> ss_pins s k \<Longrightarrow> k < ss_next s"
  using assms by (auto simp: sender_inv_def Let_def not_less [symmetric])

lemma submset_distinct: "mset xs \<subseteq># M \<Longrightarrow> \<forall>t. count M t \<le> 1 \<Longrightarrow> distinct xs"
  unfolding distinct_count_atmost_1
proof
  fix a
  assume "mset xs \<subseteq># M" "\<forall>t. count M t \<le> 1"
  then have "count (mset xs) a \<le> 1" by (meson le_trans mset_subset_eq_count)
  moreover have "a \<in> set xs \<longleftrightarrow> 0 < count (mset xs) a" by (metis count_greater_zero_iff set_mset_mset)
  ultimately show "count (mset xs) a = (if a \<in> set xs then 1 else 0)" by (cases "count (mset xs) a") (simp_all only: if_False if_True, auto)
qed

lemma batch_tags_owned:
  assumes "sender_inv cls R s" "i < 2"
  shows "distinct (tags_at_cqe (sd_batches (ss_sender s) ! i) @ tags_at_notif (sd_batches (ss_sender s) ! i))"
    "\<forall>t \<in> set (tags_at_cqe (sd_batches (ss_sender s) ! i)) \<union> set (tags_at_notif (sd_batches (ss_sender s) ! i)).
       responding (ss_slots s) t"
proof -
  have "batch_tags (sd_batches (ss_sender s) ! i) \<subseteq># owned cls s" unfolding count_owned [OF assms(2)] by simp
  then show "distinct (tags_at_cqe (sd_batches (ss_sender s) ! i) @ tags_at_notif (sd_batches (ss_sender s) ! i))"
    unfolding batch_tags_def using inv_parts(5) [OF assms] by (blast intro: submset_distinct)
  show "\<forall>t \<in> set (tags_at_cqe (sd_batches (ss_sender s) ! i)) \<union> set (tags_at_notif (sd_batches (ss_sender s) ! i)).
       responding (ss_slots s) t"
    using inv_parts(6) [OF assms] unfolding count_owned [OF assms(2)] by (auto simp: batch_tags_def)
qed

text \<open>A step that works on one batch: what it has to respect.\<close>

lemma inv_update:
  assumes inv: "sender_inv cls R s" and i: "i < 2"
    and bs: "sd_batches (ss_sender s') = (sd_batches (ss_sender s))[i := b]" and sl: "slots_inv R (ss_slots s')"
    and own: "owned cls s' \<subseteq># owned cls s" "\<forall>t. t \<in># owned cls s' \<longrightarrow> slot_of (ss_slots s') t = slot_of (ss_slots s) t"
    and b: "batch_ok (sb_gather b)" "set (wire (sb_gather b)) \<subseteq> batch_addrs (ss_slots s') b"
    and fl: "distinct (sd_inflight (ss_sender s'))" "set (sd_inflight (ss_sender s')) \<subseteq> {0, 1}"
      "pc_busy (ss_pc s') \<subseteq> {0, 1}" "pc_busy (ss_pc s') \<inter> set (sd_inflight (ss_sender s')) = {}"
    and cl: "i \<in> set (sd_inflight (ss_sender s')) \<union> pc_busy (ss_pc s') \<or> clean b"
      "1 - i \<in> set (sd_inflight (ss_sender s)) \<union> pc_busy (ss_pc s) \<longrightarrow>
       1 - i \<in> set (sd_inflight (ss_sender s')) \<union> pc_busy (ss_pc s')"
    and pins: "\<And>k x. x \<in> ss_pins s' k \<Longrightarrow> (k \<in> set (pending_notifs b) \<or> in_op (ss_pc s') i k) \<and> x \<in> batch_addrs (ss_slots s') b \<or>
      x \<in> ss_pins s k \<and> k \<in> set (pending_notifs (sd_batches (ss_sender s) ! (1 - i))) \<and>
      x \<in> batch_addrs (ss_slots s) (sd_batches (ss_sender s) ! (1 - i))"
    and ntf: "\<And>k. ss_pins s' k \<subseteq> ss_pins s k" "ss_notified s' = ss_notified s" "ss_next s' = ss_next s"
  shows "sender_inv cls R s'"
proof -
  let ?B = "sd_batches (ss_sender s)" and ?B' = "sd_batches (ss_sender s')"
  have len: "length ?B = 2" by (rule inv_parts [OF inv i])
  have j: "?B' ! i = b" "?B' ! (1 - i) = ?B ! (1 - i)" using i len by (auto simp: bs less_2_cases_iff)
  have o2: "set_mset (batch_tags (?B ! (1 - i))) \<subseteq> set_mset (owned cls s')"
    unfolding count_owned [OF i, of cls s'] j by simp
  then have ad: "batch_addrs (ss_slots s') (?B ! (1 - i)) = batch_addrs (ss_slots s) (?B ! (1 - i))"
    using own(2) by (intro batch_addrs_cong) (auto simp: batch_tags_def)
  have oth: "batch_ok (sb_gather (?B ! (1 - i)))" "set (wire (sb_gather (?B ! (1 - i)))) \<subseteq> batch_addrs (ss_slots s) (?B ! (1 - i))"
    "1 - i \<notin> set (sd_inflight (ss_sender s)) \<union> pc_busy (ss_pc s) \<Longrightarrow> clean (?B ! (1 - i))"
    using inv i by (simp_all add: sender_inv_def Let_def)
  have cnt: "count (owned cls s') t \<le> 1" for t
    using mset_subset_eq_count [OF own(1), of t] inv_parts(5) [OF inv i, of t] by linarith
  have resp: "responding (ss_slots s') t" if "t \<in># owned cls s'" for t
    using that own inv_parts(6) [OF inv i, of t] responding_cong [of "ss_slots s'" t] by (meson mset_subset_eqD)
  have pin: "\<forall>k. \<forall>x \<in> ss_pins s' k. \<exists>i < 2. (k \<in> set (pending_notifs (?B' ! i)) \<or> in_op (ss_pc s') i k) \<and>
      x \<in> batch_addrs (ss_slots s') (?B' ! i)"
    using pins unfolding ex_two [OF i] j ad by blast
  have "\<forall>k c. ss_notified s' k = Some c \<longrightarrow> ss_pins s' k = {}" "\<forall>k \<ge> ss_next s'. ss_pins s' k = {} \<and> ss_notified s' k = None"
    using inv ntf(1) unfolding ntf(2,3) sender_inv_def Let_def by (blast, metis subset_empty)
  moreover have "\<forall>j < 2. batch_ok (sb_gather (?B' ! j)) \<and> set (wire (sb_gather (?B' ! j))) \<subseteq> batch_addrs (ss_slots s') (?B' ! j) \<and>
      (j \<notin> set (sd_inflight (ss_sender s')) \<union> pc_busy (ss_pc s') \<longrightarrow> clean (?B' ! j))"
    unfolding all_two [OF i] j ad using b cl oth by blast
  ultimately show ?thesis
    unfolding sender_inv_def Let_def using sl fl cnt resp pin len bs by simp
qed

text \<open>Recycling a batch whose notifications have all arrived.\<close>

lemma recycle_inv:
  assumes inv: "sender_inv cls R s" and i: "i < 2" and b: "b = (sd_batches (ss_sender s) ! i)\<lparr>pending_notifs := []\<rparr>"
    and q: "\<And>k. k \<in> set (pending_notifs (sd_batches (ss_sender s) ! i)) \<Longrightarrow> ss_pins s k = {}"
    and op: "\<And>j k. \<not> in_op (ss_pc s) j k"
    and rec: "recycle b (ss_slots s) = Some (b', r)"
    and s': "s' = put_released r (s\<lparr>ss_sender := sd, ss_pc := pc\<rparr>)" and sd: "sd_batches sd = (sd_batches (ss_sender s))[i := b']"
    and fl: "distinct (sd_inflight sd)" "set (sd_inflight sd) \<subseteq> {0, 1}" "pc_busy pc \<subseteq> {0, 1}" "pc_busy pc \<inter> set (sd_inflight sd) = {}"
    and cl: "1 - i \<in> set (sd_inflight (ss_sender s)) \<union> pc_busy (ss_pc s) \<longrightarrow> 1 - i \<in> set (sd_inflight sd) \<union> pc_busy pc"
    and pc: "pc_items pc = pc_items (ss_pc s)"
  shows "sender_inv cls R s'"
proof -
  let ?B = "sd_batches (ss_sender s)"
  note own = batch_tags_owned [OF inv i] and len = inv_parts(2) [OF inv i]
  obtain a e where rc: "recycle b (ss_slots s) = Some (spent b, a, e)" and a: "slots_inv R a"
      "\<forall>t. t \<notin> set (tags_at_notif b) \<longrightarrow> slot_of a t = slot_of (ss_slots s) t"
    using recycle_ok [OF inv_parts(1) [OF inv i], of b] own by (auto simp: b)
  then have r: "r = (a, e)" "b' = spent b" using rec by auto
  have sel: "ss_sender s' = sd" "ss_slots s' = a" "ss_pc s' = pc" "ss_work s' = ss_work s" "ss_pins s' = ss_pins s"
    "ss_notified s' = ss_notified s" "ss_next s' = ss_next s"
    by (simp_all add: s' r(1) put_released_def split: prod.split)
  have j: "sd_batches sd ! i = b'" "sd_batches sd ! (1 - i) = ?B ! (1 - i)" using i len by (auto simp: sd less_2_cases_iff)
  have ow: "owned cls s = owned cls s' + batch_tags (?B ! i)"
    unfolding count_owned [OF i] by (simp add: sel j [unfolded One_nat_def] pc r(2) spent_clean)
  have kp: "t \<notin> set (tags_at_notif b)" if "t \<in># owned cls s'" for t
  proof
    assume "t \<in> set (tags_at_notif b)"
    then have "t \<in># batch_tags (?B ! i)" by (simp add: batch_tags_def b)
    then have "2 \<le> count (owned cls s) t" using that unfolding ow by (simp add: Suc_le_eq flip: count_greater_zero_iff)
    then show False using inv_parts(5) [OF inv i, of t] by simp
  qed
  show ?thesis
  proof (rule inv_update [OF inv i, of s' b'])
    show "owned cls s' \<subseteq># owned cls s" unfolding ow by simp
    show "x \<in> ss_pins s' k \<Longrightarrow> (k \<in> set (pending_notifs b') \<or> in_op (ss_pc s') i k) \<and> x \<in> batch_addrs (ss_slots s') b' \<or>
      x \<in> ss_pins s k \<and> k \<in> set (pending_notifs (?B ! (1 - i))) \<and> x \<in> batch_addrs (ss_slots s) (?B ! (1 - i))" for k x
    proof -
      assume "x \<in> ss_pins s' k"
      then have x: "x \<in> ss_pins s k" by (simp add: sel)
      have "\<exists>i < 2. (k \<in> set (pending_notifs (?B ! i)) \<or> in_op (ss_pc s) i k) \<and> x \<in> batch_addrs (ss_slots s) (?B ! i)"
        using inv x by (simp add: sender_inv_def Let_def)
      then show ?thesis using x q [of k] op unfolding ex_two [OF i] by blast
    qed
  qed (use a kp fl cl in \<open>auto simp: sel sd r(2) spent_clean b\<close>)
qed

text \<open>Taking notifications that have arrived off a batch.\<close>

lemma notifs_inv:
  assumes inv: "sender_inv cls R s" and i: "i < 2" and b: "b = (sd_batches (ss_sender s) ! i)\<lparr>pending_notifs := ns\<rparr>"
    and q: "\<And>k. k \<in> set (pending_notifs (sd_batches (ss_sender s) ! i)) \<Longrightarrow> k \<notin> set ns \<Longrightarrow> ss_pins s k = {}"
    and op: "\<And>j k. \<not> in_op (ss_pc s) j k"
    and s': "s' = s\<lparr>ss_sender := sd\<rparr>" and sd: "sd_batches sd = (sd_batches (ss_sender s))[i := b]" "sd_inflight sd = sd_inflight (ss_sender s)"
    and ib: "i \<in> set (sd_inflight sd) \<union> pc_busy (ss_pc s)"
  shows "sender_inv cls R s'"
proof (rule inv_update [OF inv i, of s' b])
  let ?B = "sd_batches (ss_sender s)"
  note len = inv_parts(2) [OF inv i]
  have j: "sd_batches sd ! i = b" "sd_batches sd ! (1 - i) = ?B ! (1 - i)" using i len by (auto simp: sd less_2_cases_iff)
  have "owned cls s' = owned cls s" unfolding count_owned [OF i] by (simp add: s' j [unfolded One_nat_def]) (simp add: b batch_tags_def)
  then show "owned cls s' \<subseteq># owned cls s" by simp
  have ad: "batch_addrs a b = batch_addrs a (?B ! i)" for a :: "'b slot_array" by (simp add: b batch_addrs_def batch_arena_def)
  show "x \<in> ss_pins s' k \<Longrightarrow> (k \<in> set (pending_notifs b) \<or> in_op (ss_pc s') i k) \<and> x \<in> batch_addrs (ss_slots s') b \<or>
      x \<in> ss_pins s k \<and> k \<in> set (pending_notifs (?B ! (1 - i))) \<and> x \<in> batch_addrs (ss_slots s) (?B ! (1 - i))" for k x
  proof -
    assume "x \<in> ss_pins s' k"
    then have x: "x \<in> ss_pins s k" by (simp add: s')
    have "\<exists>i < 2. (k \<in> set (pending_notifs (?B ! i)) \<or> in_op (ss_pc s) i k) \<and> x \<in> batch_addrs (ss_slots s) (?B ! i)"
      using inv x by (simp add: sender_inv_def Let_def)
    then show ?thesis using x q [of k] op unfolding ex_two [OF i] ad by (auto simp: s' b)
  qed
  show "batch_ok (sb_gather b)" "set (wire (sb_gather b)) \<subseteq> batch_addrs (ss_slots s') b"
    unfolding ad using inv_parts(3,4) [OF inv i] by (simp_all add: b s')
qed (use inv ib in \<open>simp_all add: s' sd sender_inv_def Let_def\<close>)

lemma in_swap_remove:
  assumes "k \<in> set ns" "i < length ns"
  shows "k = ns ! i \<or> k \<in> set (swap_remove i ns)"
proof (cases ns rule: rev_cases)
  case (snoc ms x)
  obtain j where j: "j < length ns" "k = ns ! j" using assms(1) by (auto simp: in_set_conv_nth)
  show ?thesis
  proof (cases "i = length ms")
    case True
    then show ?thesis using j snoc by (auto simp: swap_remove_def nth_append)
  next
    case False
    then have i: "i < length ms" using assms(2) snoc by simp
    then have "j = i \<or> k \<in> set (ms[i := x])"
      using j snoc by (cases "j < length ms") (auto simp: nth_append set_update_memI in_set_conv_nth nth_list_update intro: exI [of _ j])
    then show ?thesis using j snoc i by (auto simp: swap_remove_def)
  qed
qed (use assms in simp)

lemma poll_notifs_gone:
  "poll_notifs ready i ns c = (ns', c') \<Longrightarrow> k \<in> set ns \<Longrightarrow> k \<notin> set ns' \<Longrightarrow> ready k \<noteq> None"
proof (induction ready i ns c rule: poll_notifs.induct)
  case (1 ready i ns c)
  note eq = poll_notifs.simps [of ready i ns c]
  show ?case
  proof (cases "i < length ns \<and> ready (ns ! i) \<noteq> None")
    case True
    then obtain r where r: "i < length ns" "ready (ns ! i) = Some r" by auto
    have "k = ns ! i \<or> k \<in> set (swap_remove i ns)" using 1(4) r(1) by (rule in_swap_remove)
    then show ?thesis using 1 r eq by auto
  next
    case False
    then show ?thesis using 1 eq by (auto split: if_splits)
  qed
qed

lemma pc_not_op: "(\<forall>i z c opn k. pc \<noteq> Sending i z c opn k) \<Longrightarrow> \<not> in_op pc j k"
  by (cases pc) (auto simp: in_op_def)

lemma inv_flight:
  assumes "sender_inv cls R s"
  shows "distinct (sd_inflight (ss_sender s))" "set (sd_inflight (ss_sender s)) \<subseteq> {0, 1}" "pc_busy (ss_pc s) \<subseteq> {0, 1}"
    "pc_busy (ss_pc s) \<inter> set (sd_inflight (ss_sender s)) = {}"
  using assms by (simp_all add: sender_inv_def Let_def)

lemma inv_own:
  assumes "sender_inv cls R s"
  shows "\<forall>t. count (owned cls s) t \<le> 1" "\<forall>t \<in># owned cls s. responding (ss_slots s) t" "slots_inv R (ss_slots s)"
  using assms by (simp_all add: sender_inv_def Let_def)

text \<open>Changes that leave the batches alone.\<close>

lemma inv_task:
  assumes inv: "sender_inv cls R s" and b: "sd_batches (ss_sender s') = sd_batches (ss_sender s)"
    and sl: "slots_inv R (ss_slots s')" "\<And>t sl. slot_of (ss_slots s) t = Some sl \<Longrightarrow> slot_state sl = Responding \<Longrightarrow> slot_of (ss_slots s') t = Some sl"
    and own: "\<forall>t. count (owned cls s') t \<le> 1" "\<forall>t \<in># owned cls s'. responding (ss_slots s') t"
    and fl: "distinct (sd_inflight (ss_sender s'))" "pc_busy (ss_pc s') \<subseteq> {0, 1}" "pc_busy (ss_pc s') \<inter> set (sd_inflight (ss_sender s')) = {}"
      "set (sd_inflight (ss_sender s')) \<subseteq> {0, 1}"
      "set (sd_inflight (ss_sender s)) \<union> pc_busy (ss_pc s) \<subseteq> set (sd_inflight (ss_sender s')) \<union> pc_busy (ss_pc s')"
    and op: "\<And>i k. in_op (ss_pc s) i k \<Longrightarrow> in_op (ss_pc s') i k"
    and ntf: "ss_pins s' = ss_pins s" "ss_notified s' = ss_notified s" "ss_next s' = ss_next s"
  shows "sender_inv cls R s'"
proof -
  let ?B = "sd_batches (ss_sender s)"
  have keep: "slot_of (ss_slots s') t = slot_of (ss_slots s) t" if "responding (ss_slots s) t" for t
    using that sl(2) by (auto simp: responding_def)
  have ad: "batch_addrs (ss_slots s') (?B ! i) = batch_addrs (ss_slots s) (?B ! i)" if "i < 2" for i
    using batch_tags_owned(2) [OF inv that] by (intro batch_addrs_cong) (blast intro: keep)
  have pin: "\<forall>k. \<forall>x \<in> ss_pins s' k. \<exists>i < 2. (k \<in> set (pending_notifs (?B ! i)) \<or> in_op (ss_pc s') i k) \<and>
      x \<in> batch_addrs (ss_slots s') (?B ! i)"
    using inv op unfolding sender_inv_def Let_def ntf by (metis ad)
  have bat: "\<forall>j < 2. batch_ok (sb_gather (?B ! j)) \<and> set (wire (sb_gather (?B ! j))) \<subseteq> batch_addrs (ss_slots s') (?B ! j) \<and>
      (j \<notin> set (sd_inflight (ss_sender s')) \<union> pc_busy (ss_pc s') \<longrightarrow> clean (?B ! j))"
    using inv fl(5) unfolding sender_inv_def Let_def by (metis ad subsetD)
  show ?thesis
    using inv sl(1) own fl pin bat unfolding sender_inv_def Let_def b ntf by blast
qed

text \<open>The final drain takes over every batch; the item that was carried is dropped.\<close>

lemma start_drain_inv:
  assumes inv: "sender_inv cls R s" and op: "\<And>j k. \<not> in_op (ss_pc s) j k"
  shows "sender_inv cls R (start_drain r s)"
proof -
  let ?s = "start_drain r s"
  have len: "length (sd_batches (ss_sender s)) = 2" using inv by (simp add: sender_inv_def Let_def)
  have ow: "owned cls ?s \<subseteq># owned cls s"
    by (simp add: owned_def start_drain_def pc_items_def item_tags_def)
  have cnt: "count (owned cls ?s) t \<le> 1" for t
    using mset_subset_eq_count [OF ow, of t] inv_parts(5) [OF inv, of 0 t] by simp
  have busy: "pc_busy (ss_pc ?s) = {0, 1}"
    using inv_flight(2) [OF inv] len by (auto simp: start_drain_def pc_busy_def drain_list_def upt_rec)
  show ?thesis
  proof (rule inv_task [OF inv])
    show "\<forall>t \<in># owned cls ?s. responding (ss_slots ?s) t"
      using inv_parts(6) [OF inv, of 0] mset_subset_eqD [OF ow] by (simp add: start_drain_def)
  qed (use inv_flight [OF inv] inv_parts(1) [OF inv, of 0] cnt op busy in \<open>auto simp: start_drain_def\<close>)
qed

lemma next_work_inv:
  assumes inv: "sender_inv cls R s" and pc: "ss_pc s = NextWork"
  shows "\<exists>s'. next_work w s = Some s' \<and> sender_inv cls R s'"
proof -
  note fl = inv_flight [OF inv] and sl = inv_parts(1) [OF inv, of 0] inv_parts(5,6) [OF inv, of 0]
  have op: "\<not> in_op (ss_pc s) j k" for j k by (simp add: pc in_op_def)
  show ?thesis
  proof (cases "work (ss_work s)")
    case (Cons x xs)
    let ?s = "s\<lparr>ss_work := (ss_work s)\<lparr>work := xs\<rparr>, ss_pc := Acquiring x\<rparr>"
    have ow: "owned cls ?s = owned cls s" by (simp add: owned_def pc pc_items_def Cons item_tags_def)
    have "sender_inv cls R ?s"
      by (rule inv_task [OF inv]) (use fl sl op in \<open>simp_all add: ow, simp_all add: pc_busy_def pc\<close>)
    then show ?thesis by (simp add: next_work_def poll_next_def Cons)
  next
    case Nil
    show ?thesis
    proof (cases "closed (ss_work s)")
      case True
      then show ?thesis using start_drain_inv [OF inv op] by (simp add: next_work_def poll_next_def Nil)
    next
      case False
      let ?s = "s\<lparr>ss_work := (ss_work s)\<lparr>send_waker := Some w\<rparr>\<rparr>"
      have ow: "owned cls ?s = owned cls s" by (simp add: owned_def)
      have inv': "sender_inv cls R ?s"
        by (rule inv_task [OF inv]) (use fl sl op in \<open>simp_all add: ow\<close>)
      show ?thesis
      proof (cases "sd_inflight (ss_sender s)")
        case f: Nil
        then show ?thesis using inv' False by (simp add: next_work_def poll_next_def Nil)
      next
        case f: (Cons i rest)
        let ?b = "sd_batches (ss_sender s) ! i"
        obtain ns c where p: "poll_notifs (ss_notified s) 0 (pending_notifs ?b) (zc_copied (ss_sender s)) = (ns, c)" by fastforce
        have i: "i < 2" using fl(2) f by auto
        have q: "ss_pins ?s k = {}" if "k \<in> set (pending_notifs (sd_batches (ss_sender ?s) ! i))" "k \<notin> set ns" for k
          using poll_notifs_gone [OF p, of k] that inv_parts(7) [OF inv i, of k] by auto
        have op': "\<not> in_op (ss_pc ?s) j k" for j k using op by simp
        show ?thesis
        proof (cases "ns = []")
          case True
          let ?c = "?b\<lparr>pending_notifs := []\<rparr>"
          obtain b' r where r: "recycle ?c (ss_slots s) = Some (b', r)"
            using recycle_ok [OF sl(1), of ?c] batch_tags_owned [OF inv i] by auto
          let ?sd = "put_batch i b' ((put_batch i ?c (ss_sender s))\<lparr>zc_copied := c, sd_inflight := rest\<rparr>)"
          have "sender_inv cls R (put_released r (?s\<lparr>ss_sender := ?sd, ss_pc := NextWork\<rparr>))"
            by (rule recycle_inv [OF inv' i refl _ op' _ refl])
              (use q True r fl f in \<open>auto simp: put_batch_def pc pc_busy_def\<close>)
          moreover have "?s\<lparr>ss_sender := ?sd, ss_pc := NextWork\<rparr> = ?s\<lparr>ss_sender := ?sd\<rparr>" using pc by (cases s) simp
          ultimately show ?thesis
            using False f True r by (simp add: next_work_def poll_next_def Nil p Let_def)
        next
          case nn: False
          let ?sd = "(put_batch i (?b\<lparr>pending_notifs := ns\<rparr>) (ss_sender s))\<lparr>zc_copied := c\<rparr>"
          have "sender_inv cls R (?s\<lparr>ss_sender := ?sd\<rparr>)"
            by (rule notifs_inv [OF inv' i refl _ op' refl]) (use q f in \<open>auto simp: put_batch_def\<close>)
          then show ?thesis
            using False f nn by (simp add: next_work_def poll_next_def Nil p Let_def)
        qed
      qed
    qed
  qed
qed

lemma reap_poll_inv:
  assumes inv: "sender_inv cls R s" and i: "i < 2" and op: "\<And>j k. \<not> in_op (ss_pc s) j k"
    and pc: "pc_items pc = pc_items (ss_pc s)" "pc_busy (ss_pc s) = insert i (pc_busy pc)"
  shows "\<exists>fin s'. reap_poll i s = Some (fin, s') \<and> sender_inv cls R (s'\<lparr>ss_pc := if fin then pc else ss_pc s\<rparr>)"
proof -
  let ?b = "sd_batches (ss_sender s) ! i"
  note fl = inv_flight [OF inv]
  have same: "t\<lparr>ss_pc := ss_pc s\<rparr> = t" if "ss_pc t = ss_pc s" for t :: "('b, 'a) send_sys" using that by (cases t) simp
  show ?thesis
  proof (cases "pending_notifs ?b = []")
    case True
    then have bb: "?b\<lparr>pending_notifs := []\<rparr> = ?b" by simp
    obtain b' r where r: "recycle ?b (ss_slots s) = Some (b', r)"
      using recycle_ok [OF inv_parts(1) [OF inv i], of ?b] batch_tags_owned [OF inv i] True by auto
    have "sender_inv cls R (put_released r (s\<lparr>ss_sender := put_batch i b' (ss_sender s), ss_pc := pc\<rparr>))"
      by (rule recycle_inv [OF inv i bb [symmetric] _ op r refl]) (use True fl pc in \<open>auto simp: put_batch_def\<close>)
    moreover have "(put_released r (s\<lparr>ss_sender := put_batch i b' (ss_sender s)\<rparr>))\<lparr>ss_pc := pc\<rparr> =
        put_released r (s\<lparr>ss_sender := put_batch i b' (ss_sender s), ss_pc := pc\<rparr>)"
      by (simp add: put_released_def split: prod.split)
    ultimately show ?thesis
      using True r by (intro exI [of _ True] exI [of _ "put_released r (s\<lparr>ss_sender := put_batch i b' (ss_sender s)\<rparr>)"]) (simp add: reap_poll_def)
  next
    case nn: False
    show ?thesis
    proof (cases "ss_notified s (last (pending_notifs ?b))")
      case None
      then show ?thesis using nn inv same [OF refl] by (intro exI [of _ False] exI [of _ s]) (simp add: reap_poll_def)
    next
      case (Some c)
      define sd where "sd = put_batch i (?b\<lparr>pending_notifs := butlast (pending_notifs ?b)\<rparr>) (ss_sender s)"
      let ?s = "s\<lparr>ss_sender := sd\<lparr>zc_copied := if c then zc_copied sd + 1 else zc_copied sd\<rparr>\<rparr>"
      have "ss_pins s k = {}" if "k \<in> set (pending_notifs ?b)" "k \<notin> set (butlast (pending_notifs ?b))" for k
      proof -
        have "k = last (pending_notifs ?b)" using that nn by (cases "pending_notifs ?b" rule: rev_cases) auto
        then show ?thesis using inv_parts(7) [OF inv i] Some by blast
      qed
      then have "sender_inv cls R ?s"
        by (intro notifs_inv [OF inv i refl _ op refl]) (use pc(2) in \<open>auto simp: put_batch_def sd_def\<close>)
      then show ?thesis 
        using nn Some same [of ?s] by (intro exI [of _ False] exI [of _ ?s]) (simp add: reap_poll_def Let_def sd_def)
    qed
  qed
qed

section \<open>Staging\<close>

text \<open>
  What the sender relies on of a transport: staging returns the class of the item, and the pieces it
  adds lie in the batch's arena or, for an item released at the notification, in the buffer of its slot.
\<close>

locale staging =
  fixes stage :: "('c, 'w) stager" and cls :: "'w \<Rightarrow> staged"
  assumes stage_class: "stage a g w m = Some (g', st, m') \<Longrightarrow> st = cls w"
    and stage_gather: "stage a g w m = Some (g', st, m') \<Longrightarrow> batch_ok g \<Longrightarrow> gb_live g = 0 \<Longrightarrow>
      batch_ok g' \<and> gb_live g' = 0 \<and> gb_arena g' = gb_arena g \<and> gb_arena_len g' = gb_arena_len g"
    and stage_wire: "stage a g w m = Some (g', st, m') \<Longrightarrow> batch_ok g \<Longrightarrow> gb_live g = 0 \<Longrightarrow>
      set (wire g') \<subseteq> set (wire g) \<union> {gb_arena g..<gb_arena g + gb_arena_len g} \<union>
        (case cls w of AtNotif t \<Rightarrow> slot_addrs a t | _ \<Rightarrow> {})"
begin

lemma stage_one:
  assumes st: "stage a (sb_gather b) w m = Some (g, st, m')" and b: "batch_ok (sb_gather b)" "gb_live (sb_gather b) = 0"
    "set (wire (sb_gather b)) \<subseteq> batch_addrs a b"
  defines "c \<equiv> add_staged st (b\<lparr>sb_gather := g\<rparr>)"
  shows "batch_ok (sb_gather c)" "gb_live (sb_gather c) = 0" "set (wire (sb_gather c)) \<subseteq> batch_addrs a c"
    "pending_notifs c = pending_notifs b" "batch_tags c = item_tags cls [w] + batch_tags b" "sb_gather c = g"
proof -
  note g = stage_gather [OF st b(1,2)] and w = stage_wire [OF st b(1,2)] and k = stage_class [OF st]
  have c: "sb_gather c = g" "pending_notifs c = pending_notifs b" "batch_arena c = batch_arena b"
    using g by (simp_all add: c_def add_staged_def batch_arena_def split: staged.split)
  have sub: "batch_addrs a b \<subseteq> batch_addrs a c" "(case cls w of AtNotif t \<Rightarrow> slot_addrs a t | _ \<Rightarrow> {}) \<subseteq> batch_addrs a c"
    "{gb_arena (sb_gather b)..<gb_arena (sb_gather b) + gb_arena_len (sb_gather b)} \<subseteq> batch_addrs a c"
    using g by (auto simp: batch_addrs_def batch_arena_def c_def add_staged_def k [symmetric] split: staged.split)
  show "set (wire (sb_gather c)) \<subseteq> batch_addrs a c" using w sub b(3) unfolding c by blast
  show "batch_tags c = item_tags cls [w] + batch_tags b"
    by (simp add: c_def add_staged_def batch_tags_def item_tags_def staged_tags_def k split: staged.split)
qed (use stage_gather [OF st b(1,2)] in \<open>simp_all add: c_def add_staged_def split: staged.split\<close>)

lemma stage_items_ok:
  assumes "stage_items stage cap a w ws b m = Some (carry, ws', b', m')" "batch_ok (sb_gather b)" "gb_live (sb_gather b) = 0"
    "set (wire (sb_gather b)) \<subseteq> batch_addrs a b"
  shows "batch_ok (sb_gather b') \<and> set (wire (sb_gather b')) \<subseteq> batch_addrs a b' \<and> pending_notifs b' = pending_notifs b \<and>
    item_tags cls (option_list carry @ ws') + batch_tags b' = item_tags cls (w # ws) + batch_tags b"
  using assms
proof (induction ws arbitrary: w b m)
  case Nil
  note eq = stage_items.simps [of stage cap a w "[]" b m]
  show ?case
  proof (cases "batch_fits b")
    case True
    then obtain g st m1 where s: "stage a (sb_gather b) w m = Some (g, st, m1)"
      using Nil(1) eq by (auto split: option.splits)
    then show ?thesis
      using Nil(1) eq True stage_one [OF s Nil(2-)] by (auto simp: Let_def item_tags_def option_list_def split: if_splits)
  qed (use Nil eq in \<open>auto simp: option_list_def\<close>)
next
  case (Cons x xs)
  note eq = stage_items.simps [of stage cap a w "x # xs" b m]
  show ?case
  proof (cases "batch_fits b")
    case True
    then obtain g st m1 where s: "stage a (sb_gather b) w m = Some (g, st, m1)"
      using Cons.prems(1) eq by (auto split: option.splits)
    let ?c = "add_staged st (b\<lparr>sb_gather := g\<rparr>)"
    note c = stage_one [OF s Cons.prems(2-)]
    have it: "item_tags cls (w # ys) = item_tags cls [w] + item_tags cls ys" for ys by (simp add: item_tags_def)
    show ?thesis
    proof (cases "cap_reached cap (sb_gather ?c)")
      case False
      then have "stage_items stage cap a x xs ?c m1 = Some (carry, ws', b', m')"
        using Cons.prems(1) eq True s by (simp add: Let_def)
      from Cons.IH [OF this c(1-3)] show ?thesis using c(4,5) it [of "x # xs"] by (simp add: ac_simps)
    qed (use Cons.prems(1) eq True s c it [of "x # xs"] in \<open>auto simp: Let_def option_list_def\<close>)
  qed (use Cons.prems eq in \<open>auto simp: option_list_def\<close>)
qed

lemma acquire_inv:
  assumes inv: "sender_inv cls R s" and pc: "ss_pc s = Acquiring w" and st: "acquire_stage stage zc w s = Some s'"
  shows "sender_inv cls R s'"
proof -
  let ?B = "sd_batches (ss_sender s)" and ?F = "sd_inflight (ss_sender s)"
  note fl = inv_flight [OF inv]
  have len: "length ?B = 2" using inv_parts(2) [OF inv, of 0] by simp
  show ?thesis
  proof (cases "length ?F = length ?B")
    case True
    then obtain i rest where f: "?F = i # rest" "s' = s\<lparr>ss_sender := (ss_sender s)\<lparr>sd_inflight := rest\<rparr>, ss_pc := ReapOldest i w\<rparr>"
      using st len by (auto simp: acquire_stage_def Let_def split: list.splits)
    have ow: "owned cls s' = owned cls s" by (simp add: f owned_def pc pc_items_def)
    have sl: "ss_slots s' = ss_slots s" by (simp add: f)
    show ?thesis
    proof (rule inv_task [OF inv])
      show "\<forall>t. count (owned cls s') t \<le> 1" "\<forall>t \<in># owned cls s'. responding (ss_slots s') t" "slots_inv R (ss_slots s')"
        using inv_own [OF inv] unfolding ow sl by blast+
    qed (use fl(1,2) in \<open>simp_all add: f pc pc_busy_def in_op_def\<close>)
  next
    case False
    then obtain i carry l b m where i: "acquire_free (ss_sender s) = Some i"
      and sb: "stage_batch stage (if zc then Some (zc_min_avg (ss_sender s)) else None) (ss_slots s) w (ss_work s) (?B ! i) (ss_mem s) =
        Some (carry, l, b, m)"
      and s': "s' = s\<lparr>ss_sender := put_batch i b (ss_sender s), ss_work := l, ss_mem := m,
        ss_pc := Shipping i (zc \<and> zc_min_avg (ss_sender s) \<le> avg_payload (sb_gather b)) carry\<rparr>"
      using st by (auto simp: acquire_stage_def Let_def split: option.splits prod.splits)
    have i: "i < 2" "i \<notin> set ?F" using i len by (auto simp: acquire_free_def find_Some_iff)
    then have cl: "clean (?B ! i)" using inv by (simp add: sender_inv_def Let_def pc pc_busy_def)
    obtain ws where it: "stage_items stage (if zc then Some (zc_min_avg (ss_sender s)) else None) (ss_slots s) w
        (work (ss_work s)) (?B ! i) (ss_mem s) = Some (carry, ws, b, m)" and l: "l = (ss_work s)\<lparr>work := ws\<rparr>"
      using sb by (auto simp: stage_batch_def)
    have "gb_live (sb_gather (?B ! i)) = 0" using cl by (simp add: clean_def)
    note b = stage_items_ok [OF it inv_parts(3) [OF inv i(1)] this inv_parts(4) [OF inv i(1)]]
    have j: "sd_batches (ss_sender s') ! i = b" "sd_batches (ss_sender s') ! (1 - i) = ?B ! (1 - i)"
      using i(1) len by (auto simp: s' put_batch_def less_2_cases_iff)
    have "item_tags cls (pc_items (ss_pc s') @ work (ss_work s')) + batch_tags b =
        item_tags cls (pc_items (ss_pc s) @ work (ss_work s)) + batch_tags (?B ! i)"
      using b by (simp add: s' l pc pc_items_def)
    then have ow: "owned cls s' = owned cls s" unfolding count_owned [OF i(1)] j by simp
    show ?thesis
    proof (rule inv_update [OF inv i(1), of s' b])
      show "x \<in> ss_pins s' k \<Longrightarrow> (k \<in> set (pending_notifs b) \<or> in_op (ss_pc s') i k) \<and> x \<in> batch_addrs (ss_slots s') b \<or>
        x \<in> ss_pins s k \<and> k \<in> set (pending_notifs (?B ! (1 - i))) \<and> x \<in> batch_addrs (ss_slots s) (?B ! (1 - i))" for k x
      proof -
        assume "x \<in> ss_pins s' k"
        then have x: "x \<in> ss_pins s k" by (simp add: s')
        have "\<exists>i < 2. (k \<in> set (pending_notifs (?B ! i)) \<or> in_op (ss_pc s) i k) \<and> x \<in> batch_addrs (ss_slots s) (?B ! i)"
          using inv x by (simp add: sender_inv_def Let_def)
        then show ?thesis using x cl unfolding ex_two [OF i(1)] by (auto simp: clean_def pc in_op_def)
      qed
      have "ss_slots s' = ss_slots s" by (simp add: s')
      then show "batch_ok (sb_gather b)" "set (wire (sb_gather b)) \<subseteq> batch_addrs (ss_slots s') b"
        using b by metis+
      show "owned cls s' \<subseteq># owned cls s" by (simp add: ow)
    qed (use i fl inv_own(3) [OF inv] less_2_cases [OF i(1)] in \<open>simp_all add: s' put_batch_def pc pc_busy_def\<close>)
  qed
qed

end

section \<open>Completions\<close>

text \<open>The completion of a send, back at the point where the next one would be issued: the notification is
  recorded unless the kernel has copied, and some of the gather is sent.\<close>

lemma completed_inv:
  assumes inv: "sender_inv cls R s" and pc: "ss_pc s = Sending i z carry opn k"
    and b: "b = (sd_batches (ss_sender s) ! i)\<lparr>pending_notifs := pending_notifs (sd_batches (ss_sender s) ! i) @ ns, sb_gather := g\<rparr>"
    and g: "batch_ok g" "set (wire g) \<subseteq> set (wire (sb_gather (sd_batches (ss_sender s) ! i)))"
      "gb_arena g = gb_arena (sb_gather (sd_batches (ss_sender s) ! i))" "gb_arena_len g = gb_arena_len (sb_gather (sd_batches (ss_sender s) ! i))"
    and p: "pins = (ss_pins s)(k := {}) \<or> pins = ss_pins s \<and> ns = [k]"
    and s': "s' = s\<lparr>ss_sender := sd, ss_pc := Shipping i z' carry, ss_pins := pins, ss_wire := wr\<rparr>"
    and sd: "sd_batches sd = (sd_batches (ss_sender s))[i := b]" "sd_inflight sd = sd_inflight (ss_sender s)"
  shows "sender_inv cls R s'"
proof -
  let ?B = "sd_batches (ss_sender s)"
  note fl = inv_flight [OF inv]
  have i: "i < 2" using fl(3) pc by (auto simp: pc_busy_def)
  note len = inv_parts(2) [OF inv i]
  have j: "sd_batches sd ! i = b" "sd_batches sd ! (1 - i) = ?B ! (1 - i)" using i len by (auto simp: sd less_2_cases_iff)
  have ow: "owned cls s' = owned cls s"
    unfolding count_owned [OF i] by (simp add: s' j [unfolded One_nat_def] pc pc_items_def) (simp add: b batch_tags_def)
  have ad: "batch_addrs a b = batch_addrs a (?B ! i)" for a :: "'b slot_array" using g(3,4) by (simp add: b batch_addrs_def batch_arena_def)
  have sub: "pins k' \<subseteq> ss_pins s k'" for k' using p by (cases "k' = k") auto
  show ?thesis
  proof (rule inv_update [OF inv i, of s' b])
    show "x \<in> ss_pins s' k' \<Longrightarrow> (k' \<in> set (pending_notifs b) \<or> in_op (ss_pc s') i k') \<and> x \<in> batch_addrs (ss_slots s') b \<or>
        x \<in> ss_pins s k' \<and> k' \<in> set (pending_notifs (?B ! (1 - i))) \<and> x \<in> batch_addrs (ss_slots s) (?B ! (1 - i))" for k' x
    proof -
      assume x': "x \<in> ss_pins s' k'"
      then have x: "x \<in> ss_pins s k'" using sub by (auto simp: s')
      have nk: "k' \<noteq> k \<or> ns = [k]" using x' p by (auto simp: s')
      have "\<exists>i < 2. (k' \<in> set (pending_notifs (?B ! i)) \<or> in_op (ss_pc s) i k') \<and> x \<in> batch_addrs (ss_slots s) (?B ! i)"
        using inv x by (simp add: sender_inv_def Let_def)
      moreover have "in_op (ss_pc s) j k' \<longleftrightarrow> j = i \<and> k' = k" for j by (auto simp: pc in_op_def)
      ultimately show ?thesis using x nk unfolding ex_two [OF i] ad by (auto simp: s' b)
    qed
    show "set (wire (sb_gather b)) \<subseteq> batch_addrs (ss_slots s') b"
      unfolding ad using g(2) inv_parts(4) [OF inv i] by (simp add: b s')
    show "owned cls s' \<subseteq># owned cls s" by (simp add: ow)
  qed (use fl sub g(1) inv_own(3) [OF inv] in \<open>simp_all add: s' sd b pc pc_busy_def\<close>)
qed

lemma put_released_inv: "sender_inv cls R (put_released (a, e) s) = sender_inv cls R (s\<lparr>ss_slots := a\<rparr>)"
  by (cases e) (simp add: put_released_def sender_inv_def owned_def Let_def)

lemma retire_inv:
  assumes inv: "sender_inv cls R s" and pc: "ss_pc s = Shipping i z carry"
  shows "\<exists>sd r. retire i (ss_sender s) (ss_slots s) = Some (sd, r) \<and>
    sender_inv cls R (put_released r (s\<lparr>ss_sender := sd, ss_pc := after_ship carry\<rparr>))"
proof -
  let ?B = "sd_batches (ss_sender s)"
  let ?b = "?B ! i" and ?c = "(?B ! i)\<lparr>tags_at_cqe := []\<rparr>" and ?F = "sd_inflight (ss_sender s)"
  note fl = inv_flight [OF inv]
  have i: "i < 2" "i \<notin> set ?F" using fl(3,4) pc by (auto simp: pc_busy_def)
  note len = inv_parts(2) [OF inv i(1)] and tg = batch_tags_owned [OF inv i(1)]
  obtain a e where a: "release_tags (tags_at_cqe ?b) (ss_slots s) = Some (a, e)" "slots_inv R a"
      "\<forall>t. t \<notin> set (tags_at_cqe ?b) \<longrightarrow> slot_of a t = slot_of (ss_slots s) t"
    using release_tags_ok [OF inv_own(3) [OF inv], of "tags_at_cqe ?b"] tg by auto
  obtain ws bids where e: "e = (ws, bids)" by (cases e)
  let ?s = "s\<lparr>ss_sender := put_batch i ?c (ss_sender s), ss_slots := a\<rparr>"
  have j: "sd_batches (ss_sender ?s) ! i = ?c" "sd_batches (ss_sender ?s) ! (1 - i) = ?B ! (1 - i)"
    using i(1) len by (auto simp: put_batch_def less_2_cases_iff)
  have ow: "owned cls s = owned cls ?s + mset (tags_at_cqe ?b)"
    unfolding count_owned [OF i(1)] j by (simp add: batch_tags_def)
  have kp: "t \<notin> set (tags_at_cqe ?b)" if "t \<in># owned cls ?s" for t
  proof
    assume "t \<in> set (tags_at_cqe ?b)"
    then have "2 \<le> count (owned cls s) t"
      using that unfolding ow by (simp add: Suc_le_eq flip: count_greater_zero_iff set_mset_mset)
    then show False using inv_parts(5) [OF inv i(1), of t] by simp
  qed
  have nt: "set (tags_at_notif ?b) \<inter> set (tags_at_cqe ?b) = {}" using tg(1) by auto
  then have ad: "batch_addrs a ?c = batch_addrs (ss_slots s) ?b"
    using a(3) by (simp add: batch_addrs_def batch_arena_def slot_addrs_def disjoint_iff)
  have inv': "sender_inv cls R ?s"
  proof (rule inv_update [OF inv i(1), of ?s ?c])
    show "owned cls ?s \<subseteq># owned cls s" unfolding ow by simp
    show "\<forall>t. t \<in># owned cls ?s \<longrightarrow> slot_of (ss_slots ?s) t = slot_of (ss_slots s) t" using kp a(3) by simp
    show "x \<in> ss_pins ?s k' \<Longrightarrow> (k' \<in> set (pending_notifs ?c) \<or> in_op (ss_pc ?s) i k') \<and> x \<in> batch_addrs (ss_slots ?s) ?c \<or>
        x \<in> ss_pins s k' \<and> k' \<in> set (pending_notifs (?B ! (1 - i))) \<and> x \<in> batch_addrs (ss_slots s) (?B ! (1 - i))" for k' x
    proof -
      assume x: "x \<in> ss_pins ?s k'"
      then have "\<exists>i < 2. (k' \<in> set (pending_notifs (?B ! i)) \<or> in_op (ss_pc s) i k') \<and> x \<in> batch_addrs (ss_slots s) (?B ! i)"
        using inv by (simp add: sender_inv_def Let_def)
      then show ?thesis using x unfolding ex_two [OF i(1)] by (auto simp: ad pc in_op_def)
    qed
    show "set (wire (sb_gather ?c)) \<subseteq> batch_addrs (ss_slots ?s) ?c" using inv_parts(4) [OF inv i(1)] by (simp add: ad)
  qed (use fl a(2) inv_parts(3) [OF inv i(1)] in \<open>simp_all add: put_batch_def pc pc_busy_def\<close>)
  have af: "pc_items (after_ship carry) = option_list carry" "pc_busy (after_ship carry) = {}" "\<not> in_op (after_ship carry) j k" for j k
    by (simp_all add: after_ship_def pc_items_def pc_busy_def in_op_def option_list_def split: option.split)
  show ?thesis
  proof (cases "pending_notifs ?b = []")
    case True
    then have bb: "?c = (sd_batches (ss_sender ?s) ! i)\<lparr>pending_notifs := []\<rparr>" unfolding j by simp
    obtain b' r where r: "recycle ?c a = Some (b', r)"
      using recycle_ok [OF a(2), of ?c] batch_tags_owned [OF inv' i(1)] True unfolding j by auto
    obtain a' ws' bids' where r': "r = (a', ws', bids')" by (cases r)
    have "sender_inv cls R (put_released r (?s\<lparr>ss_sender := put_batch i b' (ss_sender s), ss_pc := after_ship carry\<rparr>))"
      by (rule recycle_inv [OF inv' i(1) bb _ _ _ refl])
        (use r fl True pc i len in \<open>simp_all add: af put_batch_def\<close>, (auto simp: pc_busy_def pc_items_def in_op_def)+)
    then show ?thesis
      using True a(1) r by (simp add: r' e retire_def Let_def put_released_inv)
  next
    case False
    let ?sd = "(put_batch i ?c (ss_sender s))\<lparr>zc_batches := zc_batches (ss_sender s) + 1, sd_inflight := ?F @ [i]\<rparr>"
    let ?t = "s\<lparr>ss_sender := ?sd, ss_pc := after_ship carry, ss_slots := a\<rparr>"
    have ow': "owned cls ?t = owned cls ?s" by (simp add: owned_def af put_batch_def pc) (simp add: pc_items_def)
    have "sender_inv cls R ?t"
    proof (rule inv_task [OF inv'])
      show "\<forall>t. count (owned cls ?t) t \<le> 1" "\<forall>t \<in># owned cls ?t. responding (ss_slots ?t) t"
        using inv_own(1,2) [OF inv'] unfolding ow' by simp_all
    qed (use fl i a(2) less_2_cases [OF i(1)] in \<open>simp_all add: af pc put_batch_def\<close>, (auto simp: pc_busy_def in_op_def)+)
    then show ?thesis using False a(1) by (simp add: e retire_def Let_def put_released_inv)
  qed
qed

lemma ship_result_shape:
  assumes r: "ship_result opn k res z b sd = (nx, b', sd')" and b: "batch_ok (sb_gather b)"
    and n: "case res of Inr n \<Rightarrow> n \<le> length (wire (sb_gather b)) | Inl _ \<Rightarrow> True"
  obtains g where "b' = b\<lparr>pending_notifs := pending_notifs b @ (if opn = SendMsg then [] else [k]), sb_gather := g\<rparr>"
    "batch_ok g" "set (wire g) \<subseteq> set (wire (sb_gather b))" "gb_arena g = gb_arena (sb_gather b)"
    "gb_arena_len g = gb_arena_len (sb_gather b)" "sd_batches sd' = sd_batches sd" "sd_inflight sd' = sd_inflight sd"
proof -
  have sd: "sd_batches sd' = sd_batches sd \<and> sd_inflight sd' = sd_inflight sd"
    using r by (auto simp: ship_result_def Let_def split: sum.splits if_splits prod.splits)
  show thesis
  proof (cases "\<exists>n. res = Inr n \<and> n \<noteq> 0")
    case True
    then obtain n where res: "res = Inr n" "n \<noteq> 0" by blast
    obtain d g where a: "advance n (sb_gather b) = (d, g)" by fastforce
    have "gb_arena g = gb_arena (sb_gather b)" "gb_arena_len g = gb_arena_len (sb_gather b)"
      using a by (auto simp: advance_def split: prod.splits)
    moreover have "set (wire g) \<subseteq> set (wire (sb_gather b))" "batch_ok g"
      using advance_spec [OF b _ a] n res by (auto dest: in_set_dropD)
    ultimately show thesis
      using r res a sd by (intro that [of g]) (auto simp: ship_result_def Let_def split: if_splits)
  next
    case False
    then have "b' = b\<lparr>pending_notifs := pending_notifs b @ (if opn = SendMsg then [] else [k])\<rparr>"
      using r by (auto simp: ship_result_def Let_def split: sum.splits if_splits prod.splits)
    then show thesis using b sd by (intro that [of "sb_gather b"]) simp_all
  qed
qed

lemma complete_inv:
  assumes inv: "sender_inv cls R s" and pc: "ss_pc s = Sending i z carry opn k"
    and n: "case res of Inr n \<Rightarrow> n \<le> length (wire (sb_gather (sd_batches (ss_sender s) ! i))) | Inl _ \<Rightarrow> True"
  shows "\<exists>s'. ship_complete i z carry opn k res (s\<lparr>ss_pins := if opn = SendMsg then (ss_pins s)(k := {}) else ss_pins s, ss_wire := wr\<rparr>) = Some s' \<and>
    sender_inv cls R s'"
proof -
  let ?b = "sd_batches (ss_sender s) ! i" and ?p = "if opn = SendMsg then (ss_pins s)(k := {}) else ss_pins s"
  have i: "i < 2" using inv_flight(3) [OF inv] pc by (auto simp: pc_busy_def)
  obtain nx b sd where r: "ship_result opn k res z ?b (ss_sender s) = (nx, b, sd)" by (metis prod_cases3)
  obtain g where b: "b = ?b\<lparr>pending_notifs := pending_notifs ?b @ (if opn = SendMsg then [] else [k]), sb_gather := g\<rparr>"
    and g: "batch_ok g" "set (wire g) \<subseteq> set (wire (sb_gather ?b))" "gb_arena g = gb_arena (sb_gather ?b)"
      "gb_arena_len g = gb_arena_len (sb_gather ?b)" and sd: "sd_batches sd = sd_batches (ss_sender s)" "sd_inflight sd = sd_inflight (ss_sender s)"
    by (rule ship_result_shape [OF r inv_parts(3) [OF inv i] n])
  let ?t = "\<lambda>y. s\<lparr>ss_sender := put_batch i b sd, ss_pc := Shipping i y carry, ss_pins := ?p, ss_wire := wr\<rparr>"
  have t: "sender_inv cls R (?t y)" for y
    by (rule completed_inv [OF inv pc b g _ refl]) (simp_all add: put_batch_def sd)
  have eq: "ship_complete i z carry opn k res (s\<lparr>ss_pins := ?p, ss_wire := wr\<rparr>) =
      (case nx of
         ShipErr e \<Rightarrow> Some (start_drain (Some e) (?t False))
       | ShipAgain y \<Rightarrow> Some (?t y)
       | ShipOk \<Rightarrow> map_option (\<lambda>(sd, r). put_released r ((?t False)\<lparr>ss_sender := sd, ss_pc := after_ship carry\<rparr>))
           (retire i (ss_sender (?t False)) (ss_slots (?t False))))"
    by (simp add: ship_complete_def r start_drain_def split: ship_next.split)
  show ?thesis
  proof (cases nx)
    case ShipOk
    then show ?thesis using retire_inv [OF t [of False], where i = i and z = False and carry = carry] unfolding eq by auto
  next
    case (ShipErr e)
    have "sender_inv cls R (start_drain (Some e) (?t False))" by (rule start_drain_inv [OF t]) (simp add: in_op_def)
    then show ?thesis using ShipErr unfolding eq by simp
  next
    case (ShipAgain y)
    then show ?thesis using t unfolding eq by simp
  qed
qed

lemma issue_inv:
  assumes inv: "sender_inv cls R s" and pc: "ss_pc s = Shipping i z carry"
  shows "sender_inv cls R (s\<lparr>ss_pc := Sending i z carry opn (ss_next s),
    ss_pins := (ss_pins s)(ss_next s := set (wire (sb_gather (sd_batches (ss_sender s) ! i)))), ss_next := ss_next s + 1\<rparr>)"
    (is "sender_inv cls R ?s")
proof -
  have i: "i < 2" using inv_flight(3) [OF inv] pc by (auto simp: pc_busy_def)
  have ow: "owned cls ?s = owned cls s" by (simp add: owned_def pc pc_items_def)
  have "\<exists>j < 2. (k \<in> set (pending_notifs (sd_batches (ss_sender s) ! j)) \<or> in_op (ss_pc ?s) j k) \<and>
      x \<in> batch_addrs (ss_slots s) (sd_batches (ss_sender s) ! j)" if "x \<in> ss_pins ?s k" for x k
  proof (cases "k = ss_next s")
    case True
    then have "x \<in> batch_addrs (ss_slots s) (sd_batches (ss_sender s) ! i)" using that inv_parts(4) [OF inv i] by auto
    then show ?thesis using i True by (auto simp: in_op_def)
  next
    case False
    then have "x \<in> ss_pins s k" using that by simp
    then have "\<exists>i < 2. (k \<in> set (pending_notifs (sd_batches (ss_sender s) ! i)) \<or> in_op (ss_pc s) i k) \<and>
        x \<in> batch_addrs (ss_slots s) (sd_batches (ss_sender s) ! i)"
      using inv by (simp add: sender_inv_def Let_def)
    then show ?thesis by (auto simp: pc in_op_def)
  qed
  then have "\<forall>k. \<forall>x \<in> ss_pins ?s k. \<exists>j < 2. (k \<in> set (pending_notifs (sd_batches (ss_sender s) ! j)) \<or> in_op (ss_pc ?s) j k) \<and>
      x \<in> batch_addrs (ss_slots s) (sd_batches (ss_sender s) ! j)" by blast
  moreover have "ss_notified s (ss_next s) = None" using inv by (simp add: sender_inv_def Let_def)
  ultimately show ?thesis
    using inv unfolding sender_inv_def Let_def ow by (simp add: pc pc_busy_def)
qed

lemma notify_inv:
  assumes inv: "sender_inv cls R s" and k: "k < ss_next s"
  shows "sender_inv cls R (s\<lparr>ss_pins := (ss_pins s)(k := {}), ss_notified := (ss_notified s)(k := Some c)\<rparr>)"
    (is "sender_inv cls R ?s")
proof -
  have "owned cls ?s = owned cls s" by (simp add: owned_def)
  then show ?thesis using inv k unfolding sender_inv_def Let_def by auto
qed

section \<open>The other tasks\<close>

text \<open>Answering a command: its tag was not yet the sender's.\<close>

lemma answer_frame:
  assumes inv: "slots_inv R a" and r: "begin_respond tag a = Some a' \<or> respond_receiving tag a = Some a'"
  shows "slots_inv R a'" "\<not> responding a tag" "responding a' tag" "\<And>t. t \<noteq> tag \<Longrightarrow> slot_of a' t = slot_of a t"
proof -
  show "slots_inv R a'" using r begin_respond_inv [OF inv] respond_receiving_inv [OF inv] by blast
  obtain s n where s: "slot_of a tag = Some s" "slot_state s \<noteq> Responding" "a' = put_slot tag (s\<lparr>slot_state := Responding\<rparr>) (a\<lparr>executing := n\<rparr>)"
    using r
  proof
    assume "respond_receiving tag a = Some a'"
    then obtain s where "slot_of a tag = Some s" "slot_state s = Receiving" "a' = put_slot tag (s\<lparr>slot_state := Responding\<rparr>) a"
      by (auto simp: respond_receiving_def split: option.splits if_splits)
    then show thesis by (intro that [of s "executing a"]) simp_all
  qed (auto simp: begin_respond_def split: option.splits if_splits intro: that)
  then show "\<not> responding a tag" "responding a' tag" by (auto simp: responding_def slot_of_Some)
  show "slot_of a' t = slot_of a t" if "t \<noteq> tag" for t
  proof -
    have "unat t \<noteq> unat tag" using that word_unat_eq_iff by blast
    then show ?thesis using s(3) by (simp add: slot_of_def)
  qed
qed

lemma answer_inv:
  assumes inv: "sender_inv cls R s" and r: "begin_respond tag (ss_slots s) = Some a \<or> respond_receiving tag (ss_slots s) = Some a"
    and w: "staged_tags (cls w) = [tag]"
  shows "sender_inv cls R (s\<lparr>ss_slots := a, ss_work := fst (send_push w (ss_work s)), ss_due := d\<rparr>)" (is "sender_inv cls R ?s")
proof -
  note f = answer_frame [OF inv_own(3) [OF inv] r]
  have ow: "owned cls ?s = add_mset tag (owned cls s)"
    by (simp add: owned_def item_tags_def send_push_def w)
  have nt: "tag \<notin># owned cls s" using inv_own(2) [OF inv] f(2) by blast
  show ?thesis
  proof (rule inv_task [OF inv])
    show "\<forall>t. count (owned cls ?s) t \<le> 1" unfolding ow using inv_own(1) [OF inv] nt by (simp add: count_eq_zero_iff)
    have "responding a t" if "t \<in># owned cls s" for t
      using that inv_own(2) [OF inv] responding_cong [OF f(4), of t] f(3) by (cases "t = tag") auto
    then show "\<forall>t \<in># owned cls ?s. responding (ss_slots ?s) t" unfolding ow using f(3) by simp
    show "slot_of (ss_slots ?s) t = Some sl" if "slot_of (ss_slots s) t = Some sl" "slot_state sl = Responding" for t sl
      using that f(2) f(4) [of t] by (cases "t = tag") (auto simp: responding_def)
  qed (use f(1) inv_flight [OF inv] in simp_all)
qed

lemma work_inv:
  assumes inv: "sender_inv cls R s" and l: "item_tags cls (work l) = item_tags cls (work (ss_work s))"
  shows "sender_inv cls R (s\<lparr>ss_work := l, ss_due := d\<rparr>)"
proof -
  have "owned cls (s\<lparr>ss_work := l, ss_due := d\<rparr>) = owned cls s" using l by (simp add: owned_def item_tags_def)
  then show ?thesis using inv unfolding sender_inv_def Let_def by simp
qed

lemma other_inv:
  assumes inv: "sender_inv cls R s" and st: "slot_step (ss_slots s) a"
    and kp: "\<forall>t sl. slot_of (ss_slots s) t = Some sl \<longrightarrow> slot_state sl = Responding \<longrightarrow> slot_of a t = Some sl"
  shows "sender_inv cls R (s\<lparr>ss_slots := a, ss_mem := m\<rparr>)" (is "sender_inv cls R ?s")
proof (rule inv_task [OF inv])
  have ow: "owned cls ?s = owned cls s" by (simp add: owned_def)
  show "\<forall>t. count (owned cls ?s) t \<le> 1" using inv_own(1) [OF inv] by (simp add: ow)
  show "\<forall>t \<in># owned cls ?s. responding (ss_slots ?s) t"
    using inv_own(2) [OF inv] kp unfolding ow responding_def by fastforce
  show "slots_inv R (ss_slots ?s)" using slot_step_inv [OF inv_own(3) [OF inv] st] by simp
qed (use kp inv_flight [OF inv] in simp_all)

lemma start_inv:
  assumes a: "slots_inv R a" and sd: "sender_new x y depth api ipi pa zm m = (sd, m')"
  shows "sender_inv cls R (send_start sd a m')"
proof -
  have g: "batch_ok (sb_gather b) \<and> wire (sb_gather b) = [] \<and> batch_tags b = {#} \<and> clean b"
    if "b \<in> set (sd_batches sd)" for b
    using that sd
    by (auto simp: sender_new_def with_pool_arena_def send_batch_new_def send_batch_around_def gather_new_def
        from_pool_arena_def gather_build_def batch_ok_def wire_def live_iov_def batch_tags_def clean_def Let_def
        split: option.splits prod.splits)
  have l: "length (sd_batches sd) = 2" "sd_inflight sd = []"
    using sd by (auto simp: sender_new_def Let_def split: option.splits prod.splits)
  have "owned cls (send_start sd a m') = {#}"
    using g [OF nth_mem, of 0] g [OF nth_mem, of 1] l
    by (simp add: owned_def send_start_def pc_items_def item_tags_def send_list_new_def)
  then show ?thesis
    using a l g by (simp add: sender_inv_def Let_def send_start_def pc_busy_def in_op_def)
qed

context staging
begin

lemma send_step_inv:
  assumes st: "send_step tr zc s s'" and inv: "sender_inv cls R s" and tr: "tr_stage tr = stage" "tr_class tr = cls"
  shows "sender_inv cls R s'"
  using st unfolding tr
proof cases
  case (next_work waker)
  then show ?thesis using next_work_inv [OF inv, of waker] by simp
next
  case (acquire w)
  then show ?thesis using acquire_inv [OF inv] by (simp add: tr)
next
  case (reap i w fin s1)
  have i: "i < 2" using inv_flight(3) [OF inv] reap(2) by (auto simp: pc_busy_def)
  have "\<exists>fin s'. reap_poll i s = Some (fin, s') \<and> sender_inv cls R (s'\<lparr>ss_pc := if fin then Acquiring w else ss_pc s\<rparr>)"
    by (rule reap_poll_inv [OF inv i]) (simp_all add: reap(2) in_op_def pc_items_def pc_busy_def)
  then show ?thesis using reap by auto
next
  case (issue i z carry)
  then show ?thesis using issue_inv [OF inv issue(2)] by simp
next
  case (reject i z carry e)
  then show ?thesis using start_drain_inv [OF inv] by (simp add: in_op_def)
next
  case (complete i z carry opn k res)
  then show ?thesis using complete_inv [OF inv complete(1,2)] by (metis option.inject)
next
  case (notify k copied)
  then show ?thesis using notify_inv [OF inv] by simp
next
  case (drain r i rest fin s1)
  have i: "i < 2" using inv_flight(3) [OF inv] drain(2) by (auto simp: pc_busy_def)
  have "\<exists>fin s'. reap_poll i s = Some (fin, s') \<and> sender_inv cls R (s'\<lparr>ss_pc := if fin then Draining r rest else ss_pc s\<rparr>)"
    by (rule reap_poll_inv [OF inv i]) (simp_all add: drain(2) in_op_def pc_items_def pc_busy_def)
  then show ?thesis using drain by (auto split: if_splits)
next
  case (finish r)
  have "owned cls s' = owned cls s" by (simp add: finish owned_def pc_items_def)
  then show ?thesis
    using inv finish unfolding sender_inv_def Let_def by (simp add: pc_busy_def in_op_def)
next
  case (answer tag a w)
  then show ?thesis using answer_inv [OF inv] by (simp add: tr)
next
  case (solicit w)
  then show ?thesis using work_inv [OF inv] by (simp add: tr send_push_def item_tags_def staged_tags_def)
next
  case close
  moreover have "s\<lparr>ss_work := l, ss_due := ss_due s\<rparr> = s\<lparr>ss_work := l\<rparr>" for l by simp
  ultimately show ?thesis using work_inv [OF inv, of "fst (send_close (ss_work s))" "ss_due s"] by (simp add: send_close_def)
next
  case (other a m)
  then show ?thesis using other_inv [OF inv] by simp
qed

lemma send_reach_inv:
  assumes "send_reach tr zc R s" "tr_stage tr = stage" "tr_class tr = cls"
  shows "sender_inv cls R s"
  using assms(1) by (induction rule: send_reach.induct) (blast intro: start_inv send_step_inv assms(2,3))+

end

section \<open>What the invariant gives\<close>

lemma pin_batch:
  "sender_inv cls R s \<Longrightarrow> x \<in> ss_pins s k \<Longrightarrow> \<exists>i < 2. (k \<in> set (pending_notifs (sd_batches (ss_sender s) ! i)) \<or> in_op (ss_pc s) i k) \<and>
    x \<in> batch_addrs (ss_slots s) (sd_batches (ss_sender s) ! i)"
  by (simp add: sender_inv_def Let_def)

lemma pins_held:
  assumes inv: "sender_inv cls R s" and x: "x \<in> ss_pins s k"
  shows "(\<exists>b \<in> set (sd_batches (ss_sender s)). x \<in> batch_arena b) \<or> (\<exists>t. responding (ss_slots s) t \<and> x \<in> slot_addrs (ss_slots s) t)"
proof -
  obtain i where i: "i < 2" "x \<in> batch_addrs (ss_slots s) (sd_batches (ss_sender s) ! i)"
    using pin_batch [OF inv x] by blast
  moreover have "sd_batches (ss_sender s) ! i \<in> set (sd_batches (ss_sender s))" using i(1) inv_parts(2) [OF inv i(1)] by simp
  ultimately show ?thesis using batch_tags_owned(2) [OF inv i(1)] by (auto simp: batch_addrs_def)
qed

lemma finished_unpinned:
  assumes inv: "sender_inv cls R s" and pc: "ss_pc s = Finished r"
  shows "sd_inflight (ss_sender s) = [] \<Longrightarrow> ss_pins s k = {}"
proof (rule ccontr)
  assume f: "sd_inflight (ss_sender s) = []" and "ss_pins s k \<noteq> {}"
  then obtain x where "x \<in> ss_pins s k" by blast
  then obtain i where "i < 2" "k \<in> set (pending_notifs (sd_batches (ss_sender s) ! i))"
    using pin_batch [OF inv, of x k] by (auto simp: pc in_op_def)
  moreover have "clean (sd_batches (ss_sender s) ! i)" if "i < 2" for i
    using inv f that by (simp add: sender_inv_def Let_def pc pc_busy_def)
  ultimately show False by (auto simp: clean_def)
qed

text \<open>Once the final drain has begun, no batch is on the in-flight list.\<close>

definition drain_clear :: "('c, 'w) send_sys \<Rightarrow> bool" where
  "drain_clear s \<longleftrightarrow>
     ((\<exists>r is. ss_pc s = Draining r is) \<or> (\<exists>r. ss_pc s = Finished r) \<longrightarrow> sd_inflight (ss_sender s) = [])"

lemma start_drain_clear: "drain_clear (start_drain r s)"
  by (simp add: drain_clear_def start_drain_def)

lemma reap_inflight: "reap_poll i s = Some (fin, s') \<Longrightarrow> sd_inflight (ss_sender s') = sd_inflight (ss_sender s)"
  by (auto simp: reap_poll_def Let_def put_batch_def put_released_def split: if_splits option.splits prod.splits)

lemma next_work_pc:
  "ss_pc s = NextWork \<Longrightarrow> next_work w s = Some s' \<Longrightarrow> drain_clear s'"
  by (auto simp: next_work_def Let_def put_released_def start_drain_clear split: prod.splits poll.splits option.splits list.splits if_splits)
    (auto simp: drain_clear_def)

lemma ship_complete_pc: "ship_complete i z c opn k res s = Some s' \<Longrightarrow> drain_clear s'"
  by (auto simp: ship_complete_def Let_def put_released_def start_drain_clear split: prod.splits ship_next.splits)
    (auto simp: drain_clear_def after_ship_def split: option.splits)

lemma acquire_pc: "acquire_stage stage zc w s = Some s' \<Longrightarrow> drain_clear s'"
  by (auto simp: acquire_stage_def drain_clear_def Let_def split: if_splits list.splits option.splits prod.splits)

lemma send_reach_clear: "send_reach tr zc R s \<Longrightarrow> drain_clear s"
proof (induction rule: send_reach.induct)
  case (step s s')
  have "drain_clear s'" if "drain_clear s"
    using step(2)
  proof cases
    case (next_work waker)
    then show ?thesis by (rule next_work_pc)
  next
    case (acquire w)
    then show ?thesis by (intro acquire_pc) assumption
  next
    case (reject i z carry e)
    then show ?thesis using start_drain_clear by simp
  next
    case (complete i z carry opn k res)
    then show ?thesis by (intro ship_complete_pc) assumption
  next
    case (drain r i rest fin s1)
    then show ?thesis using that reap_inflight [OF drain(3)] by (simp add: drain_clear_def)
  qed (use that in \<open>auto simp: drain_clear_def\<close>)
  then show ?case using step.IH by blast
qed (simp add: drain_clear_def send_start_def)

end
