(* ===== verification/Sender_Order.thy ===== *)
theory Sender_Order
  imports Sender_Safety "HOL-Library.Sublist"
begin

text \<open>
  What the sender of \<^verbatim>\<open>ioutgt-stream/src/lib.rs\<close> puts on the wire: the bytes of the queued items, in the
  order in which they were queued, each once, whatever the kernel takes of a send, whichever operation
  is used and however the items fall into batches.
\<close>

section \<open>The invariant\<close>

definition items :: "('c, 'w) send_sys \<Rightarrow> 'w list" where
  "items s = pc_items (ss_pc s) @ work (ss_work s)"

text \<open>What is staged and not yet taken by the socket.\<close>

definition unsent :: "('c, 'w) send_sys \<Rightarrow> bytes" where
  "unsent s =
     (case ss_pc s of
        Shipping i _ _ \<Rightarrow> map (ss_mem s) (wire (sb_gather (sd_batches (ss_sender s) ! i)))
      | Sending i _ _ _ _ \<Rightarrow> map (ss_mem s) (wire (sb_gather (sd_batches (ss_sender s) ! i)))
      | _ \<Rightarrow> [])"

definition waiting :: "('c, 'w) transport \<Rightarrow> ('c, 'w) send_sys \<Rightarrow> bytes" where
  "waiting tr s = concat (map (tr_bytes tr (ss_slots s) (ss_mem s)) (items s))"

definition failed :: "'w send_pc \<Rightarrow> bool" where
  "failed pc = (case pc of Draining r _ \<Rightarrow> r \<noteq> None | Finished r \<Rightarrow> r \<noteq> None | _ \<Rightarrow> False)"

definition arenas :: "('c, 'w) send_sys \<Rightarrow> nat set" where
  "arenas s = \<Union> (set (map batch_arena (sd_batches (ss_sender s))))"

definition item_ok :: "('c, 'w) transport \<Rightarrow> ('c, 'w) send_sys \<Rightarrow> 'w \<Rightarrow> bool" where
  "item_ok tr s w \<longleftrightarrow> tr_ready tr (ss_slots s) w \<and>
     (\<forall>t \<in> set (staged_tags (tr_class tr w)). slot_addrs (ss_slots s) t \<inter> arenas s = {})"

definition order_inv :: "('c, 'w) transport \<Rightarrow> ('c, 'w) send_sys \<Rightarrow> bool" where
  "order_inv tr s \<longleftrightarrow> (\<forall>w \<in> set (items s). item_ok tr s w) \<and>
     (if failed (ss_pc s) then prefix (ss_wire s) (ss_due s) else ss_wire s @ unsent s @ waiting tr s = ss_due s)"

lemma item_ok_cong: "ss_slots s' = ss_slots s \<Longrightarrow> arenas s' = arenas s \<Longrightarrow> item_ok tr s' w = item_ok tr s w"
  by (simp add: item_ok_def)

lemma unsent_frame [simp]:
  "unsent (s\<lparr>ss_slots := a\<rparr>) = unsent s" "unsent (s\<lparr>ss_work := l\<rparr>) = unsent s" "unsent (s\<lparr>ss_due := d\<rparr>) = unsent s"
  "unsent (s\<lparr>ss_pins := p\<rparr>) = unsent s" "unsent (s\<lparr>ss_notified := q\<rparr>) = unsent s"
  by (simp_all add: unsent_def split: send_pc.split)

section \<open>Steps that stage nothing\<close>

text \<open>The slots that are still being answered are as they were, and so are memory and arenas.\<close>

definition send_keeps :: "('c, 'w) send_sys \<Rightarrow> ('c, 'w) send_sys \<Rightarrow> bool" where
  "send_keeps s s' \<longleftrightarrow> ss_mem s' = ss_mem s \<and> ss_due s' = ss_due s \<and>
     (\<forall>t. responding (ss_slots s') t \<longrightarrow> slot_of (ss_slots s') t = slot_of (ss_slots s) t) \<and>
     map batch_arena (sd_batches (ss_sender s')) = map batch_arena (sd_batches (ss_sender s))"

lemma item_tags_owned:
  "w \<in> set (items s) \<Longrightarrow> t \<in> set (staged_tags (cls w)) \<Longrightarrow> t \<in># owned cls s"
  by (auto simp: items_def owned_def item_tags_def)

lemma release_tags_kept:
  "release_tags ts a = Some (a', e) \<Longrightarrow> responding a' t \<Longrightarrow> slot_of a' t = slot_of a t"
proof (induction ts arbitrary: a e)
  case (Cons u ts)
  then obtain b ws bids e' where b: "release_tag u a = Some (b, ws, bids)" "release_tags ts b = Some (a', e')"
    by (auto split: option.splits prod.splits)
  have "slot_of a' t = slot_of b t" by (rule Cons.IH [OF b(2) Cons.prems(2)])
  moreover have "\<not> responding b u"
    using b(1) by (auto simp: release_tag_def responding_def release_data_def set_data_def slot_of_Some split: option.splits if_splits)
  ultimately show ?case using release_tag_frame [OF b(1), of t] Cons.prems(2) by (cases "t = u") (auto simp: responding_def)
qed simp

lemma recycle_kept:
  assumes "recycle b a = Some (b', a', e)"
  shows "responding a' t \<Longrightarrow> slot_of a' t = slot_of a t" "batch_arena b' = batch_arena b"
  using assms by (auto simp: recycle_def batch_reset_def gather_reset_def batch_arena_def split: option.splits prod.splits if_splits
      intro: release_tags_kept)

lemma map_arena_put: "batch_arena b = batch_arena (bs ! i) \<Longrightarrow> map batch_arena (bs[i := b]) = map batch_arena bs"
  by (metis list_update_id map_update)

lemma put_released_simps [simp]:
  "ss_sender (put_released (a, e) s) = ss_sender s" "ss_pc (put_released (a, e) s) = ss_pc s"
  "ss_slots (put_released (a, e) s) = a" "ss_work (put_released (a, e) s) = ss_work s"
  "ss_mem (put_released (a, e) s) = ss_mem s" "ss_wire (put_released (a, e) s) = ss_wire s"
  "ss_due (put_released (a, e) s) = ss_due s"
  by (cases e; simp add: put_released_def)+

lemma retire_kept:
  assumes "retire i sd a = Some (sd', a', e)"
  shows "responding a' t \<Longrightarrow> slot_of a' t = slot_of a t" "map batch_arena (sd_batches sd') = map batch_arena (sd_batches sd)"
proof -
  obtain a1 e1 where r: "release_tags (tags_at_cqe (sd_batches sd ! i)) a = Some (a1, e1)"
    using assms by (auto simp: retire_def Let_def split: option.splits prod.splits)
  let ?b = "(sd_batches sd ! i)\<lparr>tags_at_cqe := []\<rparr>"
  have ar: "batch_arena ?b = batch_arena (sd_batches sd ! i)" by (simp add: batch_arena_def)
  have "(responding a' t \<longrightarrow> slot_of a' t = slot_of a t) \<and> map batch_arena (sd_batches sd') = map batch_arena (sd_batches sd)"
  proof (cases "pending_notifs ?b = []")
    case True
    then obtain b' e' where c: "recycle ?b a1 = Some (b', a', e')" "sd' = put_batch i b' sd"
      using assms r by (auto simp: retire_def Let_def split: option.splits prod.splits)
    have "slot_of a' t = slot_of a t" if "responding a' t"
      using recycle_kept(1) [OF c(1) that] that release_tags_kept [OF r, of t] by (simp add: responding_def)
    then show ?thesis
      using recycle_kept(2) [OF c(1)] ar by (auto simp: c(2) put_batch_def intro: map_arena_put)
  next
    case False
    then show ?thesis
      using assms r release_tags_kept [OF r, of t] ar
      by (auto simp: retire_def Let_def put_batch_def split: option.splits prod.splits intro: map_arena_put)
  qed
  then show "responding a' t \<Longrightarrow> slot_of a' t = slot_of a t" "map batch_arena (sd_batches sd') = map batch_arena (sd_batches sd)" by blast+
qed

lemma next_work_kept:
  assumes pc: "ss_pc s = NextWork" and st: "next_work w s = Some s'"
  shows "send_keeps s s' \<and> items s' = items s \<and> unsent s' = unsent s \<and> ss_wire s' = ss_wire s \<and> \<not> failed (ss_pc s')"
proof (cases "work (ss_work s)")
  case (Cons x xs)
  then show ?thesis
    using st by (auto simp: next_work_def poll_next_def send_keeps_def items_def pc pc_items_def unsent_def failed_def)
next
  case Nil
  show ?thesis
  proof (cases "closed (ss_work s)")
    case True
    then show ?thesis
      using st Nil by (auto simp: next_work_def poll_next_def send_keeps_def items_def pc pc_items_def unsent_def failed_def start_drain_def)
  next
    case False
    have "ss_pc s' = NextWork \<and> work (ss_work s') = [] \<and> ss_wire s' = ss_wire s \<and> send_keeps s s'"
    proof (cases "sd_inflight (ss_sender s)")
      case f: Nil
      then show ?thesis using st Nil False by (auto simp: next_work_def poll_next_def send_keeps_def pc)
    next
      case f: (Cons i rest)
      let ?b = "sd_batches (ss_sender s) ! i"
      obtain ns c where p: "poll_notifs (ss_notified s) 0 (pending_notifs ?b) (zc_copied (ss_sender s)) = (ns, c)" by fastforce
      have ar: "batch_arena (?b\<lparr>pending_notifs := ns\<rparr>) = batch_arena ?b" by (simp add: batch_arena_def)
      show ?thesis
      proof (cases "ns = []")
        case True
        then obtain b' a' e where r: "recycle (?b\<lparr>pending_notifs := []\<rparr>) (ss_slots s) = Some (b', a', e)"
          and s': "s' = put_released (a', e) (s\<lparr>ss_work := (ss_work s)\<lparr>send_waker := Some w\<rparr>,
            ss_sender := put_batch i b' ((put_batch i (?b\<lparr>pending_notifs := []\<rparr>) (ss_sender s))\<lparr>zc_copied := c, sd_inflight := rest\<rparr>)\<rparr>)"
          using st Nil False f p by (auto simp: next_work_def poll_next_def Let_def)
        have "batch_arena b' = batch_arena ?b" using recycle_kept(2) [OF r] ar True by simp
        then show ?thesis
          using recycle_kept(1) [OF r] Nil by (auto simp: s' send_keeps_def pc put_batch_def map_arena_put)
      next
        case n: False
        then show ?thesis
          using st Nil False f p ar by (auto simp: next_work_def poll_next_def Let_def send_keeps_def pc put_batch_def map_arena_put)
      qed
    qed
    then show ?thesis using Nil by (auto simp: items_def pc pc_items_def unsent_def failed_def)
  qed
qed

lemma reap_kept:
  assumes st: "reap_poll i s = Some (fin, s')"
  shows "send_keeps s (s'\<lparr>ss_pc := pc\<rparr>) \<and> ss_work s' = ss_work s \<and> ss_wire s' = ss_wire s"
proof -
  let ?b = "sd_batches (ss_sender s) ! i"
  show ?thesis
  proof (cases "pending_notifs ?b = []")
    case True
    then obtain b' a' e where r: "recycle ?b (ss_slots s) = Some (b', a', e)"
      and s': "s' = put_released (a', e) (s\<lparr>ss_sender := put_batch i b' (ss_sender s)\<rparr>)"
      using st by (auto simp: reap_poll_def)
    show ?thesis using recycle_kept [OF r] by (auto simp: s' send_keeps_def put_batch_def map_arena_put)
  next
    case False
    have "batch_arena (?b\<lparr>pending_notifs := ns\<rparr>) = batch_arena ?b" for ns by (simp add: batch_arena_def)
    then show ?thesis
      using st False by (auto simp: reap_poll_def Let_def send_keeps_def put_batch_def map_arena_put split: option.splits)
  qed
qed

section \<open>Staging\<close>

text \<open>
  A transport that stages what it says: the item's bytes are appended to the wire, within the arena;
  they depend on the slot of its tag and on that slot's buffer only.
\<close>

locale staging_bytes = staging stage cls
  for stage :: "('c, 'w) stager" and cls :: "'w \<Rightarrow> staged" +
  fixes enc :: "'c slot_array \<Rightarrow> memory \<Rightarrow> 'w \<Rightarrow> bytes" and ready :: "'c slot_array \<Rightarrow> 'w \<Rightarrow> bool"
  assumes stage_bytes: "stage a g w m = Some (g', st, m') \<Longrightarrow> staged_ok g \<Longrightarrow> ready a w \<Longrightarrow>
      (\<forall>t \<in> set (staged_tags (cls w)). slot_addrs a t \<inter> {gb_arena g..<gb_arena g + gb_arena_len g} = {}) \<Longrightarrow>
      staged_ok g' \<and> map m' (wire g') = map m (wire g) @ enc a m w \<and>
      (\<forall>x. x \<notin> {gb_arena g..<gb_arena g + gb_arena_len g} \<longrightarrow> m' x = m x)"
    and enc_cong: "(\<And>t. t \<in> set (staged_tags (cls w)) \<Longrightarrow> slot_of a' t = slot_of a t) \<Longrightarrow>
      (\<And>t x. t \<in> set (staged_tags (cls w)) \<Longrightarrow> x \<in> slot_addrs a t \<Longrightarrow> m' x = m x) \<Longrightarrow> enc a' m' w = enc a m w"
    and ready_cong: "(\<And>t. t \<in> set (staged_tags (cls w)) \<Longrightarrow> slot_of a' t = slot_of a t) \<Longrightarrow> ready a' w = ready a w"
begin

lemma stage_one_bytes:
  assumes st: "stage a (sb_gather b) w m = Some (g, st, m')" and b: "staged_ok (sb_gather b)" "ready a w"
    "\<forall>t \<in> set (staged_tags (cls w)). slot_addrs a t \<inter> batch_arena b = {}"
  defines "c \<equiv> add_staged st (b\<lparr>sb_gather := g\<rparr>)"
  shows "staged_ok (sb_gather c)" "map m' (wire (sb_gather c)) = map m (wire (sb_gather b)) @ enc a m w"
    "\<And>x. x \<notin> batch_arena b \<Longrightarrow> m' x = m x" "batch_arena c = batch_arena b"
proof -
  note s = stage_bytes [OF st b(1,2) b(3) [unfolded batch_arena_def]]
  have c: "sb_gather c = g" "batch_arena c = batch_arena b"
    using stage_gather [OF st] b(1) by (simp_all add: c_def add_staged_def batch_arena_def staged_ok_def split: staged.split)
  show "staged_ok (sb_gather c)" "map m' (wire (sb_gather c)) = map m (wire (sb_gather b)) @ enc a m w" "batch_arena c = batch_arena b"
    using s by (simp_all add: c)
  show "\<And>x. x \<notin> batch_arena b \<Longrightarrow> m' x = m x" using s by (simp add: batch_arena_def)
qed

lemma stage_items_bytes:
  assumes "stage_items stage cap a w ws b m = Some (carry, ws', b', m')" "staged_ok (sb_gather b)"
    "\<forall>x \<in> set (w # ws). ready a x \<and> (\<forall>t \<in> set (staged_tags (cls x)). slot_addrs a t \<inter> batch_arena b = {})"
  shows "map m' (wire (sb_gather b')) @ concat (map (enc a m) (option_list carry @ ws')) =
      map m (wire (sb_gather b)) @ concat (map (enc a m) (w # ws)) \<and>
    (\<forall>x. x \<notin> batch_arena b \<longrightarrow> m' x = m x) \<and> batch_arena b' = batch_arena b \<and> set (option_list carry @ ws') \<subseteq> set (w # ws)"
  using assms
proof (induction ws arbitrary: w b m)
  case Nil
  note eq = stage_items.simps [of stage cap a w "[]" b m]
  show ?case
  proof (cases "batch_fits b")
    case True
    then obtain g st m1 where s: "stage a (sb_gather b) w m = Some (g, st, m1)"
      using Nil(1) eq by (auto split: option.splits)
    then show ?thesis
      using Nil(1) eq True stage_one_bytes [OF s Nil(2)] Nil(3) by (auto simp: Let_def option_list_def split: if_splits)
  qed (use Nil eq in \<open>auto simp: option_list_def\<close>)
next
  case (Cons x xs)
  note eq = stage_items.simps [of stage cap a w "x # xs" b m]
  show ?case
  proof (cases "batch_fits b")
    case True
    then obtain g st m1 where s: "stage a (sb_gather b) w m = Some (g, st, m1)"
      using Cons.prems(1) eq by (auto split: option.splits)
    let ?c = "add_staged st (b\<lparr>sb_gather := g\<rparr>)"
    have "ready a w" "\<forall>t \<in> set (staged_tags (cls w)). slot_addrs a t \<inter> batch_arena b = {}" using Cons.prems(3) by auto
    note c = stage_one_bytes [OF s Cons.prems(2) this]
    have ec: "enc a m1 y = enc a m y" if "y \<in> set (x # xs)" for y
      by (rule enc_cong) (use that Cons.prems(3) c(3) in \<open>fastforce+\<close>)
    show ?thesis
    proof (cases "cap_reached cap (sb_gather ?c)")
      case False
      then have st: "stage_items stage cap a x xs ?c m1 = Some (carry, ws', b', m')"
        using Cons.prems(1) eq True s by (simp add: Let_def)
      have r: "\<forall>y \<in> set (x # xs). ready a y \<and> (\<forall>t \<in> set (staged_tags (cls y)). slot_addrs a t \<inter> batch_arena ?c = {})"
        using Cons.prems(3) by (simp add: c(4))
      note ih = Cons.IH [OF st c(1) r]
      then have e1: "map (enc a m1) (option_list carry @ ws') = map (enc a m) (option_list carry @ ws')"
        using ec by (intro map_cong) auto
      have e2: "map (enc a m1) (x # xs) = map (enc a m) (x # xs)" using ec by (intro map_cong) auto
      have "map m' (wire (sb_gather b')) @ concat (map (enc a m) (option_list carry @ ws')) =
          map m (wire (sb_gather b)) @ concat (map (enc a m) (w # x # xs))"
        using ih c(2) unfolding e1 e2 by simp
      then show ?thesis using ih c(3,4) by auto
    next
      case c': True
      then show ?thesis using Cons.prems(1) eq True s c by (auto simp: Let_def option_list_def)
    qed
  qed (use Cons.prems eq in \<open>auto simp: option_list_def\<close>)
qed

end

section \<open>Keeping the order\<close>

context staging_bytes
begin

lemma items_kept:
  assumes sl: "\<And>w t. w \<in> set ws \<Longrightarrow> t \<in> set (staged_tags (cls w)) \<Longrightarrow> slot_of a' t = slot_of a t"
    and m: "\<And>w t x. w \<in> set ws \<Longrightarrow> t \<in> set (staged_tags (cls w)) \<Longrightarrow> x \<in> slot_addrs a t \<Longrightarrow> m' x = m x"
  shows "map (enc a' m') ws = map (enc a m) ws" "w \<in> set ws \<Longrightarrow> ready a' w = ready a w"
proof -
  show "map (enc a' m') ws = map (enc a m) ws"
  proof (rule map_cong [OF refl])
    fix w assume "w \<in> set ws"
    then show "enc a' m' w = enc a m w" using sl m by (intro enc_cong) blast+
  qed
  show "w \<in> set ws \<Longrightarrow> ready a' w = ready a w" using sl by (intro ready_cong) blast
qed

text \<open>A step after which the same items are pending: the slots of their tags and these slots' buffers are
  as they were.\<close>

lemma order_same:
  assumes inv: "order_inv tr s" and tr: "tr_class tr = cls" "tr_bytes tr = enc" "tr_ready tr = ready"
    and it: "items s' = items s" and ar: "map batch_arena (sd_batches (ss_sender s')) = map batch_arena (sd_batches (ss_sender s))"
    and sl: "\<And>t. t \<in># item_tags cls (items s) \<Longrightarrow> slot_of (ss_slots s') t = slot_of (ss_slots s) t"
    and m: "\<And>t x. t \<in># item_tags cls (items s) \<Longrightarrow> x \<in> slot_addrs (ss_slots s) t \<Longrightarrow> ss_mem s' x = ss_mem s x"
    and w: "ss_wire s' = ss_wire s" "unsent s' = unsent s" "ss_due s' = ss_due s" "failed (ss_pc s') = failed (ss_pc s)"
  shows "order_inv tr s'"
proof -
  have tg: "t \<in># item_tags cls (items s)" if "w \<in> set (items s)" "t \<in> set (staged_tags (cls w))" for w t
    using that by (auto simp: item_tags_def)
  have ba: "arenas s' = arenas s" by (simp only: arenas_def ar)
  note k = items_kept [of "items s" "ss_slots s'" "ss_slots s" "ss_mem s'" "ss_mem s"]
  have e: "map (enc (ss_slots s') (ss_mem s')) (items s) = map (enc (ss_slots s) (ss_mem s)) (items s)"
    by (rule k(1)) (use sl m tg in blast)+
  have r: "ready (ss_slots s') w = ready (ss_slots s) w" if "w \<in> set (items s)" for w
    by (rule k(2) [OF _ _ that]) (use sl m tg in blast)+
  have "item_ok tr s' w" if "w \<in> set (items s)" for w
    unfolding item_ok_def tr
  proof (intro conjI ballI)
    have ok: "item_ok tr s w" using inv that by (simp add: order_inv_def)
    show "ready (ss_slots s') w" using ok r [OF that] by (simp add: item_ok_def tr)
    fix t assume t: "t \<in> set (staged_tags (cls w))"
    then show "slot_addrs (ss_slots s') t \<inter> arenas s' = {}"
      using ok sl [OF tg [OF that t]] by (simp add: item_ok_def tr slot_addrs_def ba)
  qed
  moreover have "waiting tr s' = waiting tr s" by (simp add: waiting_def it tr e)
  ultimately show ?thesis using inv by (simp add: order_inv_def it w)
qed

lemma order_keeps:
  assumes inv: "order_inv tr s" and tr: "tr_class tr = cls" "tr_bytes tr = enc" "tr_ready tr = ready"
    and si: "sender_inv cls R s'" and k: "send_keeps s s'" "items s' = items s"
    and w: "ss_wire s' = ss_wire s" "unsent s' = unsent s" "failed (ss_pc s') = failed (ss_pc s)"
  shows "order_inv tr s'"
proof (rule order_same [OF inv tr k(2)])
  show "slot_of (ss_slots s') t = slot_of (ss_slots s) t" if "t \<in># item_tags cls (items s)" for t
  proof -
    have "t \<in># owned cls s'" using that k(2) by (simp add: owned_def items_def [symmetric])
    then show ?thesis using inv_own(2) [OF si] k(1) by (simp add: send_keeps_def)
  qed
qed (use k(1) w in \<open>simp_all add: send_keeps_def\<close>)

text \<open>The bytes on the wire do not change while the slots being answered and the arenas do not.\<close>

lemma unsent_same:
  assumes si: "sender_inv cls R s" and s': "ss_pc s' = ss_pc s" "sd_batches (ss_sender s') = sd_batches (ss_sender s)"
    and m: "\<And>x. (\<exists>b \<in> set (sd_batches (ss_sender s)). x \<in> batch_arena b) \<or>
      (\<exists>t. responding (ss_slots s) t \<and> x \<in> slot_addrs (ss_slots s) t) \<Longrightarrow> ss_mem s' x = ss_mem s x"
  shows "unsent s' = unsent s"
proof -
  have "map (ss_mem s') (wire (sb_gather (sd_batches (ss_sender s) ! i))) = map (ss_mem s) (wire (sb_gather (sd_batches (ss_sender s) ! i)))"
    if i: "i < 2" for i
  proof (rule map_cong [OF refl])
    fix x assume "x \<in> set (wire (sb_gather (sd_batches (ss_sender s) ! i)))"
    then have x: "x \<in> batch_addrs (ss_slots s) (sd_batches (ss_sender s) ! i)" using inv_parts(4) [OF si i] by blast
    have "sd_batches (ss_sender s) ! i \<in> set (sd_batches (ss_sender s))" using i inv_parts(2) [OF si i] by simp
    then show "ss_mem s' x = ss_mem s x" using x batch_tags_owned(2) [OF si i] by (intro m) (auto simp: batch_addrs_def)
  qed
  moreover have "i < 2" if "ss_pc s = Shipping i z c \<or> ss_pc s = Sending i z c opn k" for i z c opn k
    using that inv_flight(3) [OF si] by (auto simp: pc_busy_def)
  ultimately show ?thesis unfolding unsent_def s' by (auto split: send_pc.split)
qed

end

section \<open>The steps\<close>

lemma failed_pc [simp]:
  "\<not> failed NextWork" "\<not> failed (Acquiring w)" "\<not> failed (ReapOldest i w)" "\<not> failed (Shipping i z c)"
  "\<not> failed (Sending i z c opn k)" "failed (Draining r is) \<longleftrightarrow> r \<noteq> None" "failed (Finished r) \<longleftrightarrow> r \<noteq> None"
  by (simp_all add: failed_def)

lemma start_drain_order:
  assumes "order_inv tr s"
  shows "order_inv tr (start_drain (Some e) s)"
proof -
  have "set (items (start_drain (Some e) s)) \<subseteq> set (items s)" by (auto simp: items_def start_drain_def pc_items_def)
  moreover have "prefix (ss_wire s) (ss_due s)" using assms by (auto simp: order_inv_def split: if_splits) (metis prefixI)
  moreover have "item_ok tr (start_drain (Some e) s) w = item_ok tr s w" for w
    by (rule item_ok_cong) (simp_all add: start_drain_def arenas_def)
  moreover have "failed (ss_pc (start_drain (Some e) s))" "ss_wire (start_drain (Some e) s) = ss_wire s" "ss_due (start_drain (Some e) s) = ss_due s"
    by (simp_all add: start_drain_def)
  ultimately show ?thesis using assms by (auto simp: order_inv_def)
qed

context staging_bytes
begin

lemma acquire_order:
  assumes inv: "order_inv tr s" and tr: "tr_class tr = cls" "tr_bytes tr = enc" "tr_ready tr = ready"
    and si: "sender_inv cls R s" and pc: "ss_pc s = Acquiring w" and st: "acquire_stage stage zc w s = Some s'"
  shows "order_inv tr s'"
proof -
  let ?B = "sd_batches (ss_sender s)"
  have len: "length ?B = 2" using inv_parts(2) [OF si, of 0] by simp
  have ow: "ss_wire s @ waiting tr s = ss_due s" and ok: "\<forall>w \<in> set (items s). item_ok tr s w"
    using inv by (simp_all add: order_inv_def pc unsent_def)
  show ?thesis
  proof (cases "length (sd_inflight (ss_sender s)) = length ?B")
    case True
    then obtain i rest where "s' = s\<lparr>ss_sender := (ss_sender s)\<lparr>sd_inflight := rest\<rparr>, ss_pc := ReapOldest i w\<rparr>"
      using st len by (auto simp: acquire_stage_def Let_def split: list.splits)
    then show ?thesis
      by (intro order_same [OF inv tr]) (simp_all add: items_def pc pc_items_def unsent_def)
  next
    case False
    then obtain i carry l b m where i: "acquire_free (ss_sender s) = Some i"
      and sb: "stage_batch stage (if zc then Some (zc_min_avg (ss_sender s)) else None) (ss_slots s) w (ss_work s) (?B ! i) (ss_mem s) =
        Some (carry, l, b, m)"
      and s': "s' = s\<lparr>ss_sender := put_batch i b (ss_sender s), ss_work := l, ss_mem := m,
        ss_pc := Shipping i (zc \<and> zc_min_avg (ss_sender s) \<le> avg_payload (sb_gather b)) carry\<rparr>"
      using st by (auto simp: acquire_stage_def Let_def split: option.splits prod.splits)
    have i: "i < 2" "i \<notin> set (sd_inflight (ss_sender s))" using i len by (auto simp: acquire_free_def find_Some_iff)
    then have cl: "clean (?B ! i)" using si by (simp add: sender_inv_def Let_def pc pc_busy_def)
    then have so: "staged_ok (sb_gather (?B ! i))" "wire (sb_gather (?B ! i)) = []"
      using inv_parts(3) [OF si i(1)] by (simp_all add: staged_ok_def clean_def wire_def live_iov_def)
    obtain ws where it: "stage_items stage (if zc then Some (zc_min_avg (ss_sender s)) else None) (ss_slots s) w
        (work (ss_work s)) (?B ! i) (ss_mem s) = Some (carry, ws, b, m)" and l: "l = (ss_work s)\<lparr>work := ws\<rparr>"
      using sb by (auto simp: stage_batch_def)
    have its: "items s = w # work (ss_work s)" "items s' = option_list carry @ ws" by (simp_all add: items_def pc pc_items_def s' l)
    have bi: "batch_arena (?B ! i) \<subseteq> arenas s" using i len by (force simp: arenas_def)
    have sel: "ss_slots s' = ss_slots s" "ss_mem s' = m" "ss_wire s' = ss_wire s" "ss_due s' = ss_due s" "\<not> failed (ss_pc s')"
      "unsent s' = map m (wire (sb_gather b))"
      using i len by (simp_all add: s' unsent_def put_batch_def)
    have "\<forall>x \<in> set (w # work (ss_work s)). ready (ss_slots s) x \<and> (\<forall>t \<in> set (staged_tags (cls x)). slot_addrs (ss_slots s) t \<inter> batch_arena (?B ! i) = {})"
      using ok bi unfolding its item_ok_def tr by blast
    note b = stage_items_bytes [OF it so(1) this]
    have ar: "map batch_arena (sd_batches (ss_sender s')) = map batch_arena ?B" using b by (auto simp: s' put_batch_def intro: map_arena_put)
    have sub: "set (items s') \<subseteq> set (items s)" using b its by simp
    have e: "map (enc (ss_slots s) m) (items s') = map (enc (ss_slots s) (ss_mem s)) (items s')"
    proof (rule items_kept(1))
      fix x t y assume "x \<in> set (items s')" "t \<in> set (staged_tags (cls x))" "y \<in> slot_addrs (ss_slots s) t"
      then have "y \<notin> batch_arena (?B ! i)" using ok sub bi unfolding item_ok_def tr by blast
      then show "m y = ss_mem s y" using b by blast
    qed simp
    have "map m (wire (sb_gather b)) @ concat (map (enc (ss_slots s) (ss_mem s)) (items s')) =
        concat (map (enc (ss_slots s) (ss_mem s)) (items s))"
      using b so(2) unfolding its by simp
    then have "unsent s' @ waiting tr s' = waiting tr s"
      unfolding waiting_def sel tr e by simp
    moreover have "item_ok tr s' x = item_ok tr s x" for x by (rule item_ok_cong [OF sel(1)]) (simp only: arenas_def ar)
    ultimately show ?thesis using ow ok sub by (auto simp: order_inv_def sel)
  qed
qed

text \<open>A completion: what the socket took moves from the gather to the wire.\<close>

lemma complete_order:
  assumes inv: "order_inv tr s" and tr: "tr_class tr = cls" "tr_bytes tr = enc" "tr_ready tr = ready"
    and si: "sender_inv cls R s" and pc: "ss_pc s = Sending i z carry opn k"
    and n: "case res of Inr n \<Rightarrow> n \<le> length (wire (sb_gather (sd_batches (ss_sender s) ! i))) | Inl _ \<Rightarrow> True"
    and st: "ship_complete i z carry opn k res (s\<lparr>ss_pins := p, ss_wire := ss_wire s @
      (case res of Inr n \<Rightarrow> map (ss_mem s) (take n (wire (sb_gather (sd_batches (ss_sender s) ! i)))) | Inl _ \<Rightarrow> [])\<rparr>) = Some s'"
    and si': "sender_inv cls R s'"
  shows "order_inv tr s'"
proof -
  let ?b = "sd_batches (ss_sender s) ! i"
  let ?wr = "ss_wire s @ (case res of Inr n \<Rightarrow> map (ss_mem s) (take n (wire (sb_gather ?b))) | Inl _ \<Rightarrow> [])"
  have i: "i < 2" using inv_flight(3) [OF si] pc by (auto simp: pc_busy_def)
  note len = inv_parts(2) [OF si i] and bok = inv_parts(3) [OF si i]
  obtain nx b sd where r: "ship_result opn k res z ?b (ss_sender s) = (nx, b, sd)" by (metis prod_cases3)
  obtain g where b: "b = ?b\<lparr>pending_notifs := pending_notifs ?b @ (if opn = SendMsg then [] else [k]), sb_gather := g\<rparr>"
    and g: "gb_arena g = gb_arena (sb_gather ?b)" "gb_arena_len g = gb_arena_len (sb_gather ?b)"
    and sd: "sd_batches sd = sd_batches (ss_sender s)" "sd_inflight sd = sd_inflight (ss_sender s)"
    by (rule ship_result_shape [OF r bok n])
  have wr: "wire g = (case res of Inr n \<Rightarrow> drop n (wire (sb_gather ?b)) | Inl _ \<Rightarrow> wire (sb_gather ?b)) \<and> (nx = ShipOk \<longrightarrow> wire g = [])"
  proof (cases "\<exists>n. res = Inr n \<and> n \<noteq> 0")
    case True
    then obtain n' where res: "res = Inr n'" "n' \<noteq> 0" by blast
    obtain d g' where a: "advance n' (sb_gather ?b) = (d, g')" by fastforce
    have "n' \<le> length (wire (sb_gather ?b))" using n res by simp
    note ad = advance_spec [OF bok this a]
    have "g = sb_gather b" by (simp add: b)
    then have "g = g'" "nx = (if d then ShipOk else ShipAgain z)"
      using r res a by (auto simp: ship_result_def Let_def split: if_splits)
    then show ?thesis using ad res by simp
  next
    case False
    have "g = sb_gather b" by (simp add: b)
    then have "g = sb_gather ?b" "nx \<noteq> ShipOk"
      using r False by (auto simp: ship_result_def Let_def split: sum.splits if_splits)
    then show ?thesis using False by (auto split: sum.split)
  qed
  have ar: "batch_arena b = batch_arena ?b" using g by (simp add: b batch_arena_def)
  let ?t = "\<lambda>y. s\<lparr>ss_sender := put_batch i b sd, ss_pc := Shipping i y carry, ss_pins := p, ss_wire := ?wr\<rparr>"
  have u: "?wr @ unsent (?t y) = ss_wire s @ unsent s" for y
    using wr i len n by (auto simp: unsent_def pc put_batch_def sd b map_append [symmetric] split: sum.splits simp del: map_append)
  have it: "items (?t y) = items s" for y by (simp add: items_def pc pc_items_def)
  have wt: "waiting tr (?t y) = waiting tr s" for y by (simp add: waiting_def it)
  have "item_ok tr (?t y) w = item_ok tr s w" for y w
    using map_arena_put [OF ar] by (intro item_ok_cong) (simp_all add: arenas_def put_batch_def sd del: set_map)
  moreover have dd: "?wr @ unsent (?t y) @ waiting tr (?t y) = ss_due (?t y)" for y
    using inv u [of y] by (simp add: order_inv_def pc wt) (metis append.assoc)
  ultimately have t: "order_inv tr (?t y)" for y using inv by (simp add: order_inv_def it)
  have eq: "ship_complete i z carry opn k res (s\<lparr>ss_pins := p, ss_wire := ?wr\<rparr>) =
      (case nx of
         ShipErr e \<Rightarrow> Some (start_drain (Some e) (?t False))
       | ShipAgain y \<Rightarrow> Some (?t y)
       | ShipOk \<Rightarrow> map_option (\<lambda>(sd, r). put_released r ((?t False)\<lparr>ss_sender := sd, ss_pc := after_ship carry\<rparr>))
           (retire i (ss_sender (?t False)) (ss_slots (?t False))))"
    by (simp add: ship_complete_def r start_drain_def split: ship_next.split)
  show ?thesis
  proof (cases nx)
    case ShipOk
    then obtain sd' a' e where rt: "retire i (put_batch i b sd) (ss_slots s) = Some (sd', a', e)"
      and s': "s' = put_released (a', e) ((?t False)\<lparr>ss_sender := sd', ss_pc := after_ship carry\<rparr>)"
      using st unfolding eq by auto
    have af: "pc_items (after_ship carry) = option_list carry" "\<not> failed (after_ship carry)"
      by (simp_all add: after_ship_def pc_items_def option_list_def split: option.split)
    have un: "unsent s' = []" "unsent (?t False) = []"
      using wr [THEN conjunct2] ShipOk i len by (simp_all add: s' unsent_def after_ship_def put_batch_def sd b split: option.split)
    show ?thesis
      by (rule order_keeps [OF t [of False] tr si'])
        (use retire_kept [OF rt] un af in \<open>simp_all add: s' send_keeps_def items_def pc_items_def\<close>)
  next
    case (ShipErr e)
    then have "s' = start_drain (Some e) (?t False)" using st unfolding eq by simp
    then show ?thesis using start_drain_order [OF t [of False], of e] by (simp only:)
  next
    case (ShipAgain y)
    then have "s' = ?t y" using st unfolding eq by simp
    then show ?thesis using t [of y] by (simp only:)
  qed
qed

end

context staging_bytes
begin

lemma answer_order:
  assumes inv: "order_inv tr s" and tr: "tr_class tr = cls" "tr_bytes tr = enc" "tr_ready tr = ready"
    and sl: "\<And>t. t \<in># item_tags cls (items s) \<Longrightarrow> slot_of a t = slot_of (ss_slots s) t"
    and w: "ready a w" "\<forall>t \<in> set (staged_tags (cls w)). slot_addrs a t \<inter> arenas s = {}"
  shows "order_inv tr (s\<lparr>ss_slots := a, ss_work := fst (send_push w (ss_work s)), ss_due := ss_due s @ enc a (ss_mem s) w\<rparr>)"
    (is "order_inv tr ?s")
proof -
  let ?t = "s\<lparr>ss_slots := a\<rparr>"
  have it: "items ?t = items s" by (simp add: items_def)
  have "order_inv tr ?t"
    by (rule order_same [OF inv tr it]) (use sl in simp_all)
  then have t: "\<forall>x \<in> set (items s). item_ok tr ?t x"
    "if failed (ss_pc s) then prefix (ss_wire s) (ss_due s) else ss_wire s @ unsent s @ waiting tr ?t = ss_due s"
    by (simp_all add: order_inv_def it split: if_splits)
  have its: "items ?s = items s @ [w]" by (simp add: items_def send_push_def)
  have ok: "item_ok tr ?s x = item_ok tr ?t x" for x by (rule item_ok_cong) (simp_all add: arenas_def)
  have "item_ok tr ?t w" using w by (simp add: item_ok_def tr arenas_def)
  moreover have "waiting tr ?s = waiting tr ?t @ enc a (ss_mem s) w"
    unfolding waiting_def its it by (simp add: tr)
  moreover have "unsent ?s = unsent s" by simp
  ultimately show ?thesis using t by (auto simp: order_inv_def its ok split: if_splits)
qed

lemma send_step_order:
  assumes st: "send_step tr zc s s'" and inv: "order_inv tr s" and si: "sender_inv cls R s"
    and tr: "tr_stage tr = stage" "tr_class tr = cls" "tr_bytes tr = enc" "tr_ready tr = ready"
  shows "order_inv tr s'"
proof -
  have si': "sender_inv cls R s'" by (rule send_step_inv [OF st si tr(1,2)])
  note send_keeps = order_keeps [OF inv tr(2-4) si'] and same = order_same [OF inv tr(2-4)]
  show ?thesis
    using st
  proof cases
    case (next_work waker)
    then show ?thesis using send_keeps next_work_kept [OF next_work(1,2)] by simp
  next
    case (acquire w)
    then show ?thesis using acquire_order [OF inv tr(2-4) si] by (simp add: tr)
  next
    case (reap i w fin s1)
    then show ?thesis
      using send_keeps reap_kept [OF reap(3), of "if fin then Acquiring w else ReapOldest i w"]
      by (simp add: items_def pc_items_def unsent_def split: if_splits)
  next
    case (issue i z carry)
    then show ?thesis by (intro same) (simp_all add: items_def pc_items_def unsent_def)
  next
    case (reject i z carry e)
    then show ?thesis using start_drain_order [OF inv] by simp
  next
    case (complete i z carry opn k res)
    then show ?thesis using complete_order [OF inv tr(2-4) si complete(1,2) _ si'] by blast
  next
    case (notify k copied)
    then show ?thesis by (intro same) (simp_all add: items_def)
  next
    case (drain r i rest fin s1)
    then show ?thesis
      using send_keeps reap_kept [OF drain(3), of "Draining r (if fin then rest else i # rest)"]
      by (simp add: items_def pc_items_def unsent_def)
  next
    case (finish r)
    then show ?thesis by (intro same) (simp_all add: items_def pc_items_def unsent_def)
  next
    case (answer tag a w)
    note f = answer_frame [OF inv_own(3) [OF si] answer(2)]
    have "slot_of a t = slot_of (ss_slots s) t" if "t \<in># item_tags cls (items s)" for t
    proof -
      have "t \<in># owned cls s" using that by (simp add: owned_def items_def)
      then have "t \<noteq> tag" using inv_own(2) [OF si] f(2) by blast
      then show ?thesis by (rule f(4))
    qed
    then show ?thesis
      using answer_order [OF inv tr(2-4), of a w] answer by (auto simp: tr arenas_def)
  next
    case (solicit w)
    have "order_inv tr (s\<lparr>ss_slots := ss_slots s, ss_work := fst (send_push w (ss_work s)), ss_due := ss_due s @ enc (ss_slots s) (ss_mem s) w\<rparr>)"
      by (rule answer_order [OF inv tr(2-4)]) (use solicit in \<open>simp_all add: tr staged_tags_def\<close>)
    then show ?thesis using solicit by (simp add: tr)
  next
    case close
    then show ?thesis by (intro same) (simp_all add: items_def send_close_def)
  next
    case (other a m)
    have ow: "responding (ss_slots s) t" if "t \<in># item_tags cls (items s)" for t
      using that inv_own(2) [OF si] by (simp add: owned_def items_def)
    have sl: "slot_of (ss_slots s') t = slot_of (ss_slots s) t" if "t \<in># item_tags cls (items s)" for t
      using ow [OF that] other(1,3) by (auto simp: responding_def)
    have m: "ss_mem s' x = ss_mem s x" if "t \<in># item_tags cls (items s)" "x \<in> slot_addrs (ss_slots s) t" for t x
      using ow [OF that(1)] that(2) other(1,4) by auto
    have "unsent s' = unsent s" by (rule unsent_same [OF si]) (use other(4) in \<open>auto simp: other(1)\<close>)
    then show ?thesis by (intro same sl m) (simp_all add: other(1) items_def)
  qed
qed

lemma send_reach_order:
  assumes "send_reach tr zc R s" and tr: "tr_stage tr = stage" "tr_class tr = cls" "tr_bytes tr = enc" "tr_ready tr = ready"
  shows "sender_inv cls R s \<and> order_inv tr s"
  using assms(1)
proof (induction rule: send_reach.induct)
  case (start a x y depth api ipi pa zm m sd m')
  have "order_inv tr (send_start sd a m')"
    by (simp add: order_inv_def items_def pc_items_def send_start_def send_list_new_def unsent_def waiting_def)
  then show ?case using start_inv [OF start] by blast
next
  case (step s s')
  then show ?case using send_step_order [OF _ _ _ tr] send_step_inv [OF _ _ tr(1,2)] by blast
qed

end

end
