(* ===== verification/Tcp_Queue.thy ===== *)
theory Tcp_Queue
  imports Dispatch Pdu Buf_Ring
begin

text \<open>
  The per-connection queue of the NVMe/TCP transport (\<^verbatim>\<open>ioutgt-nvme-tcp/src/queue.rs\<close>): the core
  queue, the ordered list of work for the send path, and the mark the traffic beacon collects. The
  receive loop, the slot tasks and the send loop meet only here. \<open>None\<close> is a panic; the results
  carry the wakers that are woken.
\<close>

record completion =
  cp_tag :: u16
  cp_cqe :: cqe
  cp_data_len :: u32

datatype send_work = Response completion | R2tWork u16 u16 u32 u32

record tcp_queue =
  tq_nvme :: "sqe queue_core"
  tq_send :: "send_work send_list"
  tq_traffic :: bool

definition tcp_queue_new :: "nat \<Rightarrow> u16 \<Rightarrow> u16 \<Rightarrow> nat \<Rightarrow> bool \<Rightarrow> memory \<Rightarrow> (tcp_queue \<times> memory) option" where
  "tcp_queue_new addr q depth pool_bytes disabled m =
     map_option (\<lambda>(c, m). (\<lparr>tq_nvme = c, tq_send = send_list_new, tq_traffic = False\<rparr>, m))
       (queue_core_new addr q depth pool_bytes disabled sqe_zeroed m)"

abbreviation tq_slots :: "tcp_queue \<Rightarrow> sqe slot_array" where "tq_slots q \<equiv> qslots (tq_nvme q)"

definition tq_put :: "sqe slot_array \<Rightarrow> tcp_queue \<Rightarrow> tcp_queue" where
  "tq_put a q = q\<lparr>tq_nvme := (tq_nvme q)\<lparr>qslots := a\<rparr>\<rparr>"

definition tq_push :: "send_work \<Rightarrow> tcp_queue \<Rightarrow> tcp_queue \<times> nat list" where
  "tq_push w q = (let (l, ws) = send_push w (tq_send q) in (q\<lparr>tq_send := l\<rparr>, ws))"

definition tq_submit :: "u16 \<Rightarrow> sqe \<Rightarrow> tcp_queue \<Rightarrow> (tcp_queue \<times> nat list) option" where
  "tq_submit tag cmd q =
     (let q = q\<lparr>tq_traffic := True\<rparr> in
      map_option (\<lambda>(a, ws). (tq_put a q, ws)) (submit tag cmd (tq_slots q)))"

definition take_traffic :: "tcp_queue \<Rightarrow> bool \<times> tcp_queue" where
  "take_traffic q = (tq_traffic q, q\<lparr>tq_traffic := False\<rparr>)"

definition tq_complete :: "u16 \<Rightarrow> cqe \<Rightarrow> u32 \<Rightarrow> tcp_queue \<Rightarrow> (tcp_queue \<times> nat list) option" where
  "tq_complete tag c n q =
     map_option (\<lambda>a. tq_push (Response \<lparr>cp_tag = tag, cp_cqe = c, cp_data_len = n\<rparr>) (tq_put a q))
       (begin_respond tag (tq_slots q))"

definition complete_receiving :: "u16 \<Rightarrow> cqe \<Rightarrow> tcp_queue \<Rightarrow> (tcp_queue \<times> nat list) option" where
  "complete_receiving tag c q =
     map_option (\<lambda>a. tq_push (Response \<lparr>cp_tag = tag, cp_cqe = c, cp_data_len = 0\<rparr>) (tq_put a q))
       (respond_receiving tag (tq_slots q))"

definition solicit :: "u16 \<Rightarrow> u16 \<Rightarrow> u32 \<Rightarrow> u32 \<Rightarrow> tcp_queue \<Rightarrow> (tcp_queue \<times> nat list) option" where
  "solicit tag c off len q =
     (case slot_of (tq_slots q) tag of
        None \<Rightarrow> None
      | Some s \<Rightarrow> if slot_state s \<noteq> Receiving then None else Some (tq_push (R2tWork tag c off len) q))"

definition close_send :: "tcp_queue \<Rightarrow> tcp_queue \<times> nat list" where
  "close_send q = (let (l, ws) = send_close (tq_send q) in (q\<lparr>tq_send := l\<rparr>, ws))"

lemma tq_simps [simp]:
  "tq_slots (tq_put a q) = a" "tq_send (tq_put a q) = tq_send q" "tq_traffic (tq_put a q) = tq_traffic q"
  "tq_nvme (fst (tq_push w q)) = tq_nvme q" "tq_traffic (fst (tq_push w q)) = tq_traffic q"
  "work (tq_send (fst (tq_push w q))) = work (tq_send q) @ [w]"
  "sqsize (tq_nvme (tq_put a q)) = sqsize (tq_nvme q)" "qid (tq_nvme (tq_put a q)) = qid (tq_nvme q)"
  "sqhd (tq_nvme (tq_put a q)) = sqhd (tq_nvme q)" "sqhd_disabled (tq_nvme (tq_put a q)) = sqhd_disabled (tq_nvme q)"
  by (simp_all add: tq_put_def tq_push_def send_push_def)

end
