(* ===== verification/Tcp_Recv.thy ===== *)
theory Tcp_Recv
  imports Tcp_Queue Stream_Reader
begin

text \<open>
  The receive path of the NVMe/TCP transport (\<^verbatim>\<open>ioutgt-nvme-tcp/src/recv.rs\<close>): PDU headers are
  assembled by the decoder, payloads are gathered into the buffer of their slot (or left in the
  receive ring), data digests are checked, and complete commands are submitted. The receive loop
  works on one window of bytes after the other; \<open>recv_step\<close> is one pass of its inner loop and \<open>drain\<close>
  the loop. A capsule that finds no free tag suspends the loop. The CRC library is the argument
  \<open>append\<close> (\<^verbatim>\<open>crc32c_append\<close>); the address of a private buffer is the allocator's choice.
\<close>

section \<open>State\<close>

record conn =
  cn_queue :: tcp_queue
  cn_mem :: memory
  cn_ring :: "buf_ring option"
  cn_woken :: "nat list"

record recv_env =
  rv_append :: "u32 \<Rightarrow> bytes \<Rightarrow> u32"
  rv_data_digest :: bool
  rv_alloc :: "conn \<Rightarrow> nat"
  rv_waker :: nat

definition rv_crc :: "recv_env \<Rightarrow> bytes \<Rightarrow> u32" where
  "rv_crc ev = rv_append ev 0"

datatype payload_kind = InCapsule | H2c bool u32

record data_phase =
  dat_tag :: u16
  dat_base :: u32
  dat_remaining :: u32
  dat_crc :: u32
  dat_ddgst :: bool
  dat_kind :: payload_kind
  dat_retained :: bool

record ddgst_phase =
  dg_tag :: u16
  dg_expected :: u32
  dg_have :: bytes
  dg_have_len :: nat
  dg_kind :: payload_kind

datatype recv_phase = HeaderPhase | DataPhase data_phase | DdgstPhase ddgst_phase

datatype recv_end = EndIo io_error | EndTerm pdu_error | EndHostTerm u16 u32 | EndClosed

definition term_end :: "u16 \<Rightarrow> recv_end" where
  "term_end f = EndTerm \<lparr>pe_fes = f, pe_fei = 0\<rparr>"

definition ddgst_start :: "u16 \<Rightarrow> u32 \<Rightarrow> payload_kind \<Rightarrow> recv_phase" where
  "ddgst_start tag expected k = DdgstPhase \<lparr>dg_tag = tag, dg_expected = expected, dg_have = replicate 4 0,
     dg_have_len = 0, dg_kind = k\<rparr>"

text \<open>The receive ring takes back the sub-buffers whose last reference a slot dropped.\<close>

fun release_bids :: "u16 list \<Rightarrow> buf_ring option \<Rightarrow> (buf_ring option \<times> nat list) option" where
  "release_bids [] r = Some (r, [])"
| "release_bids (b # bs) None = None"
| "release_bids (b # bs) (Some r) =
     (case ring_release b r of
        None \<Rightarrow> None
      | Some (r, ws) \<Rightarrow> map_option (\<lambda>(r, ws'). (r, ws @ ws')) (release_bids bs (Some r)))"

definition cn_put :: "sqe slot_array \<Rightarrow> nat list \<Rightarrow> u16 list \<Rightarrow> conn \<Rightarrow> conn option" where
  "cn_put a ws bids c =
     map_option (\<lambda>(r, ws'). c\<lparr>cn_queue := tq_put a (cn_queue c), cn_ring := r, cn_woken := cn_woken c @ ws @ ws'\<rparr>)
       (release_bids bids (cn_ring c))"

definition cn_lift :: "(tcp_queue \<times> nat list) option \<Rightarrow> conn \<Rightarrow> conn option" where
  "cn_lift r c = map_option (\<lambda>(q, ws). c\<lparr>cn_queue := q, cn_woken := cn_woken c @ ws\<rparr>) r"

abbreviation cn_slots :: "conn \<Rightarrow> sqe slot_array" where "cn_slots c \<equiv> tq_slots (cn_queue c)"

section \<open>Payloads\<close>

text \<open>Submits the command once its whole transfer is there.\<close>

definition finish_payload :: "u16 \<Rightarrow> payload_kind \<Rightarrow> conn \<Rightarrow> ((pdu_error + unit) \<times> conn) option" where
  "finish_payload tag k c =
     (case slot_of (cn_slots c) tag of
        None \<Rightarrow> None
      | Some s \<Rightarrow>
          (case k of
             InCapsule \<Rightarrow> map_option (Pair (Inr ())) (cn_lift (tq_submit tag (slot_cmd s) (cn_queue c)) c)
           | H2c is_last len \<Rightarrow> do {
               off \<leftarrow> checked_add (recv_offset s) len;
               a \<leftarrow> set_recv_offset tag off (cn_slots c);
               c \<leftarrow> cn_put a [] [] c;
               if off = slot_data_len s
               then map_option (Pair (Inr ())) (cn_lift (tq_submit tag (slot_cmd s) (cn_queue c)) c)
               else if is_last then Some (Inl \<lparr>pe_fes = DATA_OUT_OF_RANGE, pe_fei = 0\<rparr>, c)
               else Some (Inr (), c)}))"

definition transfer_total :: "payload_kind \<Rightarrow> sqe slot \<Rightarrow> u32" where
  "transfer_total k s = (case k of InCapsule \<Rightarrow> slot_data_len s | H2c _ len \<Rightarrow> len)"

text \<open>The phase after a payload: its digest, or the next header.\<close>

definition payload_done :: "data_phase \<Rightarrow> conn \<Rightarrow> ((recv_end + recv_phase) \<times> conn) option" where
  "payload_done d c =
     (if dat_ddgst d then Some (Inr (ddgst_start (dat_tag d) (dat_crc d) (dat_kind d)), c)
      else case finish_payload (dat_tag d) (dat_kind d) c of
        None \<Rightarrow> None
      | Some (Inl e, c) \<Rightarrow> Some (Inl (EndTerm e), c)
      | Some (Inr _, c) \<Rightarrow> Some (Inr HeaderPhase, c))"

definition data_dest :: "data_phase \<Rightarrow> sqe slot \<Rightarrow> u32 option" where
  "data_dest d s =
     (let tot = transfer_total (dat_kind d) s in
      if tot < dat_remaining d then None else checked_add (dat_base d) (tot - dat_remaining d))"

definition data_advance ::
  "recv_env \<Rightarrow> data_phase \<Rightarrow> bytes \<Rightarrow> conn \<Rightarrow> ((recv_end + recv_phase) \<times> bytes \<times> conn) option" where
  "data_advance ev d bs c = do {
     let n = min (unat (dat_remaining d)) (length bs);
     m \<leftarrow> (if dat_retained d then Some (cn_mem c)
           else do {
             s \<leftarrow> slot_of (cn_slots c) (dat_tag d);
             dest \<leftarrow> data_dest d s;
             write_at (slot_data s) (unat dest) (take n bs) (cn_mem c)});
     let c = c\<lparr>cn_mem := m\<rparr>;
     let d = (if dat_ddgst d then d\<lparr>dat_crc := rv_append ev (dat_crc d) (take n bs)\<rparr> else d);
     let d = d\<lparr>dat_remaining := dat_remaining d - of_nat n\<rparr>;
     if dat_remaining d > 0 then Some (Inr (DataPhase d), drop n bs, c)
     else map_option (\<lambda>(r, c). (r, drop n bs, c)) (payload_done d c)}"

definition ddgst_advance ::
  "ddgst_phase \<Rightarrow> bytes \<Rightarrow> conn \<Rightarrow> ((recv_end + recv_phase) \<times> bytes \<times> conn) option" where
  "ddgst_advance g bs c = do {
     let n = min (4 - dg_have_len g) (length bs);
     let g = g\<lparr>dg_have := splice (dg_have_len g) (take n bs) (dg_have g), dg_have_len := dg_have_len g + n\<rparr>;
     let bs = drop n bs;
     if dg_have_len g < 4 then Some (Inr (DdgstPhase g), bs, c)
     else if le_word (dg_have g) \<noteq> dg_expected g then do {
       s \<leftarrow> slot_of (cn_slots c) (dg_tag g);
       (h, q) \<leftarrow> advance_sqhd (tq_nvme (cn_queue c));
       let c = c\<lparr>cn_queue := (cn_queue c)\<lparr>tq_nvme := q\<rparr>\<rparr>;
       let e = cqe_new 0 h (qid q) (cid (slot_cmd s)) (DATA_XFER_ERROR OR DNR);
       c \<leftarrow> cn_lift (complete_receiving (dg_tag g) e (cn_queue c)) c;
       Some (Inr HeaderPhase, bs, c)}
     else case finish_payload (dg_tag g) (dg_kind g) c of
       None \<Rightarrow> None
     | Some (Inl e, c) \<Rightarrow> Some (Inl (EndTerm e), bs, c)
     | Some (Inr _, c) \<Rightarrow> Some (Inr HeaderPhase, bs, c)}"

section \<open>PDUs\<close>

definition H2C_DIRECT_MIN :: u32 where "H2C_DIRECT_MIN = 16 * 1024"

definition needs_r2t :: "sqe \<Rightarrow> bool" where
  "needs_r2t s \<longleftrightarrow> opcode s AND 3 = 1 \<and> sgl_type (dptr s) = TYPE_TRANSPORT_DATA_BLOCK \<and> 0 < sgl_length (dptr s)"

text \<open>
  The window's context in ring mode: its sub-buffer and the address just past it, so that the rest
  of the window begins \<open>length bs\<close> bytes before.
\<close>

type_synonym ring_ctx = "(u16 \<times> nat) option"

definition try_retain_payload :: "u16 \<Rightarrow> u16 \<Rightarrow> nat \<Rightarrow> nat \<Rightarrow> conn \<Rightarrow> (bool \<times> conn) option" where
  "try_retain_payload bid tag ptr len c = do {
     r \<leftarrow> cn_ring c;
     start \<leftarrow> ring_buf r bid;
     let cap = unat (buf_size r);
     if ptr < start \<or> cap < ptr - start \<or> cap - (ptr - start) < len then Some (False, c)
     else do {
       r \<leftarrow> ring_borrow bid r;
       (a, ws, bids) \<leftarrow> set_data tag (slot_data_ring bid ptr len) (cn_slots c);
       c \<leftarrow> cn_put a ws bids (c\<lparr>cn_ring := Some r\<rparr>);
       Some (True, c)}}"

definition retain :: "ring_ctx \<Rightarrow> u16 \<Rightarrow> bytes \<Rightarrow> nat \<Rightarrow> conn \<Rightarrow> (bool \<times> conn) option" where
  "retain ctx tag bs len c =
     (case ctx of
        None \<Rightarrow> Some (False, c)
      | Some (bid, fin) \<Rightarrow> try_retain_payload bid tag (fin - length bs) len c)"

definition lease_slot :: "recv_env \<Rightarrow> u16 \<Rightarrow> nat \<Rightarrow> conn \<Rightarrow> conn option" where
  "lease_slot ev tag len c = do {
     (m, a, ws, bids) \<leftarrow> lease_or_owned (rv_alloc ev c) tag len (cn_mem c) (cn_slots c);
     cn_put a ws bids (c\<lparr>cn_mem := m\<rparr>)}"

text \<open>\<^verbatim>\<open>handle_capsule_cmd\<close> after \<^verbatim>\<open>await_tag\<close> gave it a tag.\<close>

definition capsule_with_tag ::
  "recv_env \<Rightarrow> ring_ctx \<Rightarrow> sqe \<Rightarrow> u32 \<Rightarrow> bool \<Rightarrow> bytes \<Rightarrow> u16 \<Rightarrow> conn \<Rightarrow> ((recv_end + recv_phase) \<times> conn) option" where
  "capsule_with_tag ev ctx s data_len ddgst bs tag c =
     (if 0 < data_len then
        if MDTS_BYTES < data_len then Some (Inl (term_end DATA_LIMIT_EXCEEDED), c)
        else do {
          (kept, c) \<leftarrow> retain ctx tag bs (unat data_len) c;
          c \<leftarrow> (if kept then Some c else lease_slot ev tag (unat data_len) c);
          a \<leftarrow> set_data_len tag data_len (cn_slots c);
          a \<leftarrow> stash_cmd tag s a;
          c \<leftarrow> cn_put a [] [] c;
          Some (Inr (DataPhase \<lparr>dat_tag = tag, dat_base = 0, dat_remaining = data_len, dat_crc = 0, dat_ddgst = ddgst,
            dat_kind = InCapsule, dat_retained = kept\<rparr>), c)}
      else if needs_r2t s then
        let len = sgl_length (dptr s) in
        if MDTS_BYTES < len then Some (Inl (term_end DATA_LIMIT_EXCEEDED), c)
        else do {
          c \<leftarrow> lease_slot ev tag (unat len) c;
          a \<leftarrow> set_data_len tag len (cn_slots c);
          a \<leftarrow> set_recv_offset tag 0 a;
          a \<leftarrow> stash_cmd tag s a;
          c \<leftarrow> cn_put a [] [] c;
          c \<leftarrow> cn_lift (solicit tag (cid s) 0 len (cn_queue c)) c;
          Some (Inr HeaderPhase, c)}
      else map_option (Pair (Inr HeaderPhase)) (cn_lift (tq_submit tag s (cn_queue c)) c))"

definition validate_h2c :: "u16 \<Rightarrow> u16 \<Rightarrow> u32 \<Rightarrow> u32 \<Rightarrow> u32 \<Rightarrow> conn \<Rightarrow> (recv_end + u16) option" where
  "validate_h2c c ttag off len data_len cn =
     (if unat (sqsize (tq_nvme (cn_queue cn))) \<le> unat ttag
      then Some (Inl (EndTerm \<lparr>pe_fes = INVALID_PDU_HDR, pe_fei = 10\<rparr>))
      else case slot_of (cn_slots cn) ttag of
        None \<Rightarrow> None
      | Some s \<Rightarrow>
          let valid = (slot_state s = Receiving \<and> cid (slot_cmd s) = c \<and> off = recv_offset s \<and>
                (case checked_add off len of None \<Rightarrow> False | Some e \<Rightarrow> e \<le> slot_data_len s) \<and> 0 < len) in
          if \<not> valid then Some (Inl (term_end DATA_OUT_OF_RANGE))
          else if data_len \<noteq> len then Some (Inl (EndTerm \<lparr>pe_fes = INVALID_PDU_HDR, pe_fei = 16\<rparr>))
          else Some (Inr ttag))"

text \<open>A suspended capsule waits for a tag.\<close>

record waiting_capsule =
  wc_sqe :: sqe
  wc_data_len :: u32
  wc_ddgst :: bool

record receiver =
  rv_decoder :: pdu_decoder
  rv_phase :: recv_phase
  rv_waiting :: "waiting_capsule option"

definition handle_h2c ::
  "ring_ctx \<Rightarrow> u16 \<Rightarrow> u16 \<Rightarrow> u32 \<Rightarrow> u32 \<Rightarrow> bool \<Rightarrow> u32 \<Rightarrow> bool \<Rightarrow> bytes \<Rightarrow> conn \<Rightarrow>
   ((recv_end + recv_phase) \<times> conn) option" where
  "handle_h2c ctx c ttag off len is_last data_len ddgst bs cn =
     (case validate_h2c c ttag off len data_len cn of
        None \<Rightarrow> None
      | Some (Inl e) \<Rightarrow> Some (Inl e, cn)
      | Some (Inr tag) \<Rightarrow> do {
          s \<leftarrow> slot_of (cn_slots cn) tag;
          (kept, cn) \<leftarrow> (if off = 0 \<and> len = slot_data_len s then retain ctx tag bs (unat len) cn else Some (False, cn));
          Some (Inr (DataPhase \<lparr>dat_tag = tag, dat_base = off, dat_remaining = len, dat_crc = 0, dat_ddgst = ddgst,
            dat_kind = H2c is_last len, dat_retained = kept\<rparr>), cn)})"

definition handle_pdu ::
  "recv_env \<Rightarrow> ring_ctx \<Rightarrow> decoded_pdu \<Rightarrow> bytes \<Rightarrow> receiver \<Rightarrow> conn \<Rightarrow> ((recv_end + receiver) \<times> conn) option" where
  "handle_pdu ev ctx p bs rv c =
     (let ddgst = (pdu_ddgst p \<and> rv_data_digest ev) in
      case pdu_kind p of
        CapsuleCmd s \<Rightarrow>
          Some (Inr (rv\<lparr>rv_waiting := Some \<lparr>wc_sqe = s, wc_data_len = pdu_data_len p, wc_ddgst = ddgst\<rparr>\<rparr>), c)
      | H2CData cm ttag off len is_last \<Rightarrow>
          (case handle_h2c ctx cm ttag off len is_last (pdu_data_len p) ddgst bs c of
             None \<Rightarrow> None
           | Some (Inl e, c) \<Rightarrow> Some (Inl e, c)
           | Some (Inr ph, c) \<Rightarrow> Some (Inr (rv\<lparr>rv_phase := ph\<rparr>), c))
      | H2CTerm fes fei \<Rightarrow> Some (Inl (EndHostTerm fes fei), c)
      | _ \<Rightarrow> Some (Inl (term_end PDU_SEQ_ERR), c))"

section \<open>The loop\<close>

datatype flow = Continue | Blocked | Ended recv_end

definition flow_of ::
  "bytes \<Rightarrow> receiver \<Rightarrow> ((recv_end + receiver) \<times> conn) option \<Rightarrow> (flow \<times> receiver \<times> bytes \<times> conn) option" where
  "flow_of bs rv r =
     map_option (\<lambda>(x, c). case x of Inl e \<Rightarrow> (Ended e, rv, bs, c) | Inr rv \<Rightarrow> (Continue, rv, bs, c)) r"

definition feed_header ::
  "recv_env \<Rightarrow> ring_ctx \<Rightarrow> receiver \<Rightarrow> bytes \<Rightarrow> conn \<Rightarrow> (flow \<times> receiver \<times> bytes \<times> conn) option" where
  "feed_header ev ctx rv bs c =
     (case pdu_feed (rv_decoder rv) bs of
        Inl e \<Rightarrow> Some (Ended (EndTerm e), rv, bs, c)
      | Inr (d, n) \<Rightarrow>
          let bs = drop n bs; rv = rv\<lparr>rv_decoder := d\<rparr> in
          if \<not> is_complete d then Some (Continue, rv, bs, c)
          else (case pdu_take (rv_crc ev) d of
              None \<Rightarrow> None
            | Some (Inl e, d) \<Rightarrow> Some (Ended (EndTerm e), rv\<lparr>rv_decoder := d\<rparr>, bs, c)
            | Some (Inr p, d) \<Rightarrow>
                flow_of bs (rv\<lparr>rv_decoder := d\<rparr>) (handle_pdu ev ctx p bs (rv\<lparr>rv_decoder := d\<rparr>) c)))"

text \<open>A poll of the loop that is suspended in \<^verbatim>\<open>await_tag\<close>.\<close>

definition claim_step ::
  "recv_env \<Rightarrow> ring_ctx \<Rightarrow> waiting_capsule \<Rightarrow> receiver \<Rightarrow> bytes \<Rightarrow> conn \<Rightarrow> (flow \<times> receiver \<times> bytes \<times> conn) option" where
  "claim_step ev ctx w rv bs c = do {
     (p, a) \<leftarrow> await_tag_poll (rv_waker ev) (cn_slots c);
     c \<leftarrow> cn_put a [] [] c;
     (case p of
        Pending \<Rightarrow> Some (Blocked, rv, bs, c)
      | Ready tag \<Rightarrow>
          (case capsule_with_tag ev ctx (wc_sqe w) (wc_data_len w) (wc_ddgst w) bs tag c of
             None \<Rightarrow> None
           | Some (Inl e, c) \<Rightarrow> Some (Ended e, rv\<lparr>rv_waiting := None\<rparr>, bs, c)
           | Some (Inr ph, c) \<Rightarrow> Some (Continue, rv\<lparr>rv_waiting := None, rv_phase := ph\<rparr>, bs, c)))}"

definition phase_flow ::
  "receiver \<Rightarrow> ((recv_end + recv_phase) \<times> bytes \<times> conn) option \<Rightarrow> (flow \<times> receiver \<times> bytes \<times> conn) option" where
  "phase_flow rv r =
     map_option (\<lambda>(x, bs, c). case x of Inl e \<Rightarrow> (Ended e, rv, bs, c) | Inr ph \<Rightarrow> (Continue, rv\<lparr>rv_phase := ph\<rparr>, bs, c)) r"

definition recv_step ::
  "recv_env \<Rightarrow> ring_ctx \<Rightarrow> receiver \<Rightarrow> bytes \<Rightarrow> conn \<Rightarrow> (flow \<times> receiver \<times> bytes \<times> conn) option" where
  "recv_step ev ctx rv bs c =
     (case rv_waiting rv of
        Some w \<Rightarrow> claim_step ev ctx w rv bs c
      | None \<Rightarrow>
          (case rv_phase rv of
             HeaderPhase \<Rightarrow> feed_header ev ctx rv bs c
           | DataPhase d \<Rightarrow> phase_flow rv (data_advance ev d bs c)
           | DdgstPhase g \<Rightarrow> phase_flow rv (ddgst_advance g bs c)))"

text \<open>The inner loop over one window. \<open>None\<close> is a panic or a loop that does not end.\<close>

partial_function (option) drain ::
  "recv_env \<Rightarrow> ring_ctx \<Rightarrow> receiver \<Rightarrow> bytes \<Rightarrow> conn \<Rightarrow> (flow \<times> receiver \<times> bytes \<times> conn) option" where
  "drain ev ctx rv bs c =
     (if bs = [] \<and> rv_waiting rv = None then Some (Continue, rv, bs, c)
      else Option.bind (recv_step ev ctx rv bs c)
        (\<lambda>(fl, rv, bs, c). if fl = Continue then drain ev ctx rv bs c else Some (fl, rv, bs, c)))"

section \<open>Payload tails\<close>

text \<open>The parts of a slot buffer that hold the range \<open>[off, off + len)\<close>; more parts than fit the
  array are a panic.\<close>

fun fill_subsegs :: "nat \<Rightarrow> seg list \<Rightarrow> nat \<Rightarrow> nat \<Rightarrow> iovec list option" where
  "fill_subsegs room [] off len = Some []"
| "fill_subsegs room (s # ss) off len =
     (if len = 0 then Some []
      else if seg_len s \<le> off then fill_subsegs room ss (off - seg_len s) len
      else if room = 0 then None
      else
        let n = min (seg_len s - off) len in
        map_option (\<lambda>vs. (seg_ptr s + off, n) # vs) (fill_subsegs (room - 1) ss 0 (len - n)))"

definition recv_tail_direct ::
  "recv_env \<Rightarrow> (io_error + bytes) list \<Rightarrow> data_phase \<Rightarrow> conn \<Rightarrow> ((recv_end + recv_phase) poll \<times> conn) option" where
  "recv_tail_direct ev rs d c = do {
     s \<leftarrow> slot_of (cn_slots c) (dat_tag d);
     dest \<leftarrow> data_dest d s;
     let remaining = unat (dat_remaining d);
     vs \<leftarrow> fill_subsegs MAX_SEGS (sd_segs (slot_data s)) (unat dest) remaining;
     (p, m) \<leftarrow> read_direct rs vs (iov_total vs) 0 (cn_mem c);
     let c = c\<lparr>cn_mem := m\<rparr>;
     (case p of
        Pending \<Rightarrow> Some (Pending, c)
      | Ready (Inl e) \<Rightarrow> Some (Ready (Inl (EndIo e)), c)
      | Ready (Inr n) \<Rightarrow>
          if n < remaining then Some (Ready (Inl EndClosed), c)
          else
            let d = (if dat_ddgst d
                     then d\<lparr>dat_crc := fold (\<lambda>(p, n) k. rv_append ev k (mem_read m p n)) vs (dat_crc d)\<rparr> else d) in
            map_option (\<lambda>(r, c). (Ready r, c)) (payload_done d c))}"

text \<open>The test for a tail worth receiving directly, in classic mode.\<close>

definition direct_tail :: "receiver \<Rightarrow> data_phase option" where
  "direct_tail rv =
     (case rv_phase rv of
        DataPhase d \<Rightarrow>
          (case dat_kind d of
             H2c _ _ \<Rightarrow> if H2C_DIRECT_MIN \<le> dat_remaining d then Some d else None
           | InCapsule \<Rightarrow> None)
      | _ \<Rightarrow> None)"

text \<open>The receive loop starts between two PDUs.\<close>

definition receiver_new :: "bool \<Rightarrow> receiver" where
  "receiver_new hdg = \<lparr>rv_decoder = pdu_decoder_new hdg, rv_phase = HeaderPhase, rv_waiting = None\<rparr>"

definition conn_start :: "tcp_queue \<Rightarrow> memory \<Rightarrow> buf_ring option \<Rightarrow> conn" where
  "conn_start q m r = \<lparr>cn_queue = q, cn_mem = m, cn_ring = r, cn_woken = []\<rparr>"

section \<open>The receive loop\<close>

text \<open>
  One turn of \<^verbatim>\<open>drive_recv\<close> in classic mode: a window, its payload phases, and the direct receive of a
  large tail. \<open>got\<close> is what the receive returns, \<open>rs\<close> the answers of the direct receives. A turn may
  be suspended for a tag, with the rest of its window, or in a direct receive.
\<close>

datatype turn_end = TurnNext | TurnEof | TurnBlocked bytes | TurnWaiting data_phase | TurnEnd recv_end

definition classic_tail ::
  "recv_env \<Rightarrow> (io_error + bytes) list \<Rightarrow> classic_mode \<Rightarrow> receiver \<Rightarrow> conn \<Rightarrow> (turn_end \<times> receiver \<times> conn) option" where
  "classic_tail ev rs cm rv c =
     (case direct_tail rv of
        None \<Rightarrow> Some (TurnNext, rv, c)
      | Some d \<Rightarrow>
          if cm_pos cm \<noteq> cm_filled cm then None
          else map_option (\<lambda>(p, c).
            case p of
              Pending \<Rightarrow> (TurnWaiting d, rv, c)
            | Ready (Inl e) \<Rightarrow> (TurnEnd e, rv, c)
            | Ready (Inr ph) \<Rightarrow> (TurnNext, rv\<lparr>rv_phase := ph\<rparr>, c)) (recv_tail_direct ev rs d c))"

text \<open>The window from its first unread byte on, also after a suspension.\<close>

definition classic_window ::
  "recv_env \<Rightarrow> (io_error + bytes) list \<Rightarrow> bytes \<Rightarrow> classic_mode \<Rightarrow> receiver \<Rightarrow> conn \<Rightarrow>
   (turn_end \<times> classic_mode \<times> receiver \<times> conn) option" where
  "classic_window ev rs w cm rv c = do {
     (fl, rv, bs, c) \<leftarrow> drain ev None rv w c;
     (case fl of
        Ended e \<Rightarrow> Some (TurnEnd e, cm, rv, c)
      | Blocked \<Rightarrow> Some (TurnBlocked bs, cm, rv, c)
      | Continue \<Rightarrow> do {
          cm \<leftarrow> classic_consume (cm_filled cm - cm_pos cm) cm;
          (e, rv, c) \<leftarrow> classic_tail ev rs cm rv c;
          Some (e, cm, rv, c)})}"

definition classic_turn ::
  "recv_env \<Rightarrow> io_error + bytes \<Rightarrow> (io_error + bytes) list \<Rightarrow> classic_mode \<Rightarrow> receiver \<Rightarrow> conn \<Rightarrow>
   (turn_end \<times> classic_mode \<times> receiver \<times> conn) option" where
  "classic_turn ev got rs cm rv c =
     (case classic_fill got cm of
        (Inl e, cm) \<Rightarrow> Some (TurnEnd (EndIo e), cm, rv, c)
      | (Inr w, cm) \<Rightarrow> if w = [] then Some (TurnEof, cm, rv, c) else classic_window ev rs w cm rv c)"

text \<open>What \<^verbatim>\<open>recv_loop\<close> makes of the end: its result and what it sends before the connection closes.\<close>

definition recv_loop_end :: "recv_end option \<Rightarrow> (io_error + unit) \<times> bytes" where
  "recv_loop_end r =
     (case r of
        None \<Rightarrow> (Inr (), [])
      | Some EndClosed \<Rightarrow> (Inr (), [])
      | Some (EndIo e) \<Rightarrow> (Inl e, [])
      | Some (EndTerm e) \<Rightarrow> (Inr (), encode_c2h_term e)
      | Some (EndHostTerm fes fei) \<Rightarrow> (Inr (), []))"

section \<open>The invariant\<close>

text \<open>The ring sub-buffers a slot's buffer refers to, and how many slots refer to one.\<close>

definition owner_bids :: "slot_data \<Rightarrow> u16 list" where
  "owner_bids d = (case sd_owner d of OwnerRing b \<Rightarrow> [b] | _ \<Rightarrow> [])"

definition borrowed :: "sqe slot list \<Rightarrow> nat \<Rightarrow> nat" where
  "borrowed ss i = length (filter (\<lambda>s. \<exists>b \<in> set (owner_bids (slot_data s)). bix b = i) ss)"

definition ring_wf :: "buf_ring \<Rightarrow> bool" where
  "ring_wf r \<longleftrightarrow> length (ring_pending r) = 2 \<and> length (ring_awaiting r) = 2 \<and> length (recv_offs r) = 2 \<and>
     length (ring_entries r) = 2"

text \<open>Every borrow of the receive ring belongs to exactly one slot, but for one just taken for the
  sub-buffers \<open>bs\<close>.\<close>

definition ring_due :: "buf_ring option \<Rightarrow> sqe slot list \<Rightarrow> u16 list \<Rightarrow> bool" where
  "ring_due rg ss bs \<longleftrightarrow>
     (case rg of
        None \<Rightarrow> bs = [] \<and> (\<forall>s \<in> set ss. owner_bids (slot_data s) = [])
      | Some r \<Rightarrow> ring_wf r \<and>
          (\<forall>i < 2. unat (ring_pending r ! i) = borrowed ss i + (if \<exists>b \<in> set bs. bix b = i then 1 else 0)) \<and>
          (\<forall>s \<in> set ss. \<forall>b \<in> set (owner_bids (slot_data s)). b < NBUFS) \<and> (\<forall>b \<in> set bs. b < NBUFS))"

abbreviation ring_balanced :: "buf_ring option \<Rightarrow> sqe slot list \<Rightarrow> bool" where
  "ring_balanced rg ss \<equiv> ring_due rg ss []"

text \<open>A slot that is receiving has room for its transfer.\<close>

definition slot_room :: "sqe slot \<Rightarrow> bool" where
  "slot_room s \<longleftrightarrow> buf_shape (slot_data s) \<and>
     (slot_state s = Receiving \<longrightarrow> unat (slot_data_len s) \<le> sd_len (slot_data s) \<and> recv_offset s \<le> slot_data_len s)"

definition conn_ok :: "nat set \<Rightarrow> conn \<Rightarrow> bool" where
  "conn_ok R c \<longleftrightarrow> queue_ok (tq_nvme (cn_queue c)) \<and> slots_inv R (cn_slots c) \<and>
     nslots (cn_slots c) = sqsize (tq_nvme (cn_queue c)) \<and> (\<forall>s \<in> set (slots (cn_slots c)). slot_room s) \<and>
     ring_balanced (cn_ring c) (slots (cn_slots c))"

definition phase_ok :: "conn \<Rightarrow> recv_phase \<Rightarrow> bool" where
  "phase_ok c ph \<longleftrightarrow>
     (case ph of
        HeaderPhase \<Rightarrow> True
      | DataPhase d \<Rightarrow> 0 < dat_remaining d \<and>
          (\<exists>s. slot_of (cn_slots c) (dat_tag d) = Some s \<and> slot_state s = Receiving \<and>
             dat_remaining d \<le> transfer_total (dat_kind d) s \<and>
             (case dat_kind d of InCapsule \<Rightarrow> dat_base d = 0
              | H2c _ n \<Rightarrow> dat_base d = recv_offset s \<and> unat (recv_offset s) + unat n \<le> unat (slot_data_len s)))
      | DdgstPhase g \<Rightarrow> dg_have_len g < 4 \<and> length (dg_have g) = 4 \<and>
          (\<exists>s. slot_of (cn_slots c) (dg_tag g) = Some s \<and> slot_state s = Receiving \<and>
             (case dg_kind g of InCapsule \<Rightarrow> True | H2c _ n \<Rightarrow> unat (recv_offset s) + unat n \<le> unat (slot_data_len s))))"

definition recv_inv :: "nat set \<Rightarrow> receiver \<Rightarrow> conn \<Rightarrow> bool" where
  "recv_inv R rv c \<longleftrightarrow> conn_ok R c \<and> phase_ok c (rv_phase rv) \<and> decoder_inv (rv_decoder rv) \<and>
     \<not> is_complete (rv_decoder rv) \<and> (rv_waiting rv \<noteq> None \<longrightarrow> rv_phase rv = HeaderPhase)"

definition ctx_ok :: "ring_ctx \<Rightarrow> conn \<Rightarrow> bool" where
  "ctx_ok ctx c \<longleftrightarrow> (case ctx of None \<Rightarrow> True | Some (b, _) \<Rightarrow> b < NBUFS \<and> cn_ring c \<noteq> None)"

definition step_cost :: "receiver \<Rightarrow> bytes \<Rightarrow> nat" where
  "step_cost rv bs = 2 * length bs + (if rv_waiting rv = None then 0 else 1)"

text \<open>What one turn of the loop keeps: the invariant, and on \<open>Continue\<close> a smaller cost.\<close>

definition step_ok :: "nat set \<Rightarrow> conn \<Rightarrow> receiver \<Rightarrow> bytes \<Rightarrow> flow \<Rightarrow> receiver \<Rightarrow> bytes \<Rightarrow> conn \<Rightarrow> bool" where
  "step_ok R c rv bs fl rv' bs' c' \<longleftrightarrow> conn_ok R c' \<and> (cn_ring c' = None \<longleftrightarrow> cn_ring c = None) \<and>
     ((\<forall>e. fl \<noteq> Ended e) \<longrightarrow> recv_inv R rv' c') \<and> (fl = Continue \<longrightarrow> step_cost rv' bs' < step_cost rv bs)"

text \<open>A window of bytes is consumed to its end, unless the loop waits for a tag or ends.\<close>

definition drained :: "nat set \<Rightarrow> recv_env \<Rightarrow> flow \<Rightarrow> receiver \<Rightarrow> bytes \<Rightarrow> conn \<Rightarrow> bool" where
  "drained R ev fl rv bs c \<longleftrightarrow> conn_ok R c \<and>
     (case fl of
        Continue \<Rightarrow> recv_inv R rv c \<and> bs = [] \<and> rv_waiting rv = None
      | Blocked \<Rightarrow> recv_inv R rv c \<and> rv_waiting rv \<noteq> None \<and> tag_waiter (cn_slots c) = Some (rv_waker ev)
      | Ended _ \<Rightarrow> True)"

lemma bix_less [simp]: "bix b < 2"
proof -
  have "unat (b AND 1) \<le> unat (1 :: u16)" by (meson word_and_le1 word_le_nat_alt)
  then show ?thesis by (simp add: bix_def BUF_MASK_def NBUFS_def)
qed

lemma ring_buf_Some: "b < NBUFS \<Longrightarrow> ring_buf r b = Some (ring_data r + bix b * unat (buf_size r))"
  by (simp add: ring_buf_def)

lemma kernel_provide_Some:
  assumes "ring_wf r" "b < NBUFS" "ring_pending r ! bix b = 0"
  obtains r' ws where "kernel_provide b r = Some (r', ws)" "ring_wf r'" "ring_pending r' = ring_pending r"
  using assms by (simp add: kernel_provide_def ring_buf_Some Let_def ring_wf_def)

lemma ring_release_Some:
  assumes "ring_wf r" "b < NBUFS" "0 < ring_pending r ! bix b"
  obtains r' ws where "ring_release b r = Some (r', ws)" "ring_wf r'"
    "ring_pending r' = (ring_pending r)[bix b := ring_pending r ! bix b - 1]"
proof (cases "ring_pending r ! bix b - 1 = 0 \<and> ring_awaiting r ! bix b")
  case True
  define q where "q = r\<lparr>ring_pending := (ring_pending r)[bix b := ring_pending r ! bix b - 1]\<rparr>"
  have "ring_wf q" "ring_pending q ! bix b = 0" using assms(1) True by (simp_all add: q_def ring_wf_def)
  from kernel_provide_Some [OF this(1) assms(2) this(2)]
  obtain r' ws where "kernel_provide b q = Some (r', ws)" "ring_wf r'" "ring_pending r' = ring_pending q" by blast
  then show ?thesis using that assms(3) True by (simp add: ring_release_def Let_def q_def)
next
  case False
  then have "ring_release b r = Some (r\<lparr>ring_pending := (ring_pending r)[bix b := ring_pending r ! bix b - 1]\<rparr>, [])"
    using assms by (auto simp: ring_release_def Let_def)
  then show ?thesis using that assms(1) by (simp add: ring_wf_def)
qed

lemma ring_borrow_Some:
  assumes "ring_wf r" "unat (ring_pending r ! bix b) < 2 ^ 32 - 1"
  shows "ring_borrow b r = Some (r\<lparr>ring_pending := (ring_pending r)[bix b := ring_pending r ! bix b + 1]\<rparr>)"
  using assms by (simp add: ring_borrow_def checked_add_def)

lemma borrowed_update:
  assumes "i < length ss"
  shows "borrowed (ss[i := s]) k + (if \<exists>b \<in> set (owner_bids (slot_data (ss ! i))). bix b = k then 1 else 0) =
    borrowed ss k + (if \<exists>b \<in> set (owner_bids (slot_data s)). bix b = k then 1 else 0)"
  unfolding borrowed_def using length_filter_update [OF assms] .

lemma borrowed_le: "borrowed ss k \<le> length ss"
  by (simp add: borrowed_def)

lemma owner_bids_cases: "owner_bids d = [] \<or> (\<exists>b. owner_bids d = [b])"
  by (cases "sd_owner d") (simp_all add: owner_bids_def)

text \<open>A slot's buffer is replaced, and what it borrowed is released.\<close>

lemma release_balanced:
  assumes due: "ring_due rg ss (owner_bids (slot_data s))" and i: "i < length ss"
  obtains rg' ws where "release_bids (owner_bids (slot_data (ss ! i))) rg = Some (rg', ws)"
    "ring_balanced rg' (ss[i := s])" "rg' = None \<longleftrightarrow> rg = None"
proof (cases "owner_bids (slot_data (ss ! i)) = []")
  case True
  have "ring_balanced rg (ss[i := s])"
    using due i True borrowed_update [OF i, of s]
    by (auto simp: ring_due_def split: option.splits dest!: set_update_subset_insert [THEN subsetD])
  then show ?thesis using that [of rg "[]"] True by simp
next
  case False
  then obtain b where b: "owner_bids (slot_data (ss ! i)) = [b]" using owner_bids_cases by blast
  then obtain r where r: "rg = Some r" using due i by (cases rg) (auto simp: ring_due_def)
  let ?new = "\<lambda>k. if \<exists>b \<in> set (owner_bids (slot_data s)). bix b = k then 1 else 0 :: nat"
  have "\<forall>b \<in> set (owner_bids (slot_data (ss ! i))). b < NBUFS"
    using due r nth_mem [OF i] by (simp add: ring_due_def)
  then have wf: "ring_wf r" "b < NBUFS" "\<And>k. k < 2 \<Longrightarrow> unat (ring_pending r ! k) = borrowed ss k + ?new k"
    using due b r by (simp_all add: ring_due_def)
  have up: "borrowed (ss[i := s]) k + (if bix b = k then 1 else 0) = borrowed ss k + ?new k" for k
    using borrowed_update [OF i, of s k] b by simp
  have "unat (ring_pending r ! bix b) = borrowed (ss[i := s]) (bix b) + 1"
    using up [of "bix b"] wf(3) [of "bix b"] by simp
  then have pos: "ring_pending r ! bix b \<noteq> 0" by auto
  obtain r' ws where r': "ring_release b r = Some (r', ws)" "ring_wf r'"
    "ring_pending r' = (ring_pending r)[bix b := ring_pending r ! bix b - 1]"
    using ring_release_Some [OF wf(1,2)] pos by (auto simp: word_neq_0_conv)
  have "unat (ring_pending r' ! k) = borrowed (ss[i := s]) k" if "k < 2" for k
    using up [of k] wf(1) wf(3) [OF that] pos r'(3) that
    by (cases "k = bix b") (simp_all add: ring_wf_def unat_minus_one)
  moreover have "\<forall>t \<in> set (ss[i := s]). \<forall>b \<in> set (owner_bids (slot_data t)). b < NBUFS"
    using due r by (auto simp: ring_due_def dest!: set_update_subset_insert [THEN subsetD])
  ultimately show ?thesis
    using that [of "Some r'" ws] b r r' by (simp add: ring_due_def)
qed

lemma balanced_same:
  assumes "ring_balanced rg ss" "i < length ss" "slot_data s = slot_data (ss ! i)"
  shows "ring_balanced rg (ss[i := s])"
proof -
  have n: "borrowed (ss[i := s]) k = borrowed ss k" for k using borrowed_update [OF assms(2), of s k] assms(3) by simp
  have "map slot_data (ss[i := s]) = map slot_data ss"
    using assms(2,3) list_update_id [of "map slot_data ss" i] by (simp add: map_update)
  then have all: "(\<forall>t \<in> set (ss[i := s]). Q (slot_data t)) \<longleftrightarrow> (\<forall>t \<in> set ss. Q (slot_data t))" for Q
    by (metis (no_types, lifting) list.pred_map list.pred_set o_apply)
  show ?thesis using assms(1) all [of "\<lambda>d. owner_bids d = []"] all [of "\<lambda>d. \<forall>b \<in> set (owner_bids d). b < NBUFS"]
    by (simp add: ring_due_def n split: option.splits)
qed

lemma set_data_bids:
  "set_data tag d a = Some (a', ws, bids) \<Longrightarrow> slot_of a tag = Some s \<Longrightarrow> bids = owner_bids (slot_data s)"
  by (auto simp: set_data_def slot_data_drop_def owner_bids_def split: option.splits owner.splits)

lemma queue_ok_put [simp]: "queue_ok (tq_nvme (tq_put a q)) = queue_ok (tq_nvme q)"
  by (simp add: queue_ok_def)

text \<open>The connection after an operation on one slot.\<close>

lemma cn_put_slot:
  assumes ok: "conn_ok R c" and s: "slot_of (cn_slots c) tag = Some s"
    and a: "slots_inv R a" "slots a = (slots (cn_slots c))[unat tag := s']" "nslots a = nslots (cn_slots c)"
    and s': "slot_room s'" and rg: "ring_due rg (slots (cn_slots c)) (owner_bids (slot_data s'))"
  obtains c' where "cn_put a ws (owner_bids (slot_data s)) (c\<lparr>cn_ring := rg, cn_mem := m\<rparr>) = Some c'"
    "conn_ok R c'" "cn_slots c' = a" "cn_mem c' = m" "cn_ring c' = None \<longleftrightarrow> rg = None"
    "cn_queue c' = tq_put a (cn_queue c)"
proof -
  have i: "unat tag < length (slots (cn_slots c))" "s = slots (cn_slots c) ! unat tag" using s by (simp_all add: slot_of_Some)
  obtain rg' ws' where r: "release_bids (owner_bids (slot_data s)) rg = Some (rg', ws')"
    "ring_balanced rg' (slots a)" "rg' = None \<longleftrightarrow> rg = None"
    using release_balanced [OF rg i(1)] i(2) a(2) by metis
  have "\<forall>t \<in> set (slots a). slot_room t"
    using ok s' a(2) by (auto simp: conn_ok_def dest!: set_update_subset_insert [THEN subsetD])
  then show ?thesis using that [of "c\<lparr>cn_queue := tq_put a (cn_queue c), cn_ring := rg', cn_mem := m, cn_woken := cn_woken c @ ws @ ws'\<rparr>"]
      r ok a by (simp add: cn_put_def conn_ok_def)
qed

lemma conn_ok_slot:
  assumes "conn_ok R c" "slot_of (cn_slots c) tag = Some s" "slots_inv R (cn_slots c')"
    and "slots (cn_slots c') = (slots (cn_slots c))[unat tag := s']" "nslots (cn_slots c') = nslots (cn_slots c)"
    and "slot_data s' = slot_data s" "slot_room s'" "cn_ring c' = cn_ring c"
    and "queue_ok (tq_nvme (cn_queue c'))" "sqsize (tq_nvme (cn_queue c')) = sqsize (tq_nvme (cn_queue c))"
  shows "conn_ok R c'"
proof -
  have "\<forall>t \<in> set (slots (cn_slots c')). slot_room t"
    using assms by (auto simp: conn_ok_def dest!: set_update_subset_insert [THEN subsetD])
  moreover have "ring_balanced (cn_ring c') (slots (cn_slots c'))"
    using assms balanced_same [of "cn_ring c" "slots (cn_slots c)" "unat tag" s'] by (simp add: conn_ok_def slot_of_Some)
  ultimately show ?thesis using assms by (simp add: conn_ok_def)
qed

lemma slot_ops:
  assumes "slot_of a tag = Some s"
  shows "set_data_len tag n a = Some (put_slot tag (s\<lparr>slot_data_len := n\<rparr>) a)"
    "set_recv_offset tag n a = Some (put_slot tag (s\<lparr>recv_offset := n\<rparr>) a)"
    "slot_state s = Receiving \<Longrightarrow> stash_cmd tag cm a = Some (put_slot tag (s\<lparr>slot_cmd := cm\<rparr>) a)"
    "slot_state s = Receiving \<Longrightarrow> submit tag cm a =
      Some (put_slot tag (s\<lparr>slot_cmd := cm, slot_state := ReadyState, slot_waker := None\<rparr>) a, option_list (slot_waker s))"
    "slot_state s = Receiving \<Longrightarrow> respond_receiving tag a = Some (put_slot tag (s\<lparr>slot_state := Responding\<rparr>) a)"
    "slot_of (put_slot tag s' a) tag = Some s'"
  using assms by (simp_all add: set_data_len_def set_recv_offset_def stash_cmd_def submit_def respond_receiving_def)
    (simp add: slot_of_def split: if_splits)

lemma put_slot_twice [simp]: "put_slot tag s (put_slot tag t a) = put_slot tag s a"
  by (simp add: put_slot_def)

lemma cn_put_nil [simp]: "cn_put a ws [] c = Some (c\<lparr>cn_queue := tq_put a (cn_queue c), cn_woken := cn_woken c @ ws\<rparr>)"
  by (simp add: cn_put_def)

text \<open>Submitting a received command.\<close>

lemma submit_ok:
  assumes ok: "conn_ok R c" and s: "slot_of (cn_slots c) tag = Some s" "slot_state s = Receiving"
  obtains c' where "cn_lift (tq_submit tag cm (cn_queue c)) c = Some c'" "conn_ok R c'" "cn_mem c' = cn_mem c"
    "slot_of (cn_slots c') tag = Some (s\<lparr>slot_cmd := cm, slot_state := ReadyState, slot_waker := None\<rparr>)"
    "cn_ring c' = cn_ring c" "tq_send (cn_queue c') = tq_send (cn_queue c)"
proof -
  let ?s = "s\<lparr>slot_cmd := cm, slot_state := ReadyState, slot_waker := None\<rparr>"
  let ?a = "put_slot tag ?s (cn_slots c)"
  define c' where "c' = c\<lparr>cn_queue := tq_put ?a ((cn_queue c)\<lparr>tq_traffic := True\<rparr>), cn_woken := cn_woken c @ option_list (slot_waker s)\<rparr>"
  have "cn_lift (tq_submit tag cm (cn_queue c)) c = Some c'"
    using s by (simp add: c'_def cn_lift_def tq_submit_def slot_ops)
  moreover have inv: "slots_inv R ?a" using ok submit_inv [OF _ slot_ops(4) [OF s]] by (simp add: conn_ok_def)
  have "conn_ok R c'"
    by (rule conn_ok_slot [OF ok s(1), where s' = ?s])
       (use ok s inv in \<open>auto simp: c'_def slot_room_def conn_ok_def slot_of_Some tq_put_def queue_ok_def\<close>)
  ultimately show ?thesis using that s(1) by (simp add: c'_def slot_ops)
qed

lemma unat_add_le:
  fixes a b c :: "'a::len word"
  shows "unat a + unat b \<le> unat c \<Longrightarrow> checked_add a b = Some (a + b) \<and> unat (a + b) = unat a + unat b"
proof -
  assume le: "unat a + unat b \<le> unat c"
  have "unat c < 2 ^ LENGTH('a)" by (rule unsigned_less)
  with le have "unat a + unat b < 2 ^ LENGTH('a)" by linarith
  then show ?thesis by (simp add: checked_add_def unat_word_ariths)
qed

lemma finish_payload_ok:
  assumes ok: "conn_ok R c" and s: "slot_of (cn_slots c) tag = Some s" "slot_state s = Receiving"
    and k: "case k of InCapsule \<Rightarrow> True | H2c _ n \<Rightarrow> unat (recv_offset s) + unat n \<le> unat (slot_data_len s)"
  obtains r c' where "finish_payload tag k c = Some (r, c')" "conn_ok R c'" "cn_mem c' = cn_mem c" "cn_ring c' = cn_ring c"
    "case k of InCapsule \<Rightarrow> True | H2c _ n \<Rightarrow> recv_offset s + n \<noteq> slot_data_len s \<longrightarrow>
      slot_of (cn_slots c') tag = Some (s\<lparr>recv_offset := recv_offset s + n\<rparr>)"
proof (cases k)
  case InCapsule
  obtain c' where "cn_lift (tq_submit tag (slot_cmd s) (cn_queue c)) c = Some c'" "conn_ok R c'" "cn_mem c' = cn_mem c"
    "cn_ring c' = cn_ring c"
    using submit_ok [OF ok s] by metis
  then show ?thesis using that [of "Inr ()" c'] InCapsule s by (simp add: finish_payload_def)
next
  case (H2c is_last n)
  define off where "off = recv_offset s + n"
  have off: "checked_add (recv_offset s) n = Some off" "off \<le> slot_data_len s"
    using unat_add_le [of "recv_offset s" n "slot_data_len s"] k H2c by (simp_all add: off_def word_le_nat_alt)
  let ?a = "put_slot tag (s\<lparr>recv_offset := off\<rparr>) (cn_slots c)"
  define c1 where "c1 = c\<lparr>cn_queue := tq_put ?a (cn_queue c)\<rparr>"
  have s1: "slot_of (cn_slots c1) tag = Some (s\<lparr>recv_offset := off\<rparr>)" "slot_state (s\<lparr>recv_offset := off\<rparr>) = Receiving"
    using s by (simp_all add: c1_def slot_ops)
  have inv: "slots_inv R ?a" using ok set_recv_offset_inv [OF _ slot_ops(2) [OF s(1)]] by (simp add: conn_ok_def)
  have ok1: "conn_ok R c1"
    by (rule conn_ok_slot [OF ok s(1), where s' = "s\<lparr>recv_offset := off\<rparr>"])
       (use ok s off inv in \<open>auto simp: c1_def slot_room_def conn_ok_def slot_of_Some\<close>)
  obtain c2 where c2: "cn_lift (tq_submit tag (slot_cmd s) (cn_queue c1)) c1 = Some c2" "conn_ok R c2"
    "cn_mem c2 = cn_mem c1" "cn_ring c2 = cn_ring c1"
    using submit_ok [OF ok1 s1] by metis
  have f: "finish_payload tag k c = (if off = slot_data_len s then Some (Inr (), c2)
      else if is_last then Some (Inl \<lparr>pe_fes = DATA_OUT_OF_RANGE, pe_fei = 0\<rparr>, c1) else Some (Inr (), c1))"
    using s(1) H2c off(1) c2(1) by (auto simp: finish_payload_def slot_ops c1_def)
  show ?thesis
    using that [of "Inr ()" c2] that [of "Inl \<lparr>pe_fes = DATA_OUT_OF_RANGE, pe_fei = 0\<rparr>" c1] that [of "Inr ()" c1]
      f c2 ok1 s1 H2c by (auto simp: c1_def off_def split: if_splits)
qed

lemma conn_ok_mem [simp]: "conn_ok R (c\<lparr>cn_mem := m\<rparr>) = conn_ok R c" "phase_ok (c\<lparr>cn_mem := m\<rparr>) ph = phase_ok c ph"
  by (simp add: conn_ok_def) (simp add: phase_ok_def split: recv_phase.split payload_kind.split)

lemma unat_sub_of_nat: "n \<le> unat x \<Longrightarrow> unat (x - of_nat n :: 'a::len word) = unat x - n"
proof -
  assume n: "n \<le> unat x"
  then have "n < 2 ^ LENGTH('a)" using unsigned_less [of x, where 'a = nat] by linarith
  then have "unat (of_nat n :: 'a word) = n" by (simp add: unsigned_of_nat take_bit_nat_eq_self)
  then show ?thesis using n by (simp add: unat_sub word_le_nat_alt)
qed

lemma conn_ok_buf:
  assumes "conn_ok R c" "slot_of (cn_slots c) tag = Some s" "slot_state s = Receiving"
  shows "slot_data_wf (slot_data s)" "unat (slot_data_len s) \<le> sd_len (slot_data s)" "recv_offset s \<le> slot_data_len s"
  using assms tags_inv_slot(4) [of "cn_slots c" tag s]
  by (auto simp: conn_ok_def slots_inv_def slot_of_Some slot_room_def)

text \<open>Where the next bytes of a payload go: within the transfer, hence within the buffer.\<close>

lemma data_dest_ok:
  assumes ok: "conn_ok R c" and p: "phase_ok c (DataPhase d)"
  obtains s dest where "slot_of (cn_slots c) (dat_tag d) = Some s" "slot_state s = Receiving" "data_dest d s = Some dest"
    "unat dest + unat (dat_remaining d) \<le> unat (slot_data_len s)" "slot_data_wf (slot_data s)"
    "unat (slot_data_len s) \<le> sd_len (slot_data s)"
    "unat dest = unat (dat_base d) + (unat (transfer_total (dat_kind d) s) - unat (dat_remaining d))"
    "dat_remaining d \<le> transfer_total (dat_kind d) s"
    "case dat_kind d of InCapsule \<Rightarrow> True | H2c _ n \<Rightarrow> unat (recv_offset s) + unat n \<le> unat (slot_data_len s)"
proof -
  obtain s where s: "slot_of (cn_slots c) (dat_tag d) = Some s" "slot_state s = Receiving"
    "dat_remaining d \<le> transfer_total (dat_kind d) s"
    "case dat_kind d of InCapsule \<Rightarrow> dat_base d = 0
     | H2c _ n \<Rightarrow> dat_base d = recv_offset s \<and> unat (recv_offset s) + unat n \<le> unat (slot_data_len s)"
    using p by (auto simp: phase_ok_def)
  define t where "t = transfer_total (dat_kind d) s"
  have le: "unat (dat_base d) + unat t \<le> unat (slot_data_len s)"
    using s(4) by (cases "dat_kind d") (auto simp: t_def transfer_total_def)
  have sub: "unat (t - dat_remaining d) = unat t - unat (dat_remaining d)" "unat (dat_remaining d) \<le> unat t"
    using s(3) by (simp_all add: t_def unat_sub word_le_nat_alt)
  then have "unat (dat_base d) + unat (t - dat_remaining d) \<le> unat (slot_data_len s)" using le by simp
  from unat_add_le [OF this]
  have "data_dest d s = Some (dat_base d + (t - dat_remaining d))"
    "unat (dat_base d + (t - dat_remaining d)) = unat (dat_base d) + (unat t - unat (dat_remaining d))"
    using s(3) sub by (simp_all add: data_dest_def Let_def t_def not_less)
  then show ?thesis
    using that [OF s(1,2)] conn_ok_buf [OF ok s(1,2)] s(3,4) le sub(2) by (auto simp: t_def split: payload_kind.splits)
qed

lemma payload_done_ok:
  assumes ok: "conn_ok R c" and s: "slot_of (cn_slots c) (dat_tag d) = Some s" "slot_state s = Receiving"
    and k: "case dat_kind d of InCapsule \<Rightarrow> True | H2c _ n \<Rightarrow> unat (recv_offset s) + unat n \<le> unat (slot_data_len s)"
  obtains r c' where "payload_done d c = Some (r, c')" "conn_ok R c'" "\<And>ph. r = Inr ph \<Longrightarrow> phase_ok c' ph"
    "cn_mem c' = cn_mem c" "cn_ring c' = cn_ring c"
proof (cases "dat_ddgst d")
  case True
  then show ?thesis using that [of "Inr (ddgst_start (dat_tag d) (dat_crc d) (dat_kind d))" c] ok s k
    by (simp add: payload_done_def ddgst_start_def phase_ok_def)
next
  case False
  obtain r c' where f: "finish_payload (dat_tag d) (dat_kind d) c = Some (r, c')" "conn_ok R c'" "cn_mem c' = cn_mem c"
    "cn_ring c' = cn_ring c"
    by (rule finish_payload_ok [OF ok s k])
  then show ?thesis
    using that [of "Inl (EndTerm (projl r))" c'] that [of "Inr HeaderPhase" c'] False
    by (cases r) (simp_all add: payload_done_def phase_ok_def)
qed

lemma data_advance_ok:
  assumes ok: "conn_ok R c" and p: "phase_ok c (DataPhase d)" and bs: "bs \<noteq> []"
  obtains r n c' where "data_advance ev d bs c = Some (r, drop n bs, c')" "0 < n" "conn_ok R c'"
    "\<And>ph. r = Inr ph \<Longrightarrow> phase_ok c' ph" "cn_ring c' = cn_ring c"
proof -
  obtain s dest where s: "slot_of (cn_slots c) (dat_tag d) = Some s" "slot_state s = Receiving" "data_dest d s = Some dest"
    "unat dest + unat (dat_remaining d) \<le> unat (slot_data_len s)" "slot_data_wf (slot_data s)"
    "unat (slot_data_len s) \<le> sd_len (slot_data s)" "dat_remaining d \<le> transfer_total (dat_kind d) s"
    "case dat_kind d of InCapsule \<Rightarrow> True | H2c _ n \<Rightarrow> unat (recv_offset s) + unat n \<le> unat (slot_data_len s)"
    by (rule data_dest_ok [OF ok p])
  define n where "n = min (unat (dat_remaining d)) (length bs)"
  have n: "0 < n" "n \<le> unat (dat_remaining d)"
    using bs p by (auto simp: n_def phase_ok_def word_less_nat_alt)
  then have le: "unat dest + length (take n bs) \<le> sd_len (slot_data s)" using s(4,6) by simp
  obtain m' where m': "write_at (slot_data s) (unat dest) (take n bs) (cn_mem c) = Some m'"
    using write_at_spec [OF s(5) le] by metis
  define m where "m = (if dat_retained d then cn_mem c else m')"
  define e where "e = (let d = (if dat_ddgst d then d\<lparr>dat_crc := rv_append ev (dat_crc d) (take n bs)\<rparr> else d)
    in d\<lparr>dat_remaining := dat_remaining d - of_nat n\<rparr>)"
  have e: "dat_tag e = dat_tag d" "dat_kind e = dat_kind d" "dat_base e = dat_base d" "dat_remaining e = dat_remaining d - of_nat n"
    by (simp_all add: e_def Let_def)
  have r: "unat (dat_remaining e) = unat (dat_remaining d) - n"
    using n(2) by (simp add: e(4) unat_sub_of_nat)
  then have rem: "dat_remaining e \<le> dat_remaining d" by (simp add: word_le_nat_alt)
  have adv: "data_advance ev d bs c = (if dat_remaining e > 0 then Some (Inr (DataPhase e), drop n bs, c\<lparr>cn_mem := m\<rparr>)
     else map_option (\<lambda>(r, c). (r, drop n bs, c)) (payload_done e (c\<lparr>cn_mem := m\<rparr>)))"
    using s(1,3) m' by (simp add: data_advance_def Let_def m_def e_def flip: n_def)
  show ?thesis
  proof (cases "dat_remaining e > 0")
    case True
    have "phase_ok c (DataPhase e)"
      using p True unfolding phase_ok_def recv_phase.case e(1-3) by (auto intro: order_trans [OF rem])
    then show ?thesis using that [of "Inr (DataPhase e)" n "c\<lparr>cn_mem := m\<rparr>"] adv True n(1) ok by simp
  next
    case False
    obtain r c' where "payload_done e (c\<lparr>cn_mem := m\<rparr>) = Some (r, c')" "conn_ok R c'" "\<And>ph. r = Inr ph \<Longrightarrow> phase_ok c' ph"
      "cn_ring c' = cn_ring c"
      by (rule payload_done_ok [of R "c\<lparr>cn_mem := m\<rparr>" e s]) (use ok s e in auto)
    then show ?thesis using that [of r n c'] adv False n(1) by simp
  qed
qed

lemma advance_sqhd_ok:
  assumes "queue_ok q"
  obtains h h' where "advance_sqhd q = Some (h, q\<lparr>sqhd := h'\<rparr>)" "queue_ok (q\<lparr>sqhd := h'\<rparr>)"
proof (cases "sqhd_disabled q")
  case True
  then show thesis using that [of 0 "sqhd q"] by (simp add: advance_sqhd_def queue_ok_def)
next
  case False
  then obtain h where "advance_sqhd q = Some (h, q\<lparr>sqhd := h\<rparr>)" "h < sqsize q"
    using advance_sqhd_step [of q] assms by (auto simp: queue_ok_def)
  then show thesis using that [of h h] by (simp add: queue_ok_def)
qed

text \<open>A payload whose digest is wrong: its command is answered with a transfer error, not executed.\<close>

lemma digest_failure_ok:
  assumes ok: "conn_ok R c" and s: "slot_of (cn_slots c) tag = Some s" "slot_state s = Receiving"
  obtains h q c' where "advance_sqhd (tq_nvme (cn_queue c)) = Some (h, q)"
    "\<And>e. cn_lift (complete_receiving tag e ((cn_queue c)\<lparr>tq_nvme := q\<rparr>)) (c\<lparr>cn_queue := (cn_queue c)\<lparr>tq_nvme := q\<rparr>\<rparr>) =
      Some (c' e)" "\<And>e. conn_ok R (c' e)" "\<And>e. cn_ring (c' e) = cn_ring c" "\<And>e. cn_mem (c' e) = cn_mem c"
    "\<And>e. slot_of (cn_slots (c' e)) tag = Some (s\<lparr>slot_state := Responding\<rparr>)"
    "\<And>e. work (tq_send (cn_queue (c' e))) = work (tq_send (cn_queue c)) @ [Response \<lparr>cp_tag = tag, cp_cqe = e, cp_data_len = 0\<rparr>]"
    "qid q = qid (tq_nvme (cn_queue c))"
proof -
  obtain h h' where q: "advance_sqhd (tq_nvme (cn_queue c)) = Some (h, (tq_nvme (cn_queue c))\<lparr>sqhd := h'\<rparr>)"
    "queue_ok ((tq_nvme (cn_queue c))\<lparr>sqhd := h'\<rparr>)"
    using advance_sqhd_ok ok by (auto simp: conn_ok_def)
  define t where "t = (cn_queue c)\<lparr>tq_nvme := (tq_nvme (cn_queue c))\<lparr>sqhd := h'\<rparr>\<rparr>"
  let ?s = "s\<lparr>slot_state := Responding\<rparr>"
  let ?a = "put_slot tag ?s (cn_slots c)"
  define c' where "c' e = (let (q, ws) = tq_push (Response \<lparr>cp_tag = tag, cp_cqe = e, cp_data_len = 0\<rparr>) (tq_put ?a t)
    in c\<lparr>cn_queue := q, cn_woken := cn_woken c @ ws\<rparr>)" for e
  have r: "respond_receiving tag (cn_slots c) = Some ?a" using s by (simp add: slot_ops)
  then have inv: "slots_inv R ?a" using ok respond_receiving_inv by (auto simp: conn_ok_def)
  have ok': "conn_ok R (c' e)" for e
    by (rule conn_ok_slot [OF ok s(1), where s' = ?s])
      (use ok s inv q(2) in \<open>auto simp: c'_def slot_room_def conn_ok_def slot_of_Some t_def tq_push_def send_push_def tq_put_def queue_ok_def\<close>)
  show ?thesis
    by (rule that [OF q(1), where c' = c'])
      (use r ok' s in \<open>simp_all add: c'_def complete_receiving_def cn_lift_def t_def tq_push_def send_push_def tq_put_def slot_ops\<close>)
qed

lemma ddgst_advance_ok:
  assumes ok: "conn_ok R c" and p: "phase_ok c (DdgstPhase g)" and bs: "bs \<noteq> []"
  obtains r n c' where "ddgst_advance g bs c = Some (r, drop n bs, c')" "0 < n" "conn_ok R c'"
    "\<And>ph. r = Inr ph \<Longrightarrow> phase_ok c' ph" "cn_ring c' = cn_ring c"
proof -
  obtain s where s: "slot_of (cn_slots c) (dg_tag g) = Some s" "slot_state s = Receiving" "dg_have_len g < 4" "length (dg_have g) = 4"
    "case dg_kind g of InCapsule \<Rightarrow> True | H2c _ n \<Rightarrow> unat (recv_offset s) + unat n \<le> unat (slot_data_len s)"
    using p by (auto simp: phase_ok_def)
  define n where "n = min (4 - dg_have_len g) (length bs)"
  have n: "0 < n" "dg_have_len g + n \<le> 4" using s(3) bs by (auto simp: n_def)
  define h where "h = g\<lparr>dg_have := splice (dg_have_len g) (take n bs) (dg_have g), dg_have_len := dg_have_len g + n\<rparr>"
  have h: "length (dg_have h) = 4" "dg_tag h = dg_tag g" "dg_kind h = dg_kind g" "dg_expected h = dg_expected g"
    using n s(4) by (simp_all add: h_def n_def)
  note adv = ddgst_advance_def [of g bs c, unfolded Let_def, folded n_def, folded h_def, unfolded h]
  consider (short) "dg_have_len h < 4" | (bad) "\<not> dg_have_len h < 4" "le_word (dg_have h) \<noteq> dg_expected g"
    | (good) "\<not> dg_have_len h < 4" "le_word (dg_have h) = dg_expected g" by blast
  then show ?thesis
  proof cases
    case short
    then show ?thesis
      using that [of "Inr (DdgstPhase h)" n c] n(1) ok s h by (simp add: adv phase_ok_def)
  next
    case bad
    obtain hq q c' where d: "advance_sqhd (tq_nvme (cn_queue c)) = Some (hq, q)"
      "\<And>e. cn_lift (complete_receiving (dg_tag g) e ((cn_queue c)\<lparr>tq_nvme := q\<rparr>)) (c\<lparr>cn_queue := (cn_queue c)\<lparr>tq_nvme := q\<rparr>\<rparr>) =
        Some (c' e)" "\<And>e. conn_ok R (c' e)" "\<And>e. cn_ring (c' e) = cn_ring c"
      by (rule digest_failure_ok [OF ok s(1,2)], rule that; assumption)
    let ?e = "cqe_new 0 hq (qid q) (cid (slot_cmd s)) (DATA_XFER_ERROR OR DNR)"
    have "ddgst_advance g bs c = Some (Inr HeaderPhase, drop n bs, c' ?e)"
      using bad s(1) d(1,2) by (simp add: adv)
    then show ?thesis
      using that [of "Inr HeaderPhase" n "c' ?e"] n(1) d(3,4) by (simp add: phase_ok_def)
  next
    case good
    obtain r c' where f: "finish_payload (dg_tag g) (dg_kind g) c = Some (r, c')" "conn_ok R c'" "cn_ring c' = cn_ring c"
      by (rule finish_payload_ok [OF ok s(1,2,5)])
    have "ddgst_advance g bs c = (case finish_payload (dg_tag g) (dg_kind g) c of
       None \<Rightarrow> None
     | Some (Inl e, c) \<Rightarrow> Some (Inl (EndTerm e), drop n bs, c)
     | Some (Inr _, c) \<Rightarrow> Some (Inr HeaderPhase, drop n bs, c))"
      using good by (simp add: adv)
    then show ?thesis
      using that [of "Inl (EndTerm (projl r))" n c'] that [of "Inr HeaderPhase" n c'] f n(1)
      by (cases r) (simp_all add: phase_ok_def)
  qed
qed

section \<open>Every step keeps the invariant\<close>

lemma owner_bids_ring [simp]: "owner_bids (slot_data_ring b p n) = [b]" "sd_len (slot_data_ring b p n) = n"
  "buf_shape (slot_data_ring b p n)"
  by (simp_all add: owner_bids_def slot_data_ring_def buf_shape_def)

lemma pool_alloc_owner: "pool_alloc len p = Some (Some d, p') \<Longrightarrow> sd_owner d = OwnerPool"
  by (auto simp: pool_alloc_def make_lease_def Let_def split: option.splits if_splits prod.splits)

lemma lease_or_owned_bids:
  assumes "lease_or_owned addr tag len m a = Some (m', a', ws, bids)" "slot_of a tag = Some s" "slot_of a' tag = Some s'"
  shows "bids = owner_bids (slot_data s)" "owner_bids (slot_data s') = []"
proof -
  obtain d p where d: "set_data tag d (a\<lparr>pool := p\<rparr>) = Some (a', ws, bids)" "owner_bids d = []"
    using assms(1) pool_alloc_owner
    by (auto simp: lease_or_owned_def slot_data_owned_def Let_def owner_bids_def split: option.splits prod.splits)
  show "bids = owner_bids (slot_data s)" using set_data_bids [OF d(1)] assms(2) by simp
  have "slot_data s' = d"
    using set_data_slots [OF d(1), of s] assms(2,3) by (auto simp: slot_of_Some)
  then show "owner_bids (slot_data s') = []" using d(2) by simp
qed

lemma nslots_eq: "slots_inv R a \<Longrightarrow> slots_inv R' a' \<Longrightarrow> length (slots a') = length (slots a) \<Longrightarrow> nslots a' = nslots a"
  by (simp add: slots_inv_def tags_inv_def word_unat_eq_iff)

lemma lease_slot_ok:
  assumes ok: "conn_ok R c" and s: "slot_of (cn_slots c) tag = Some s" "slot_state s = Receiving"
    and z: "slot_data_len s = 0" "recv_offset s = 0"
  obtains c' d where "lease_slot ev tag len c = Some c'" "conn_ok R c'" "slot_of (cn_slots c') tag = Some (s\<lparr>slot_data := d\<rparr>)"
    "len \<le> sd_len d" "cn_ring c' = None \<longleftrightarrow> cn_ring c = None" "buf_shape d" "slot_data_wf d"
proof -
  have inv: "slots_inv R (cn_slots c)" and bal: "ring_balanced (cn_ring c) (slots (cn_slots c))"
    using ok by (simp_all add: conn_ok_def)
  have nf: "slot_state s \<noteq> Free" using s(2) by simp
  obtain m' a' ws bids d where l: "lease_or_owned (rv_alloc ev c) tag len (cn_mem c) (cn_slots c) = Some (m', a', ws, bids)"
    "slots_inv R a'" "slots a' = (slots (cn_slots c))[unat tag := s\<lparr>slot_data := d\<rparr>]" "slot_of a' tag = Some (s\<lparr>slot_data := d\<rparr>)"
    "buf_shape d" "len \<le> sd_len d" "slot_data_wf d"
    by (rule lease_or_owned_buf [OF inv s(1) nf])
  note b = lease_or_owned_bids [OF l(1) s(1) l(4)]
  have room: "slot_room (s\<lparr>slot_data := d\<rparr>)" using z l(5) by (simp add: slot_room_def)
  have "ring_due (cn_ring c) (slots (cn_slots c)) (owner_bids (slot_data (s\<lparr>slot_data := d\<rparr>)))" using bal b(2) by simp
  note put = cn_put_slot [OF ok s(1) l(2,3) _ room this, of ws m']
  have "nslots a' = nslots (cn_slots c)" using nslots_eq [OF inv l(2)] l(3) by simp
  then obtain c' where "cn_put a' ws (owner_bids (slot_data s)) (c\<lparr>cn_ring := cn_ring c, cn_mem := m'\<rparr>) = Some c'" "conn_ok R c'"
    "cn_slots c' = a'" "cn_ring c' = None \<longleftrightarrow> cn_ring c = None" by (rule put)
  then show ?thesis using that l b(1) by (simp add: lease_slot_def)
qed

lemma try_retain_ok:
  assumes ok: "conn_ok R c" and s: "slot_of (cn_slots c) tag = Some s" "slot_state s = Receiving"
    and n: "unat (slot_data_len s) \<le> len" and b: "bid < NBUFS" "cn_ring c \<noteq> None"
  obtains kept c' where "try_retain_payload bid tag ptr len c = Some (kept, c')" "conn_ok R c'"
    "cn_ring c' = None \<longleftrightarrow> cn_ring c = None" "cn_mem c' = cn_mem c" "\<not> kept \<longrightarrow> c' = c"
    "kept \<longrightarrow> slot_of (cn_slots c') tag = Some (s\<lparr>slot_data := slot_data_ring bid ptr len\<rparr>)"
proof -
  obtain r where r: "cn_ring c = Some r" using b(2) by auto
  let ?start = "ring_data r + bix bid * unat (buf_size r)"
  let ?cap = "unat (buf_size r)"
  let ?d = "slot_data_ring bid ptr len"
  show ?thesis
  proof (cases "ptr < ?start \<or> ?cap < ptr - ?start \<or> ?cap - (ptr - ?start) < len")
    case True
    then show ?thesis using that [of False c] r b(1) ok by (simp add: try_retain_payload_def ring_buf_Some Let_def)
  next
    case False
    have inv: "slots_inv R (cn_slots c)" and bal: "ring_balanced (Some r) (slots (cn_slots c))"
      using ok r by (simp_all add: conn_ok_def)
    have "unat (ring_pending r ! bix bid) = borrowed (slots (cn_slots c)) (bix bid)" and wf: "ring_wf r"
      using bal by (simp_all add: ring_due_def)
    moreover have "length (slots (cn_slots c)) < 2 ^ 16"
      using inv unsigned_less [of "nslots (cn_slots c)", where 'a = nat] by (simp add: slots_inv_def tags_inv_def)
    ultimately have small: "unat (ring_pending r ! bix bid) < 2 ^ 32 - 1"
      using borrowed_le [of "slots (cn_slots c)" "bix bid"] by simp
    define r' where "r' = r\<lparr>ring_pending := (ring_pending r)[bix bid := ring_pending r ! bix bid + 1]\<rparr>"
    have "unat (ring_pending r ! bix bid + 1) = unat (ring_pending r ! bix bid) + 1"
      using small by (simp add: unat_word_ariths)
    then have due: "ring_due (Some r') (slots (cn_slots c)) (owner_bids (slot_data (s\<lparr>slot_data := ?d\<rparr>)))"
      using bal wf b(1) by (auto simp: ring_due_def r'_def ring_wf_def nth_list_update)
    obtain a ws bids where a: "set_data tag ?d (cn_slots c) = Some (a, ws, bids)" "slots_inv R a"
      using set_data_private [OF inv ring_not_pool slot_data_wf_ring s(1), of bid ptr len] s(2) by auto
    note sl = set_data_slots [OF a(1) s(1)]
    have room: "slot_room (s\<lparr>slot_data := ?d\<rparr>)"
      using n conn_ok_buf [OF ok s] by (simp add: slot_room_def)
    obtain c' where c': "cn_put a ws (owner_bids (slot_data s)) (c\<lparr>cn_ring := Some r', cn_mem := cn_mem c\<rparr>) = Some c'" "conn_ok R c'"
      "cn_slots c' = a" "cn_mem c' = cn_mem c" "cn_ring c' = None \<longleftrightarrow> Some r' = None"
      by (rule cn_put_slot [OF ok s(1) a(2) conjunct1 [OF sl] conjunct2 [OF sl] room due, of ws "cn_mem c"])
    have "try_retain_payload bid tag ptr len c = Some (True, c')"
      unfolding try_retain_payload_def Let_def r ring_buf_Some [OF b(1)] bind.simps if_not_P [OF False]
      using ring_borrow_Some [OF wf small] a(1) set_data_bids [OF a(1) s(1)] c'(1) by (simp add: r'_def)
    moreover have "slot_of (cn_slots c') tag = Some (s\<lparr>slot_data := ?d\<rparr>)"
      using sl c'(3) s(1) by (auto simp: slot_of_Some)
    ultimately show ?thesis using that [of True c'] c' b(2) by simp
  qed
qed

lemma retain_ok:
  assumes ok: "conn_ok R c" and s: "slot_of (cn_slots c) tag = Some s" "slot_state s = Receiving"
    and n: "unat (slot_data_len s) \<le> len" and x: "ctx_ok ctx c"
  obtains kept c' d where "retain ctx tag bs len c = Some (kept, c')" "conn_ok R c'"
    "cn_ring c' = None \<longleftrightarrow> cn_ring c = None" "cn_mem c' = cn_mem c" "\<not> kept \<longrightarrow> c' = c"
    "slot_of (cn_slots c') tag = Some (s\<lparr>slot_data := d\<rparr>)" "kept \<longrightarrow> sd_len d = len \<and> buf_shape d"
proof (cases ctx)
  case None
  have "s\<lparr>slot_data := slot_data s\<rparr> = s" by simp
  then show ?thesis using that [of False c "slot_data s"] None ok s(1) by (simp add: retain_def)
next
  case (Some p)
  obtain bid fin where p: "ctx = Some (bid, fin)" using Some by (cases p) auto
  have b: "bid < NBUFS" "cn_ring c \<noteq> None" using x p by (simp_all add: ctx_ok_def)
  obtain kept c' where r: "try_retain_payload bid tag (fin - length bs) len c = Some (kept, c')" "conn_ok R c'"
    "cn_ring c' = None \<longleftrightarrow> cn_ring c = None" "cn_mem c' = cn_mem c" "\<not> kept \<longrightarrow> c' = c"
    "kept \<longrightarrow> slot_of (cn_slots c') tag = Some (s\<lparr>slot_data := slot_data_ring bid (fin - length bs) len\<rparr>)"
    by (rule try_retain_ok [OF ok s n b])
  show ?thesis
    using that [of kept c' "if kept then slot_data_ring bid (fin - length bs) len else slot_data s"] r p s(1)
    by (auto simp: retain_def)
qed

lemma stash_ok:
  assumes ok: "conn_ok R c" and s: "slot_of (cn_slots c) tag = Some s" "slot_state s = Receiving"
    and n: "unat n \<le> sd_len (slot_data s)" "off \<le> n"
    and c': "c' = c\<lparr>cn_queue := tq_put (put_slot tag (s\<lparr>slot_data_len := n, recv_offset := off, slot_cmd := cm\<rparr>) (cn_slots c)) (cn_queue c)\<rparr>"
  shows "conn_ok R c'" "slot_of (cn_slots c') tag = Some (s\<lparr>slot_data_len := n, recv_offset := off, slot_cmd := cm\<rparr>)"
    "cn_ring c' = cn_ring c"
proof -
  let ?s = "s\<lparr>slot_data_len := n, recv_offset := off, slot_cmd := cm\<rparr>"
  have "slots_inv R (put_slot tag ?s ((cn_slots c)\<lparr>executing := executing (cn_slots c)\<rparr>))"
    by (rule slots_inv_put [OF _ s(1)]) (use ok s in \<open>simp_all add: conn_ok_def\<close>)
  then have inv: "slots_inv R (put_slot tag ?s (cn_slots c))" by simp
  show "conn_ok R c'"
    by (rule conn_ok_slot [OF ok s(1), where s' = ?s])
      (use ok s n inv c' in \<open>auto simp: slot_room_def conn_ok_def slot_of_Some\<close>)
qed (use s c' in \<open>simp_all add: slot_ops\<close>)

lemma capsule_data_ok:
  assumes ok: "conn_ok R c" and s: "slot_of (cn_slots c) tag = Some s" "slot_state s = Receiving"
    and z: "slot_data_len s = 0" "recv_offset s = 0" and x: "ctx_ok ctx c" and data: "0 < n" "\<not> MDTS_BYTES < n"
  obtains kept e c' where "capsule_with_tag ev ctx cm n dd bs tag c = Some (Inr (DataPhase \<lparr>dat_tag = tag, dat_base = 0,
      dat_remaining = n, dat_crc = 0, dat_ddgst = dd, dat_kind = InCapsule, dat_retained = kept\<rparr>), c')"
    "phase_ok c' (DataPhase \<lparr>dat_tag = tag, dat_base = 0, dat_remaining = n, dat_crc = 0, dat_ddgst = dd,
      dat_kind = InCapsule, dat_retained = kept\<rparr>)"
    "conn_ok R c'" "cn_ring c' = None \<longleftrightarrow> cn_ring c = None"
    "slot_of (cn_slots c') tag = Some (s\<lparr>slot_data := e, slot_data_len := n, slot_cmd := cm\<rparr>)" "ctx = None \<longrightarrow> \<not> kept"
proof -
  have le: "unat (slot_data_len s) \<le> unat n" using z by simp
  obtain kept c1 d where r: "retain ctx tag bs (unat n) c = Some (kept, c1)" "conn_ok R c1"
    "cn_ring c1 = None \<longleftrightarrow> cn_ring c = None" "cn_mem c1 = cn_mem c" "\<not> kept \<longrightarrow> c1 = c"
    "slot_of (cn_slots c1) tag = Some (s\<lparr>slot_data := d\<rparr>)" "kept \<longrightarrow> sd_len d = unat n \<and> buf_shape d"
    by (rule retain_ok [OF ok s le x])
  have st: "slot_state (s\<lparr>slot_data := d\<rparr>) = Receiving" "slot_data_len (s\<lparr>slot_data := d\<rparr>) = 0"
    "recv_offset (s\<lparr>slot_data := d\<rparr>) = 0" using s z by simp_all
  obtain c2 e where c2: "(if kept then Some c1 else lease_slot ev tag (unat n) c1) = Some c2" "conn_ok R c2"
    "slot_of (cn_slots c2) tag = Some (s\<lparr>slot_data := e\<rparr>)" "unat n \<le> sd_len e" "cn_ring c2 = None \<longleftrightarrow> cn_ring c = None"
  proof (cases kept)
    case True
    then show ?thesis using that [of c1 d] r by simp
  next
    case False
    obtain c2 e where "lease_slot ev tag (unat n) c1 = Some c2" "conn_ok R c2"
      "slot_of (cn_slots c2) tag = Some ((s\<lparr>slot_data := d\<rparr>)\<lparr>slot_data := e\<rparr>)" "unat n \<le> sd_len e"
      "cn_ring c2 = None \<longleftrightarrow> cn_ring c1 = None"
      by (rule lease_slot_ok [OF r(2,6) st])
    then show ?thesis using that [of c2 e] False r(3) by simp
  qed
  define c3 where "c3 = c2\<lparr>cn_queue := tq_put (put_slot tag ((s\<lparr>slot_data := e\<rparr>)\<lparr>slot_data_len := n, recv_offset := 0, slot_cmd := cm\<rparr>)
    (cn_slots c2)) (cn_queue c2)\<rparr>"
  note st3 = stash_ok [OF c2(2,3), where n = n and off = 0 and cm = cm and c' = c3]
  have z3: "(s\<lparr>slot_data := e\<rparr>)\<lparr>slot_data_len := n, recv_offset := 0, slot_cmd := cm\<rparr> = s\<lparr>slot_data := e, slot_data_len := n, slot_cmd := cm\<rparr>"
    using z(2) by simp
  define ph where "ph = DataPhase \<lparr>dat_tag = tag, dat_base = 0, dat_remaining = n, dat_crc = 0, dat_ddgst = dd,
          dat_kind = InCapsule, dat_retained = kept\<rparr>"
  have "capsule_with_tag ev ctx cm n dd bs tag c = Some (Inr ph, c3)"
    using data r(1) c2(1) slot_ops(1,3,6) [OF c2(3)] s(2)
    by (simp add: capsule_with_tag_def c3_def z3 ph_def slot_ops)
  moreover have "phase_ok c3 ph"
    using st3 c2(4) s(2) data(1) by (simp add: phase_ok_def ph_def transfer_total_def c3_def)
  moreover have keep: "ctx = None \<longrightarrow> \<not> kept" using r(1) by (auto simp: retain_def)
  moreover have "conn_ok R c3" "slot_of (cn_slots c3) tag = Some (s\<lparr>slot_data := e, slot_data_len := n, slot_cmd := cm\<rparr>)"
    "cn_ring c3 = None \<longleftrightarrow> cn_ring c = None"
    using st3 c2(4,5) s(2) z3 by (simp_all add: c3_def)
  ultimately show ?thesis unfolding ph_def by (intro that)
qed

lemma capsule_with_tag_ok:
  assumes ok: "conn_ok R c" and s: "slot_of (cn_slots c) tag = Some s" "slot_state s = Receiving"
    and z: "slot_data_len s = 0" "recv_offset s = 0" and x: "ctx_ok ctx c"
  obtains r c' where "capsule_with_tag ev ctx cm n dd bs tag c = Some (r, c')" "conn_ok R c'"
    "\<And>ph. r = Inr ph \<Longrightarrow> phase_ok c' ph" "cn_ring c' = None \<longleftrightarrow> cn_ring c = None"
proof -
  consider (big) "0 < n" "MDTS_BYTES < n" | (data) "0 < n" "\<not> MDTS_BYTES < n"
    | (r2t_big) "n = 0" "needs_r2t cm" "MDTS_BYTES < sgl_length (dptr cm)"
    | (r2t) "n = 0" "needs_r2t cm" "\<not> MDTS_BYTES < sgl_length (dptr cm)" | (plain) "n = 0" "\<not> needs_r2t cm"
    by (cases "n = 0") (auto simp: word_neq_0_conv)
  then show ?thesis
  proof cases
    case data
    obtain ph c' where "capsule_with_tag ev ctx cm n dd bs tag c = Some (Inr ph, c')" "phase_ok c' ph" "conn_ok R c'"
      "cn_ring c' = None \<longleftrightarrow> cn_ring c = None"
      by (rule capsule_data_ok [OF ok s z x data, of ev cm dd bs])
    then show ?thesis using that [of "Inr ph" c'] by simp
  next
    case r2t
    let ?len = "sgl_length (dptr cm)"
    obtain c2 e where c2: "lease_slot ev tag (unat ?len) c = Some c2" "conn_ok R c2"
        "slot_of (cn_slots c2) tag = Some (s\<lparr>slot_data := e\<rparr>)" "unat ?len \<le> sd_len e"
        "cn_ring c2 = None \<longleftrightarrow> cn_ring c = None"
      by (rule lease_slot_ok [OF ok s z])
    define c3 where "c3 = c2\<lparr>cn_queue := tq_put (put_slot tag ((s\<lparr>slot_data := e\<rparr>)\<lparr>slot_data_len := ?len, recv_offset := 0, slot_cmd := cm\<rparr>)
      (cn_slots c2)) (cn_queue c2)\<rparr>"
    have st3: "conn_ok R c3" "slot_of (cn_slots c3) tag = Some ((s\<lparr>slot_data := e\<rparr>)\<lparr>slot_data_len := ?len, recv_offset := 0, slot_cmd := cm\<rparr>)"
      "cn_ring c3 = cn_ring c2"
      using stash_ok [OF c2(2,3), where n = ?len and off = 0 and cm = cm and c' = c3] c2(4) s(2) by (simp_all add: c3_def)
    define c4 where "c4 = c3\<lparr>cn_queue := fst (tq_push (R2tWork tag (cid cm) 0 ?len) (cn_queue c3)),
      cn_woken := cn_woken c3 @ snd (tq_push (R2tWork tag (cid cm) 0 ?len) (cn_queue c3))\<rparr>"
    have eq: "capsule_with_tag ev ctx cm n dd bs tag c =
        Option.bind (cn_lift (solicit tag (cid cm) 0 ?len (cn_queue c3)) c3) (\<lambda>c. Some (Inr HeaderPhase, c))"
      using r2t c2(1) slot_ops [OF c2(3)] s(2) by (simp add: capsule_with_tag_def c3_def slot_ops Let_def)
    have "cn_lift (solicit tag (cid cm) 0 ?len (cn_queue c3)) c3 = Some c4"
      using st3(2) s(2) by (simp add: cn_lift_def solicit_def c4_def case_prod_beta)
    then have "capsule_with_tag ev ctx cm n dd bs tag c = Some (Inr HeaderPhase, c4)" by (simp add: eq)
    moreover have "conn_ok R c4" using st3(1) by (simp add: conn_ok_def c4_def)
    moreover have "cn_ring c4 = None \<longleftrightarrow> cn_ring c = None" using st3(3) c2(5) by (simp add: c4_def)
    ultimately show ?thesis using that [of "Inr HeaderPhase" c4] by (simp add: phase_ok_def)
  next
    case plain
    obtain c' where "cn_lift (tq_submit tag cm (cn_queue c)) c = Some c'" "conn_ok R c'" "cn_ring c' = cn_ring c"
      by (rule submit_ok [OF ok s])
    then show ?thesis using that [of "Inr HeaderPhase" c'] plain by (simp add: capsule_with_tag_def phase_ok_def)
  qed (use that [of "Inl (term_end DATA_LIMIT_EXCEEDED)" c] ok in \<open>simp_all add: capsule_with_tag_def\<close>)
qed

lemma handle_h2c_ok:
  assumes ok: "conn_ok R c" and x: "ctx_ok ctx c"
  obtains r c' where "handle_h2c ctx cm ttag off len fin n dd bs c = Some (r, c')" "conn_ok R c'"
    "\<And>ph. r = Inr ph \<Longrightarrow> phase_ok c' ph" "cn_ring c' = None \<longleftrightarrow> cn_ring c = None"
proof -
  have nsl: "length (slots (cn_slots c)) = unat (sqsize (tq_nvme (cn_queue c)))"
    using ok by (simp add: conn_ok_def slots_inv_def tags_inv_def)
  have "validate_h2c cm ttag off len n c \<noteq> None"
    by (auto simp: validate_h2c_def slot_of_def nsl Let_def)
  then consider e where "validate_h2c cm ttag off len n c = Some (Inl e)"
    | t where "validate_h2c cm ttag off len n c = Some (Inr t)"
    by (cases "validate_h2c cm ttag off len n c"; cases "the (validate_h2c cm ttag off len n c)") auto
  then show ?thesis
  proof cases
    case 1
    then show ?thesis using that [of "Inl e" c] ok by (simp add: handle_h2c_def)
  next
    case 2
    then obtain s where s: "slot_of (cn_slots c) ttag = Some s" "slot_state s = Receiving" and t: "t = ttag"
      and v: "off = recv_offset s" "0 < len" "\<exists>e. checked_add off len = Some e \<and> e \<le> slot_data_len s"
      by (auto simp: validate_h2c_def Let_def split: if_splits option.splits)
    have fit: "unat off + unat len \<le> unat (slot_data_len s)"
      using v(3) by (auto simp: checked_add_def word_le_nat_alt unat_word_ariths split: if_splits)
    obtain kept c' d where k: "(if off = 0 \<and> len = slot_data_len s then retain ctx ttag bs (unat len) c else Some (False, c)) = Some (kept, c')"
      "conn_ok R c'" "cn_ring c' = None \<longleftrightarrow> cn_ring c = None" "slot_of (cn_slots c') ttag = Some (s\<lparr>slot_data := d\<rparr>)"
    proof (cases "off = 0 \<and> len = slot_data_len s")
      case True
      then have le: "unat (slot_data_len s) \<le> unat len" by simp
      show ?thesis by (rule retain_ok [OF ok s le x, of bs], rule that) (use True in simp_all)
    next
      case False
      have "s\<lparr>slot_data := slot_data s\<rparr> = s" by simp
      then show ?thesis using that [of False c "slot_data s"] False ok s(1) by simp
    qed
    define ph where "ph = DataPhase \<lparr>dat_tag = ttag, dat_base = off, dat_remaining = len, dat_crc = 0, dat_ddgst = dd,
            dat_kind = H2c fin len, dat_retained = kept\<rparr>"
    have "handle_h2c ctx cm ttag off len fin n dd bs c = Some (Inr ph, c')"
      using 2 k(1) s(1) t by (simp add: handle_h2c_def ph_def)
    moreover have "phase_ok c' ph"
      using k(4) s(2) v fit by (simp add: phase_ok_def ph_def transfer_total_def)
    ultimately show ?thesis using that [of "Inr ph" c'] k by simp
  qed
qed

lemma handle_pdu_ok:
  assumes ok: "conn_ok R c" and x: "ctx_ok ctx c" and rv: "rv_phase rv = HeaderPhase" "rv_waiting rv = None"
  obtains r c' where "handle_pdu ev ctx p bs rv c = Some (r, c')" "conn_ok R c'" "cn_ring c' = None \<longleftrightarrow> cn_ring c = None"
    "\<And>rv'. r = Inr rv' \<Longrightarrow> rv_decoder rv' = rv_decoder rv \<and> phase_ok c' (rv_phase rv') \<and>
       (rv_waiting rv' \<noteq> None \<longrightarrow> rv_phase rv' = HeaderPhase)"
proof (cases "pdu_kind p")
  case (CapsuleCmd s)
  show ?thesis
    by (rule that [of "Inr (rv\<lparr>rv_waiting := Some \<lparr>wc_sqe = s, wc_data_len = pdu_data_len p,
      wc_ddgst = pdu_ddgst p \<and> rv_data_digest ev\<rparr>\<rparr>)" c])
      (use CapsuleCmd ok rv in \<open>auto simp: handle_pdu_def phase_ok_def\<close>)
next
  case (H2CData cm ttag off len fin)
  obtain r c' where "handle_h2c ctx cm ttag off len fin (pdu_data_len p) (pdu_ddgst p \<and> rv_data_digest ev) bs c = Some (r, c')"
    "conn_ok R c'" and ph: "\<And>ph. r = Inr ph \<Longrightarrow> phase_ok c' ph" and rg: "cn_ring c' = None \<longleftrightarrow> cn_ring c = None"
    by (rule handle_h2c_ok [OF ok x]) (rule that; assumption)
  then have "handle_pdu ev ctx p bs rv c = Some (map_sum id (\<lambda>ph. rv\<lparr>rv_phase := ph\<rparr>) r, c')" "conn_ok R c'"
    using H2CData by (cases r; simp add: handle_pdu_def)+
  then show ?thesis by (rule that [OF _ _ rg]) (use rv ph in \<open>cases r; auto\<close>)
next
  case (H2CTerm fes fei)
  then show ?thesis using that [of "Inl (EndHostTerm fes fei)" c] ok by (simp add: handle_pdu_def)
qed (use that [of "Inl (term_end PDU_SEQ_ERR)" c] ok in \<open>simp_all add: handle_pdu_def\<close>)

lemma pdu_take_resets: "pdu_take crc d = Some (Inr p, e) \<Longrightarrow> \<not> is_complete e"
  by (auto simp: pdu_take_def Let_def is_complete_def split: option.splits sum.splits if_splits)

lemma feed_header_ok:
  assumes ok: "recv_inv R rv c" and x: "ctx_ok ctx c" and rv: "rv_phase rv = HeaderPhase" "rv_waiting rv = None"
    and bs: "bs \<noteq> []"
  obtains fl rv' bs' c' where "feed_header ev ctx rv bs c = Some (fl, rv', bs', c')" "step_ok R c rv bs fl rv' bs' c'"
proof (cases "pdu_feed (rv_decoder rv) bs")
  case (Inl e)
  then show ?thesis using that [of "Ended (EndTerm e)" rv bs c] ok by (simp add: feed_header_def step_ok_def recv_inv_def)
next
  case (Inr dn)
  obtain d n where f: "pdu_feed (rv_decoder rv) bs = Inr (d, n)" using Inr by (cases dn) auto
  have di: "decoder_inv (rv_decoder rv)" "\<not> is_complete (rv_decoder rv)" and c: "conn_ok R c"
    using ok by (simp_all add: recv_inv_def)
  note fi = pdu_feed_inv [OF di(1) f] and n0 = pdu_feed_progress [OF di bs f]
  have less: "2 * (length bs - n) + 1 < 2 * length bs" using n0 fi bs by (cases "length bs") auto
  show ?thesis
  proof (cases "is_complete d")
    case False
    then show ?thesis
      using that [of Continue "rv\<lparr>rv_decoder := d\<rparr>" "drop n bs" c] f fi c rv less
      by (simp add: feed_header_def step_ok_def recv_inv_def phase_ok_def step_cost_def)
  next
    case True
    obtain r e where t: "pdu_take (rv_crc ev) d = Some (r, e)"
      using pdu_take_no_panic [of d "rv_crc ev"] fi True by auto
    have e: "decoder_inv e" using pdu_take_inv [OF _ t] fi by simp
    let ?rv = "rv\<lparr>rv_decoder := e\<rparr>"
    show ?thesis
    proof (cases r)
      case (Inl q)
      then show ?thesis using that [of "Ended (EndTerm q)" ?rv "drop n bs" c] f t True c
        by (simp add: feed_header_def step_ok_def)
    next
      case (Inr p)
      have rv': "rv_phase ?rv = HeaderPhase" "rv_waiting ?rv = None" using rv by simp_all
      obtain z c' where h: "handle_pdu ev ctx p (drop n bs) ?rv c = Some (z, c')" "conn_ok R c'"
          "cn_ring c' = None \<longleftrightarrow> cn_ring c = None"
        and z: "\<And>rv'. z = Inr rv' \<Longrightarrow> rv_decoder rv' = rv_decoder ?rv \<and> phase_ok c' (rv_phase rv') \<and>
          (rv_waiting rv' \<noteq> None \<longrightarrow> rv_phase rv' = HeaderPhase)"
        by (rule handle_pdu_ok [OF c x rv']) (rule that; assumption)
      have "feed_header ev ctx rv bs c = flow_of (drop n bs) ?rv (Some (z, c'))"
        using f t True Inr h(1) by (simp add: feed_header_def)
      note eq = this
      show ?thesis
      proof (cases z)
        case (Inl q)
        show ?thesis by (rule that [of "Ended q" ?rv "drop n bs" c'])
          (use eq Inl h in \<open>simp_all add: flow_of_def step_ok_def\<close>)
      next
        case (Inr v)
        have "\<not> is_complete e" using t \<open>r = Inr p\<close> by (simp add: pdu_take_resets)
        then show ?thesis
          by (intro that [of Continue v "drop n bs" c'])
            (use eq Inr h z [OF Inr] e less rv in \<open>simp_all add: flow_of_def step_ok_def recv_inv_def step_cost_def\<close>)
      qed
    qed
  qed
qed

lemma claim_conn_ok:
  assumes c: "conn_ok R c" and ne: "free_tags (cn_slots c) \<noteq> []"
  obtains tag a t where "await_tag_poll w (cn_slots c) = Some (Ready tag, a)"
    "conn_ok R (c\<lparr>cn_queue := tq_put a (cn_queue c)\<rparr>)" "slot_of a tag = Some t"
    "slot_state t = Receiving" "slot_data_len t = 0" "recv_offset t = 0" "tag \<in> set (free_tags (cn_slots c))"
proof -
  have inv: "slots_inv R (cn_slots c)" using c by (simp add: conn_ok_def)
  obtain tag s where s: "slot_of (cn_slots c) tag = Some s" "slot_state s = Free" "tag \<in> set (free_tags (cn_slots c))"
    and cl: "claim_tag (cn_slots c) = Some (Some tag, put_slot tag
      (s\<lparr>slot_state := Receiving, slot_data_len := 0, recv_offset := 0\<rparr>)
      ((cn_slots c)\<lparr>free_tags := butlast (free_tags (cn_slots c))\<rparr>))"
    by (rule claim_tag_ok [OF inv ne])
  define t where "t = s\<lparr>slot_state := Receiving, slot_data_len := 0, recv_offset := 0\<rparr>"
  define a where "a = put_slot tag t ((cn_slots c)\<lparr>free_tags := butlast (free_tags (cn_slots c))\<rparr>)"
  have p: "await_tag_poll w (cn_slots c) = Some (Ready tag, a)"
    by (simp add: await_tag_poll_def cl a_def t_def)
  have "conn_ok R (c\<lparr>cn_queue := tq_put a (cn_queue c)\<rparr>)"
    by (rule conn_ok_slot [OF c s(1), where s' = t])
      (use c s await_tag_poll_inv [OF inv p] in \<open>auto simp: a_def t_def slot_room_def conn_ok_def slot_of_Some\<close>)
  moreover have "slot_of a tag = Some t" using s(1) by (simp add: a_def slot_of_Some)
  moreover have "slot_state t = Receiving" "slot_data_len t = 0" "recv_offset t = 0" by (simp_all add: t_def)
  ultimately show ?thesis using s(3) by (rule that [OF p])
qed

lemma claim_step_ok:
  assumes ok: "recv_inv R rv c" and x: "ctx_ok ctx c" and w: "rv_waiting rv = Some w"
  obtains fl rv' bs' c' where "claim_step ev ctx w rv bs c = Some (fl, rv', bs', c')" "step_ok R c rv bs fl rv' bs' c'"
    "fl = Blocked \<longrightarrow> free_tags (cn_slots c) = [] \<and> rv' = rv \<and> tag_waiter (cn_slots c') = Some (rv_waker ev)"
proof -
  have c: "conn_ok R c" "slots_inv R (cn_slots c)" "rv_phase rv = HeaderPhase" using ok w by (simp_all add: recv_inv_def conn_ok_def)
  show ?thesis
  proof (cases "free_tags (cn_slots c) = []")
    case True
    define a where "a = (cn_slots c)\<lparr>tag_waiter := Some (rv_waker ev)\<rparr>"
    have p: "await_tag_poll (rv_waker ev) (cn_slots c) = Some (Pending, a)"
      using True by (simp add: await_tag_poll_def claim_tag_def a_def)
    define c' where "c' = c\<lparr>cn_queue := tq_put a (cn_queue c)\<rparr>"
    have "conn_ok R c'" using c(1) await_tag_poll_inv [OF c(2) p] by (simp add: conn_ok_def c'_def a_def)
    then show ?thesis
      using that [of Blocked rv bs c'] p True ok c(3) w
      by (simp add: claim_step_def c'_def step_ok_def recv_inv_def phase_ok_def a_def)
  next
    case False
    obtain tag a t where p: "await_tag_poll (rv_waker ev) (cn_slots c) = Some (Ready tag, a)"
      and c1: "conn_ok R (c\<lparr>cn_queue := tq_put a (cn_queue c)\<rparr>)"
      and t: "slot_of a tag = Some t" "slot_state t = Receiving" "slot_data_len t = 0" "recv_offset t = 0"
      by (rule claim_conn_ok [OF c(1) False])
    define c1 where "c1 = c\<lparr>cn_queue := tq_put a (cn_queue c)\<rparr>"
    have t1: "slot_of (cn_slots c1) tag = Some t" using t(1) by (simp add: c1_def)
    have x1: "ctx_ok ctx c1" using x by (simp add: ctx_ok_def c1_def split: option.splits prod.splits)
    obtain r c' where r: "capsule_with_tag ev ctx (wc_sqe w) (wc_data_len w) (wc_ddgst w) bs tag c1 = Some (r, c')" "conn_ok R c'"
      and ph: "\<And>ph. r = Inr ph \<Longrightarrow> phase_ok c' ph" and rg: "cn_ring c' = None \<longleftrightarrow> cn_ring c1 = None"
      by (rule capsule_with_tag_ok [OF c1 [folded c1_def] t1 t(2-4) x1]) (rule that; assumption)
    have eq: "claim_step ev ctx w rv bs c = Some (case r of Inl e \<Rightarrow> (Ended e, rv\<lparr>rv_waiting := None\<rparr>, bs, c')
        | Inr ph \<Rightarrow> (Continue, rv\<lparr>rv_waiting := None, rv_phase := ph\<rparr>, bs, c'))"
      using p r(1) by (cases r) (simp_all add: claim_step_def c1_def)
    show ?thesis
    proof (cases r)
      case (Inl e)
      with eq show ?thesis
        by (intro that [of "Ended e" "rv\<lparr>rv_waiting := None\<rparr>" bs c']) (use r(2) rg in \<open>simp_all add: step_ok_def c1_def\<close>)
    next
      case (Inr q)
      with eq show ?thesis
        by (intro that [of Continue "rv\<lparr>rv_waiting := None, rv_phase := q\<rparr>" bs c'])
          (use r(2) ph [OF Inr] rg ok w in \<open>simp_all add: step_ok_def recv_inv_def step_cost_def c1_def\<close>)
    qed
  qed
qed

lemma phase_flow_ok:
  assumes r: "x = Some (r, drop n bs, c')" "0 < n" "conn_ok R c'" "\<And>ph. r = Inr ph \<Longrightarrow> phase_ok c' ph" "cn_ring c' = cn_ring c"
    and ok: "recv_inv R rv c" and w: "rv_waiting rv = None" and bs: "bs \<noteq> []"
  obtains fl rv' bs' where "phase_flow rv x = Some (fl, rv', bs', c')" "step_ok R c rv bs fl rv' bs' c'"
proof (cases r)
  case (Inl e)
  show ?thesis by (rule that [of "Ended e" rv "drop n bs"]) (use Inl r(1,3,5) in \<open>simp_all add: phase_flow_def step_ok_def\<close>)
next
  case (Inr ph)
  have "length bs - n < length bs" using r(2) bs by simp
  then show ?thesis
    by (intro that [of Continue "rv\<lparr>rv_phase := ph\<rparr>" "drop n bs"])
      (use Inr r(1,3,5) r(4) [OF Inr] ok w in \<open>simp_all add: phase_flow_def step_ok_def recv_inv_def step_cost_def\<close>)
qed

lemma phase_flow_ready: "phase_flow rv x = Some (fl, rv', bs', c') \<Longrightarrow> fl \<noteq> Blocked"
  by (auto simp: phase_flow_def split: sum.splits) (metis sum.exhaust)

lemma recv_step_ok:
  assumes ok: "recv_inv R rv c" and x: "ctx_ok ctx c" and bs: "bs \<noteq> [] \<or> rv_waiting rv \<noteq> None"
  obtains fl rv' bs' c' where "recv_step ev ctx rv bs c = Some (fl, rv', bs', c')" "step_ok R c rv bs fl rv' bs' c'"
    "fl = Blocked \<longrightarrow> rv_waiting rv' \<noteq> None \<and> tag_waiter (cn_slots c') = Some (rv_waker ev)"
proof (cases "rv_waiting rv")
  case (Some w)
  show ?thesis by (rule claim_step_ok [OF ok x Some], rule that) (use Some in \<open>auto simp: recv_step_def\<close>)
next
  case None
  then have ne: "bs \<noteq> []" using bs by simp
  have c: "conn_ok R c" "phase_ok c (rv_phase rv)" using ok by (simp_all add: recv_inv_def)
  show ?thesis
  proof (cases "rv_phase rv")
    case HeaderPhase
    obtain fl rv' bs' c' where f: "feed_header ev ctx rv bs c = Some (fl, rv', bs', c')" "step_ok R c rv bs fl rv' bs' c'"
      by (rule feed_header_ok [OF ok x HeaderPhase None ne])
    have "fl \<noteq> Blocked"
      using f(1) by (auto simp: feed_header_def flow_of_def Let_def split: sum.splits option.splits prod.splits if_splits)
        (metis sum.exhaust)
    then show ?thesis by (intro that [OF _ f(2)]) (simp_all add: recv_step_def None HeaderPhase f(1))
  next
    case (DataPhase d)
    obtain r n c' where a: "data_advance ev d bs c = Some (r, drop n bs, c')" "0 < n" "conn_ok R c'"
      "\<And>ph. r = Inr ph \<Longrightarrow> phase_ok c' ph" "cn_ring c' = cn_ring c"
      by (rule data_advance_ok [OF c(1) c(2) [unfolded DataPhase] ne]) (rule that; assumption)
    obtain fl rv' bs' where f: "phase_flow rv (data_advance ev d bs c) = Some (fl, rv', bs', c')" "step_ok R c rv bs fl rv' bs' c'"
      by (rule phase_flow_ok [OF a ok None ne])
    have "fl \<noteq> Blocked" using f(1) by (rule phase_flow_ready)
    then show ?thesis by (intro that [OF _ f(2)]) (simp_all add: recv_step_def None DataPhase f(1))
  next
    case (DdgstPhase g)
    obtain r n c' where a: "ddgst_advance g bs c = Some (r, drop n bs, c')" "0 < n" "conn_ok R c'"
      "\<And>ph. r = Inr ph \<Longrightarrow> phase_ok c' ph" "cn_ring c' = cn_ring c"
      by (rule ddgst_advance_ok [OF c(1) c(2) [unfolded DdgstPhase] ne]) (rule that; assumption)
    obtain fl rv' bs' where f: "phase_flow rv (ddgst_advance g bs c) = Some (fl, rv', bs', c')" "step_ok R c rv bs fl rv' bs' c'"
      by (rule phase_flow_ok [OF a ok None ne])
    have "fl \<noteq> Blocked" using f(1) by (rule phase_flow_ready)
    then show ?thesis by (intro that [OF _ f(2)]) (simp_all add: recv_step_def None DdgstPhase f(1))
  qed
qed

lemma drain_ok:
  assumes "recv_inv R rv c" "ctx_ok ctx c"
  shows "\<exists>fl rv' bs' c'. drain ev ctx rv bs c = Some (fl, rv', bs', c') \<and> drained R ev fl rv' bs' c' \<and>
    (cn_ring c' = None \<longleftrightarrow> cn_ring c = None)"
  using assms
proof (induction "step_cost rv bs" arbitrary: rv bs c rule: less_induct)
  case less
  show ?case
  proof (cases "bs = [] \<and> rv_waiting rv = None")
    case True
    then show ?thesis using less.prems by (simp add: drain.simps drained_def recv_inv_def)
  next
    case False
    then have ne: "bs \<noteq> [] \<or> rv_waiting rv \<noteq> None" by blast
    obtain fl rv' bs' c' where st: "recv_step ev ctx rv bs c = Some (fl, rv', bs', c')" "step_ok R c rv bs fl rv' bs' c'"
      "fl = Blocked \<longrightarrow> rv_waiting rv' \<noteq> None \<and> tag_waiter (cn_slots c') = Some (rv_waker ev)"
      by (rule recv_step_ok [OF less.prems ne])
    note eq = drain.simps [of ev ctx rv bs c, unfolded if_not_P [OF False], unfolded st(1) bind.simps prod.case]
    show ?thesis
    proof (cases "fl = Continue")
      case True
      have "step_cost rv' bs' < step_cost rv bs" "recv_inv R rv' c'" "ctx_ok ctx c'" "cn_ring c' = None \<longleftrightarrow> cn_ring c = None"
        using st(2) True less.prems(2) by (auto simp: step_ok_def ctx_ok_def split: option.splits prod.splits)
      then show ?thesis using less.hyps [of rv' bs' c'] True by (simp add: eq)
    next
      case False
      then show ?thesis using st(2,3) by (cases fl) (simp_all add: eq drained_def step_ok_def)
    qed
  qed
qed

text \<open>A fresh connection, in classic mode or with a ring of which nothing is borrowed.\<close>

lemma recv_inv_start:
  assumes q: "tcp_queue_new addr qi depth bytes dis m = Some (q, m')" and d: "0 < depth"
    and r: "case r of None \<Rightarrow> True | Some b \<Rightarrow> ring_wf b \<and> ring_pending b = [0, 0]"
  shows "recv_inv {} (receiver_new hdg) (conn_start q m' r)"
proof -
  obtain a where a: "slot_array_new addr depth bytes sqe_zeroed m = Some (a, m')" "tq_slots q = a"
    "sqsize (tq_nvme q) = depth" "sqhd (tq_nvme q) = 0"
    using q by (auto simp: tcp_queue_new_def queue_core_new_def)
  have e: "slot_data s = slot_data_empty" "slot_state s = Free" if "s \<in> set (slots a)" for s
    using a(1) that by (auto simp: slot_array_new_def slot_new_def split: option.splits)
  have "owner_bids slot_data_empty = []" by (simp add: owner_bids_def slot_data_empty_def)
  then have "borrowed (slots a) i = 0" for i by (auto simp: borrowed_def filter_empty_conv e)
  then have "ring_balanced r (slots a)"
    using r \<open>owner_bids slot_data_empty = []\<close> by (auto simp: ring_due_def e less_2_cases_iff split: option.splits)
  moreover have "slot_room s" if "s \<in> set (slots a)" for s
    using e [OF that] by (simp add: slot_room_def buf_shape_def slot_data_empty_def)
  ultimately show ?thesis
    using slot_array_new_inv [OF a(1)] a d
    by (simp add: recv_inv_def conn_ok_def conn_start_def receiver_new_def phase_ok_def queue_ok_def decoder_inv_new)
      (simp add: pdu_decoder_new_def is_complete_def)
qed

section \<open>Properties\<close>

text \<open>C5. The inner receive loop ends on every window of bytes a host can send, in either receive
  mode, without a panic. It has then consumed the window, or it waits for a tag with its waker
  stored, or it has ended the connection with an error; and the connection is consistent again:
  every slot has room for what it is receiving, every borrow of the receive ring is owned by exactly
  one slot, and the slot pool's accounting is exact.\<close>

theorem recv_window_ends:
  assumes "recv_inv R rv c" "ctx_ok ctx c"
  shows "\<exists>fl rv' bs' c'. drain ev ctx rv bs c = Some (fl, rv', bs', c') \<and> drained R ev fl rv' bs' c'"
  using drain_ok [OF assms] by blast

definition demo_env :: recv_env where
  "demo_env = \<lparr>rv_append = (\<lambda>k bs. k), rv_data_digest = True, rv_alloc = (\<lambda>_. 2 ^ 30), rv_waker = 7\<rparr>"

lemma demo_queue:
  obtains q m where "tcp_queue_new 0 1 2 8192 True (\<lambda>_. 0) = Some (q, m)"
proof -
  have "pages_for 8192 = Some 2" by (simp add: pages_for_def PAGE_def)
  then have "tcp_queue_new 0 1 2 8192 True (\<lambda>_. 0) \<noteq> None"
    by (simp add: tcp_queue_new_def queue_core_new_def slot_array_new_def buf_pool_new_def case_prod_beta)
  then show ?thesis using that by auto
qed

theorem recv_window_ends_witness:
  "\<exists>q m fl rv bs c. tcp_queue_new 0 1 2 8192 True (\<lambda>_. 0) = Some (q, m) \<and>
     drain demo_env None (receiver_new False) [4, 0, 72, 0, 9] (conn_start q m None) = Some (fl, rv, bs, c) \<and>
     drained {} demo_env fl rv bs c"
proof -
  obtain q m where q: "tcp_queue_new 0 1 2 8192 True (\<lambda>_. 0) = Some (q, m)"
    by (rule demo_queue)
  have "recv_inv {} (receiver_new False) (conn_start q m None)" by (rule recv_inv_start [OF q]) simp_all
  then show ?thesis
    using q recv_window_ends [of "{}" "receiver_new False" "conn_start q m None" None demo_env "[4, 0, 72, 0, 9]"]
    by (auto simp: ctx_ok_def)
qed

end
