(* ===== verification/Tcp_Stream.thy ===== *)
theory Tcp_Stream
  imports Tcp_Recv
begin

text \<open>
  The receive path of \<^verbatim>\<open>ioutgt-nvme-tcp/src/recv.rs\<close> as a function of the byte stream. In classic
  mode the way TCP cuts the stream into windows has no effect, and the direct receive of a payload
  tail is the copy through windows. The CRC library's contract is that a digest may be computed
  piecewise.
\<close>

unbundle bit_operations_syntax

definition crc_piecewise :: "recv_env \<Rightarrow> bool" where
  "crc_piecewise ev \<longleftrightarrow> (\<forall>k xs ys. rv_append ev k (xs @ ys) = rv_append ev (rv_append ev k xs) ys)"

text \<open>CRC-32C (Castagnoli, reflected), the function the CRC library computes.\<close>

primrec crc32c_shift :: "nat \<Rightarrow> u32 \<Rightarrow> u32" where
  "crc32c_shift 0 x = x"
| "crc32c_shift (Suc n) x = crc32c_shift n (if bit x 0 then drop_bit 1 x XOR 0x82F63B78 else drop_bit 1 x)"

definition crc32c_append :: "u32 \<Rightarrow> bytes \<Rightarrow> u32" where
  "crc32c_append k bs = NOT (fold (\<lambda>b x. crc32c_shift 8 (x XOR ucast b)) bs (NOT k))"

definition crc_env :: recv_env where
  "crc_env = \<lparr>rv_append = crc32c_append, rv_data_digest = True, rv_alloc = (\<lambda>_. 2 ^ 30), rv_waker = 7\<rparr>"

text \<open>What is left of a run: a receiver that ended is dropped with its unread bytes.\<close>

definition flow_view ::
  "(flow \<times> receiver \<times> bytes \<times> conn) option \<Rightarrow> (flow \<times> (receiver \<times> bytes) option \<times> conn) option" where
  "flow_view r = map_option (\<lambda>(fl, rv, bs, c). (fl, (case fl of Ended _ \<Rightarrow> None | _ \<Rightarrow> Some (rv, bs)), c)) r"

text \<open>Two windows one after the other.\<close>

definition drain_then ::
  "recv_env \<Rightarrow> bytes \<Rightarrow> (flow \<times> receiver \<times> bytes \<times> conn) option \<Rightarrow> (flow \<times> receiver \<times> bytes \<times> conn) option" where
  "drain_then ev ys r = Option.bind r (\<lambda>(fl, rv, bs, c).
     if fl = Continue then drain ev None rv (bs @ ys) c else Some (fl, rv, bs @ ys, c))"

section \<open>A step on a longer window\<close>

lemma retain_classic: "retain None tag bs n c = Some (False, c)"
  by (simp add: retain_def)

lemma h2c_ext: "handle_h2c None cm t off len fin n dd bs c = handle_h2c None cm t off len fin n dd bs' c"
  unfolding handle_h2c_def retain_classic ..

lemma pdu_ext: "handle_pdu ev None p bs rv c = handle_pdu ev None p bs' rv c"
  unfolding handle_pdu_def by (simp only: h2c_ext [of _ _ _ _ _ _ _ bs _ bs'])

lemma capsule_ext: "capsule_with_tag ev None s n dd bs tag c = capsule_with_tag ev None s n dd bs' tag c"
  unfolding capsule_with_tag_def retain_classic ..

text \<open>A step on the longer window does the same, or what the step on the first part began.\<close>

definition step_extends ::
  "recv_env \<Rightarrow> receiver \<Rightarrow> bytes \<Rightarrow> bytes \<Rightarrow> conn \<Rightarrow> flow \<Rightarrow> receiver \<Rightarrow> bytes \<Rightarrow> conn \<Rightarrow> bool" where
  "step_extends ev rv xs ys c fl rv' bs' c' \<longleftrightarrow>
     flow_view (recv_step ev None rv (xs @ ys) c) = flow_view (Some (fl, rv', bs' @ ys, c')) \<or>
     fl = Continue \<and> bs' = [] \<and> rv_waiting rv' = None \<and>
       flow_view (recv_step ev None rv (xs @ ys) c) = flow_view (recv_step ev None rv' ys c')"

lemma claim_extends:
  assumes "rv_waiting rv = Some w" "claim_step ev None w rv xs c = Some (fl, rv', bs', c')"
  shows "step_extends ev rv xs ys c fl rv' bs' c'"
proof -
  have "claim_step ev None w rv (xs @ ys) c = Some (fl, rv', bs' @ ys, c')"
    using assms(2) capsule_ext [of ev "wc_sqe w" "wc_data_len w" "wc_ddgst w" xs _ _ "xs @ ys"]
    by (auto simp: claim_step_def split: Option.bind_splits option.splits poll.splits sum.splits)
  then show ?thesis by (simp add: step_extends_def recv_step_def assms(1))
qed

lemma flow_of_ext: "flow_of bs rv r = Some (fl, rv', bs', c') \<Longrightarrow> flow_of (bs @ ys) rv r = Some (fl, rv', bs' @ ys, c')"
  by (cases r; cases "fst (the r)") (auto simp: flow_of_def)

lemma feed_extends:
  assumes inv: "decoder_inv (rv_decoder rv)" and rv: "rv_phase rv = HeaderPhase" "rv_waiting rv = None"
    and f: "feed_header ev None rv xs c = Some (fl, rv', bs', c')"
  shows "step_extends ev rv xs ys c fl rv' bs' c'"
proof (cases "pdu_feed (rv_decoder rv) xs")
  case (Inl e)
  then have "pdu_feed (rv_decoder rv) (xs @ ys) = Inl e" by (simp add: feed_append [OF inv])
  then show ?thesis using f Inl rv by (auto simp: step_extends_def recv_step_def feed_header_def flow_view_def)
next
  case (Inr r)
  obtain d n where d: "pdu_feed (rv_decoder rv) xs = Inr (d, n)" using Inr by (cases r) auto
  note di = pdu_feed_inv [OF inv d]
  show ?thesis
  proof (cases "is_complete d")
    case False
    then have n: "n = length xs" using di by auto
    have eq: "pdu_feed (rv_decoder rv) (xs @ ys) =
        (case pdu_feed d ys of Inl e \<Rightarrow> Inl e | Inr (e, k) \<Rightarrow> Inr (e, length xs + k))"
      by (simp add: feed_append [OF inv] d n)
    have r: "fl = Continue" "rv' = rv\<lparr>rv_decoder := d\<rparr>" "bs' = []" "c' = c"
      using f d False n by (auto simp: feed_header_def)
    have "flow_view (feed_header ev None rv (xs @ ys) c) = flow_view (feed_header ev None rv' ys c)"
      by (simp add: feed_header_def eq r flow_view_def split: sum.split prod.split)
    then show ?thesis using r rv by (simp add: step_extends_def recv_step_def)
  next
    case True
    have "pdu_feed d zs = Inr (d, 0)" for zs using True by (simp add: pdu_feed_Complete is_complete_def)
    then have eq: "pdu_feed (rv_decoder rv) (xs @ ys) = Inr (d, n)" by (simp add: feed_append [OF inv] d)
    have "feed_header ev None rv (xs @ ys) c = Some (fl, rv', bs' @ ys, c')"
      using f d True eq di pdu_ext [of ev _ "drop n xs" _ _ "drop n xs @ ys"]
      by (auto simp: feed_header_def Let_def split: option.splits sum.splits prod.splits dest: flow_of_ext)
    then show ?thesis using rv by (simp add: step_extends_def recv_step_def)
  qed
qed

lemma phase_flow_extends:
  assumes rv: "rv_waiting rv = None" "\<And>zs d. recv_step ev None rv zs d = phase_flow rv (adv zs d)"
    and a: "adv xs c = Some (r, bs, c')" and f: "phase_flow rv (adv xs c) = Some (fl, rv', bs', c'')"
    and e: "adv (xs @ ys) c = Some (r, bs @ ys, c') \<or> (\<exists>ph. r = Inr ph \<and> bs = [] \<and>
      (\<forall>w. rv_waiting w = None \<longrightarrow> rv_phase w = ph \<longrightarrow> recv_step ev None w ys c' = phase_flow w (adv (xs @ ys) c)))"
  shows "step_extends ev rv xs ys c fl rv' bs' c''"
  using e
proof
  assume "adv (xs @ ys) c = Some (r, bs @ ys, c')"
  then show ?thesis using f a rv by (cases r) (auto simp: step_extends_def phase_flow_def)
next
  assume "\<exists>ph. r = Inr ph \<and> bs = [] \<and>
      (\<forall>w. rv_waiting w = None \<longrightarrow> rv_phase w = ph \<longrightarrow> recv_step ev None w ys c' = phase_flow w (adv (xs @ ys) c))"
  then obtain ph where ph: "r = Inr ph" "bs = []"
    "\<And>w. rv_waiting w = None \<Longrightarrow> rv_phase w = ph \<Longrightarrow> recv_step ev None w ys c' = phase_flow w (adv (xs @ ys) c)" by blast
  have r: "fl = Continue" "rv' = rv\<lparr>rv_phase := ph\<rparr>" "bs' = []" "c'' = c'" using f a ph by (auto simp: phase_flow_def)
  have "flow_view (phase_flow rv x) = flow_view (phase_flow (rv\<lparr>rv_phase := ph\<rparr>) x)" for x
    by (auto simp: flow_view_def phase_flow_def map_option_case split: option.split sum.split)
  then show ?thesis using ph(3) [of rv'] r rv by (simp add: step_extends_def)
qed

lemma data_advance_longer:
  assumes "unat (dat_remaining d) \<le> length xs" "data_advance ev d xs c = Some (r, bs, c')"
  shows "data_advance ev d (xs @ ys) c = Some (r, bs @ ys, c')"
proof -
  have m: "min (unat (dat_remaining d)) (length xs) = unat (dat_remaining d)"
    "min (unat (dat_remaining d)) (length (xs @ ys)) = unat (dat_remaining d)" using assms(1) by simp_all
  show ?thesis using assms unfolding data_advance_def m by (auto simp: Let_def split: Option.bind_splits if_splits)
qed

lemma data_advance_partial:
  assumes ok: "conn_ok R c" and p: "phase_ok c (DataPhase d)" and crc: "crc_piecewise ev"
    and xs: "xs \<noteq> []" "length xs < unat (dat_remaining d)"
  obtains e c' where "data_advance ev d xs c = Some (Inr (DataPhase e), [], c')"
    "data_advance ev d (xs @ ys) c = data_advance ev e ys c'"
proof -
  obtain s dest where s: "slot_of (cn_slots c) (dat_tag d) = Some s" "slot_state s = Receiving" "data_dest d s = Some dest"
    "unat dest + unat (dat_remaining d) \<le> unat (slot_data_len s)" "slot_data_wf (slot_data s)"
    "unat (slot_data_len s) \<le> sd_len (slot_data s)"
    "unat dest = unat (dat_base d) + (unat (transfer_total (dat_kind d) s) - unat (dat_remaining d))"
    "dat_remaining d \<le> transfer_total (dat_kind d) s"
    by (rule data_dest_ok [OF ok p])
  define k where "k = length xs"
  define e where "e = (let d = (if dat_ddgst d then d\<lparr>dat_crc := rv_append ev (dat_crc d) xs\<rparr> else d)
    in d\<lparr>dat_remaining := dat_remaining d - of_nat k\<rparr>)"
  have e: "dat_tag e = dat_tag d" "dat_kind e = dat_kind d" "dat_base e = dat_base d" "dat_retained e = dat_retained d"
    "dat_ddgst e = dat_ddgst d" "dat_remaining e = dat_remaining d - of_nat k"
    by (simp_all add: e_def Let_def)
  have rem: "unat (dat_remaining e) = unat (dat_remaining d) - k" using xs(2) by (simp add: e(6) unat_sub_of_nat k_def)
  have pe: "phase_ok c (DataPhase e)"
    using p rem xs(2) unfolding phase_ok_def recv_phase.case e(1-3)
    by (auto simp: word_less_nat_alt word_le_nat_alt k_def)
  obtain dest' where d': "data_dest e s = Some dest'"
    "unat dest' = unat (dat_base d) + (unat (transfer_total (dat_kind d) s) - unat (dat_remaining e))"
    by (rule data_dest_ok [OF ok pe]) (use s(1) that in \<open>simp add: e\<close>)
  have dd: "unat dest' = unat dest + k"
    using d'(2) s(7,8) rem xs(2) by (simp add: word_le_nat_alt k_def)
  define j where "j = min (unat (dat_remaining e)) (length ys)"
  have n: "min (unat (dat_remaining d)) (length xs) = k" "take k xs = xs" "drop k xs = []"
    "min (unat (dat_remaining d)) (length (xs @ ys)) = k + j" "take (k + j) (xs @ ys) = xs @ take j ys"
    "drop (k + j) (xs @ ys) = drop j ys"
    using xs(2) rem by (auto simp: j_def k_def)
  have le: "unat dest + length xs + length (take j ys) \<le> sd_len (slot_data s)"
    using s(4,6) rem xs(2) by (simp add: j_def k_def)
  then have l1: "unat dest + length xs \<le> sd_len (slot_data s)" by simp
  obtain m1 where m1: "write_at (slot_data s) (unat dest) xs (cn_mem c) = Some m1"
    by (rule write_at_spec [OF s(5) l1])
  have m2: "write_at (slot_data s) (unat dest) (xs @ take j ys) (cn_mem c) = write_at (slot_data s) (unat dest') (take j ys) m1"
    using write_at_append [OF s(5) le, of "cn_mem c"] m1 by (simp add: dd k_def)
  define c' where "c' = c\<lparr>cn_mem := if dat_retained d then cn_mem c else m1\<rparr>"
  have "0 < dat_remaining e" using rem xs(2) by (simp add: word_less_nat_alt k_def)
  then have one: "data_advance ev d xs c = Some (Inr (DataPhase e), [], c')"
    unfolding data_advance_def n Let_def e_def [unfolded Let_def, symmetric]
    using s(1,3) m1 by (simp add: c'_def)
  define f where "f = (let e = (if dat_ddgst e then e\<lparr>dat_crc := rv_append ev (dat_crc e) (take j ys)\<rparr> else e)
    in e\<lparr>dat_remaining := dat_remaining e - of_nat j\<rparr>)"
  have f: "f = (let d = (if dat_ddgst d then d\<lparr>dat_crc := rv_append ev (dat_crc d) (xs @ take j ys)\<rparr> else d)
    in d\<lparr>dat_remaining := dat_remaining d - of_nat (k + j)\<rparr>)"
    using crc by (simp add: f_def e_def Let_def crc_piecewise_def diff_diff_eq)
  have "data_advance ev d (xs @ ys) c = data_advance ev e ys c'"
    unfolding data_advance_def n Let_def j_def [symmetric] f_def [unfolded Let_def, symmetric] f [unfolded Let_def, symmetric] e(1,4)
    using s(1,3) d'(1) m2 by (simp add: c'_def)
  with one show ?thesis by (rule that)
qed

lemma ddgst_advance_longer:
  assumes "4 - dg_have_len g \<le> length xs" "ddgst_advance g xs c = Some (r, bs, c')"
  shows "ddgst_advance g (xs @ ys) c = Some (r, bs @ ys, c')"
proof -
  have m: "min (4 - dg_have_len g) (length xs) = 4 - dg_have_len g"
    "min (4 - dg_have_len g) (length (xs @ ys)) = 4 - dg_have_len g" using assms(1) by simp_all
  show ?thesis
    using assms unfolding ddgst_advance_def m
    by (auto simp: Let_def split: Option.bind_splits if_splits option.splits sum.splits)
qed

lemma ddgst_advance_partial:
  assumes p: "phase_ok c (DdgstPhase g)" and xs: "length xs < 4 - dg_have_len g"
  obtains h where "ddgst_advance g xs c = Some (Inr (DdgstPhase h), [], c)"
    "ddgst_advance g (xs @ ys) c = ddgst_advance h ys c"
proof -
  have g: "dg_have_len g < 4" "length (dg_have g) = 4" using p by (simp_all add: phase_ok_def)
  define k where "k = length xs"
  define h where "h = g\<lparr>dg_have := splice (dg_have_len g) xs (dg_have g), dg_have_len := dg_have_len g + k\<rparr>"
  define j where "j = min (4 - dg_have_len h) (length ys)"
  have n: "min (4 - dg_have_len g) (length xs) = k" "take k xs = xs" "drop k xs = []"
    "min (4 - dg_have_len g) (length (xs @ ys)) = k + j" "take (k + j) (xs @ ys) = xs @ take j ys"
    "drop (k + j) (xs @ ys) = drop j ys"
    using xs by (auto simp: j_def k_def h_def)
  have hl: "dg_have_len h < 4" using xs by (simp add: h_def k_def)
  have one: "ddgst_advance g xs c = Some (Inr (DdgstPhase h), [], c)"
    using hl unfolding ddgst_advance_def n Let_def h_def [symmetric] by simp
  have f: "g\<lparr>dg_have := splice (dg_have_len g) (xs @ take j ys) (dg_have g), dg_have_len := dg_have_len g + (k + j)\<rparr> =
      h\<lparr>dg_have := splice (dg_have_len h) (take j ys) (dg_have h), dg_have_len := dg_have_len h + j\<rparr>"
    using splice_append [of "dg_have_len g" xs "take j ys" "dg_have g"] g xs by (simp add: h_def k_def j_def)
  have "ddgst_advance g (xs @ ys) c = ddgst_advance h ys c"
    unfolding ddgst_advance_def n Let_def f j_def [symmetric] ..
  with one show ?thesis by (rule that)
qed

lemma step_extends_ok:
  assumes ok: "recv_inv R rv c" and crc: "crc_piecewise ev" and ne: "xs \<noteq> [] \<or> rv_waiting rv \<noteq> None"
    and st: "recv_step ev None rv xs c = Some (fl, rv', bs', c')"
  shows "step_extends ev rv xs ys c fl rv' bs' c'"
proof (cases "rv_waiting rv")
  case (Some w)
  then show ?thesis using st claim_extends [OF Some] by (simp add: recv_step_def)
next
  case None
  have xs: "xs \<noteq> []" using ne None by simp
  have c: "conn_ok R c" "phase_ok c (rv_phase rv)" "decoder_inv (rv_decoder rv)" using ok by (simp_all add: recv_inv_def)
  show ?thesis
  proof (cases "rv_phase rv")
    case HeaderPhase
    then show ?thesis using st feed_extends [OF c(3) HeaderPhase None] None by (simp add: recv_step_def)
  next
    case (DataPhase d)
    have rs: "recv_step ev None rv zs x = phase_flow rv (data_advance ev d zs x)" for zs x
      by (simp add: recv_step_def None DataPhase)
    obtain r n c1 where a: "data_advance ev d xs c = Some (r, drop n xs, c1)"
      by (rule data_advance_ok [OF c(1) c(2) [unfolded DataPhase] xs])
    show ?thesis
    proof (rule phase_flow_extends [OF None rs a st [unfolded rs]])
      show "data_advance ev d (xs @ ys) c = Some (r, drop n xs @ ys, c1) \<or> (\<exists>ph. r = Inr ph \<and> drop n xs = [] \<and>
        (\<forall>w. rv_waiting w = None \<longrightarrow> rv_phase w = ph \<longrightarrow> recv_step ev None w ys c1 = phase_flow w (data_advance ev d (xs @ ys) c)))"
      proof (cases "unat (dat_remaining d) \<le> length xs")
        case True
        then show ?thesis using data_advance_longer [OF _ a] by simp
      next
        case False
        obtain e c' where "data_advance ev d xs c = Some (Inr (DataPhase e), [], c')"
          "data_advance ev d (xs @ ys) c = data_advance ev e ys c'"
          by (rule data_advance_partial [OF c(1) c(2) [unfolded DataPhase] crc xs]) (use False in auto)
        then show ?thesis using a by (auto simp: recv_step_def)
      qed
    qed
  next
    case (DdgstPhase g)
    have rs: "recv_step ev None rv zs x = phase_flow rv (ddgst_advance g zs x)" for zs x
      by (simp add: recv_step_def None DdgstPhase)
    obtain r n c1 where a: "ddgst_advance g xs c = Some (r, drop n xs, c1)"
      by (rule ddgst_advance_ok [OF c(1) c(2) [unfolded DdgstPhase] xs])
    show ?thesis
    proof (rule phase_flow_extends [OF None rs a st [unfolded rs]])
      show "ddgst_advance g (xs @ ys) c = Some (r, drop n xs @ ys, c1) \<or> (\<exists>ph. r = Inr ph \<and> drop n xs = [] \<and>
        (\<forall>w. rv_waiting w = None \<longrightarrow> rv_phase w = ph \<longrightarrow> recv_step ev None w ys c1 = phase_flow w (ddgst_advance g (xs @ ys) c)))"
      proof (cases "4 - dg_have_len g \<le> length xs")
        case True
        then show ?thesis using ddgst_advance_longer [OF _ a] by simp
      next
        case False
        obtain h where "ddgst_advance g xs c = Some (Inr (DdgstPhase h), [], c)"
          "ddgst_advance g (xs @ ys) c = ddgst_advance h ys c"
          by (rule ddgst_advance_partial [OF c(2) [unfolded DdgstPhase]]) (use False in auto)
        then show ?thesis using a by (auto simp: recv_step_def)
      qed
    qed
  qed
qed

section \<open>The loop on a longer window\<close>

text \<open>What follows a step depends on its view only.\<close>

lemma flow_view_next:
  assumes "flow_view r = flow_view r'"
  shows "flow_view (Option.bind r (\<lambda>(fl, rv, bs, c). if fl = Continue then drain ev ctx rv bs c else Some (fl, rv, bs, c))) =
    flow_view (Option.bind r' (\<lambda>(fl, rv, bs, c). if fl = Continue then drain ev ctx rv bs c else Some (fl, rv, bs, c)))"
  using assms by (cases r; cases r') (auto simp: flow_view_def split: flow.splits)

lemma drain_append:
  assumes "recv_inv R rv c" "crc_piecewise ev"
  shows "flow_view (drain ev None rv (xs @ ys) c) = flow_view (drain_then ev ys (drain ev None rv xs c))"
  using assms(1)
proof (induction "step_cost rv xs" arbitrary: rv xs c rule: less_induct)
  case less
  let ?K = "\<lambda>(fl, rv, bs, c). if fl = Continue then drain ev None rv bs c else Some (fl, rv, bs, c)"
  show ?case
  proof (cases "xs = [] \<and> rv_waiting rv = None")
    case True
    then show ?thesis by (simp add: drain_then_def drain.simps [of ev None rv "[]" c])
  next
    case False
    then have ne: "xs \<noteq> [] \<or> rv_waiting rv \<noteq> None" "\<not> (xs @ ys = [] \<and> rv_waiting rv = None)" by auto
    have x: "ctx_ok None c" by (simp add: ctx_ok_def)
    obtain fl rv' bs' c' where st: "recv_step ev None rv xs c = Some (fl, rv', bs', c')" "step_ok R c rv xs fl rv' bs' c'"
      by (rule recv_step_ok [OF less.prems x ne(1)])
    note eq = drain.simps [of ev None rv xs c, unfolded if_not_P [OF False], unfolded st(1) bind.simps prod.case]
    note eq' = drain.simps [of ev None rv "xs @ ys" c, unfolded if_not_P [OF ne(2)]]
    from step_extends_ok [OF less.prems assms(2) ne(1) st(1), of ys]
    consider (same) "flow_view (recv_step ev None rv (xs @ ys) c) = flow_view (Some (fl, rv', bs' @ ys, c'))"
      | (part) "fl = Continue" "bs' = []" "rv_waiting rv' = None"
        "flow_view (recv_step ev None rv (xs @ ys) c) = flow_view (recv_step ev None rv' ys c')"
      unfolding step_extends_def by argo
    then show ?thesis
    proof cases
      case same
      show ?thesis
      proof (cases "fl = Continue")
        case True
        have "step_cost rv' bs' < step_cost rv xs" "recv_inv R rv' c'" using st(2) True by (simp_all add: step_ok_def)
        then have "flow_view (drain ev None rv' (bs' @ ys) c') = flow_view (drain_then ev ys (drain ev None rv' bs' c'))"
          by (rule less.hyps)
        then show ?thesis using flow_view_next [OF same, of ev None] True by (simp add: eq eq')
      next
        case False
        then show ?thesis using flow_view_next [OF same, of ev None] by (simp add: eq eq' drain_then_def)
      qed
    next
      case part
      have r: "drain ev None rv xs c = Some (Continue, rv', [], c')"
        using part(1-3) by (simp add: eq drain.simps [of ev None rv' "[]" c'])
      show ?thesis
      proof (cases "ys = []")
        case True
        then show ?thesis using part(3) by (simp add: r drain_then_def drain.simps [of ev None rv' "[]" c'])
      next
        case False
        then have "\<not> (ys = [] \<and> rv_waiting rv' = None)" by simp
        note eq2 = drain.simps [of ev None rv' ys c', unfolded if_not_P [OF this]]
        show ?thesis using flow_view_next [OF part(4), of ev None] by (simp add: r drain_then_def eq' eq2)
      qed
    qed
  qed
qed

section \<open>Payload tails\<close>

lemma fill_subsegs_chunks:
  "seg_chunks ss off len = Some cs \<Longrightarrow> length cs \<le> room \<Longrightarrow> fill_subsegs room ss off len = Some cs"
proof (induction room ss off len arbitrary: cs rule: fill_subsegs.induct)
  case (1 room off len)
  then show ?case by (simp split: if_splits)
next
  case (2 room s ss off len)
  then show ?case by (auto simp: Let_def split: if_splits)
qed

lemma write_segs_scatter:
  "seg_chunks ss off (length src) = Some cs \<Longrightarrow> write_segs_at ss off src m = Some (scatter_write cs src m)"
proof (induction ss off src m arbitrary: cs rule: write_segs_at.induct)
  case (1 off src m)
  then show ?case by (simp split: if_splits)
next
  case (2 s ss off src m)
  show ?case
  proof (cases "src = [] \<or> seg_len s \<le> off")
    case True
    then show ?thesis using 2 by (auto split: if_splits)
  next
    case False
    let ?n = "min (seg_len s - off) (length src)"
    obtain cs' where cs: "seg_chunks ss 0 (length (drop ?n src)) = Some cs'" "cs = (seg_ptr s + off, ?n) # cs'"
      using False 2(3) by (auto simp: Let_def)
    show ?thesis using False 2(2) [OF _ _ refl cs(1)] cs(2) by (simp add: Let_def)
  qed
qed

lemma iov_skip_Some: "k \<le> iov_total vs \<Longrightarrow> \<exists>vs'. iov_skip k vs = Some vs' \<and> iov_total vs' = iov_total vs - k"
proof (induction k vs rule: iov_skip.induct)
  case (2 k p n vs)
  then show ?case by (auto simp: iov_total_def add.commute)
qed (simp add: iov_total_def)

lemma scatter_write_Nil [simp]: "scatter_write vs [] m = m"
  by (induction vs) auto

lemma mem_write_append: "mem_write p (xs @ ys) m = mem_write (p + length xs) ys (mem_write p xs m)"
  by (auto simp: mem_write_def nth_append fun_eq_iff)

lemma scatter_append:
  "length xs \<le> iov_total vs \<Longrightarrow> iov_skip (length xs) vs = Some vs' \<Longrightarrow>
    scatter_write vs (xs @ ys) m = scatter_write vs' ys (scatter_write vs xs m)"
proof (induction vs xs m arbitrary: rule: scatter_write.induct)
  case (1 bs m)
  then show ?case by (simp add: iov_total_def)
next
  case (2 p n vs bs m)
  then show ?case by (auto simp: iov_total_def mem_write_append split: if_splits)
qed

text \<open>However the answers of the receives cut the bytes, they end up as if scattered at once.\<close>

lemma read_direct_all:
  "length (concat bss) = iov_total vs \<Longrightarrow> [] \<notin> set bss \<Longrightarrow> want = have0 + iov_total vs \<Longrightarrow>
    read_direct (map Inr bss) vs want have0 m = Some (Ready (Inr want), scatter_write vs (concat bss) m)"
proof (induction bss arbitrary: vs have0 m)
  case Nil
  then show ?case by (simp add: read_direct.simps)
next
  case (Cons bs bss)
  have le: "length bs \<le> iov_total vs" using Cons.prems(1) by simp
  obtain vs' where v: "iov_skip (length bs) vs = Some vs'" "iov_total vs' = iov_total vs - length bs"
    using iov_skip_Some [OF le] by blast
  have ne: "bs \<noteq> []" using Cons.prems(2) by auto
  have "\<not> want \<le> have0" using Cons.prems ne by (cases bs) auto
  then have "read_direct (map Inr (bs # bss)) vs want have0 m =
      read_direct (map Inr bss) vs' want (have0 + length bs) (scatter_write vs bs m)"
    using v(1) ne by (simp add: read_direct.simps [of "_ # _"])
  also have "\<dots> = Some (Ready (Inr want), scatter_write vs' (concat bss) (scatter_write vs bs m))"
    by (rule Cons.IH) (use Cons.prems v(2) le in simp_all)
  finally show ?case by (simp add: scatter_append [OF le v(1)])
qed

lemma crc_fold:
  "crc_piecewise ev \<Longrightarrow> vs \<noteq> [] \<Longrightarrow>
    fold (\<lambda>(p, n) k. rv_append ev k (mem_read m p n)) vs k = rv_append ev k (concat (map (\<lambda>(p, n). mem_read m p n) vs))"
proof (induction vs arbitrary: k)
  case (Cons v vs)
  then show ?case by (cases "vs = []") (auto simp: crc_piecewise_def case_prod_beta)
qed simp

lemma seg_chunks_total: "seg_chunks ss off len = Some cs \<Longrightarrow> iov_total cs = len"
  by (induction ss off len arbitrary: cs rule: seg_chunks.induct) (auto simp: iov_total_def Let_def split: if_splits)

lemma tail_direct_copy:
  assumes ok: "conn_ok R c" and p: "phase_ok c (DataPhase d)" and crc: "crc_piecewise ev" and cl: "\<not> dat_retained d"
    and bss: "[] \<notin> set bss" "length (concat bss) = unat (dat_remaining d)"
  shows "recv_tail_direct ev (map Inr bss) d c =
    map_option (\<lambda>(r, _, c). (Ready r, c)) (data_advance ev d (concat bss) c)"
proof -
  let ?src = "concat bss" and ?n = "unat (dat_remaining d)"
  obtain s dest where s: "slot_of (cn_slots c) (dat_tag d) = Some s" "data_dest d s = Some dest"
    "unat dest + ?n \<le> unat (slot_data_len s)" "slot_data_wf (slot_data s)" "unat (slot_data_len s) \<le> sd_len (slot_data s)"
    by (rule data_dest_ok [OF ok p])
  have le: "unat dest + length ?src \<le> sd_len (slot_data s)" "unat dest + ?n \<le> sum_list (map seg_len (sd_segs (slot_data s)))"
    using s(3-5) bss(2) by (simp_all add: slot_data_wf_def)
  have pos: "0 < ?n" using p by (simp add: phase_ok_def word_less_nat_alt)
  obtain m where m: "write_at (slot_data s) (unat dest) ?src (cn_mem c) = Some m"
    "contents m (slot_data s) = splice (unat dest) ?src (contents (cn_mem c) (slot_data s))"
    by (rule write_at_spec [OF s(4) le(1)])
  obtain cs where cs: "seg_chunks (sd_segs (slot_data s)) (unat dest) ?n = Some cs"
    "concat (map (\<lambda>(a, n). mem_read m a n) cs) = slice (unat dest) ?n (contents m (slot_data s))" "length cs \<le> length (sd_segs (slot_data s))"
    using seg_chunks_spec [OF le(2), of m] unfolding contents_def by blast
  have sub: "fill_subsegs MAX_SEGS (sd_segs (slot_data s)) (unat dest) ?n = Some cs"
    using fill_subsegs_chunks [OF cs(1)] cs(3) s(4) by (simp add: slot_data_wf_def)
  have tot: "iov_total cs = ?n" by (rule seg_chunks_total [OF cs(1)])
  have sw: "scatter_write cs ?src (cn_mem c) = m"
    using m(1) write_segs_scatter [of "sd_segs (slot_data s)" "unat dest" ?src cs "cn_mem c"] cs(1) bss(2) by (simp add: write_at_def)
  have "length ?src = iov_total cs" "iov_total cs = 0 + iov_total cs" using bss(2) tot by simp_all
  from read_direct_all [OF this(1) bss(1) this(2), of "cn_mem c"]
  have rd: "read_direct (map Inr bss) cs (iov_total cs) 0 (cn_mem c) = Some (Ready (Inr ?n), m)" unfolding sw tot .
  have "slice (unat dest) ?n (contents m (slot_data s)) = ?src"
    using slice_splice_same [of "unat dest" ?src "contents (cn_mem c) (slot_data s)"] le(1) s(4) bss(2) by (simp add: m(2))
  moreover have "cs \<noteq> []" using tot pos by (auto simp: iov_total_def)
  ultimately have fo: "fold (\<lambda>(p, n) k. rv_append ev k (mem_read m p n)) cs k = rv_append ev k ?src" for k
    using crc_fold [OF crc, of cs m k] cs(2) by simp
  have mn: "min ?n (length ?src) = ?n" "take ?n ?src = ?src" using bss(2) by simp_all
  have pd: "payload_done (e\<lparr>dat_remaining := z\<rparr>) x = payload_done e x" for e z x by (simp add: payload_done_def)
  define e where "e = (if dat_ddgst d then d\<lparr>dat_crc := rv_append ev (dat_crc d) ?src\<rparr> else d)"
  have z: "dat_remaining e = dat_remaining d" by (simp add: e_def)
  have "recv_tail_direct ev (map Inr bss) d c = map_option (\<lambda>(r, c). (Ready r, c)) (payload_done e (c\<lparr>cn_mem := m\<rparr>))"
    using s(1,2) sub rd by (simp add: recv_tail_direct_def Let_def fo e_def)
  moreover have "data_advance ev d ?src c =
      map_option (\<lambda>(r, c). (r, drop ?n ?src, c)) (payload_done e (c\<lparr>cn_mem := m\<rparr>))"
    unfolding data_advance_def Let_def mn e_def [symmetric] using s(1,2) m(1) cl by (simp add: z pd)
  ultimately show ?thesis by (cases "payload_done e (c\<lparr>cn_mem := m\<rparr>)") auto
qed

section \<open>Properties\<close>

lemma crc_env_piecewise: "crc_piecewise crc_env"
  by (simp add: crc_piecewise_def crc_env_def crc32c_append_def)

text \<open>C6. In classic mode the receive path does not depend on how TCP cuts the stream into windows:
  receiving a stream in two windows leaves the receiver, every slot, the memory, the send queue and
  the woken tasks as receiving it in one, and ends the connection with the same error if it does.
  The CRC library is only assumed to allow piecewise computation.\<close>

theorem recv_fragmentation:
  assumes "recv_inv R rv c" "crc_piecewise ev"
  shows "flow_view (drain ev None rv (xs @ ys) c) = flow_view (drain_then ev ys (drain ev None rv xs c))"
  using assms by (rule drain_append)

theorem recv_fragmentation_witness:
  "\<exists>q m. tcp_queue_new 0 1 2 8192 True (\<lambda>_. 0) = Some (q, m) \<and>
     flow_view (drain crc_env None (receiver_new True) ([4, 1, 72] @ [0, 76, 0, 0, 0, 6]) (conn_start q m None)) =
     flow_view (drain_then crc_env [0, 76, 0, 0, 0, 6] (drain crc_env None (receiver_new True) [4, 1, 72] (conn_start q m None)))"
proof -
  obtain q m where q: "tcp_queue_new 0 1 2 8192 True (\<lambda>_. 0) = Some (q, m)" by (rule demo_queue)
  have inv: "recv_inv {} (receiver_new True) (conn_start q m None)" by (rule recv_inv_start [OF q]) simp_all
  show ?thesis
    by (intro exI conjI) (rule q, rule recv_fragmentation [OF inv crc_env_piecewise])
qed

text \<open>A connection with one transfer of four bytes under way.\<close>

lemma demo_receiving:
  obtains c tag s where "conn_ok {} c" "slot_of (cn_slots c) tag = Some s" "slot_state s = Receiving"
    "slot_data_len s = 4" "recv_offset s = 0"
proof -
  obtain q m where q: "tcp_queue_new 0 1 2 8192 True (\<lambda>_. 0) = Some (q, m)" by (rule demo_queue)
  define c0 where "c0 = conn_start q m None"
  have c0: "conn_ok {} c0" using recv_inv_start [OF q, of None] by (simp add: recv_inv_def c0_def)
  have "free_tags (cn_slots c0) \<noteq> []"
    using q by (auto simp: c0_def conn_start_def tcp_queue_new_def queue_core_new_def slot_array_new_def split: option.splits)
  then obtain tag a t where c1: "conn_ok {} (c0\<lparr>cn_queue := tq_put a (cn_queue c0)\<rparr>)"
      and t: "slot_of a tag = Some t" "slot_state t = Receiving" "slot_data_len t = 0" "recv_offset t = 0"
    by (rule claim_conn_ok [OF c0])
  have t1: "slot_of (cn_slots (c0\<lparr>cn_queue := tq_put a (cn_queue c0)\<rparr>)) tag = Some t" using t(1) by simp
  obtain c2 e where c2: "conn_ok {} c2" "slot_of (cn_slots c2) tag = Some (t\<lparr>slot_data := e\<rparr>)" "4 \<le> sd_len e"
    by (rule lease_slot_ok [OF c1 t1 t(2-4), of crc_env 4])
  show ?thesis
    by (rule that [OF stash_ok(1,2) [OF c2(1,2), where n = 4 and off = 0 and cm = sqe_zeroed]]) (use c2(3) t in simp_all)
qed

text \<open>C8. Receiving the tail of a payload straight into the slot's segments, whichever way the
  kernel cuts it into receives, is the same as copying it there through receive windows: memory,
  digest, next phase and connection are those of the copy.\<close>

theorem tail_direct_is_copy:
  assumes "conn_ok R c" "phase_ok c (DataPhase d)" "crc_piecewise ev" "\<not> dat_retained d"
    and "[] \<notin> set bss" "length (concat bss) = unat (dat_remaining d)"
  shows "recv_tail_direct ev (map Inr bss) d c =
    map_option (\<lambda>(r, _, c). (Ready r, c)) (data_advance ev d (concat bss) c)"
  using assms by (rule tail_direct_copy)

theorem tail_direct_is_copy_witness:
  "\<exists>c d. conn_ok {} c \<and> dat_remaining d = 4 \<and> dat_ddgst d \<and>
     recv_tail_direct crc_env (map Inr [[1, 2, 3], [4]]) d c =
     map_option (\<lambda>(r, _, c). (Ready r, c)) (data_advance crc_env d (concat [[1, 2, 3], [4]]) c)"
proof -
  obtain c tag s where c: "conn_ok {} c" and s: "slot_of (cn_slots c) tag = Some s" "slot_state s = Receiving"
    "slot_data_len s = 4" "recv_offset s = 0" by (rule demo_receiving)
  define d where "d = \<lparr>dat_tag = tag, dat_base = 0, dat_remaining = 4, dat_crc = 0, dat_ddgst = True, dat_kind = H2c True 4,
    dat_retained = False\<rparr>"
  have p: "phase_ok c (DataPhase d)" using s by (simp add: phase_ok_def d_def transfer_total_def)
  have "recv_tail_direct crc_env (map Inr [[1, 2, 3], [4]]) d c =
     map_option (\<lambda>(r, _, c). (Ready r, c)) (data_advance crc_env d (concat [[1, 2, 3], [4]]) c)"
    by (rule tail_direct_is_copy [OF c p crc_env_piecewise]) (simp_all add: d_def)
  moreover have "dat_remaining d = 4 \<and> dat_ddgst d" by (simp add: d_def)
  ultimately show ?thesis using c by blast
qed

section \<open>A command capsule with its data\<close>

definition capsule_write_stream :: "recv_env \<Rightarrow> bool \<Rightarrow> sqe \<Rightarrow> bytes \<Rightarrow> u32 \<Rightarrow> bytes" where
  "capsule_write_stream ev hdg s data w =
     encode_capsule_cmd (rv_crc ev) s hdg (of_nat (length data)) (rv_data_digest ev) @ data @
     (if rv_data_digest ev then le_bytes 4 w else [])"

lemma drain_continue:
  "recv_step ev ctx rv bs c = Some (Continue, rv', bs', c') \<Longrightarrow> bs \<noteq> [] \<or> rv_waiting rv \<noteq> None \<Longrightarrow>
    drain ev ctx rv bs c = drain ev ctx rv' bs' c'"
  by (subst drain.simps) auto

lemma feed_header_decoded:
  assumes "decode_step (rv_crc ev) (rv_decoder rv) xs = Some (Inr (n, Some p, d))"
  shows "feed_header ev ctx rv xs c =
    flow_of (drop n xs) (rv\<lparr>rv_decoder := d\<rparr>) (handle_pdu ev ctx p (drop n xs) (rv\<lparr>rv_decoder := d\<rparr>) c)"
  using assms by (auto simp: decode_step_def feed_header_def Let_def split: sum.splits option.splits prod.splits if_splits)

lemma at_rest_not_complete: "at_rest hdg d \<Longrightarrow> decoder_inv d \<and> \<not> is_complete d"
  by (simp add: at_rest_def is_complete_def)

lemma cn_put_frame:
  "cn_put a ws bids c = Some c' \<Longrightarrow> cn_queue c' = tq_put a (cn_queue c)"
  by (auto simp: cn_put_def)

lemma capsule_frame:
  assumes "capsule_with_tag ev None cm n dd bs tag c = Some (Inr ph, c')" "0 < n"
  shows "tq_send (cn_queue c') = tq_send (cn_queue c)" "qid (tq_nvme (cn_queue c')) = qid (tq_nvme (cn_queue c))"
  using assms
  by (auto simp: capsule_with_tag_def retain_classic lease_slot_def dest!: cn_put_frame split: if_splits Option.bind_splits)

text \<open>The whole payload of a phase, in one window.\<close>

lemma data_advance_full:
  assumes ok: "conn_ok R c" and p: "phase_ok c (DataPhase d)" and cl: "\<not> dat_retained d"
    and s: "slot_of (cn_slots c) (dat_tag d) = Some s" and data: "length data = unat (dat_remaining d)"
  obtains m dest where "data_dest d s = Some dest"
    "contents m (slot_data s) = splice (unat dest) data (contents (cn_mem c) (slot_data s))"
    "unat dest + length data \<le> length (contents (cn_mem c) (slot_data s))"
    "data_advance ev d (data @ bs) c = map_option (\<lambda>(r, c). (r, bs, c))
       (payload_done (if dat_ddgst d then d\<lparr>dat_crc := rv_append ev (dat_crc d) data\<rparr> else d) (c\<lparr>cn_mem := m\<rparr>))"
proof -
  obtain dest where s': "data_dest d s = Some dest"
    "unat dest + unat (dat_remaining d) \<le> unat (slot_data_len s)" "slot_data_wf (slot_data s)"
    "unat (slot_data_len s) \<le> sd_len (slot_data s)"
    by (rule data_dest_ok [OF ok p]) (use s that in auto)
  have le: "unat dest + length data \<le> sd_len (slot_data s)" using s'(2,4) data by simp
  obtain m where m: "write_at (slot_data s) (unat dest) data (cn_mem c) = Some m"
    "contents m (slot_data s) = splice (unat dest) data (contents (cn_mem c) (slot_data s))"
    by (rule write_at_spec [OF s'(3) le])
  have mn: "min (unat (dat_remaining d)) (length (data @ bs)) = length data" using data by simp
  have pd: "payload_done (e\<lparr>dat_remaining := z\<rparr>) x = payload_done e x" for e z x by (simp add: payload_done_def)
  have z: "dat_remaining d - of_nat (length data) = 0" by (simp add: data)
  have "data_advance ev d (data @ bs) c = map_option (\<lambda>(r, c). (r, bs, c))
       (payload_done (if dat_ddgst d then d\<lparr>dat_crc := rv_append ev (dat_crc d) data\<rparr> else d) (c\<lparr>cn_mem := m\<rparr>))"
    unfolding data_advance_def Let_def mn using s s'(1) m(1) cl z by (simp add: pd)
  then show ?thesis using that [OF s'(1) m(2)] le s'(3) by simp
qed

lemma finish_in_capsule:
  assumes "conn_ok R c" "slot_of (cn_slots c) tag = Some s" "slot_state s = Receiving"
  obtains c' where "finish_payload tag InCapsule c = Some (Inr (), c')" "conn_ok R c'" "cn_mem c' = cn_mem c"
    "slot_of (cn_slots c') tag = Some (s\<lparr>slot_state := ReadyState, slot_waker := None\<rparr>)"
    "tq_send (cn_queue c') = tq_send (cn_queue c)"
proof -
  have "s\<lparr>slot_cmd := slot_cmd s, slot_state := ReadyState, slot_waker := None\<rparr> = s\<lparr>slot_state := ReadyState, slot_waker := None\<rparr>"
    by simp
  note eq = this
  obtain c' where c': "cn_lift (tq_submit tag (slot_cmd s) (cn_queue c)) c = Some c'" "conn_ok R c'" "cn_mem c' = cn_mem c"
    "slot_of (cn_slots c') tag = Some (s\<lparr>slot_cmd := slot_cmd s, slot_state := ReadyState, slot_waker := None\<rparr>)"
    "tq_send (cn_queue c') = tq_send (cn_queue c)"
    by (rule submit_ok [OF assms])
  have "finish_payload tag InCapsule c = Some (Inr (), c')" using c'(1) by (simp add: finish_payload_def assms(2))
  then show ?thesis by (rule that [OF _ c'(2,3) c'(4) [unfolded eq] c'(5)])
qed

text \<open>The digest after a payload, in one window.\<close>

lemma ddgst_advance_full:
  assumes ok: "conn_ok R c" and s: "slot_of (cn_slots c) tag = Some s" "slot_state s = Receiving"
    and g: "DdgstPhase g = ddgst_start tag k InCapsule"
  obtains c' h where "ddgst_advance g (le_bytes 4 w @ bs) c = Some (Inr HeaderPhase, bs, c')" "conn_ok R c'" "cn_mem c' = cn_mem c"
    "slot_of (cn_slots c') tag = Some (if w = k then s\<lparr>slot_state := ReadyState, slot_waker := None\<rparr> else s\<lparr>slot_state := Responding\<rparr>)"
    "work (tq_send (cn_queue c')) = work (tq_send (cn_queue c)) @ (if w = k then [] else [Response \<lparr>cp_tag = tag,
       cp_cqe = cqe_new 0 h (qid (tq_nvme (cn_queue c))) (cid (slot_cmd s)) (DATA_XFER_ERROR OR DNR), cp_data_len = 0\<rparr>])"
proof -
  have g': "dg_have_len g = 0" "dg_have g = replicate 4 0" "dg_tag g = tag" "dg_expected g = k" "dg_kind g = InCapsule"
    using g by (simp_all add: ddgst_start_def)
  define f where "f = g\<lparr>dg_have := le_bytes 4 w, dg_have_len := 4\<rparr>"
  have n: "min (4 - dg_have_len g) (length (le_bytes 4 w @ bs)) = 4" "take 4 (le_bytes 4 w @ bs) = le_bytes 4 w"
    "drop 4 (le_bytes 4 w @ bs) = bs" "g\<lparr>dg_have := splice (dg_have_len g) (le_bytes 4 w) (dg_have g), dg_have_len := dg_have_len g + 4\<rparr> = f"
    by (simp_all add: g' f_def splice_def)
  have f: "dg_have_len f = 4" "le_word (dg_have f) = w" "dg_tag f = tag" "dg_expected f = k" "dg_kind f = InCapsule"
    by (simp_all add: f_def g' le_word_le_bytes)
  note adv = ddgst_advance_def [of g "le_bytes 4 w @ bs" c, unfolded Let_def n f]
  show ?thesis
  proof (cases "w = k")
    case True
    obtain c' where f: "finish_payload tag InCapsule c = Some (Inr (), c')" and c': "conn_ok R c'" "cn_mem c' = cn_mem c"
      "slot_of (cn_slots c') tag = Some (s\<lparr>slot_state := ReadyState, slot_waker := None\<rparr>)"
      "tq_send (cn_queue c') = tq_send (cn_queue c)"
      by (rule finish_in_capsule [OF ok s])
    have "ddgst_advance g (le_bytes 4 w @ bs) c = Some (Inr HeaderPhase, bs, c')" unfolding adv using True f by simp
    then show ?thesis by (rule that [OF _ c'(1,2)]) (use True c'(3,4) in simp_all)
  next
    case False
    obtain hq q c' where d: "advance_sqhd (tq_nvme (cn_queue c)) = Some (hq, q)"
      "\<And>e. cn_lift (complete_receiving tag e ((cn_queue c)\<lparr>tq_nvme := q\<rparr>)) (c\<lparr>cn_queue := (cn_queue c)\<lparr>tq_nvme := q\<rparr>\<rparr>) =
        Some (c' e)" "\<And>e. conn_ok R (c' e)" "\<And>e. cn_mem (c' e) = cn_mem c"
      "\<And>e. slot_of (cn_slots (c' e)) tag = Some (s\<lparr>slot_state := Responding\<rparr>)"
      "\<And>e. work (tq_send (cn_queue (c' e))) = work (tq_send (cn_queue c)) @ [Response \<lparr>cp_tag = tag, cp_cqe = e, cp_data_len = 0\<rparr>]"
      "qid q = qid (tq_nvme (cn_queue c))"
      by (rule digest_failure_ok [OF ok s], rule that; assumption)
    let ?e = "cqe_new 0 hq (qid q) (cid (slot_cmd s)) (DATA_XFER_ERROR OR DNR)"
    show ?thesis
      by (rule that [of "c' ?e" hq]) (use False s(1) d in \<open>simp_all add: adv\<close>)
  qed
qed

text \<open>The three steps that bring a capsule with data to its payload.\<close>

lemma capsule_begins:
  assumes inv: "recv_inv R rv c" and rv: "rv_phase rv = HeaderPhase" "rv_waiting rv = None" "at_rest hdg (rv_decoder rv)"
    and s: "sqe_wf s" and n: "0 < n" "\<not> MDTS_BYTES < n" and free: "free_tags (cn_slots c) \<noteq> []"
  obtains tag t d rv' c' where "tag \<in> set (free_tags (cn_slots c))"
    "drain ev None rv (encode_capsule_cmd (rv_crc ev) s hdg n (rv_data_digest ev) @ bs) c = drain ev None rv' bs c'"
    "conn_ok R c'" "phase_ok c' (DataPhase d)" "rv_phase rv' = DataPhase d" "rv_waiting rv' = None"
    "at_rest hdg (rv_decoder rv')"
    "d = \<lparr>dat_tag = tag, dat_base = 0, dat_remaining = n, dat_crc = 0, dat_ddgst = rv_data_digest ev, dat_kind = InCapsule, dat_retained = False\<rparr>"
    "slot_of (cn_slots c') tag = Some t" "slot_state t = Receiving" "slot_cmd t = s" "slot_data_len t = n"
    "tq_send (cn_queue c') = tq_send (cn_queue c)" "qid (tq_nvme (cn_queue c')) = qid (tq_nvme (cn_queue c))"
proof -
  let ?e = "encode_capsule_cmd (rv_crc ev) s hdg n (rv_data_digest ev)"
  have c: "conn_ok R c" using inv by (simp add: recv_inv_def)
  have "unat n + 80 \<le> 32 * 1024 * 1024" using n(2) by (simp add: word_less_nat_alt)
  from capsule_cmd_roundtrip [OF rv(3) s this, of "rv_crc ev" "rv_data_digest ev" bs]
  obtain d' where d': "at_rest hdg d'" "decode_step (rv_crc ev) (rv_decoder rv) (?e @ bs) = Some (Inr (length ?e,
      Some \<lparr>pdu_kind = CapsuleCmd s, pdu_data_len = n, pdu_ddgst = (rv_data_digest ev \<and> 0 < n)\<rparr>, d'))" by blast
  define w where "w = \<lparr>wc_sqe = s, wc_data_len = n, wc_ddgst = rv_data_digest ev\<rparr>"
  define rv1 where "rv1 = rv\<lparr>rv_decoder := d', rv_waiting := Some w\<rparr>"
  have "recv_step ev None rv (?e @ bs) c = Some (Continue, rv1, bs, c)"
    using n(1) by (simp add: recv_step_def rv feed_header_decoded [OF d'(2)] handle_pdu_def flow_of_def rv1_def w_def)
  moreover have "ch_as_bytes h \<noteq> []" for h by (simp add: ch_as_bytes_def)
  then have ne: "?e @ bs \<noteq> []" by (simp add: encode_capsule_cmd_def put_hdgst_def Let_def)
  ultimately have s1: "drain ev None rv (?e @ bs) c = drain ev None rv1 bs c" by (simp add: drain_continue)
  obtain tag a t where p: "await_tag_poll (rv_waker ev) (cn_slots c) = Some (Ready tag, a)"
    and c1: "conn_ok R (c\<lparr>cn_queue := tq_put a (cn_queue c)\<rparr>)"
    and t: "slot_of a tag = Some t" "slot_state t = Receiving" "slot_data_len t = 0" "recv_offset t = 0"
    and tf: "tag \<in> set (free_tags (cn_slots c))"
    by (rule claim_conn_ok [OF c free])
  define c1 where "c1 = c\<lparr>cn_queue := tq_put a (cn_queue c)\<rparr>"
  have t1: "slot_of (cn_slots c1) tag = Some t" and x1: "ctx_ok None c1" using t(1) by (simp_all add: c1_def ctx_ok_def)
  obtain kept e c' where k: "capsule_with_tag ev None s n (rv_data_digest ev) bs tag c1 = Some (Inr (DataPhase \<lparr>dat_tag = tag, dat_base = 0,
      dat_remaining = n, dat_crc = 0, dat_ddgst = rv_data_digest ev, dat_kind = InCapsule, dat_retained = kept\<rparr>), c')"
    "phase_ok c' (DataPhase \<lparr>dat_tag = tag, dat_base = 0, dat_remaining = n, dat_crc = 0, dat_ddgst = rv_data_digest ev,
      dat_kind = InCapsule, dat_retained = kept\<rparr>)"
    "conn_ok R c'" "slot_of (cn_slots c') tag = Some (t\<lparr>slot_data := e, slot_data_len := n, slot_cmd := s\<rparr>)" "(None :: ring_ctx) = None \<longrightarrow> \<not> kept"
    by (rule capsule_data_ok [OF c1 [folded c1_def] t1 t(2-4) x1 n])
  have kept: "kept = False" using k(5) by simp
  define d where "d = \<lparr>dat_tag = tag, dat_base = 0, dat_remaining = n, dat_crc = 0, dat_ddgst = rv_data_digest ev,
    dat_kind = InCapsule, dat_retained = False\<rparr>"
  note k = k(1-4) [unfolded kept, folded d_def]
  define rv2 where "rv2 = rv1\<lparr>rv_waiting := None, rv_phase := DataPhase d\<rparr>"
  have "recv_step ev None rv1 bs c = Some (Continue, rv2, bs, c')"
    using p k(1) by (simp add: recv_step_def rv1_def claim_step_def w_def c1_def rv2_def)
  then have s2: "drain ev None rv1 bs c = drain ev None rv2 bs c'" by (rule drain_continue) (simp add: rv1_def)
  have fr: "tq_send (cn_queue c') = tq_send (cn_queue c1)" "qid (tq_nvme (cn_queue c')) = qid (tq_nvme (cn_queue c1))"
    using capsule_frame [OF k(1) n(1)] by simp_all
  show ?thesis
    by (rule that [of tag rv2, OF tf _ k(3,2) _ _ _ d_def k(4)]) (use s1 s2 fr rv d'(1) t(2) in \<open>simp_all add: rv2_def rv1_def c1_def\<close>)
qed

text \<open>The payload and its digest bring the command to its end.\<close>

lemma payload_delivered:
  assumes ok: "conn_ok R c" and p: "phase_ok c (DataPhase d)"
    and rv: "rv_phase rv = DataPhase d" "rv_waiting rv = None" "at_rest hdg (rv_decoder rv)"
    and d: "d = \<lparr>dat_tag = tag, dat_base = 0, dat_remaining = n, dat_crc = 0, dat_ddgst = rv_data_digest ev, dat_kind = InCapsule, dat_retained = False\<rparr>"
    and t: "slot_of (cn_slots c) tag = Some t" "slot_state t = Receiving" "slot_data_len t = n"
    and data: "data \<noteq> []" "length data = unat n"
  obtains h rv' c' t' where
    "drain ev None rv (data @ (if rv_data_digest ev then le_bytes 4 w else []) @ bs) c = drain ev None rv' bs c'"
    "recv_inv R rv' c'" "rv_phase rv' = HeaderPhase" "rv_waiting rv' = None" "at_rest hdg (rv_decoder rv')"
    "slot_of (cn_slots c') tag = Some t'" "slot_cmd t' = slot_cmd t" "slot_data_len t' = n"
    "take (length data) (contents (cn_mem c') (slot_data t')) = data"
    "slot_state t' = (if rv_data_digest ev \<and> w \<noteq> rv_crc ev data then Responding else ReadyState)"
    "work (tq_send (cn_queue c')) = work (tq_send (cn_queue c)) @
      (if rv_data_digest ev \<and> w \<noteq> rv_crc ev data then [Response \<lparr>cp_tag = tag,
         cp_cqe = cqe_new 0 h (qid (tq_nvme (cn_queue c))) (cid (slot_cmd t)) (DATA_XFER_ERROR OR DNR), cp_data_len = 0\<rparr>] else [])"
proof -
  let ?tail = "if rv_data_digest ev then le_bytes 4 w else []" and ?d = "if dat_ddgst d then d\<lparr>dat_crc := rv_append ev (dat_crc d) data\<rparr> else d"
  have d': "dat_remaining d = n" "\<not> dat_retained d" "dat_tag d = tag" "dat_kind d = InCapsule" using d by simp_all
  obtain m dest where m: "data_dest d t = Some dest" "contents m (slot_data t) = splice (unat dest) data (contents (cn_mem c) (slot_data t))"
    "unat dest + length data \<le> length (contents (cn_mem c) (slot_data t))"
    "data_advance ev d (data @ ?tail @ bs) c = map_option (\<lambda>(r, c). (r, ?tail @ bs, c)) (payload_done ?d (c\<lparr>cn_mem := m\<rparr>))"
    by (rule data_advance_full [OF ok p d'(2) t(1) [folded d'(3)] data(2) [folded d'(1)]])
  have dest: "dest = 0" using m(1) by (simp add: data_dest_def transfer_total_def d t checked_add_def)
  have take: "take (length data) (contents m (slot_data t)) = data"
    using take_splice [of 0 data] m(3) by (simp add: m(2) dest)
  define c2 where "c2 = c\<lparr>cn_mem := m\<rparr>"
  have c2: "conn_ok R c2" "slot_of (cn_slots c2) tag = Some t" using ok t(1) by (simp_all add: c2_def)
  note m4 = m(4) [folded c2_def]
  have step: "recv_step ev None rv (data @ ?tail @ bs) c = phase_flow rv (data_advance ev d (data @ ?tail @ bs) c)"
    by (simp add: recv_step_def rv)
  note rest = at_rest_not_complete [OF rv(3)]
  show ?thesis
  proof (cases "rv_data_digest ev")
    case True
    obtain g where g: "DdgstPhase g = ddgst_start tag (rv_crc ev data) InCapsule" by (simp add: ddgst_start_def)
    define rv2 where "rv2 = rv\<lparr>rv_phase := DdgstPhase g\<rparr>"
    have "payload_done ?d c2 = Some (Inr (DdgstPhase g), c2)" using True d by (simp add: payload_done_def g rv_crc_def)
    then have s1: "recv_step ev None rv (data @ ?tail @ bs) c = Some (Continue, rv2, le_bytes 4 w @ bs, c2)"
      unfolding step m4 using True by (simp add: phase_flow_def rv2_def)
    obtain c3 h where c3: "ddgst_advance g (le_bytes 4 w @ bs) c2 = Some (Inr HeaderPhase, bs, c3)" "conn_ok R c3" "cn_mem c3 = cn_mem c2"
      "slot_of (cn_slots c3) tag = Some (if w = rv_crc ev data then t\<lparr>slot_state := ReadyState, slot_waker := None\<rparr> else t\<lparr>slot_state := Responding\<rparr>)"
      "work (tq_send (cn_queue c3)) = work (tq_send (cn_queue c2)) @ (if w = rv_crc ev data then [] else [Response \<lparr>cp_tag = tag,
         cp_cqe = cqe_new 0 h (qid (tq_nvme (cn_queue c2))) (cid (slot_cmd t)) (DATA_XFER_ERROR OR DNR), cp_data_len = 0\<rparr>])"
      by (rule ddgst_advance_full [OF c2 t(2) g])
    define rv3 where "rv3 = rv2\<lparr>rv_phase := HeaderPhase\<rparr>"
    have s2: "recv_step ev None rv2 (le_bytes 4 w @ bs) c2 = Some (Continue, rv3, bs, c3)"
      using rv by (simp add: recv_step_def rv2_def rv3_def c3(1) phase_flow_def)
    have "drain ev None rv (data @ ?tail @ bs) c = drain ev None rv2 (le_bytes 4 w @ bs) c2"
      by (rule drain_continue [OF s1]) (simp add: data)
    also have "\<dots> = drain ev None rv3 bs c3"
      by (rule drain_continue [OF s2]) (use length_le_bytes [of 4 w] in \<open>auto simp del: length_le_bytes\<close>)
    finally show ?thesis
      by (rule that [OF _ _ _ _ _ c3(4)]) (use c3 True rest rv take t in \<open>auto simp: rv3_def rv2_def recv_inv_def phase_ok_def c2_def\<close>)
  next
    case False
    obtain c3 where c3: "finish_payload tag InCapsule c2 = Some (Inr (), c3)" "conn_ok R c3" "cn_mem c3 = cn_mem c2"
      "slot_of (cn_slots c3) tag = Some (t\<lparr>slot_state := ReadyState, slot_waker := None\<rparr>)"
      "tq_send (cn_queue c3) = tq_send (cn_queue c2)"
      by (rule finish_in_capsule [OF c2 t(2)])
    define rv3 where "rv3 = rv\<lparr>rv_phase := HeaderPhase\<rparr>"
    have "payload_done ?d c2 = Some (Inr HeaderPhase, c3)" using False d c3(1) by (simp add: payload_done_def)
    then have s1: "recv_step ev None rv (data @ ?tail @ bs) c = Some (Continue, rv3, bs, c3)"
      unfolding step m4 using False by (simp add: phase_flow_def rv3_def)
    have "drain ev None rv (data @ ?tail @ bs) c = drain ev None rv3 bs c3"
      by (rule drain_continue [OF s1]) (simp add: data)
    then show ?thesis
      by (rule that [OF _ _ _ _ _ c3(4)]) (use c3 False rest rv take t in \<open>auto simp: rv3_def recv_inv_def phase_ok_def c2_def\<close>)
  qed
qed

text \<open>C7. A command capsule with in-capsule data, received in classic mode by a connection with a
  free tag, is delivered: the command and the data bytes are in the slot of a tag that was free, and
  the command is ready to execute. If data digests were negotiated and the digest on the wire is not
  the one of the data, the command is not executed but answered with a transfer error. Either way
  the receiver is back at a PDU boundary and goes on with the rest of the stream.\<close>

theorem capsule_write_delivered:
  assumes inv: "recv_inv R rv c" and rv: "rv_phase rv = HeaderPhase" "rv_waiting rv = None" "at_rest hdg (rv_decoder rv)"
    and s: "sqe_wf s" and data: "data \<noteq> []" "length data \<le> unat MDTS_BYTES" and free: "free_tags (cn_slots c) \<noteq> []"
  shows "\<exists>tag t h rv' c'. tag \<in> set (free_tags (cn_slots c)) \<and>
    drain ev None rv (capsule_write_stream ev hdg s data w @ rest) c = drain ev None rv' rest c' \<and>
    recv_inv R rv' c' \<and> rv_phase rv' = HeaderPhase \<and> rv_waiting rv' = None \<and> at_rest hdg (rv_decoder rv') \<and>
    slot_of (cn_slots c') tag = Some t \<and> slot_cmd t = s \<and> unat (slot_data_len t) = length data \<and>
    take (length data) (contents (cn_mem c') (slot_data t)) = data \<and>
    slot_state t = (if rv_data_digest ev \<and> w \<noteq> rv_crc ev data then Responding else ReadyState) \<and>
    work (tq_send (cn_queue c')) = work (tq_send (cn_queue c)) @
      (if rv_data_digest ev \<and> w \<noteq> rv_crc ev data then [Response \<lparr>cp_tag = tag,
         cp_cqe = cqe_new 0 h (qid (tq_nvme (cn_queue c))) (cid s) (DATA_XFER_ERROR OR DNR), cp_data_len = 0\<rparr>] else [])"
proof -
  define n :: u32 where "n = of_nat (length data)"
  have un: "unat n = length data"
    using data(2) by (simp add: n_def unsigned_of_nat take_bit_nat_eq_self)
  have n: "0 < n" "\<not> MDTS_BYTES < n" using data by (simp_all add: word_less_nat_alt un)
  let ?tail = "if rv_data_digest ev then le_bytes 4 w else []"
  obtain tag t d rv1 c1 where b: "tag \<in> set (free_tags (cn_slots c))"
    "drain ev None rv (encode_capsule_cmd (rv_crc ev) s hdg n (rv_data_digest ev) @ data @ ?tail @ rest) c =
       drain ev None rv1 (data @ ?tail @ rest) c1"
    "conn_ok R c1" "phase_ok c1 (DataPhase d)" "rv_phase rv1 = DataPhase d" "rv_waiting rv1 = None"
    "at_rest hdg (rv_decoder rv1)"
    "d = \<lparr>dat_tag = tag, dat_base = 0, dat_remaining = n, dat_crc = 0, dat_ddgst = rv_data_digest ev, dat_kind = InCapsule, dat_retained = False\<rparr>"
    "slot_of (cn_slots c1) tag = Some t" "slot_state t = Receiving" "slot_cmd t = s" "slot_data_len t = n"
    "tq_send (cn_queue c1) = tq_send (cn_queue c)" "qid (tq_nvme (cn_queue c1)) = qid (tq_nvme (cn_queue c))"
    by (rule capsule_begins [OF inv rv s n free])
  obtain h rv' c' t' where e: "drain ev None rv1 (data @ ?tail @ rest) c1 = drain ev None rv' rest c'"
    "recv_inv R rv' c'" "rv_phase rv' = HeaderPhase" "rv_waiting rv' = None" "at_rest hdg (rv_decoder rv')"
    "slot_of (cn_slots c') tag = Some t'" "slot_cmd t' = slot_cmd t" "slot_data_len t' = n"
    "take (length data) (contents (cn_mem c') (slot_data t')) = data"
    "slot_state t' = (if rv_data_digest ev \<and> w \<noteq> rv_crc ev data then Responding else ReadyState)"
    "work (tq_send (cn_queue c')) = work (tq_send (cn_queue c1)) @
      (if rv_data_digest ev \<and> w \<noteq> rv_crc ev data then [Response \<lparr>cp_tag = tag,
         cp_cqe = cqe_new 0 h (qid (tq_nvme (cn_queue c1))) (cid (slot_cmd t)) (DATA_XFER_ERROR OR DNR), cp_data_len = 0\<rparr>] else [])"
    by (rule payload_delivered [OF b(3-8,9,10,12) data(1) un [symmetric]])
  have "drain ev None rv (capsule_write_stream ev hdg s data w @ rest) c = drain ev None rv' rest c'"
    using b(2) e(1) by (simp add: capsule_write_stream_def n_def)
  then show ?thesis
    by (intro exI [of _ tag] exI [of _ t'] exI [of _ h] exI [of _ rv'] exI [of _ c'] conjI)
      (use b e un in simp_all)
qed

lemma demo_start:
  obtains q m where "tcp_queue_new 0 1 2 8192 True (\<lambda>_. 0) = Some (q, m)"
    "\<And>hdg. recv_inv {} (receiver_new hdg) (conn_start q m None)" "free_tags (cn_slots (conn_start q m None)) \<noteq> []"
proof -
  obtain q m where q: "tcp_queue_new 0 1 2 8192 True (\<lambda>_. 0) = Some (q, m)" by (rule demo_queue)
  show ?thesis
    by (rule that [OF q recv_inv_start [OF q]]) (use q in \<open>auto simp: conn_start_def tcp_queue_new_def queue_core_new_def
      slot_array_new_def split: option.splits\<close>)
qed

theorem capsule_write_delivered_witness:
  "\<exists>q m tag t rv c. tcp_queue_new 0 1 2 8192 True (\<lambda>_. 0) = Some (q, m) \<and>
     drain crc_env None (receiver_new True) (capsule_write_stream crc_env True sqe_zeroed [1, 2, 3]
       (rv_crc crc_env [1, 2, 3]) @ [4]) (conn_start q m None) = drain crc_env None rv [4] c \<and>
     recv_inv {} rv c \<and> slot_of (cn_slots c) tag = Some t \<and> slot_state t = ReadyState \<and> slot_cmd t = sqe_zeroed \<and>
     take 3 (contents (cn_mem c) (slot_data t)) = [1, 2, 3]"
proof -
  obtain q m where q: "tcp_queue_new 0 1 2 8192 True (\<lambda>_. 0) = Some (q, m)"
    "\<And>hdg. recv_inv {} (receiver_new hdg) (conn_start q m None)" "free_tags (cn_slots (conn_start q m None)) \<noteq> []"
    by (rule demo_start, rule that; assumption)
  have rv: "rv_phase (receiver_new True) = HeaderPhase" "rv_waiting (receiver_new True) = None"
    "at_rest True (rv_decoder (receiver_new True))" by (simp_all add: receiver_new_def at_rest_new)
  have data: "[1, 2, 3 :: u8] \<noteq> []" "length [1, 2, 3 :: u8] \<le> unat MDTS_BYTES" by simp_all
  from capsule_write_delivered [OF q(2) rv sqe_wf_zeroed data q(3), of crc_env "rv_crc crc_env [1, 2, 3]" "[4]"]
  obtain tag t rv c where "drain crc_env None (receiver_new True) (capsule_write_stream crc_env True sqe_zeroed [1, 2, 3]
       (rv_crc crc_env [1, 2, 3]) @ [4]) (conn_start q m None) = drain crc_env None rv [4] c"
     "recv_inv {} rv c" "slot_of (cn_slots c) tag = Some t" "slot_state t = ReadyState" "slot_cmd t = sqe_zeroed"
     "take (length [1, 2, 3 :: u8]) (contents (cn_mem c) (slot_data t)) = [1, 2, 3]" by (elim exE conjE) simp
  moreover have "length [1, 2, 3 :: u8] = 3" by simp
  ultimately show ?thesis using q(1) by metis
qed

end
