(* ===== verification/Tcp_Send.thy ===== *)
theory Tcp_Send
  imports Sender_Order Tcp_Stream
begin

text \<open>
  The NVMe/TCP send path (\<^verbatim>\<open>ioutgt-nvme-tcp/src/send.rs\<close>): a work item is staged as a header in the
  arena, the payload in place from the slot's buffer, a data digest and a response capsule.
  \<open>append\<close> stands for \<^verbatim>\<open>crc32c_append\<close> of the external crate; \<^verbatim>\<open>crc32c\<close> is its run from \<open>0\<close>.
\<close>

section \<open>Staging\<close>

definition ARENA_PER_ITEM :: nat where "ARENA_PER_ITEM = 64"
definition IOVS_PER_ITEM :: nat where "IOVS_PER_ITEM = MAX_SEGS + 3"

record stage_env =
  se_append :: "u32 \<Rightarrow> bytes \<Rightarrow> u32"
  se_sqhd_disabled :: bool
  se_hdgst :: bool
  se_ddgst :: bool

abbreviation se_crc :: "stage_env \<Rightarrow> bytes \<Rightarrow> u32" where "se_crc ev \<equiv> se_append ev 0"

definition stage_arena :: "bytes \<Rightarrow> gather_batch \<times> memory \<Rightarrow> (gather_batch \<times> memory) option" where
  "stage_arena bs gm = (case gm of (g, m) \<Rightarrow> map_option (\<lambda>m. (push_arena (length bs) g, m)) (arena_put bs g m))"

text \<open>The loop over the segments of the slot's buffer.\<close>

fun push_segs :: "seg list \<Rightarrow> nat \<Rightarrow> gather_batch \<Rightarrow> gather_batch" where
  "push_segs [] n g = g"
| "push_segs (s # ss) n g =
     (if n = 0 then g
      else push_segs ss (n - min n (seg_len s)) (push_raw (seg_ptr s) (min n (seg_len s)) g))"

definition success_elide :: "stage_env \<Rightarrow> completion \<Rightarrow> bool" where
  "success_elide ev c \<longleftrightarrow> 0 < cp_data_len c \<and> se_sqhd_disabled ev \<and> cqe_status (cp_cqe c) = 0"

definition stage_payload ::
  "stage_env \<Rightarrow> sqe slot_array \<Rightarrow> completion \<Rightarrow> gather_batch \<times> memory \<Rightarrow> (gather_batch \<times> memory) option" where
  "stage_payload ev a c gm =
     (let n = unat (cp_data_len c) in
      do {
        (g, m) \<leftarrow> stage_arena (encode_c2h_data (se_crc ev) (cqe_cid (cp_cqe c)) 0 (cp_data_len c) True (success_elide ev c)
          (se_hdgst ev) (se_ddgst ev)) gm;
        s \<leftarrow> slot_of a (cp_tag c);
        let g = note_payload n (push_segs (sd_segs (slot_data s)) n g);
        if se_ddgst ev then
          do {
            chunks \<leftarrow> for_each_seg m (slot_data s) 0 n;
            stage_arena (le_bytes 4 (fold (\<lambda>b k. se_append ev k b) chunks 0)) (g, m)
          }
        else Some (g, m)
      })"

definition stage_send_work ::
  "stage_env \<Rightarrow> sqe slot_array \<Rightarrow> send_work \<Rightarrow> gather_batch \<times> memory \<Rightarrow> (gather_batch \<times> memory) option" where
  "stage_send_work ev a w gm =
     (case w of
        R2tWork tag c off len \<Rightarrow> stage_arena (encode_r2t (se_crc ev) c tag off len (se_hdgst ev)) gm
      | Response c \<Rightarrow>
          do {
            gm \<leftarrow> (if 0 < cp_data_len c then stage_payload ev a c gm else Some gm);
            if success_elide ev c then Some gm
            else stage_arena (encode_capsule_resp (se_crc ev) (cp_cqe c) (se_hdgst ev)) gm
          })"

definition release_class :: "send_work \<Rightarrow> staged" where
  "release_class w =
     (case w of
        Response c \<Rightarrow> if 0 < cp_data_len c then AtNotif (cp_tag c) else AtCqe (cp_tag c)
      | R2tWork _ _ _ _ \<Rightarrow> NoRelease)"

text \<open>The closure \<^verbatim>\<open>send_loop\<close> hands to the sender.\<close>

definition tcp_stage :: "stage_env \<Rightarrow> (sqe, send_work) stager" where
  "tcp_stage ev a g w m = map_option (\<lambda>(g, m). (g, release_class w, m)) (stage_send_work ev a w (g, m))"

text \<open>The pool's arena, when it is reserved and registered; the assertion is on its length.\<close>

definition send_arena_for :: "u16 \<Rightarrow> sqe slot_array \<Rightarrow> (nat \<times> u16) option option" where
  "send_arena_for depth a =
     (case send_arena (pool a) of
        None \<Rightarrow> Some None
      | Some (ptr, len) \<Rightarrow>
          if len < 2 * unat depth * ARENA_PER_ITEM then None
          else Some (map_option (\<lambda>i. (ptr, i)) (pool_buf_index (pool a))))"

definition send_loop_sender :: "nat \<Rightarrow> nat \<Rightarrow> u16 \<Rightarrow> nat option \<Rightarrow> sqe slot_array \<Rightarrow> memory \<Rightarrow> (stream_sender \<times> memory) option" where
  "send_loop_sender x y depth zc_min a m =
     map_option (\<lambda>pa. sender_new x y depth ARENA_PER_ITEM IOVS_PER_ITEM pa (case zc_min of None \<Rightarrow> DEFAULT_ZC_MIN_BYTES | Some n \<Rightarrow> n) m)
       (send_arena_for depth a)"

section \<open>What is staged\<close>

text \<open>The linear encoding of an item: its PDUs one after the other.\<close>

definition payload_of :: "sqe slot_array \<Rightarrow> memory \<Rightarrow> completion \<Rightarrow> bytes" where
  "payload_of a m c = (case slot_of a (cp_tag c) of
     None \<Rightarrow> [] | Some s \<Rightarrow> take (unat (cp_data_len c)) (contents m (slot_data s)))"

definition work_bytes :: "stage_env \<Rightarrow> sqe slot_array \<Rightarrow> memory \<Rightarrow> send_work \<Rightarrow> bytes" where
  "work_bytes ev a m w =
     (case w of
        R2tWork tag c off len \<Rightarrow> encode_r2t (se_crc ev) c tag off len (se_hdgst ev)
      | Response c \<Rightarrow>
          (if 0 < cp_data_len c then
             encode_c2h_data (se_crc ev) (cqe_cid (cp_cqe c)) 0 (cp_data_len c) True (success_elide ev c) (se_hdgst ev) (se_ddgst ev) @
             payload_of a m c @ (if se_ddgst ev then le_bytes 4 (se_crc ev (payload_of a m c)) else [])
           else []) @
          (if success_elide ev c then [] else encode_capsule_resp (se_crc ev) (cp_cqe c) (se_hdgst ev)))"

lemma push_arena_frame:
  "gb_arena (push_arena n g) = gb_arena g" "gb_arena_len (push_arena n g) = gb_arena_len g" "gb_live (push_arena n g) = gb_live g"
  "gb_arena_used (push_arena n g) = gb_arena_used g + n" "gb_iov_cap (push_arena n g) = gb_iov_cap g"
  by (simp_all add: push_arena_def)

lemma push_arena_wire:
  "gb_live g = 0 \<Longrightarrow> wire (push_arena n g) = wire g @ [gb_arena g + gb_arena_used g..<gb_arena g + gb_arena_used g + n]"
  unfolding push_arena_def by (subst push_raw_wire) (simp_all add: wire_def live_iov_def)

lemma stage_arena_spec:
  assumes "stage_arena bs (g, m) = Some (g', m')" "staged_ok g"
  shows "staged_ok g'" "map m' (wire g') = map m (wire g) @ bs" "gb_arena g' = gb_arena g" "gb_arena_len g' = gb_arena_len g"
    "set (wire g') \<subseteq> set (wire g) \<union> free_arena g" "free_arena g' \<subseteq> free_arena g" "\<And>x. x \<notin> free_arena g \<Longrightarrow> m' x = m x"
    "gb_arena_used g' = gb_arena_used g + length bs" "length (gb_iovs g') \<le> length (gb_iovs g) + 1" "gb_iov_cap g' = gb_iov_cap g"
proof -
  have g: "g' = push_arena (length bs) g" "m' = mem_write (gb_arena g + gb_arena_used g) bs m"
    "gb_arena_used g + length bs \<le> gb_arena_len g"
    using assms by (auto simp: stage_arena_def arena_put_def arena_tail_def staged_ok_def batch_ok_def split: if_splits)
  have ok: "batch_ok g" "gb_live g = 0" "set (wire g) \<inter> free_arena g = {}" using assms(2) by (simp_all add: staged_ok_def)
  note w = push_arena_wire [OF ok(2), of "length bs"]
  show fr: "x \<notin> free_arena g \<Longrightarrow> m' x = m x" for x using g(2,3) by (auto simp: mem_write_def free_arena_def)
  show sub: "set (wire g') \<subseteq> set (wire g) \<union> free_arena g" using g(3) by (auto simp: g(1) w free_arena_def)
  show "free_arena g' \<subseteq> free_arena g" by (auto simp: g(1) push_arena_frame free_arena_def)
  have "set (wire g') \<inter> free_arena g' = {}"
    using ok(3) by (auto simp: g(1) w free_arena_def push_arena_frame)
  then show "staged_ok g'" using push_arena_ok [OF ok(1) g(3)] ok(2) by (simp add: staged_ok_def g(1) push_arena_frame)
  have "map m' (wire g) = map m (wire g)" using fr ok(3) by (intro map_cong) auto
  moreover have "map m' [gb_arena g + gb_arena_used g..<gb_arena g + gb_arena_used g + length bs] = bs"
    using mem_read_write_same [of "gb_arena g + gb_arena_used g" bs m] by (simp add: g(2) mem_read_def)
  ultimately show "map m' (wire g') = map m (wire g) @ bs" by (simp add: g(1) w)
  show "length (gb_iovs g') \<le> length (gb_iovs g) + 1"
    using push_raw_len [of "gb_arena g + gb_arena_used g" "length bs" "g\<lparr>gb_arena_used := gb_arena_used g + length bs\<rparr>"]
    by (simp add: g(1) push_arena_def)
  show "gb_arena g' = gb_arena g" "gb_arena_len g' = gb_arena_len g" "gb_arena_used g' = gb_arena_used g + length bs"
    "gb_iov_cap g' = gb_iov_cap g"
    by (simp_all add: g(1) push_arena_frame)
qed

lemma push_raw_staged:
  assumes "staged_ok g" "{p..<p + n} \<inter> free_arena g = {}"
  shows "staged_ok (push_raw p n g)" "wire (push_raw p n g) = wire g @ [p..<p + n]" "free_arena (push_raw p n g) = free_arena g"
proof -
  show w: "wire (push_raw p n g) = wire g @ [p..<p + n]" using assms(1) by (simp add: staged_ok_def push_raw_wire)
  show f: "free_arena (push_raw p n g) = free_arena g" by (simp add: free_arena_def)
  show "staged_ok (push_raw p n g)"
    using assms push_raw_ok [of g p n] by (auto simp: staged_ok_def w f)
qed

lemma push_segs_spec:
  assumes "staged_ok g" "(\<Union>s \<in> set ss. seg_addrs s) \<inter> free_arena g = {}"
  shows "staged_ok (push_segs ss n g) \<and> map m (wire (push_segs ss n g)) = map m (wire g) @ take n (segs_bytes m ss) \<and>
    set (wire (push_segs ss n g)) \<subseteq> set (wire g) \<union> (\<Union>s \<in> set ss. seg_addrs s) \<and>
    free_arena (push_segs ss n g) = free_arena g \<and> gb_arena (push_segs ss n g) = gb_arena g \<and>
    gb_arena_len (push_segs ss n g) = gb_arena_len g \<and> gb_arena_used (push_segs ss n g) = gb_arena_used g \<and>
    length (gb_iovs (push_segs ss n g)) \<le> length (gb_iovs g) + length ss \<and> gb_iov_cap (push_segs ss n g) = gb_iov_cap g"
  using assms
proof (induction ss arbitrary: n g)
  case (Cons s ss)
  show ?case
  proof (cases "n = 0")
    case False
    let ?k = "min n (seg_len s)"
    let ?g = "push_raw (seg_ptr s) ?k g"
    have sub: "{seg_ptr s..<seg_ptr s + ?k} \<subseteq> seg_addrs s" by (auto simp: seg_addrs_def)
    then have "{seg_ptr s..<seg_ptr s + ?k} \<inter> free_arena g = {}" using Cons.prems(2) by auto
    note r = push_raw_staged [OF Cons.prems(1) this]
    have "mem_read m (seg_ptr s) ?k = take n (mem_read m (seg_ptr s) (seg_len s))"
      by (rule nth_equalityI) auto
    then have b: "map m (wire ?g) = map m (wire g) @ take n (mem_read m (seg_ptr s) (seg_len s))"
      by (simp add: r(2) mem_read_def)
    have "n - ?k = n - seg_len s" by simp
    moreover have "(\<Union>s \<in> set ss. seg_addrs s) \<inter> free_arena ?g = {}" using Cons.prems(2) by (auto simp: r(3))
    note Cons.IH [OF r(1) this, of "n - ?k"]
    moreover have "length (gb_iovs ?g) \<le> length (gb_iovs g) + 1" by (rule push_raw_len)
    moreover have "set (wire ?g) \<subseteq> set (wire g) \<union> seg_addrs s" using sub by (auto simp: r(2))
    ultimately show ?thesis using False b r(3) by auto
  qed (use Cons.prems in simp)
qed simp

text \<open>What a digest over pieces relies on: appending piece by piece is appending the whole.\<close>

definition crc_pieces :: "stage_env \<Rightarrow> bool" where
  "crc_pieces ev \<longleftrightarrow> (\<forall>k xs ys. se_append ev k (xs @ ys) = se_append ev (se_append ev k xs) ys)"

lemma crc_pieces_fold:
  "crc_pieces ev \<Longrightarrow> cs \<noteq> [] \<Longrightarrow> fold (\<lambda>b k. se_append ev k b) cs k = se_append ev k (concat cs)"
proof (induction cs arbitrary: k)
  case (Cons c cs)
  then show ?case by (cases "cs = []") (auto simp: crc_pieces_def)
qed simp

lemma staged_note [simp]:
  "staged_ok (note_payload n g) = staged_ok g" "wire (note_payload n g) = wire g" "free_arena (note_payload n g) = free_arena g"
  "gb_arena (note_payload n g) = gb_arena g" "gb_arena_len (note_payload n g) = gb_arena_len g"
  "gb_arena_used (note_payload n g) = gb_arena_used g" "gb_iovs (note_payload n g) = gb_iovs g" "gb_iov_cap (note_payload n g) = gb_iov_cap g"
  by (simp_all add: note_payload_def staged_ok_def batch_ok_def wire_def live_iov_def free_arena_def)

lemma stage_arena_total:
  assumes "staged_ok g" "gb_arena_used g + length bs \<le> gb_arena_len g"
  shows "\<exists>g' m'. stage_arena bs (g, m) = Some (g', m')"
  using assms by (auto simp: stage_arena_def arena_put_def arena_tail_def staged_ok_def batch_ok_def)

lemma length_encodings:
  "length (encode_r2t crc c t off len hdg) \<le> 28" "length (encode_c2h_data crc c off len l e hdg dd) \<le> 28"
  "length (encode_capsule_resp crc q hdg) \<le> 28"
  by (simp_all add: encode_r2t_def encode_c2h_data_def encode_data_pdu_def encode_capsule_resp_def put_hdgst_def Let_def
      data_as_bytes_def ch_as_bytes_def cqe_as_bytes_def)

text \<open>An answer with data: the slot's buffer has it, outside the arena.\<close>

definition work_ok :: "sqe slot_array \<Rightarrow> gather_batch \<Rightarrow> send_work \<Rightarrow> bool" where
  "work_ok a g w \<longleftrightarrow>
     (case w of
        Response c \<Rightarrow> 0 < cp_data_len c \<longrightarrow>
          (case slot_of a (cp_tag c) of
             None \<Rightarrow> False
           | Some s \<Rightarrow> slot_data_wf (slot_data s) \<and> unat (cp_data_len c) \<le> sd_len (slot_data s) \<and>
               data_addrs (slot_data s) \<inter> {gb_arena g..<gb_arena g + gb_arena_len g} = {})
      | R2tWork _ _ _ _ \<Rightarrow> True)"

text \<open>Everything a stage of staging promises: \<open>bs\<close> is appended to the wire, within the arena's free part.\<close>

definition appended :: "bytes \<Rightarrow> nat \<Rightarrow> nat \<Rightarrow> gather_batch \<Rightarrow> memory \<Rightarrow> gather_batch \<Rightarrow> memory \<Rightarrow> bool" where
  "appended bs used iovs g m g' m' \<longleftrightarrow>
     staged_ok g' \<and> map m' (wire g') = map m (wire g) @ bs \<and> gb_arena g' = gb_arena g \<and> gb_arena_len g' = gb_arena_len g \<and>
     (\<forall>x. x \<notin> free_arena g \<longrightarrow> m' x = m x) \<and> free_arena g' \<subseteq> free_arena g \<and>
     gb_arena_used g' \<le> gb_arena_used g + used \<and> length (gb_iovs g') \<le> length (gb_iovs g) + iovs \<and> gb_iov_cap g' = gb_iov_cap g"

lemma appended_trans:
  "appended bs u v g m g1 m1 \<Longrightarrow> appended cs u' v' g1 m1 g2 m2 \<Longrightarrow> appended (bs @ cs) (u + u') (v + v') g m g2 m2"
  unfolding appended_def by (auto simp: subset_iff)

lemma appended_refl: "staged_ok g \<Longrightarrow> appended [] 0 0 g m g m"
  by (simp add: appended_def)

lemma appended_weaken: "appended bs u v g m g' m' \<Longrightarrow> u \<le> u' \<Longrightarrow> v \<le> v' \<Longrightarrow> appended bs u' v' g m g' m'"
  by (simp add: appended_def)

lemma stage_arena_appended:
  assumes "stage_arena bs (g, m) = Some (g', m')" "staged_ok g"
  shows "appended bs (length bs) 1 g m g' m'"
  using stage_arena_spec [OF assms] by (simp add: appended_def)

lemma stage_payload_steps:
  assumes "stage_payload ev a c (g, m) = Some (g', m')"
  obtains g1 m1 s where "stage_arena (encode_c2h_data (se_crc ev) (cqe_cid (cp_cqe c)) 0 (cp_data_len c) True (success_elide ev c)
      (se_hdgst ev) (se_ddgst ev)) (g, m) = Some (g1, m1)" "slot_of a (cp_tag c) = Some s"
    "(if se_ddgst ev then for_each_seg m1 (slot_data s) 0 (unat (cp_data_len c)) \<bind>
        (\<lambda>chunks. stage_arena (le_bytes 4 (fold (\<lambda>b k. se_append ev k b) chunks 0))
          (note_payload (unat (cp_data_len c)) (push_segs (sd_segs (slot_data s)) (unat (cp_data_len c)) g1), m1))
      else Some (note_payload (unat (cp_data_len c)) (push_segs (sd_segs (slot_data s)) (unat (cp_data_len c)) g1), m1)) = Some (g', m')"
  using assms by (auto simp: stage_payload_def Let_def split: Option.bind_splits)

lemma stage_response_steps:
  assumes "stage_send_work ev a (Response c) (g, m) = Some (g', m')"
  obtains g1 m1 where "(if 0 < cp_data_len c then stage_payload ev a c (g, m) else Some (g, m)) = Some (g1, m1)"
    "(if success_elide ev c then Some (g1, m1)
      else stage_arena (encode_capsule_resp (se_crc ev) (cp_cqe c) (se_hdgst ev)) (g1, m1)) = Some (g', m')"
  using assms by (cases "if 0 < cp_data_len c then stage_payload ev a c (g, m) else Some (g, m)")
      (auto simp only: stage_send_work_def send_work.case Option.bind.simps)

text \<open>The payload: referenced in place and, for the digest, read piece by piece.\<close>

lemma payload_chunks:
  assumes s: "slot_of a (cp_tag c) = Some s" "slot_data_wf (slot_data s)" "unat (cp_data_len c) \<le> sd_len (slot_data s)"
    and c: "0 < cp_data_len c" and crc: "crc_pieces ev"
  obtains cs where "for_each_seg m (slot_data s) 0 (unat (cp_data_len c)) = Some cs"
    "fold (\<lambda>b k. se_append ev k b) cs 0 = se_crc ev (payload_of a m c)"
proof -
  let ?n = "unat (cp_data_len c)"
  obtain cs where cs: "for_each_seg m (slot_data s) 0 ?n = Some cs" "concat cs = slice 0 ?n (contents m (slot_data s))"
    by (rule for_each_seg_spec [OF s(2), of 0 ?n m]) (use s(3) in simp_all)
  have "cs \<noteq> []"
  proof
    assume "cs = []"
    then have "length (slice 0 ?n (contents m (slot_data s))) = 0" using cs(2) by simp
    then show False using s(2,3) c by (simp add: slice_def word_less_nat_alt)
  qed
  moreover have "concat cs = payload_of a m c" using cs(2) by (simp add: payload_of_def s(1) slice_def)
  ultimately show thesis using cs(1) crc_pieces_fold [OF crc] by (intro that [of cs]) simp_all
qed

lemma work_ok_slot:
  assumes "work_ok a g (Response c)" "0 < cp_data_len c"
  obtains s where "slot_of a (cp_tag c) = Some s" "slot_data_wf (slot_data s)" "unat (cp_data_len c) \<le> sd_len (slot_data s)"
    "data_addrs (slot_data s) \<inter> {gb_arena g..<gb_arena g + gb_arena_len g} = {}"
  using assms by (auto simp: work_ok_def split: option.splits)

lemma stage_payload_appended:
  assumes st: "stage_payload ev a c (g, m) = Some (g', m')" and ok: "staged_ok g" and c: "0 < cp_data_len c" "work_ok a g (Response c)"
    and crc: "crc_pieces ev"
  shows "appended (encode_c2h_data (se_crc ev) (cqe_cid (cp_cqe c)) 0 (cp_data_len c) True (success_elide ev c) (se_hdgst ev) (se_ddgst ev) @
       payload_of a m c @ (if se_ddgst ev then le_bytes 4 (se_crc ev (payload_of a m c)) else [])) 32 (MAX_SEGS + 2) g m g' m'"
proof -
  let ?h = "encode_c2h_data (se_crc ev) (cqe_cid (cp_cqe c)) 0 (cp_data_len c) True (success_elide ev c) (se_hdgst ev) (se_ddgst ev)"
    and ?n = "unat (cp_data_len c)"
  obtain s where s: "slot_of a (cp_tag c) = Some s" "slot_data_wf (slot_data s)" "?n \<le> sd_len (slot_data s)"
      "data_addrs (slot_data s) \<inter> {gb_arena g..<gb_arena g + gb_arena_len g} = {}"
    by (rule work_ok_slot [OF c(2,1)])
  obtain g1 m1 s' where g1: "stage_arena ?h (g, m) = Some (g1, m1)" "slot_of a (cp_tag c) = Some s'"
    and r: "(if se_ddgst ev then for_each_seg m1 (slot_data s') 0 ?n \<bind>
        (\<lambda>chunks. stage_arena (le_bytes 4 (fold (\<lambda>b k. se_append ev k b) chunks 0))
          (note_payload ?n (push_segs (sd_segs (slot_data s')) ?n g1), m1))
      else Some (note_payload ?n (push_segs (sd_segs (slot_data s')) ?n g1), m1)) = Some (g', m')"
    by (rule stage_payload_steps [OF st])
  have s': "s' = s" using s(1) g1(2) by simp
  have a1: "appended ?h 28 1 g m g1 m1" using appended_weaken [OF stage_arena_appended [OF g1(1) ok]] length_encodings(2) by blast
  have ok1: "staged_ok g1" "free_arena g1 \<subseteq> free_arena g" using a1 by (simp_all add: appended_def)
  have fa: "free_arena g \<subseteq> {gb_arena g..<gb_arena g + gb_arena_len g}" by (auto simp: free_arena_def)
  have "contents m1 (slot_data s) = contents m (slot_data s)"
    using a1 s(4) fa by (intro contents_cong) (auto simp: appended_def)
  then have pl: "payload_of a m1 c = payload_of a m c" by (simp add: payload_of_def s(1))
  let ?g = "note_payload ?n (push_segs (sd_segs (slot_data s)) ?n g1)"
  have "(\<Union>s \<in> set (sd_segs (slot_data s)). seg_addrs s) \<inter> free_arena g1 = {}"
    using s(4) fa ok1(2) by (auto simp: data_addrs_def)
  note p = push_segs_spec [OF ok1(1) this, of ?n m1]
  have "take ?n (segs_bytes m1 (sd_segs (slot_data s))) = payload_of a m1 c" by (simp add: payload_of_def s(1) contents_def)
  moreover have "length (sd_segs (slot_data s)) \<le> MAX_SEGS" using s(2) by (simp add: slot_data_wf_def)
  ultimately have a2: "appended (payload_of a m c) 0 MAX_SEGS g1 m1 ?g m1" using p by (simp add: appended_def pl)
  note a12 = appended_trans [OF a1 a2]
  show ?thesis
  proof (cases "se_ddgst ev")
    case False
    then show ?thesis using r s' appended_weaken [OF a12, of 32 "MAX_SEGS + 2"] by simp
  next
    case True
    obtain cs where cs: "for_each_seg m1 (slot_data s) 0 ?n = Some cs"
      "fold (\<lambda>b k. se_append ev k b) cs 0 = se_crc ev (payload_of a m1 c)"
      by (rule payload_chunks [OF s(1-3) c(1) crc])
    let ?d = "le_bytes 4 (se_crc ev (payload_of a m c))"
    have "stage_arena ?d (?g, m1) = Some (g', m')" using r True cs s' by (simp add: pl)
    from appended_weaken [OF appended_trans [OF a12 stage_arena_appended [OF this]], of 32 "MAX_SEGS + 2"] show ?thesis
      using True p by simp
  qed
qed

lemma stage_appended:
  assumes st: "stage_send_work ev a w (g, m) = Some (g', m')" and ok: "staged_ok g" "work_ok a g w" and crc: "crc_pieces ev"
  shows "appended (work_bytes ev a m w) ARENA_PER_ITEM IOVS_PER_ITEM g m g' m'"
proof (cases w)
  case (R2tWork t c off len)
  then show ?thesis
    using st appended_weaken [OF stage_arena_appended [OF _ ok(1)], of _ m g' m' ARENA_PER_ITEM IOVS_PER_ITEM]
      length_encodings(1) [of "se_crc ev" c t off len "se_hdgst ev"]
    by (simp add: stage_send_work_def work_bytes_def ARENA_PER_ITEM_def IOVS_PER_ITEM_def)
next
  case (Response c)
  let ?p = "if 0 < cp_data_len c then
      encode_c2h_data (se_crc ev) (cqe_cid (cp_cqe c)) 0 (cp_data_len c) True (success_elide ev c) (se_hdgst ev) (se_ddgst ev) @
      payload_of a m c @ (if se_ddgst ev then le_bytes 4 (se_crc ev (payload_of a m c)) else []) else []"
  let ?r = "encode_capsule_resp (se_crc ev) (cp_cqe c) (se_hdgst ev)"
  obtain g1 m1 where g1: "(if 0 < cp_data_len c then stage_payload ev a c (g, m) else Some (g, m)) = Some (g1, m1)"
    and r: "(if success_elide ev c then Some (g1, m1) else stage_arena ?r (g1, m1)) = Some (g', m')"
    by (rule stage_response_steps [OF st [unfolded Response]])
  have a1: "appended ?p 32 (MAX_SEGS + 2) g m g1 m1"
  proof (cases "0 < cp_data_len c")
    case True
    then show ?thesis using stage_payload_appended [OF _ ok(1) True ok(2) [unfolded Response] crc] g1 by simp
  next
    case False
    then show ?thesis using g1 appended_weaken [OF appended_refl [OF ok(1), of m]] by simp
  qed
  then have ok1: "staged_ok g1" by (simp add: appended_def)
  show ?thesis
  proof (cases "success_elide ev c")
    case True
    then show ?thesis
      using r appended_weaken [OF a1, of ARENA_PER_ITEM IOVS_PER_ITEM]
      by (simp add: Response work_bytes_def ARENA_PER_ITEM_def IOVS_PER_ITEM_def)
  next
    case False
    then have "stage_arena ?r (g1, m1) = Some (g', m')" using r by simp
    note a2 = stage_arena_appended [OF this ok1]
    have "appended (?p @ ?r) ARENA_PER_ITEM IOVS_PER_ITEM g m g' m'"
      by (rule appended_weaken [OF appended_trans [OF a1 a2]])
        (use length_encodings(3) [of "se_crc ev" "cp_cqe c" "se_hdgst ev"] in \<open>simp_all add: ARENA_PER_ITEM_def IOVS_PER_ITEM_def\<close>)
    then show ?thesis using False by (simp add: Response work_bytes_def)
  qed
qed

text \<open>An item that fits is staged without a panic.\<close>

lemma stage_payload_total:
  assumes ok: "staged_ok g" "gb_arena_used g + 32 \<le> gb_arena_len g" and c: "0 < cp_data_len c" "work_ok a g (Response c)"
    and crc: "crc_pieces ev"
  shows "stage_payload ev a c (g, m) \<noteq> None"
proof -
  let ?h = "encode_c2h_data (se_crc ev) (cqe_cid (cp_cqe c)) 0 (cp_data_len c) True (success_elide ev c) (se_hdgst ev) (se_ddgst ev)"
    and ?n = "unat (cp_data_len c)"
  have h: "length ?h \<le> 28" by (rule length_encodings)
  obtain s where s: "slot_of a (cp_tag c) = Some s" "slot_data_wf (slot_data s)" "?n \<le> sd_len (slot_data s)"
      "data_addrs (slot_data s) \<inter> {gb_arena g..<gb_arena g + gb_arena_len g} = {}"
    by (rule work_ok_slot [OF c(2,1)])
  obtain g1 m1 where g1: "stage_arena ?h (g, m) = Some (g1, m1)" using stage_arena_total [OF ok(1), of ?h m] ok(2) h by auto
  note a1 = stage_arena_spec [OF g1 ok(1)]
  obtain cs where cs: "for_each_seg m1 (slot_data s) 0 ?n = Some cs" by (rule payload_chunks [OF s(1-3) c(1) crc])
  have "(\<Union>s \<in> set (sd_segs (slot_data s)). seg_addrs s) \<inter> free_arena g1 = {}"
    using s(4) a1(6) by (auto simp: data_addrs_def free_arena_def)
  note p = push_segs_spec [OF a1(1) this, of ?n m1]
  have "\<exists>g' m'. stage_arena (le_bytes 4 k) (note_payload ?n (push_segs (sd_segs (slot_data s)) ?n g1), m1) = Some (g', m')" for k :: u32
    by (rule stage_arena_total) (use p a1(4,8) h ok(2) in simp_all)
  then show ?thesis using g1 s(1) cs by (auto simp: stage_payload_def Let_def)
qed

lemma stage_total:
  assumes ok: "staged_ok g" "gb_arena_used g + ARENA_PER_ITEM \<le> gb_arena_len g" and w: "work_ok a g w" and crc: "crc_pieces ev"
  shows "stage_send_work ev a w (g, m) \<noteq> None"
proof (cases w)
  case (R2tWork t c off len)
  then show ?thesis
    using stage_arena_total [OF ok(1), of "encode_r2t (se_crc ev) c t off len (se_hdgst ev)" m] ok(2)
      length_encodings(1) [of "se_crc ev" c t off len "se_hdgst ev"]
    by (auto simp: stage_send_work_def ARENA_PER_ITEM_def)
next
  case (Response c)
  let ?r = "encode_capsule_resp (se_crc ev) (cp_cqe c) (se_hdgst ev)"
  obtain g1 m1 where g1: "(if 0 < cp_data_len c then stage_payload ev a c (g, m) else Some (g, m)) = Some (g1, m1)"
    and u: "staged_ok g1 \<and> gb_arena_used g1 \<le> gb_arena_used g + 32 \<and> gb_arena_len g1 = gb_arena_len g"
  proof (cases "0 < cp_data_len c")
    case True
    obtain g1 m1 where "stage_payload ev a c (g, m) = Some (g1, m1)"
      using stage_payload_total [OF ok(1) _ True w [unfolded Response] crc, of m] ok(2) by (auto simp: ARENA_PER_ITEM_def)
    then show thesis
      using stage_payload_appended [OF _ ok(1) True w [unfolded Response] crc] True by (intro that [of g1 m1]) (auto simp: appended_def)
  qed (use ok(1) in \<open>simp add: that\<close>)
  have "\<exists>g' m'. stage_arena ?r (g1, m1) = Some (g', m')"
    by (rule stage_arena_total) (use u ok(2) length_encodings(3) [of "se_crc ev" "cp_cqe c" "se_hdgst ev"] in \<open>simp_all add: ARENA_PER_ITEM_def\<close>)
  then show ?thesis using g1 by (auto simp add: stage_send_work_def Response)
qed

section \<open>The sender's contract\<close>

text \<open>Without any assumption on the slots, what is staged lies in the arena or in the slot's buffer.\<close>

definition within :: "nat set \<Rightarrow> gather_batch \<Rightarrow> gather_batch \<Rightarrow> bool" where
  "within A g g' \<longleftrightarrow> batch_ok g' \<and> gb_live g' = 0 \<and> gb_arena g' = gb_arena g \<and> gb_arena_len g' = gb_arena_len g \<and>
     set (wire g') \<subseteq> set (wire g) \<union> {gb_arena g..<gb_arena g + gb_arena_len g} \<union> A"

lemma within_trans: "within A g g1 \<Longrightarrow> within B g1 g2 \<Longrightarrow> A \<union> B \<subseteq> C \<Longrightarrow> within C g g2"
  unfolding within_def by auto

lemma stage_arena_within:
  assumes "stage_arena bs (g, m) = Some (g', m')" "batch_ok g" "gb_live g = 0"
  shows "within {} g g'"
proof -
  have g: "g' = push_arena (length bs) g" "gb_arena_used g + length bs \<le> gb_arena_len g"
    using assms by (auto simp: stage_arena_def arena_put_def arena_tail_def batch_ok_def split: if_splits)
  show ?thesis
    using push_arena_ok [OF assms(2) g(2)] g(2) assms(3)
    by (auto simp: within_def g(1) push_arena_frame push_arena_wire)
qed

lemma push_segs_within:
  "batch_ok g \<Longrightarrow> gb_live g = 0 \<Longrightarrow> within (\<Union>s \<in> set ss. seg_addrs s) g (push_segs ss n g)"
proof (induction ss arbitrary: n g)
  case (Cons s ss)
  let ?g = "push_raw (seg_ptr s) (min n (seg_len s)) g"
  have "within (seg_addrs s) g ?g"
    using Cons.prems push_raw_ok [of g "seg_ptr s" "min n (seg_len s)"]
    by (auto simp: within_def push_raw_wire seg_addrs_def)
  then have g: "within (seg_addrs s) g ?g" "batch_ok ?g" "gb_live ?g = 0" by (simp_all add: within_def)
  have "within (\<Union>s \<in> set (s # ss). seg_addrs s) g (push_segs ss k ?g)" for k
    by (rule within_trans [OF g(1) Cons.IH [OF g(2,3)]]) simp
  then show ?case using Cons.prems by (auto simp: within_def)
qed (simp add: within_def)

lemma within_note: "within A g g' \<Longrightarrow> within A g (note_payload n g')"
  by (auto simp: within_def note_payload_def batch_ok_def wire_def live_iov_def)

lemma stage_payload_within:
  assumes st: "stage_payload ev a c (g, m) = Some (g', m')" and g: "batch_ok g" "gb_live g = 0"
  shows "within (slot_addrs a (cp_tag c)) g g'"
proof -
  let ?n = "unat (cp_data_len c)"
  obtain g1 m1 s where g1: "stage_arena (encode_c2h_data (se_crc ev) (cqe_cid (cp_cqe c)) 0 (cp_data_len c) True (success_elide ev c)
      (se_hdgst ev) (se_ddgst ev)) (g, m) = Some (g1, m1)" and s: "slot_of a (cp_tag c) = Some s"
    and r: "(if se_ddgst ev then for_each_seg m1 (slot_data s) 0 ?n \<bind>
        (\<lambda>chunks. stage_arena (le_bytes 4 (fold (\<lambda>b k. se_append ev k b) chunks 0)) (note_payload ?n (push_segs (sd_segs (slot_data s)) ?n g1), m1))
      else Some (note_payload ?n (push_segs (sd_segs (slot_data s)) ?n g1), m1)) = Some (g', m')"
    by (rule stage_payload_steps [OF st])
  let ?g = "note_payload ?n (push_segs (sd_segs (slot_data s)) ?n g1)"
  note w1 = stage_arena_within [OF g1 g]
  then have g1: "batch_ok g1" "gb_live g1 = 0" by (simp_all add: within_def)
  have w2: "within (slot_addrs a (cp_tag c)) g ?g"
    by (rule within_note, rule within_trans [OF w1 push_segs_within [OF g1]]) (simp add: slot_addrs_def s data_addrs_def)
  then have g2: "batch_ok ?g" "gb_live ?g = 0" by (simp_all add: within_def)
  show ?thesis
  proof (cases "se_ddgst ev")
    case True
    then obtain d where "stage_arena d (?g, m1) = Some (g', m')" using r by (auto split: Option.bind_splits)
    then show ?thesis using within_trans [OF w2 stage_arena_within [OF _ g2]] by simp
  qed (use r w2 in auto)
qed

lemma tcp_stage_within:
  assumes "tcp_stage ev a g w m = Some (g', st, m')" "batch_ok g" "gb_live g = 0"
  shows "within (case release_class w of AtNotif t \<Rightarrow> slot_addrs a t | _ \<Rightarrow> {}) g g'"
proof (cases w)
  case (R2tWork t c off len)
  then show ?thesis using assms stage_arena_within [OF _ assms(2,3)] by (auto simp: tcp_stage_def stage_send_work_def release_class_def)
next
  case (Response c)
  have st: "stage_send_work ev a w (g, m) = Some (g', m')" using assms(1) by (auto simp: tcp_stage_def)
  let ?A = "if 0 < cp_data_len c then slot_addrs a (cp_tag c) else {}"
  obtain g1 m1 where g1: "(if 0 < cp_data_len c then stage_payload ev a c (g, m) else Some (g, m)) = Some (g1, m1)"
    and r: "(if success_elide ev c then Some (g1, m1)
      else stage_arena (encode_capsule_resp (se_crc ev) (cp_cqe c) (se_hdgst ev)) (g1, m1)) = Some (g', m')"
    by (rule stage_response_steps [OF st [unfolded Response]])
  have "within ?A g g1" using g1 stage_payload_within [OF _ assms(2,3)] assms(2,3) by (auto simp: within_def split: if_splits)
  then have w1: "within ?A g g1" "batch_ok g1" "gb_live g1 = 0" by (simp_all add: within_def)
  have "within ?A g g'"
    using r w1(1) within_trans [OF w1(1) stage_arena_within [OF _ w1(2,3)], of _ _ g' m' ?A] by (auto split: if_splits)
  then show ?thesis by (auto simp: release_class_def Response split: if_splits)
qed

text \<open>The payload an answer announces is in its slot.\<close>

definition tcp_ready :: "sqe slot_array \<Rightarrow> send_work \<Rightarrow> bool" where
  "tcp_ready a w \<longleftrightarrow>
     (case w of
        Response c \<Rightarrow> 0 < cp_data_len c \<longrightarrow>
          (case slot_of a (cp_tag c) of
             None \<Rightarrow> False
           | Some s \<Rightarrow> slot_data_wf (slot_data s) \<and> unat (cp_data_len c) \<le> sd_len (slot_data s))
      | R2tWork _ _ _ _ \<Rightarrow> True)"

definition tcp_transport :: "stage_env \<Rightarrow> (sqe, send_work) transport" where
  "tcp_transport ev = \<lparr>tr_stage = tcp_stage ev, tr_class = release_class, tr_bytes = work_bytes ev, tr_ready = tcp_ready\<rparr>"

interpretation tcp: staging "tcp_stage ev" release_class
  by unfold_locales (use tcp_stage_within in \<open>auto simp: tcp_stage_def within_def\<close>)

lemma ready_work_ok:
  "tcp_ready a w \<Longrightarrow> \<forall>t \<in> set (staged_tags (release_class w)). slot_addrs a t \<inter> {gb_arena g..<gb_arena g + gb_arena_len g} = {} \<Longrightarrow>
    work_ok a g w"
  by (auto simp: tcp_ready_def work_ok_def release_class_def staged_tags_def slot_addrs_def split: send_work.splits option.splits if_splits)

lemma tcp_staging_bytes:
  assumes crc: "crc_pieces ev"
  shows "staging_bytes (tcp_stage ev) release_class (work_bytes ev) tcp_ready"
proof unfold_locales
  fix a g w m g' st m'
  assume s: "tcp_stage ev a g w m = Some (g', st, m')" and g: "staged_ok g" and w: "tcp_ready a w"
    "\<forall>t \<in> set (staged_tags (release_class w)). slot_addrs a t \<inter> {gb_arena g..<gb_arena g + gb_arena_len g} = {}"
  have "stage_send_work ev a w (g, m) = Some (g', m')" using s by (auto simp: tcp_stage_def)
  note ap = stage_appended [OF this g ready_work_ok [OF w] crc]
  have "free_arena g \<subseteq> {gb_arena g..<gb_arena g + gb_arena_len g}" by (auto simp: free_arena_def)
  then show "staged_ok g' \<and> map m' (wire g') = map m (wire g) @ work_bytes ev a m w \<and>
      (\<forall>x. x \<notin> {gb_arena g..<gb_arena g + gb_arena_len g} \<longrightarrow> m' x = m x)"
    using ap unfolding appended_def by blast
next
  fix w and a' a :: "sqe slot_array" and m' m :: memory
  assume sl: "\<And>t. t \<in> set (staged_tags (release_class w)) \<Longrightarrow> slot_of a' t = slot_of a t"
    and mm: "\<And>t x. t \<in> set (staged_tags (release_class w)) \<Longrightarrow> x \<in> slot_addrs a t \<Longrightarrow> m' x = m x"
  show "work_bytes ev a' m' w = work_bytes ev a m w"
  proof (cases w)
    case (Response c)
    have t: "cp_tag c \<in> set (staged_tags (release_class w))" by (simp add: Response release_class_def staged_tags_def)
    have "payload_of a' m' c = payload_of a m c"
    proof (cases "slot_of a (cp_tag c)")
      case (Some s)
      have "contents m' (slot_data s) = contents m (slot_data s)"
        using mm [OF t] by (intro contents_cong) (simp add: slot_addrs_def Some)
      then show ?thesis using sl [OF t] by (simp add: payload_of_def Some)
    qed (use sl [OF t] in \<open>simp add: payload_of_def\<close>)
    then show ?thesis by (simp add: work_bytes_def Response)
  qed (simp add: work_bytes_def)
next
  fix w and a' a :: "sqe slot_array"
  assume sl: "\<And>t. t \<in> set (staged_tags (release_class w)) \<Longrightarrow> slot_of a' t = slot_of a t"
  show "tcp_ready a' w = tcp_ready a w"
  proof (cases w)
    case (Response c)
    have "cp_tag c \<in> set (staged_tags (release_class w))" by (simp add: Response release_class_def staged_tags_def)
    then show ?thesis using sl by (simp add: tcp_ready_def Response)
  qed (simp add: tcp_ready_def)
qed

text \<open>With the CRC32C of the crate.\<close>

definition crc_stage_env :: "bool \<Rightarrow> bool \<Rightarrow> bool \<Rightarrow> stage_env" where
  "crc_stage_env disabled hdg dd = \<lparr>se_append = crc32c_append, se_sqhd_disabled = disabled, se_hdgst = hdg, se_ddgst = dd\<rparr>"

lemma crc_stage_env_pieces: "crc_pieces (crc_stage_env disabled hdg dd)"
  using crc_env_piecewise by (simp add: crc_pieces_def crc_stage_env_def crc_piecewise_def crc_env_def)

interpretation tcp_crc: staging_bytes "tcp_stage (crc_stage_env disabled hdg dd)" release_class "work_bytes (crc_stage_env disabled hdg dd)" tcp_ready
  by (rule tcp_staging_bytes [OF crc_stage_env_pieces])

section \<open>Properties\<close>

definition demo_send_slots :: "sqe slot_array" where
  "demo_send_slots = \<lparr>nslots = 1,
     slots = [\<lparr>slot_state = Responding, slot_cmd = sqe_zeroed, slot_waker = None,
       slot_data = \<lparr>sd_segs = [\<lparr>seg_ptr = 8192, seg_len = 5\<rparr>, \<lparr>seg_ptr = 9000, seg_len = 3\<rparr>], sd_len = 8, sd_owner = OwnerOwned\<rparr>,
       slot_data_len = 8, recv_offset = 0\<rparr>],
     free_tags = [], executing = 0, tag_waiter = None,
     pool = \<lparr>pool_base = 0, npages = 1, free_runs = [\<lparr>run_start = 0, run_len = 1\<rparr>], free_pages = 1, pool_waiters = [],
       pool_buf_index = None, send_arena = None\<rparr>\<rparr>"

definition demo_completion :: completion where
  "demo_completion = \<lparr>cp_tag = 0, cp_cqe = \<lparr>cqe_result = 0, cqe_rsvd = 0, sq_head = 1, sq_id = 1, cqe_cid = 5, cqe_status = 0\<rparr>, cp_data_len = 8\<rparr>"

text \<open>A run that sends one R2T.\<close>

abbreviation demo_stage_env :: stage_env where "demo_stage_env \<equiv> crc_stage_env False False False"

lemma length_demo_r2t: "length (encode_r2t crc c t off len False) = 24"
  by (simp add: encode_r2t_def Let_def data_as_bytes_def ch_as_bytes_def)

lemma demo_run:
  obtains s where "send_reach (tcp_transport demo_stage_env) False {} s" "ss_pc s = Sending 0 False None SendMsg 0"
    "ss_pins s 0 = {100..<124}" "ss_wire s = []" "ss_due s = encode_r2t (se_crc demo_stage_env) 7 0 0 4096 False"
    "wire (sb_gather (sd_batches (ss_sender s) ! 0)) = [100..<124]" "closed (ss_work s) = False" "work (ss_work s) = []"
proof -
  let ?tr = "tcp_transport demo_stage_env" and ?w = "R2tWork 0 7 0 4096"
  let ?bs = "encode_r2t (se_crc demo_stage_env) 7 0 0 4096 False"
  obtain p m0 where p: "buf_pool_new 0 4096 (\<lambda>_. 0) = Some (p, m0)"
    by (cases "aligned_buf_zeroed 0 4096 (\<lambda>_. 0)") (auto simp: buf_pool_new_def Let_def pages_for_def PAGE_def)
  then obtain a :: "sqe slot_array" and m1 where "slot_array_new 0 1 4096 sqe_zeroed (\<lambda>_. 0) = Some (a, m1)"
    by (simp add: slot_array_new_def)
  then have a: "slots_inv {} a" by (rule slot_array_new_inv)
  obtain sd m where sd: "sender_new 100 9000 1 ARENA_PER_ITEM IOVS_PER_ITEM None 12288 (\<lambda>_. 0) = (sd, m)" by fastforce
  let ?g = "gather_build 100 4096 None 70"
  have b: "sd = \<lparr>sd_batches = [send_batch_around ?g ARENA_PER_ITEM IOVS_PER_ITEM, send_batch_around (gather_build 9000 4096 None 70) ARENA_PER_ITEM IOVS_PER_ITEM],
      sd_inflight = [], zc_batches = 0, zc_copied = 0, zc_fallbacks = 0, vec_fixed_ok = False, zc_min_avg = 12288\<rparr>"
    using sd by (auto simp: sender_new_def send_batch_new_def gather_new_def ARENA_PER_ITEM_def IOVS_PER_ITEM_def MAX_SEGS_def gather_build_def
        UIO_MAXIOV_def Let_def)
  have bs: "length ?bs = 24" by (rule length_demo_r2t)
  define s0 where "s0 = (send_start sd a m :: (sqe, send_work) send_sys)"
  have r0: "send_reach ?tr False {} s0" unfolding s0_def by (rule send_reach.start [OF a sd])
  define s1 where "s1 = s0\<lparr>ss_work := fst (send_push ?w (ss_work s0)), ss_due := ss_due s0 @ tr_bytes ?tr (ss_slots s0) (ss_mem s0) ?w\<rparr>"
  have r1: "send_reach ?tr False {} s1" unfolding s1_def
    by (rule send_reach.step [OF r0 send_step.solicit]) (simp_all add: tcp_transport_def release_class_def tcp_ready_def)
  have w1: "work (ss_work s1) = [?w]" by (simp add: s1_def s0_def send_start_def send_push_def send_list_new_def)
  define s2 where "s2 = s1\<lparr>ss_work := (ss_work s1)\<lparr>work := []\<rparr>, ss_pc := Acquiring ?w\<rparr>"
  have r2: "send_reach ?tr False {} s2"
    by (rule send_reach.step [OF r1 send_step.next_work [where waker = 3]])
      (simp_all add: s2_def next_work_def poll_next_def w1, simp_all add: s1_def s0_def send_start_def)
  have st: "tcp_stage demo_stage_env (ss_slots s2) ?g ?w (ss_mem s2) =
      Some (push_arena 24 ?g, NoRelease, mem_write 100 ?bs (ss_mem s2))"
    using bs by (simp add: tcp_stage_def stage_send_work_def stage_arena_def arena_put_def arena_tail_def gather_build_def release_class_def crc_stage_env_def)
  let ?b = "(send_batch_around ?g ARENA_PER_ITEM IOVS_PER_ITEM)\<lparr>sb_gather := push_arena 24 ?g\<rparr>"
  define s3 where "s3 = s2\<lparr>ss_sender := put_batch 0 ?b sd, ss_mem := mem_write 100 ?bs (ss_mem s2), ss_pc := Shipping 0 False None\<rparr>"
  have "acquire_stage (tr_stage ?tr) False ?w s2 = Some s3"
    using st by (simp add: acquire_stage_def s3_def s2_def s1_def s0_def send_start_def b acquire_free_def stage_batch_def send_push_def
        send_list_new_def stage_items.simps tcp_transport_def batch_fits_def fits_def send_batch_around_def gather_build_def ARENA_PER_ITEM_def
        IOVS_PER_ITEM_def MAX_SEGS_def UIO_MAXIOV_def add_staged_def cap_reached_def)
  then have r3: "send_reach ?tr False {} s3" by (intro send_reach.step [OF r2 send_step.acquire]) (simp_all add: s2_def)
  have b3: "sd_batches (ss_sender s3) ! 0 = ?b" by (simp add: s3_def put_batch_def b)
  have w3: "wire (sb_gather (sd_batches (ss_sender s3) ! 0)) = [100..<124]"
    unfolding b3 by (simp add: push_arena_wire gather_build_def, simp add: wire_def live_iov_def)
  define s4 where "s4 = s3\<lparr>ss_pc := Sending 0 False None (ship_choose False (vec_fixed_ok (ss_sender s3)) (sd_batches (ss_sender s3) ! 0)) (ss_next s3),
      ss_pins := (ss_pins s3)(ss_next s3 := set (wire (sb_gather (sd_batches (ss_sender s3) ! 0)))), ss_next := ss_next s3 + 1\<rparr>"
  have "send_reach ?tr False {} s4" unfolding s4_def
    by (rule send_reach.step [OF r3 send_step.issue]) (simp add: s3_def)
  moreover have n3: "ss_next s3 = 0" "ss_wire s3 = []" "ss_due s3 = ?bs" "closed (ss_work s3) = False" "work (ss_work s3) = []"
    by (simp_all add: s3_def s2_def s1_def s0_def send_start_def send_push_def send_list_new_def tcp_transport_def work_bytes_def crc_stage_env_def)
  moreover have "ss_pins s4 0 = set (wire (sb_gather (sd_batches (ss_sender s3) ! 0)))" by (simp add: s4_def n3)
  then have "ss_pins s4 0 = {100..<124}" by (simp only: w3 set_upt)
  moreover have "ss_sender s4 = ss_sender s3" by (simp add: s4_def)
  then have "wire (sb_gather (sd_batches (ss_sender s4) ! 0)) = [100..<124]" by (simp only: w3)
  ultimately show thesis by (intro that [of s4]) (simp_all add: s4_def ship_choose_def)
qed

lemma tcp_transport_simps:
  "tr_stage (tcp_transport ev) = tcp_stage ev" "tr_class (tcp_transport ev) = release_class"
  "tr_bytes (tcp_transport ev) = work_bytes ev" "tr_ready (tcp_transport ev) = tcp_ready"
  by (simp_all add: tcp_transport_def)

lemma tcp_reach:
  "send_reach (tcp_transport ev) zc R s \<Longrightarrow> sender_inv release_class R s"
  by (rule tcp.send_reach_inv [where ev = ev, OF _ tcp_transport_simps(1,2)])

lemma ship_complete_none:
  "ship_complete i z c opn k res (s\<lparr>ss_pins := p, ss_wire := v\<rparr>) = None \<longleftrightarrow> ship_complete i z c opn k res s = None"
  by (simp add: ship_complete_def Let_def split: prod.split ship_next.split)

text \<open>C10. The memory the kernel may still read for a send belongs to the sender: it lies in one of the two
  arenas, or in the buffer of a command slot that is still being answered, so that nobody reuses it
  before the notification. When the sender returns, the kernel holds nothing. And no release of a tag,
  neither after a completion nor in the drain, panics.
\<close>

theorem sender_memory_safe:
  assumes "send_reach (tcp_transport ev) zc R s"
  shows "(\<forall>k x. x \<in> ss_pins s k \<longrightarrow> (\<exists>b \<in> set (sd_batches (ss_sender s)). x \<in> batch_arena b) \<or>
      (\<exists>t. responding (ss_slots s) t \<and> x \<in> slot_addrs (ss_slots s) t)) \<and>
    (\<forall>r k. ss_pc s = Finished r \<longrightarrow> ss_pins s k = {}) \<and>
    (\<forall>w. ss_pc s = NextWork \<longrightarrow> next_work w s \<noteq> None) \<and>
    (\<forall>i w r is. ss_pc s = ReapOldest i w \<or> ss_pc s = Draining r (i # is) \<longrightarrow> reap_poll i s \<noteq> None) \<and>
    (\<forall>i z c opn k n. ss_pc s = Sending i z c opn k \<and> n \<le> length (wire (sb_gather (sd_batches (ss_sender s) ! i))) \<longrightarrow>
      ship_complete i z c opn k (Inr n) s \<noteq> None)"
proof (intro conjI allI impI)
  note inv = tcp_reach [OF assms] and fl = inv_flight [OF tcp_reach [OF assms]]
  show "x \<in> ss_pins s k \<Longrightarrow> (\<exists>b \<in> set (sd_batches (ss_sender s)). x \<in> batch_arena b) \<or>
      (\<exists>t. responding (ss_slots s) t \<and> x \<in> slot_addrs (ss_slots s) t)" for k x
    by (rule pins_held [OF inv])
  show "ss_pc s = Finished r \<Longrightarrow> ss_pins s k = {}" for r k
    using finished_unpinned [OF inv] send_reach_clear [OF assms] by (simp add: drain_clear_def)
  show "ss_pc s = NextWork \<Longrightarrow> next_work w s \<noteq> None" for w using next_work_inv [OF inv, of w] by auto
  show "reap_poll i s \<noteq> None" if "ss_pc s = ReapOldest i w \<or> ss_pc s = Draining r (i # is)" for i w r "is"
  proof -
    have i: "i < 2" using that fl(3) by (auto simp: pc_busy_def)
    have "\<exists>pc :: send_work send_pc. pc_items pc = pc_items (ss_pc s) \<and> pc_busy (ss_pc s) = insert i (pc_busy pc)"
      using that
    proof
      assume "ss_pc s = ReapOldest i w"
      then show ?thesis by (intro exI [of _ "Acquiring w"]) (simp add: pc_items_def pc_busy_def)
    next
      assume "ss_pc s = Draining r (i # is)"
      then show ?thesis by (intro exI [of _ "Draining r is"]) (simp add: pc_items_def pc_busy_def)
    qed
    moreover have "\<not> in_op (ss_pc s) j k" for j k using that by (auto simp: in_op_def)
    ultimately show ?thesis using reap_poll_inv [OF inv i] by blast
  qed
  show "ss_pc s = Sending i z c opn k \<and> n \<le> length (wire (sb_gather (sd_batches (ss_sender s) ! i))) \<Longrightarrow>
      ship_complete i z c opn k (Inr n) s \<noteq> None" for i z c opn k n
    using complete_inv [OF inv, of i z c opn k "Inr n"] ship_complete_none by (metis old.sum.simps(6) option.distinct(1))
qed

theorem sender_memory_safe_witness:
  "\<exists>s. send_reach (tcp_transport demo_stage_env) False {} s \<and> ss_pins s 0 = {100..<124} \<and>
     ((\<exists>b \<in> set (sd_batches (ss_sender s)). 100 \<in> batch_arena b) \<or>
      (\<exists>t. responding (ss_slots s) t \<and> 100 \<in> slot_addrs (ss_slots s) t))"
proof -
  obtain s where s: "send_reach (tcp_transport demo_stage_env) False {} s" "ss_pins s 0 = {100..<124}" by (rule demo_run)
  have "100 \<in> ss_pins s 0" using s(2) by simp
  then have "(\<exists>b \<in> set (sd_batches (ss_sender s)). 100 \<in> batch_arena b) \<or> (\<exists>t. responding (ss_slots s) t \<and> 100 \<in> slot_addrs (ss_slots s) t)"
    using sender_memory_safe [OF s(1)] by blast
  then show ?thesis using s by blast
qed

text \<open>C9. What the socket has taken is at every moment a prefix of the encodings of the queued items, one after
  the other in the order in which they were queued: short sends, fallbacks from zero copy, batching and
  items carried over to the next batch lose, repeat and reorder nothing. Unless a send has failed, the
  rest is what is staged and what is still queued, so that a sender that ends without an error has sent
  every item but those queued after it ended. The last hypothesis is the law of the external CRC.
\<close>

theorem sent_in_order:
  assumes "send_reach (tcp_transport ev) zc R s" "crc_pieces ev"
  shows "prefix (ss_wire s) (ss_due s) \<and>
    (\<not> failed (ss_pc s) \<longrightarrow> ss_due s = ss_wire s @ unsent s @ waiting (tcp_transport ev) s) \<and>
    (ss_pc s = Finished None \<and> work (ss_work s) = [] \<longrightarrow> ss_wire s = ss_due s)"
proof -
  have "order_inv (tcp_transport ev) s"
    using staging_bytes.send_reach_order [OF tcp_staging_bytes [OF assms(2)] assms(1) tcp_transport_simps] by blast
  then show ?thesis
    by (auto simp: order_inv_def unsent_def waiting_def items_def pc_items_def split: if_splits) (metis prefixI)
qed

theorem sent_in_order_witness:
  "\<exists>s. send_reach (tcp_transport demo_stage_env) False {} s \<and> crc_pieces demo_stage_env \<and> \<not> failed (ss_pc s) \<and> ss_wire s = [] \<and>
     unsent s = encode_r2t (se_crc demo_stage_env) 7 0 0 4096 False"
proof -
  obtain s where s: "send_reach (tcp_transport demo_stage_env) False {} s" "ss_pc s = Sending 0 False None SendMsg 0" "ss_wire s = []"
      "ss_due s = encode_r2t (se_crc demo_stage_env) 7 0 0 4096 False" "work (ss_work s) = []" by (rule demo_run)
  have "ss_due s = ss_wire s @ unsent s @ waiting (tcp_transport demo_stage_env) s"
    using sent_in_order [OF s(1) crc_stage_env_pieces] s(2) by simp
  moreover have "waiting (tcp_transport demo_stage_env) s = []" using s by (simp add: waiting_def items_def pc_items_def option_list_def)
  ultimately show ?thesis using s crc_stage_env_pieces by (intro exI [of _ s]) simp
qed

text \<open>C11. Staging is linear encoding: an item that fits the batch is staged without a panic, what it adds to the
  gather is byte for byte the header, the payload, the digest and the capsule, written one after the
  other, and the pieces stay within the arena and the vector limits a batch reserves per item.
\<close>

theorem staged_is_linear:
  assumes "staged_ok g" "fits ARENA_PER_ITEM IOVS_PER_ITEM g" "work_ok a g w" "crc_pieces ev"
  shows "\<exists>g' m'. tcp_stage ev a g w m = Some (g', release_class w, m') \<and>
    map m' (wire g') = map m (wire g) @ work_bytes ev a m w \<and> staged_ok g' \<and>
    gb_arena_used g' \<le> gb_arena_used g + ARENA_PER_ITEM \<and> length (gb_iovs g') \<le> gb_iov_cap g' \<and>
    (\<forall>x. x \<notin> free_arena g \<longrightarrow> m' x = m x)"
proof -
  have "gb_arena_used g + ARENA_PER_ITEM \<le> gb_arena_len g" using assms(2) by (simp add: fits_def)
  then obtain g' m' where s: "stage_send_work ev a w (g, m) = Some (g', m')"
    using stage_total [OF assms(1) _ assms(3,4), of m] by auto
  have "length (gb_iovs g) + IOVS_PER_ITEM \<le> gb_iov_cap g" using assms(2) by (simp add: fits_def)
  then show ?thesis
    using s stage_appended [OF s assms(1,3,4)] by (intro exI [of _ g'] exI [of _ m']) (auto simp: tcp_stage_def appended_def)
qed

theorem staged_is_linear_witness:
  "\<exists>g' m'. tcp_stage demo_stage_env demo_send_slots (gather_build 100 4096 None 70) (Response demo_completion) (\<lambda>_. 7) = Some (g', AtNotif 0, m') \<and>
     map m' (wire g') = encode_c2h_data (se_crc demo_stage_env) 5 0 8 True False False False @ [7, 7, 7, 7, 7, 7, 7, 7] @
       encode_capsule_resp (se_crc demo_stage_env) (cp_cqe demo_completion) False"
proof -
  let ?g = "gather_build 100 4096 None 70" and ?w = "Response demo_completion"
  have "staged_ok ?g" by (simp add: staged_ok_def batch_ok_def gather_build_def wire_def live_iov_def)
  moreover have "fits ARENA_PER_ITEM IOVS_PER_ITEM ?g"
    by (simp add: fits_def gather_build_def ARENA_PER_ITEM_def IOVS_PER_ITEM_def MAX_SEGS_def UIO_MAXIOV_def)
  moreover have "work_ok demo_send_slots ?g ?w"
    by (auto simp: work_ok_def demo_send_slots_def demo_completion_def slot_of_def gather_build_def slot_data_wf_def seg_addrs_def data_addrs_def MAX_SEGS_def)
  ultimately obtain g' m' where "tcp_stage demo_stage_env demo_send_slots ?g ?w (\<lambda>_. 7) = Some (g', release_class ?w, m')"
    "map m' (wire g') = map (\<lambda>_. 7) (wire ?g) @ work_bytes demo_stage_env demo_send_slots (\<lambda>_. 7) ?w"
    using staged_is_linear [OF _ _ _ crc_stage_env_pieces, of ?g demo_send_slots ?w False False False "\<lambda>_. 7"] by blast
  moreover have "release_class ?w = AtNotif 0" by (simp add: release_class_def demo_completion_def)
  moreover have "payload_of demo_send_slots (\<lambda>_. 7) demo_completion = [7, 7, 7, 7, 7, 7, 7, 7]"
    by (simp add: payload_of_def demo_send_slots_def demo_completion_def slot_of_def contents_def mem_read_def upt_rec)
  ultimately show ?thesis
    by (intro exI [of _ g'] exI [of _ m'])
      (simp add: work_bytes_def success_elide_def crc_stage_env_def demo_completion_def gather_build_def wire_def live_iov_def)
qed

end
