(* ===== verification/Cpu_Set.thy ===== *)
theory Cpu_Set
  imports Prelude
begin

text \<open>
  CPU bit sets (\<^verbatim>\<open>ioutgt-cpus/src/cpuset.rs\<close>): a growable vector of 64-bit words with the mask
  operations, and the cpulist text format in both directions. CPU ids are \<^verbatim>\<open>usize\<close> values, here natural
  numbers; texts are ASCII. \<open>cpus\<close> is the set a vector stands for.
\<close>

section \<open>The bit vector\<close>

record cpu_set =
  cs_words :: "u64 list"

definition cs_new :: cpu_set where
  "cs_new = \<lparr>cs_words = []\<rparr>"

definition cs_set :: "nat \<Rightarrow> cpu_set \<Rightarrow> cpu_set" where
  "cs_set cpu s =
     (let w = cpu div 64;
          ws = (if length (cs_words s) \<le> w then cs_words s @ replicate (w + 1 - length (cs_words s)) 0 else cs_words s) in
      s\<lparr>cs_words := ws[w := (ws ! w) OR push_bit (cpu mod 64) 1]\<rparr>)"

definition cs_clear :: "nat \<Rightarrow> cpu_set \<Rightarrow> cpu_set" where
  "cs_clear cpu s =
     (let w = cpu div 64 in
      if w < length (cs_words s) then s\<lparr>cs_words := (cs_words s)[w := (cs_words s ! w) AND NOT (push_bit (cpu mod 64) 1)]\<rparr> else s)"

definition cs_test :: "cpu_set \<Rightarrow> nat \<Rightarrow> bool" where
  "cs_test s cpu \<longleftrightarrow> cpu div 64 < length (cs_words s) \<and> (cs_words s ! (cpu div 64)) AND push_bit (cpu mod 64) 1 \<noteq> 0"

definition count_ones :: "u64 \<Rightarrow> nat" where
  "count_ones w = length (filter (bit w) [0..<64])"

definition cs_weight :: "cpu_set \<Rightarrow> nat" where
  "cs_weight s = sum_list (map count_ones (cs_words s))"

definition cs_is_empty :: "cpu_set \<Rightarrow> bool" where
  "cs_is_empty s \<longleftrightarrow> list_all (\<lambda>w. w = 0) (cs_words s)"

definition cs_iter :: "cpu_set \<Rightarrow> nat list" where
  "cs_iter s = concat (map (\<lambda>(i, w). map (\<lambda>b. i * 64 + b) (filter (\<lambda>b. w AND push_bit b 1 \<noteq> 0) [0..<64])) (enumerate 0 (cs_words s)))"

definition cs_first :: "cpu_set \<Rightarrow> nat option" where
  "cs_first s = (case cs_iter s of [] \<Rightarrow> None | c # _ \<Rightarrow> Some c)"

text \<open>\<^verbatim>\<open>leading_zeros\<close> of a non-zero word counts from its highest bit.\<close>

definition highest_bit :: "u64 \<Rightarrow> nat" where
  "highest_bit w = last (filter (bit w) [0..<64])"

definition cs_last :: "cpu_set \<Rightarrow> nat option" where
  "cs_last s = map_option (\<lambda>(i, w). i * 64 + highest_bit w) (find (\<lambda>(i, w). w \<noteq> 0) (rev (enumerate 0 (cs_words s))))"

definition cs_and :: "cpu_set \<Rightarrow> cpu_set \<Rightarrow> cpu_set" where
  "cs_and s t = \<lparr>cs_words = map (\<lambda>(a, b). a AND b) (zip (cs_words s) (cs_words t))\<rparr>"

definition word_at :: "cpu_set \<Rightarrow> nat \<Rightarrow> u64" where
  "word_at s i = (if i < length (cs_words s) then cs_words s ! i else 0)"

definition cs_or :: "cpu_set \<Rightarrow> cpu_set \<Rightarrow> cpu_set" where
  "cs_or s t = \<lparr>cs_words = map (\<lambda>i. word_at s i OR word_at t i) [0..<max (length (cs_words s)) (length (cs_words t))]\<rparr>"

definition cs_andnot :: "cpu_set \<Rightarrow> cpu_set \<Rightarrow> cpu_set" where
  "cs_andnot s t = \<lparr>cs_words = map (\<lambda>(i, a). a AND NOT (word_at t i)) (enumerate 0 (cs_words s))\<rparr>"

definition cs_intersects :: "cpu_set \<Rightarrow> cpu_set \<Rightarrow> bool" where
  "cs_intersects s t \<longleftrightarrow> list_ex (\<lambda>(a, b). a AND b \<noteq> 0) (zip (cs_words s) (cs_words t))"

definition cs_collect :: "nat list \<Rightarrow> cpu_set" where
  "cs_collect cs = fold cs_set cs cs_new"

section \<open>The cpulist format\<close>

definition is_space :: "char \<Rightarrow> bool" where
  "is_space c \<longleftrightarrow> (let n = of_char c :: nat in n = 32 \<or> 9 \<le> n \<and> n \<le> 13)"

definition trim :: "string \<Rightarrow> string" where
  "trim s = rev (dropWhile is_space (rev (dropWhile is_space s)))"

fun split_on :: "char \<Rightarrow> string \<Rightarrow> string list" where
  "split_on d [] = [[]]"
| "split_on d (c # cs) =
     (if c = d then [] # split_on d cs
      else (case split_on d cs of [] \<Rightarrow> [[c]] | p # ps \<Rightarrow> (c # p) # ps))"

fun split_once :: "char \<Rightarrow> string \<Rightarrow> (string \<times> string) option" where
  "split_once d [] = None"
| "split_once d (c # cs) =
     (if c = d then Some ([], cs) else map_option (\<lambda>(a, b). (c # a, b)) (split_once d cs))"

definition dec_value :: "char \<Rightarrow> nat option" where
  "dec_value c = (let n = of_char c :: nat in if 48 \<le> n \<and> n \<le> 57 then Some (n - 48) else None)"

fun dec_digits :: "nat \<Rightarrow> string \<Rightarrow> nat option" where
  "dec_digits acc [] = Some acc"
| "dec_digits acc (c # cs) =
     (case dec_value c of
        None \<Rightarrow> None
      | Some d \<Rightarrow> if acc * 10 + d < 2 ^ 64 then dec_digits (acc * 10 + d) cs else None)"

text \<open>\<^verbatim>\<open>str::parse::<usize>\<close>: an optional plus sign, then digits whose value fits.\<close>

definition parse_usize :: "string \<Rightarrow> nat option" where
  "parse_usize s =
     (let ds = (case s of c # cs \<Rightarrow> if c = CHR ''+'' then cs else s | [] \<Rightarrow> s) in
      if ds = [] then None else dec_digits 0 ds)"

definition parse_range :: "string \<Rightarrow> (nat \<times> nat) option" where
  "parse_range part =
     (let (lo, hi) = (case split_once (CHR ''-'') part of Some p \<Rightarrow> p | None \<Rightarrow> (part, part)) in
      case parse_usize lo of
        None \<Rightarrow> None
      | Some l \<Rightarrow> (case parse_usize hi of None \<Rightarrow> None | Some h \<Rightarrow> if h < l then None else Some (l, h)))"

fun add_parts :: "string list \<Rightarrow> cpu_set \<Rightarrow> cpu_set option" where
  "add_parts [] s = Some s"
| "add_parts (p # ps) s =
     (case parse_range p of None \<Rightarrow> None | Some (lo, hi) \<Rightarrow> add_parts ps (fold cs_set [lo..<hi + 1] s))"

text \<open>\<^const>\<open>None\<close> is the \<^verbatim>\<open>InvalidData\<close> error.\<close>

definition from_cpulist :: "string \<Rightarrow> cpu_set option" where
  "from_cpulist s = add_parts (filter (\<lambda>p. p \<noteq> []) (split_on (CHR '','') (trim s))) cs_new"

fun show_dec :: "nat \<Rightarrow> string" where
  "show_dec n = (if n < 10 then [char_of (48 + n)] else show_dec (n div 10) @ [char_of (48 + n mod 10)])"

declare show_dec.simps [simp del]

definition show_run :: "nat \<times> nat \<Rightarrow> string" where
  "show_run r = (case r of (lo, hi) \<Rightarrow> if lo = hi then show_dec lo else show_dec lo @ CHR ''-'' # show_dec hi)"

text \<open>The state of the formatter: what is written, and the run that is not.\<close>

definition fmt_flush :: "nat \<times> nat \<Rightarrow> string \<Rightarrow> bool \<Rightarrow> string" where
  "fmt_flush r out first = out @ (if first then [] else [CHR '','']) @ show_run r"

fun fmt_runs :: "nat list \<Rightarrow> (nat \<times> nat) option \<Rightarrow> string \<Rightarrow> bool \<Rightarrow> string" where
  "fmt_runs [] None out first = out"
| "fmt_runs [] (Some r) out first = fmt_flush r out first"
| "fmt_runs (c # cs) None out first = fmt_runs cs (Some (c, c)) out first"
| "fmt_runs (c # cs) (Some (lo, hi)) out first =
     (if c = hi + 1 then fmt_runs cs (Some (lo, c)) out first
      else fmt_runs cs (Some (c, c)) (fmt_flush (lo, hi) out first) False)"

definition cs_fmt :: "cpu_set \<Rightarrow> string" where
  "cs_fmt s = fmt_runs (cs_iter s) None [] True"

section \<open>Sets of CPUs\<close>

definition cpus :: "cpu_set \<Rightarrow> nat set" where
  "cpus s = {c. c div 64 < length (cs_words s) \<and> bit (cs_words s ! (c div 64)) (c mod 64)}"

lemma and_bit_iff: "((w :: u64) AND 2 ^ b = 0) = (\<not> bit w b)"
  by (rule and_exp_eq_0_iff_not_bit)

lemma bit_mask64: "bit (2 ^ m :: u64) n \<longleftrightarrow> m = n \<and> n < 64"
  by (auto simp: bit_exp_iff)

lemma cs_test_cpus [simp]: "cs_test s c \<longleftrightarrow> c \<in> cpus s"
  by (auto simp: cs_test_def cpus_def and_bit_iff)

lemma cpus_word_at: "c \<in> cpus s \<longleftrightarrow> bit (word_at s (c div 64)) (c mod 64)"
  by (auto simp: cpus_def word_at_def)

lemma cpus_new [simp]: "cpus cs_new = {}"
  by (simp add: cpus_def cs_new_def)

lemma div_mod_eq: "c div 64 = d div 64 \<Longrightarrow> c mod 64 = d mod 64 \<Longrightarrow> c = (d :: nat)"
  by (metis div_mult_mod_eq)

lemma cpus_set [simp]: "cpus (cs_set c s) = insert c (cpus s)"
proof (rule set_eqI)
  fix d
  define w where "w = c div 64"
  define ws where "ws = (if length (cs_words s) \<le> w then cs_words s @ replicate (w + 1 - length (cs_words s)) 0 else cs_words s)"
  have l: "w < length ws" by (simp add: ws_def)
  have n: "ws ! i = word_at s i" if "i < length ws" for i
    using that by (cases "length (cs_words s) \<le> w") (auto simp: ws_def word_at_def nth_append)
  have z: "word_at s i = 0" if "\<not> i < length ws" for i
    using that by (cases "length (cs_words s) \<le> w") (auto simp: ws_def word_at_def)
  have "cs_words (cs_set c s) = ws[w := (ws ! w) OR 2 ^ (c mod 64)]"
    by (simp add: cs_set_def Let_def ws_def w_def)
  then have e: "cs_words (cs_set c s) = ws[w := word_at s w OR 2 ^ (c mod 64)]" by (simp only: n [OF l])
  have "word_at (cs_set c s) i = (if i = w then word_at s i OR 2 ^ (c mod 64) else word_at s i)" for i
    using l n [of i] z [of i] by (simp add: word_at_def [of "cs_set c s"] e nth_list_update)
  then have "d \<in> cpus (cs_set c s) \<longleftrightarrow> (d div 64 = w \<and> d mod 64 = c mod 64) \<or> d \<in> cpus s"
    unfolding cpus_word_at by (cases "d div 64 = w") (auto simp: bit_or_iff bit_mask64)
  then show "d \<in> cpus (cs_set c s) \<longleftrightarrow> d \<in> insert c (cpus s)"
    unfolding w_def using div_mod_eq [of d c] by blast
qed

lemma cpus_clear [simp]: "cpus (cs_clear c s) = cpus s - {c}"
proof (rule set_eqI)
  fix d
  have "word_at (cs_clear c s) i = (if i = c div 64 then word_at s i AND NOT (2 ^ (c mod 64)) else word_at s i)" for i
    by (auto simp: word_at_def cs_clear_def Let_def nth_list_update)
  then have "d \<in> cpus (cs_clear c s) \<longleftrightarrow> d \<in> cpus s \<and> \<not> (d div 64 = c div 64 \<and> d mod 64 = c mod 64)"
    unfolding cpus_word_at by (cases "d div 64 = c div 64") (auto simp: bit_and_iff bit_not_iff bit_mask64)
  then show "d \<in> cpus (cs_clear c s) \<longleftrightarrow> d \<in> cpus s - {c}"
    using div_mod_eq [of d c] by blast
qed

lemma cpus_fold_set: "cpus (fold cs_set cs s) = set cs \<union> cpus s"
  by (induction cs arbitrary: s) auto

lemma cpus_collect [simp]: "cpus (cs_collect cs) = set cs"
  by (simp add: cs_collect_def cpus_fold_set)

lemma bit_u64: "bit (w :: u64) b \<Longrightarrow> b < 64"
  using bit_imp_le_length [of w b] by simp

lemma cpus_or [simp]: "cpus (cs_or s t) = cpus s \<union> cpus t"
proof (rule set_eqI)
  fix d
  have "word_at (cs_or s t) i = word_at s i OR word_at t i" for i by (auto simp: word_at_def cs_or_def)
  then show "d \<in> cpus (cs_or s t) \<longleftrightarrow> d \<in> cpus s \<union> cpus t" by (simp add: cpus_word_at bit_or_iff)
qed

lemma cpus_and [simp]: "cpus (cs_and s t) = cpus s \<inter> cpus t"
proof (rule set_eqI)
  fix d
  have "word_at (cs_and s t) i = word_at s i AND word_at t i" for i by (auto simp: word_at_def cs_and_def)
  then show "d \<in> cpus (cs_and s t) \<longleftrightarrow> d \<in> cpus s \<inter> cpus t" by (simp add: cpus_word_at bit_and_iff)
qed

lemma cpus_andnot [simp]: "cpus (cs_andnot s t) = cpus s - cpus t"
proof (rule set_eqI)
  fix d
  have "word_at (cs_andnot s t) i = word_at s i AND NOT (word_at t i)" for i
    by (auto simp: word_at_def cs_andnot_def nth_enumerate_eq)
  then show "d \<in> cpus (cs_andnot s t) \<longleftrightarrow> d \<in> cpus s - cpus t"
    using bit_u64 [of "word_at s (d div 64)" "d mod 64"] by (auto simp: cpus_word_at bit_and_iff bit_not_iff)
qed

lemma cs_is_empty_cpus [simp]: "cs_is_empty s \<longleftrightarrow> cpus s = {}"
proof -
  have "(\<exists>w \<in> set (cs_words s). w \<noteq> 0) \<longleftrightarrow> (\<exists>c. c \<in> cpus s)"
  proof
    assume "\<exists>w \<in> set (cs_words s). w \<noteq> 0"
    then obtain i where i: "i < length (cs_words s)" "cs_words s ! i \<noteq> 0" by (auto simp: in_set_conv_nth)
    then obtain b where "bit (cs_words s ! i) b" by (metis bit_eqI bit_0_eq bot_apply bot_bool_def)
    then have "i * 64 + b \<in> cpus s" using bit_u64 i by (auto simp: cpus_def)
    then show "\<exists>c. c \<in> cpus s" by blast
  next
    assume "\<exists>c. c \<in> cpus s"
    then obtain c where c: "c div 64 < length (cs_words s)" "bit (cs_words s ! (c div 64)) (c mod 64)" by (auto simp: cpus_def)
    then have "cs_words s ! (c div 64) \<noteq> 0" by auto
    then show "\<exists>w \<in> set (cs_words s). w \<noteq> 0" using c(1) nth_mem by blast
  qed
  then show ?thesis by (auto simp: cs_is_empty_def list_all_iff)
qed

lemma cs_intersects_cpus [simp]: "cs_intersects s t \<longleftrightarrow> cpus s \<inter> cpus t \<noteq> {}"
proof -
  have "cs_intersects s t \<longleftrightarrow> \<not> cs_is_empty (cs_and s t)"
    by (auto simp: cs_intersects_def cs_is_empty_def cs_and_def list_ex_iff list_all_iff Bex_def case_prod_beta simp del: cs_is_empty_cpus)
  then show ?thesis by simp
qed

lemma iter_word: "filter (\<lambda>b. (w :: u64) AND push_bit b 1 \<noteq> 0) [0..<64] = filter (bit w) [0..<64]"
  by (rule filter_cong) (simp_all add: and_bit_iff)

lemma cs_iter_bits:
  "cs_iter s = concat (map (\<lambda>(i, w). map (\<lambda>b. i * 64 + b) (filter (bit w) [0..<64])) (enumerate 0 (cs_words s)))"
  by (simp only: cs_iter_def iter_word)

text \<open>Iteration visits the members in ascending order.\<close>

lemma cs_iter_spec: "sorted_wrt (<) (cs_iter s) \<and> set (cs_iter s) = cpus s"
proof -
  define f where "f = (\<lambda>(i, w :: u64). map (\<lambda>b. i * 64 + b) (filter (bit w) [0..<64]))"
  have it: "cs_iter s = concat (map f (enumerate 0 (cs_words s)))" by (simp only: cs_iter_bits f_def)
  have rng: "c \<in> set (f (i, w)) \<Longrightarrow> i * 64 \<le> c \<and> c < (i + 1) * 64" for c i w by (auto simp: f_def)
  have srt: "sorted_wrt (<) (f p)" for p
  proof (cases p)
    case (Pair i w)
    have "sorted_wrt (<) (filter (bit w) [0..<64])" by (rule sorted_wrt_filter) simp
    then show ?thesis by (simp add: f_def Pair sorted_wrt_map)
  qed
  have "sorted_wrt (<) (concat (map f (enumerate n ws))) \<and> (\<forall>c \<in> set (concat (map f (enumerate n ws))). n * 64 \<le> c)" for n ws
  proof (induction ws arbitrary: n)
    case (Cons w ws)
    have "x < y" if "x \<in> set (f (n, w))" "y \<in> set (concat (map f (enumerate (Suc n) ws)))" for x y
      using rng [OF that(1)] Cons.IH [of "Suc n"] that(2) by fastforce
    moreover have "n * 64 \<le> y" if "y \<in> set (concat (map f (enumerate (Suc n) ws)))" for y
      using Cons.IH [of "Suc n"] that by fastforce
    ultimately show ?case using srt [of "(n, w)"] Cons.IH [of "Suc n"] rng by (auto simp: sorted_wrt_append)
  qed simp
  moreover have "set (concat (map f (enumerate 0 (cs_words s)))) = cpus s"
  proof (rule set_eqI)
    fix c
    show "c \<in> set (concat (map f (enumerate 0 (cs_words s)))) \<longleftrightarrow> c \<in> cpus s"
    proof
      assume "c \<in> set (concat (map f (enumerate 0 (cs_words s))))"
      then show "c \<in> cpus s" by (auto simp: f_def cpus_def in_set_enumerate_eq)
    next
      assume "c \<in> cpus s"
      then have "(c div 64, cs_words s ! (c div 64)) \<in> set (enumerate 0 (cs_words s))" "c \<in> set (f (c div 64, cs_words s ! (c div 64)))"
        by (auto simp: cpus_def in_set_enumerate_eq f_def image_iff intro!: exI [of _ "c mod 64"])
      then show "c \<in> set (concat (map f (enumerate 0 (cs_words s))))" by auto
    qed
  qed
  ultimately show ?thesis unfolding it by blast
qed

lemma set_cs_iter [simp]: "set (cs_iter s) = cpus s"
  using cs_iter_spec by blast

lemma sorted_distinct_wrt: "sorted_wrt (<) (xs :: nat list) \<Longrightarrow> distinct xs"
  by (induction xs) auto

lemma distinct_cs_iter [simp]: "distinct (cs_iter s)"
  using cs_iter_spec sorted_distinct_wrt by blast

lemma finite_cpus [simp]: "finite (cpus s)"
  by (metis List.finite_set set_cs_iter)

lemma cs_weight_card: "cs_weight s = card (cpus s)"
proof -
  have "length (concat (map (\<lambda>(i, w). map (\<lambda>b. i * 64 + b) (filter (bit w) [0..<64])) (enumerate n ws))) =
      sum_list (map count_ones ws)" for n and ws :: "u64 list"
    by (induction ws arbitrary: n) (simp_all add: count_ones_def)
  then have "cs_weight s = length (cs_iter s)" by (simp only: cs_weight_def cs_iter_bits)
  then show ?thesis by (metis distinct_card distinct_cs_iter set_cs_iter)
qed

lemma cs_first_cpus: "cs_first s = (if cpus s = {} then None else Some (Min (cpus s)))"
proof (cases "cs_iter s")
  case Nil
  then show ?thesis using set_cs_iter [of s] by (simp add: cs_first_def)
next
  case (Cons c cs)
  have "Min (cpus s) = c"
    using cs_iter_spec [of s] Cons by (intro Min_eqI) (auto simp flip: set_cs_iter)
  then show ?thesis using set_cs_iter [of s] Cons by (auto simp: cs_first_def)
qed

section \<open>Printing and parsing\<close>

definition is_digit :: "char \<Rightarrow> bool" where
  "is_digit c \<longleftrightarrow> (\<exists>d < 10. c = char_of (48 + d :: nat))"

lemma digit_chars:
  assumes "is_digit c"
  shows "c \<noteq> CHR '',''" "c \<noteq> CHR ''-''" "c \<noteq> CHR ''+''" "\<not> is_space c"
proof -
  obtain d where d: "d < 10" "c = char_of (48 + d :: nat)" using assms by (auto simp: is_digit_def)
  have n: "of_char c = 48 + d" using d by simp
  show "c \<noteq> CHR '',''" "c \<noteq> CHR ''-''" "c \<noteq> CHR ''+''" using n d(1) by auto
  show "\<not> is_space c" using n d(1) by (simp add: is_space_def)
qed

lemma dec_value_digit: "d < 10 \<Longrightarrow> dec_value (char_of (48 + d)) = Some d"
  by (simp add: dec_value_def)

lemma show_dec_digits: "show_dec n \<noteq> [] \<and> (\<forall>c \<in> set (show_dec n). is_digit c)"
proof (induction n rule: show_dec.induct)
  case (1 n)
  show ?case
    using 1 by (subst (1 2) show_dec.simps) (auto simp: is_digit_def intro: exI [of _ "n mod 10"])
qed

lemma dec_digits_append: "dec_digits acc (xs @ ys) = (case dec_digits acc xs of None \<Rightarrow> None | Some a \<Rightarrow> dec_digits a ys)"
  by (induction xs arbitrary: acc) (auto split: option.split)

lemma dec_digits_show: "n < 2 ^ 64 \<Longrightarrow> dec_digits 0 (show_dec n) = Some n"
proof (induction n rule: show_dec.induct)
  case (1 n)
  show ?case
  proof (cases "n < 10")
    case True
    then show ?thesis using 1(2) by (subst show_dec.simps) (simp add: dec_value_digit)
  next
    case False
    have "n div 10 < 2 ^ 64" using 1(2) by linarith
    then have "dec_digits 0 (show_dec (n div 10)) = Some (n div 10)" by (rule 1(1) [OF False])
    moreover have "n div 10 * 10 + n mod 10 < 2 ^ 64" using 1(2) by simp
    ultimately show ?thesis
      using False by (subst show_dec.simps) (simp add: dec_digits_append dec_value_digit)
  qed
qed

lemma parse_show_dec:
  assumes "n < 2 ^ 64"
  shows "parse_usize (show_dec n) = Some n"
proof -
  obtain c cs where c: "show_dec n = c # cs" "is_digit c" using show_dec_digits [of n] by (cases "show_dec n") auto
  then show ?thesis
    using dec_digits_show [OF assms] digit_chars(3) [OF c(2)] by (simp add: parse_usize_def)
qed

lemma split_once_none: "d \<notin> set xs \<Longrightarrow> split_once d xs = None"
  by (induction xs) auto

lemma split_once_here: "d \<notin> set xs \<Longrightarrow> split_once d (xs @ d # ys) = Some (xs, ys)"
  by (induction xs) auto

lemma split_on_none: "d \<notin> set xs \<Longrightarrow> split_on d xs = [xs]"
  by (induction xs) auto

lemma split_on_here: "d \<notin> set xs \<Longrightarrow> split_on d (xs @ d # ys) = xs # split_on d ys"
  by (induction xs) auto

lemma parse_show_run:
  assumes "lo \<le> hi" "hi < 2 ^ 64"
  shows "parse_range (show_run (lo, hi)) = Some (lo, hi)"
proof -
  have nd: "CHR ''-'' \<notin> set (show_dec n)" for n using show_dec_digits [of n] digit_chars(2) by blast
  show ?thesis
    using assms by (auto simp: parse_range_def show_run_def split_once_none split_once_here nd parse_show_dec)
qed

lemma show_run_chars:
  "show_run r \<noteq> []" "CHR '','' \<notin> set (show_run r)" "\<forall>c \<in> set (show_run r). \<not> is_space c"
proof -
  obtain lo hi where r: "r = (lo, hi)" by (cases r)
  have d: "show_dec n \<noteq> []" "\<forall>c \<in> set (show_dec n). c \<noteq> CHR '','' \<and> \<not> is_space c" for n
    using show_dec_digits [of n] digit_chars(1,4) by blast+
  show "show_run r \<noteq> []" "CHR '','' \<notin> set (show_run r)" "\<forall>c \<in> set (show_run r). \<not> is_space c"
    using d [of lo] d [of hi] by (auto simp: r show_run_def is_space_def)
qed

text \<open>The runs the formatter writes.\<close>

fun runs :: "nat list \<Rightarrow> (nat \<times> nat) option \<Rightarrow> (nat \<times> nat) list" where
  "runs [] None = []"
| "runs [] (Some r) = [r]"
| "runs (c # cs) None = runs cs (Some (c, c))"
| "runs (c # cs) (Some (lo, hi)) =
     (if c = hi + 1 then runs cs (Some (lo, c)) else (lo, hi) # runs cs (Some (c, c)))"

fun show_runs :: "bool \<Rightarrow> (nat \<times> nat) list \<Rightarrow> string" where
  "show_runs first [] = []"
| "show_runs first (r # rs) = (if first then [] else [CHR '','']) @ show_run r @ show_runs False rs"

lemma fmt_runs_eq: "fmt_runs cs r out first = out @ show_runs first (runs cs r)"
  by (induction cs r out first rule: fmt_runs.induct) (simp_all add: fmt_flush_def)

lemma runs_members:
  "(case r of None \<Rightarrow> True | Some (lo, hi) \<Rightarrow> lo \<le> hi) \<Longrightarrow>
    (\<Union>(lo, hi) \<in> set (runs cs r). {lo..<hi + 1}) = set cs \<union> (case r of None \<Rightarrow> {} | Some (lo, hi) \<Rightarrow> {lo..<hi + 1}) \<and>
    (\<forall>(lo, hi) \<in> set (runs cs r). lo \<le> hi)"
proof (induction cs r rule: runs.induct)
  case (4 c cs lo hi)
  show ?case
  proof (cases "c = hi + 1")
    case True
    have "{lo..<c + 1} = insert c {lo..<hi + 1}" using True 4(3) by auto
    then show ?thesis using 4(1) [OF True] True 4(3) by auto
  next
    case False
    then show ?thesis using 4(2) [OF False] 4(3) by auto
  qed
qed auto

lemma split_show_runs: "rs \<noteq> [] \<Longrightarrow> split_on (CHR '','') (show_runs True rs) = map show_run rs"
proof (induction rs)
  case (Cons r rs)
  show ?case
  proof (cases rs)
    case Nil
    then show ?thesis using show_run_chars(2) [of r] by (simp add: split_on_none)
  next
    case (Cons q qs)
    have "show_runs False rs = CHR '','' # show_runs True rs" by (simp add: Cons)
    then show ?thesis using Cons.IH show_run_chars(2) [of r] Cons by (simp add: split_on_here)
  qed
qed simp

lemma show_runs_space: "\<forall>c \<in> set (show_runs first rs). \<not> is_space c"
proof (induction rs arbitrary: first)
  case (Cons r rs)
  have "\<not> is_space (CHR '','')" by (simp add: is_space_def)
  then show ?case using show_run_chars(3) [of r] Cons.IH [of False] by auto
qed simp

lemma trim_id: "\<forall>c \<in> set s. \<not> is_space c \<Longrightarrow> trim s = s"
proof -
  assume s: "\<forall>c \<in> set s. \<not> is_space c"
  have d: "dropWhile is_space xs = xs" if "\<forall>c \<in> set xs. \<not> is_space c" for xs
    using that by (cases xs) auto
  show ?thesis using d [OF s] d [of "rev s"] s by (simp add: trim_def)
qed

lemma add_parts_runs:
  "\<forall>(lo, hi) \<in> set rs. lo \<le> hi \<and> hi < 2 ^ 64 \<Longrightarrow>
    \<exists>t. add_parts (map show_run rs) s = Some t \<and> cpus t = cpus s \<union> (\<Union>(lo, hi) \<in> set rs. {lo..<hi + 1})"
proof (induction rs arbitrary: s)
  case (Cons r rs)
  obtain lo hi where r: "r = (lo, hi)" by (cases r)
  have "parse_range (show_run r) = Some (lo, hi)" using Cons.prems by (simp add: r parse_show_run)
  moreover obtain t where "add_parts (map show_run rs) (fold cs_set [lo..<hi + 1] s) = Some t"
      "cpus t = cpus (fold cs_set [lo..<hi + 1] s) \<union> (\<Union>(lo, hi) \<in> set rs. {lo..<hi + 1})"
    using Cons.IH [of "fold cs_set [lo..<hi + 1] s"] Cons.prems by auto
  ultimately show ?case by (auto simp: r cpus_fold_set simp del: upt_Suc)
qed simp

lemma cs_iter_unique: "cpus s = cpus t \<Longrightarrow> cs_iter s = cs_iter t"
  using cs_iter_spec [of s] cs_iter_spec [of t]
  by (metis distinct_cs_iter set_cs_iter sorted_distinct_set_unique strict_sorted_imp_sorted)

text \<open>C36. Printing a CPU set and parsing the text gives the same CPUs back, and printing again gives the same
  text: the formatter is the inverse of the parser, as its comment says. The hypothesis is that the
  ids fit a machine word.\<close>

theorem cpulist_roundtrip:
  assumes "\<forall>c \<in> cpus s. c < 2 ^ 64"
  shows "\<exists>t. from_cpulist (cs_fmt s) = Some t \<and> cpus t = cpus s \<and> cs_fmt t = cs_fmt s"
proof -
  let ?rs = "runs (cs_iter s) None"
  have f: "cs_fmt s = show_runs True ?rs" by (simp add: cs_fmt_def fmt_runs_eq)
  note m = runs_members [of None "cs_iter s"]
  have b: "\<forall>(lo, hi) \<in> set ?rs. lo \<le> hi \<and> hi < 2 ^ 64"
  proof
    fix r assume r: "r \<in> set ?rs"
    obtain lo hi where lh: "r = (lo, hi)" by (cases r)
    have "lo \<le> hi" using m r lh by auto
    then have "hi \<in> (\<Union>(lo, hi) \<in> set ?rs. {lo..<hi + 1})" using r lh by force
    moreover have "(\<Union>(lo, hi) \<in> set ?rs. {lo..<hi + 1}) = cpus s" using m by simp
    ultimately have "hi \<in> cpus s" by (simp only:)
    then show "case r of (lo, hi) \<Rightarrow> lo \<le> hi \<and> hi < 2 ^ 64" using assms lh \<open>lo \<le> hi\<close> by simp
  qed
  have p: "filter (\<lambda>p. p \<noteq> []) (split_on (CHR '','') (trim (cs_fmt s))) = map show_run ?rs"
  proof (cases "?rs = []")
    case True
    then show ?thesis by (simp add: f trim_def)
  next
    case False
    have "filter (\<lambda>p. p \<noteq> []) (map show_run rs) = map show_run rs" for rs
      using show_run_chars(1) by (induction rs) auto
    then show ?thesis using split_show_runs [OF False] trim_id [OF show_runs_space] by (simp add: f)
  qed
  obtain t where t: "add_parts (map show_run ?rs) cs_new = Some t" "cpus t = cpus cs_new \<union> (\<Union>(lo, hi) \<in> set ?rs. {lo..<hi + 1})"
    using add_parts_runs [OF b] by blast
  then have "cpus t = cpus s" using m by simp
  moreover have "cs_fmt t = cs_fmt s" using cs_iter_unique [OF calculation] by (simp add: cs_fmt_def)
  ultimately show ?thesis using t(1) by (simp add: from_cpulist_def p)
qed

theorem cpulist_roundtrip_witness:
  "\<exists>t. from_cpulist ''0-3,8'' = Some t \<and> cpus t = {0, 1, 2, 3, 8} \<and> cs_fmt t = ''0-3,8''"
proof -
  let ?s = "cs_collect [0, 1, 2, 3, 8]"
  have "cs_fmt ?s = ''0-3,8''" by code_simp
  moreover have "\<forall>c \<in> cpus ?s. c < 2 ^ 64" by simp
  ultimately show ?thesis using cpulist_roundtrip [of ?s] by simp
qed

end
