(* ===== verification/Cpu_Spread.thy ===== *)
theory Cpu_Spread
  imports Cpu_Set
begin

text \<open>
  The machine's topology (\<^verbatim>\<open>ioutgt-cpus/src/topology.rs\<close>) and the partition of its CPUs into pinning
  groups (\<^verbatim>\<open>ioutgt-cpus/src/spread.rs\<close>). The contents of sysfs are an argument. \<open>None\<close> is a panic: an
  index out of range, a failed \<^verbatim>\<open>expect\<close>, a division by zero or an overflowing product.
\<close>

section \<open>Topology\<close>

record cpu_topology =
  nr_cpu_ids :: nat
  possible :: cpu_set
  present :: cpu_set
  online :: cpu_set
  node_to_cpus :: "cpu_set list"
  sibling :: "cpu_set list"
  cluster :: "cpu_set list"

datatype sysfs_error = ReadFailed | BadCpulist

text \<open>What reading a file gives, and the entries of the node directory if it can be listed.\<close>

datatype file_read = Contents string | NotFound | Failed

record sysfs =
  sys_file :: "string \<Rightarrow> file_read"
  sys_nodes :: "string option list option"

definition parse_cpulist :: "string \<Rightarrow> sysfs_error + cpu_set" where
  "parse_cpulist s = (case from_cpulist s of None \<Rightarrow> Inl BadCpulist | Some c \<Rightarrow> Inr c)"

definition read_cpulist :: "sysfs \<Rightarrow> string \<Rightarrow> sysfs_error + cpu_set" where
  "read_cpulist fs path = (case sys_file fs path of Contents s \<Rightarrow> parse_cpulist s | _ \<Rightarrow> Inl ReadFailed)"

definition read_cpulist_opt :: "sysfs \<Rightarrow> string \<Rightarrow> sysfs_error + cpu_set" where
  "read_cpulist_opt fs path =
     (case sys_file fs path of Contents s \<Rightarrow> parse_cpulist s | NotFound \<Rightarrow> Inr cs_new | Failed \<Rightarrow> Inl ReadFailed)"

definition node_id :: "string \<Rightarrow> nat option" where
  "node_id name = (if take 4 name = ''node'' then parse_usize (drop 4 name) else None)"

definition put_node :: "nat \<Rightarrow> cpu_set \<Rightarrow> cpu_set list \<Rightarrow> cpu_set list" where
  "put_node i c ns = (if length ns \<le> i then ns @ replicate (i + 1 - length ns) cs_new else ns)[i := c]"

fun read_nodes :: "sysfs \<Rightarrow> string option list \<Rightarrow> cpu_set list \<Rightarrow> sysfs_error + cpu_set list" where
  "read_nodes fs [] ns = Inr ns"
| "read_nodes fs (None # es) ns = Inl ReadFailed"
| "read_nodes fs (Some name # es) ns =
     (case node_id name of
        None \<Rightarrow> read_nodes fs es ns
      | Some i \<Rightarrow> bind_sum (read_cpulist_opt fs (''devices/system/node/'' @ name @ ''/cpulist''))
          (\<lambda>c. read_nodes fs es (put_node i c ns)))"

text \<open>Possible CPUs no node claims go to node 0.\<close>

definition fold_unclaimed :: "cpu_set \<Rightarrow> cpu_set list \<Rightarrow> cpu_set list" where
  "fold_unclaimed poss nodes =
     (let ns = (if nodes = [] then [cs_new] else nodes);
          claimed = fold (\<lambda>n acc. cs_or acc n) ns cs_new in
      ns[0 := cs_or (ns ! 0) (cs_andnot poss claimed)])"

definition topology_file :: "nat \<Rightarrow> string \<Rightarrow> string" where
  "topology_file cpu f = ''devices/system/cpu/cpu'' @ show_dec cpu @ ''/topology/'' @ f"

fun read_masks :: "sysfs \<Rightarrow> nat list \<Rightarrow> cpu_set list \<times> cpu_set list \<Rightarrow> sysfs_error + (cpu_set list \<times> cpu_set list)" where
  "read_masks fs [] m = Inr m"
| "read_masks fs (cpu # cs) (sib, clu) =
     bind_sum (read_cpulist_opt fs (topology_file cpu ''core_cpus_list'')) (\<lambda>s.
     bind_sum (read_cpulist_opt fs (topology_file cpu ''cluster_cpus_list'')) (\<lambda>c.
     read_masks fs cs (sib[cpu := s], clu[cpu := c])))"

definition from_sysfs_root :: "sysfs \<Rightarrow> sysfs_error + cpu_topology" where
  "from_sysfs_root fs =
     bind_sum (read_cpulist fs ''devices/system/cpu/possible'') (\<lambda>poss.
     bind_sum (read_cpulist fs ''devices/system/cpu/present'') (\<lambda>pres.
     bind_sum (read_cpulist fs ''devices/system/cpu/online'') (\<lambda>onl.
     let nr = (case cs_last poss of None \<Rightarrow> 0 | Some c \<Rightarrow> c + 1) in
     bind_sum (case sys_nodes fs of None \<Rightarrow> Inr [] | Some es \<Rightarrow> read_nodes fs es []) (\<lambda>nodes.
     bind_sum (read_masks fs (cs_iter poss) (replicate nr cs_new, replicate nr cs_new)) (\<lambda>(sib, clu).
     Inr \<lparr>nr_cpu_ids = nr, possible = poss, present = pres, online = onl,
          node_to_cpus = fold_unclaimed poss nodes, sibling = sib, cluster = clu\<rparr>)))))"

section \<open>Filling order of a node\<close>

definition mask_of :: "cpu_set list \<Rightarrow> nat \<Rightarrow> cpu_set" where
  "mask_of v cpu = (if cpu < length v then v ! cpu else cs_new)"

definition or_self :: "nat \<Rightarrow> cpu_set \<Rightarrow> cpu_set" where
  "or_self cpu s = (if cs_is_empty s then cs_set cpu s else s)"

definition cluster_of :: "cpu_set \<Rightarrow> cpu_topology \<Rightarrow> cpu_set \<Rightarrow> nat \<Rightarrow> cpu_set" where
  "cluster_of node topo visited cpu =
     (let c = mask_of (cluster topo) cpu;
          c = (if cs_is_empty c then mask_of (sibling topo) cpu else c) in
      or_self cpu (cs_andnot (cs_and c node) visited))"

definition atom_of :: "cpu_topology \<Rightarrow> cpu_set \<Rightarrow> cpu_set \<Rightarrow> nat \<Rightarrow> cpu_set" where
  "atom_of topo clu visited c = or_self c (cs_andnot (cs_and (mask_of (sibling topo) c) clu) visited)"

definition push_member :: "nat \<Rightarrow> nat list \<times> cpu_set \<Rightarrow> nat list \<times> cpu_set" where
  "push_member c st = (fst st @ [c], cs_set c (snd st))"

definition fill_atom :: "cpu_topology \<Rightarrow> cpu_set \<Rightarrow> nat \<Rightarrow> nat list \<times> cpu_set \<Rightarrow> nat list \<times> cpu_set" where
  "fill_atom topo clu c st =
     (if cs_test (snd st) c then st else fold push_member (cs_iter (atom_of topo clu (snd st) c)) st)"

definition fill_cluster :: "cpu_set \<Rightarrow> cpu_topology \<Rightarrow> nat \<Rightarrow> nat list \<times> cpu_set \<Rightarrow> nat list \<times> cpu_set" where
  "fill_cluster node topo cpu st =
     (if cs_test (snd st) cpu then st
      else let clu = cluster_of node topo (snd st) cpu in fold (fill_atom topo clu) (cs_iter clu) st)"

definition fill_order :: "cpu_set \<Rightarrow> cpu_topology \<Rightarrow> nat list" where
  "fill_order node topo = fst (fold (fill_cluster node topo) (cs_iter node) ([], cs_new))"

section \<open>Packing\<close>

definition split_even :: "nat \<Rightarrow> nat \<Rightarrow> nat list" where
  "split_even n k = map (\<lambda>i. n div k + (if i < n mod k then 1 else 0)) [0..<k]"

text \<open>The groups and how many CPUs each holds.\<close>

type_synonym packing = "cpu_set list \<times> nat list"

definition put_cpu :: "nat \<Rightarrow> nat \<Rightarrow> packing \<Rightarrow> packing" where
  "put_cpu cpu g p = ((fst p)[g := cs_set cpu (fst p ! g)], (snd p)[g := snd p ! g + 1])"

fun place_present :: "nat list \<Rightarrow> nat list \<Rightarrow> nat \<Rightarrow> packing \<Rightarrow> packing option" where
  "place_present quota [] g p = Some p"
| "place_present quota (cpu # cs) g p =
     (case find (\<lambda>j. snd p ! j \<noteq> quota ! j) [g..<length quota] of
        None \<Rightarrow> None
      | Some g \<Rightarrow> place_present quota cs g (put_cpu cpu g p))"

definition has_room :: "nat list \<Rightarrow> packing \<Rightarrow> nat \<Rightarrow> bool" where
  "has_room quota p j \<longleftrightarrow> snd p ! j < quota ! j"

definition absent_group :: "nat list \<Rightarrow> cpu_set \<Rightarrow> packing \<Rightarrow> nat option" where
  "absent_group quota sib p =
     (let room = filter (has_room quota p) [0..<length quota] in
      case find (\<lambda>j. cs_intersects (fst p ! j) sib) room of
        Some j \<Rightarrow> Some j
      | None \<Rightarrow> find (has_room quota p) [0..<length quota])"

fun place_absent :: "cpu_topology \<Rightarrow> nat list \<Rightarrow> nat list \<Rightarrow> packing \<Rightarrow> packing option" where
  "place_absent topo quota [] p = Some p"
| "place_absent topo quota (cpu # cs) p =
     (case absent_group quota (mask_of (sibling topo) cpu) p of
        None \<Rightarrow> None
      | Some j \<Rightarrow> place_absent topo quota cs (put_cpu cpu j p))"

definition pack_node :: "cpu_set \<Rightarrow> nat \<Rightarrow> cpu_topology \<Rightarrow> cpu_set list option" where
  "pack_node node seats topo =
     (if seats = 0 then Some []
      else
        let order = fill_order node topo;
            (pres, absent) = partition (cs_test (present topo)) order;
            quota_present = split_even (length pres) seats;
            quota_total = split_even (length order) seats in
        case place_present quota_present pres 0 (replicate seats cs_new, replicate seats 0) of
          None \<Rightarrow> None
        | Some p \<Rightarrow> map_option fst (place_absent topo quota_total absent p))"

fun insert_by :: "('a \<Rightarrow> 'a \<Rightarrow> bool) \<Rightarrow> 'a \<Rightarrow> 'a list \<Rightarrow> 'a list" where
  "insert_by le x [] = [x]"
| "insert_by le x (y # ys) = (if le x y then x # y # ys else y # insert_by le x ys)"

definition sort_by :: "('a \<Rightarrow> 'a \<Rightarrow> bool) \<Rightarrow> 'a list \<Rightarrow> 'a list" where
  "sort_by le xs = foldr (insert_by le) xs []"

definition apportion :: "nat \<Rightarrow> nat list \<Rightarrow> nat list option" where
  "apportion seats weights =
     (let spare = seats - length weights;
          total = sum_list weights in
      if seats < length weights \<or> weights \<noteq> [] \<and> total = 0 \<or> list_ex (\<lambda>w. 2 ^ 64 \<le> spare * w) weights then None
      else
        let out = map (\<lambda>w. 1 + spare * w div total) weights;
            assigned = sum_list out;
            rest = (\<lambda>i. spare * weights ! i mod total);
            order = sort_by (\<lambda>a b. rest b < rest a \<or> rest a = rest b \<and> a \<le> b) [0..<length weights] in
        if seats < assigned then None
        else Some (fold (\<lambda>i out. out[i := out ! i + 1]) (take (seats - assigned) order) out))"

text \<open>\<^verbatim>\<open>min_by_key\<close> on the load and the index; \<open>None\<close> when there is no group.\<close>

definition lightest :: "nat list \<Rightarrow> nat option" where
  "lightest loads = find (\<lambda>g. list_all (\<lambda>l. loads ! g \<le> l) loads) [0..<length loads]"

fun pack_nodes :: "nat list \<Rightarrow> cpu_set list \<Rightarrow> nat list \<Rightarrow> packing \<Rightarrow> packing option" where
  "pack_nodes [] nodes weights p = Some p"
| "pack_nodes (i # is') nodes weights p =
     (case lightest (snd p) of
        None \<Rightarrow> None
      | Some g \<Rightarrow> pack_nodes is' nodes weights
          ((fst p)[g := cs_or (fst p ! g) (nodes ! i)], (snd p)[g := snd p ! g + weights ! i]))"

definition pack_whole_nodes :: "nat \<Rightarrow> cpu_set list \<Rightarrow> nat list \<Rightarrow> cpu_set list option" where
  "pack_whole_nodes ngroups nodes weights =
     (let order = sort_by (\<lambda>a b. weights ! b < weights ! a \<or> weights ! a = weights ! b \<and> a \<le> b) [0..<length nodes] in
      map_option fst (pack_nodes order nodes weights (replicate ngroups cs_new, replicate ngroups 0)))"

definition live_nodes :: "cpu_topology \<Rightarrow> cpu_set list" where
  "live_nodes topo = filter (\<lambda>n. \<not> cs_is_empty n) (map (\<lambda>n. cs_and n (possible topo)) (node_to_cpus topo))"

definition node_weights :: "cpu_topology \<Rightarrow> cpu_set list \<Rightarrow> nat list" where
  "node_weights topo nodes =
     (let ws = map (\<lambda>n. cs_weight (cs_and n (present topo))) nodes in
      if list_all (\<lambda>w. w = 0) ws then map cs_weight nodes else ws)"

fun pack_seats :: "cpu_topology \<Rightarrow> (cpu_set \<times> nat) list \<Rightarrow> cpu_set list option" where
  "pack_seats topo [] = Some []"
| "pack_seats topo ((node, n) # ns) =
     (case pack_node node n topo of None \<Rightarrow> None | Some gs \<Rightarrow> map_option ((@) gs) (pack_seats topo ns))"

definition spread_cpus :: "nat \<Rightarrow> cpu_topology \<Rightarrow> cpu_set list option" where
  "spread_cpus ngroups topo =
     (if ngroups = 0 then Some []
      else
        let nodes = live_nodes topo; weights = node_weights topo nodes in
        if nodes = [] then Some (replicate ngroups cs_new)
        else if ngroups < length nodes then pack_whole_nodes ngroups nodes weights
        else case apportion ngroups weights of
               None \<Rightarrow> None
             | Some seats \<Rightarrow> pack_seats topo (zip nodes seats))"

section \<open>The filling order visits every CPU once\<close>

text \<open>The masks of a CPU are empty or contain it, as the kernel reports them.\<close>

definition masks_ok :: "cpu_topology \<Rightarrow> bool" where
  "masks_ok topo \<longleftrightarrow> (\<forall>c \<in> cpus (possible topo).
     (cpus (mask_of (cluster topo) c) = {} \<or> c \<in> cpus (mask_of (cluster topo) c)) \<and>
     (cpus (mask_of (sibling topo) c) = {} \<or> c \<in> cpus (mask_of (sibling topo) c)))"

definition order_ok :: "nat list \<times> cpu_set \<Rightarrow> bool" where
  "order_ok st \<longleftrightarrow> distinct (fst st) \<and> set (fst st) = cpus (snd st)"

lemma cpus_or_self [simp]: "cpus (or_self c s) = (if cpus s = {} then {c} else cpus s)"
  by (simp add: or_self_def)

text \<open>A loop whose every step visits its CPU, and nothing outside \<open>A\<close>.\<close>

definition visits :: "nat set \<Rightarrow> nat set \<Rightarrow> nat list \<times> cpu_set \<Rightarrow> nat list \<times> cpu_set \<Rightarrow> bool" where
  "visits A C st st' \<longleftrightarrow> order_ok st' \<and> C \<union> cpus (snd st) \<subseteq> cpus (snd st') \<and> cpus (snd st') \<subseteq> cpus (snd st) \<union> A"

lemma fold_visits:
  assumes "\<And>c st. c \<in> set cs \<Longrightarrow> order_ok st \<Longrightarrow> visits A {c} st (f c st)" "order_ok st"
  shows "visits A (set cs) st (fold f cs st)"
  using assms
proof (induction cs arbitrary: st)
  case Nil
  then show ?case by (simp add: visits_def)
next
  case (Cons c cs)
  have s: "visits A {c} st (f c st)" using Cons.prems by simp
  then have "visits A (set cs) (f c st) (fold f cs (f c st))"
    using Cons.prems(1) by (intro Cons.IH) (simp_all add: visits_def)
  then show ?case using s by (auto simp: visits_def)
qed

lemma push_members:
  "order_ok st \<Longrightarrow> distinct cs \<Longrightarrow> set cs \<inter> cpus (snd st) = {} \<Longrightarrow>
    order_ok (fold push_member cs st) \<and> cpus (snd (fold push_member cs st)) = cpus (snd st) \<union> set cs"
proof (induction cs arbitrary: st)
  case (Cons c cs)
  have "order_ok (push_member c st)" using Cons.prems by (auto simp: order_ok_def push_member_def)
  then have "order_ok (fold push_member cs (push_member c st)) \<and>
      cpus (snd (fold push_member cs (push_member c st))) = cpus (snd (push_member c st)) \<union> set cs"
    using Cons.prems by (intro Cons.IH) (auto simp: push_member_def)
  moreover have "cpus (snd (push_member c st)) = insert c (cpus (snd st))" by (simp add: push_member_def)
  ultimately show ?case by simp
qed simp

lemma fill_atom_visits:
  assumes "order_ok st" "c \<in> cpus clu"
    and "cpus (mask_of (sibling topo) c) = {} \<or> c \<in> cpus (mask_of (sibling topo) c)"
  shows "visits (cpus clu) {c} st (fill_atom topo clu c st)"
proof (cases "c \<in> cpus (snd st)")
  case True
  then show ?thesis using assms by (simp add: visits_def fill_atom_def)
next
  case False
  let ?a = "atom_of topo clu (snd st) c"
  have a: "c \<in> cpus ?a" "cpus ?a \<subseteq> cpus clu" "cpus ?a \<inter> cpus (snd st) = {}"
    using assms False by (auto simp: atom_of_def)
  then show ?thesis using False push_members [OF assms(1), of "cs_iter ?a"] by (auto simp: visits_def fill_atom_def)
qed

lemma fill_cluster_visits:
  assumes "masks_ok topo" "cpus node \<subseteq> cpus (possible topo)" "order_ok st" "cpu \<in> cpus node"
  shows "visits (cpus node) {cpu} st (fill_cluster node topo cpu st)"
proof (cases "cpu \<in> cpus (snd st)")
  case True
  then show ?thesis using assms by (simp add: visits_def fill_cluster_def)
next
  case False
  let ?c = "cluster_of node topo (snd st) cpu"
  have c: "cpu \<in> cpus ?c" "cpus ?c \<subseteq> cpus node"
    using assms False by (auto simp: cluster_of_def Let_def masks_ok_def)
  have "visits (cpus ?c) (set (cs_iter ?c)) st (fold (fill_atom topo ?c) (cs_iter ?c) st)"
    using assms c(2) by (intro fold_visits fill_atom_visits) (auto simp: masks_ok_def)
  then show ?thesis using False c by (auto simp: visits_def fill_cluster_def Let_def)
qed

lemma fill_order_once:
  assumes "masks_ok topo" "cpus node \<subseteq> cpus (possible topo)"
  shows "distinct (fill_order node topo) \<and> set (fill_order node topo) = cpus node"
proof -
  have "visits (cpus node) (set (cs_iter node)) ([], cs_new) (fold (fill_cluster node topo) (cs_iter node) ([], cs_new))"
    using assms by (intro fold_visits fill_cluster_visits) (auto simp: order_ok_def)
  then show ?thesis by (auto simp: visits_def order_ok_def fill_order_def)
qed

section \<open>Even quotas\<close>

lemma length_split_even [simp]: "length (split_even n k) = k"
  by (simp add: split_even_def)

lemma sum_list_split_even: "0 < k \<Longrightarrow> sum_list (split_even n k) = n"
proof -
  assume k: "0 < k"
  have "sum_list (map (\<lambda>i. a + (if i < r then 1 else 0)) [0..<m]) = m * a + min r m" for a r m :: nat
    by (induction m) auto
  then have "sum_list (split_even n k) = k * (n div k) + min (n mod k) k" by (simp only: split_even_def)
  then show ?thesis using k by (simp add: min_def less_imp_le)
qed

lemma split_even_mono:
  assumes "m \<le> n" "j < k"
  shows "split_even m k ! j \<le> split_even n k ! j"
proof (cases "m div k = n div k")
  case True
  then have "m mod k \<le> n mod k" using assms(1) by (metis add_le_cancel_left div_mult_mod_eq)
  then show ?thesis using True assms(2) by (simp add: split_even_def)
next
  case False
  then have "m div k < n div k" using div_le_mono [OF assms(1), of k] by linarith
  then show ?thesis using assms(2) by (simp add: split_even_def)
qed

lemma sum_list_mono_nth:
  "length xs = length ys \<Longrightarrow> \<forall>j < length ys. xs ! j \<le> ys ! j \<Longrightarrow> sum_list xs \<le> sum_list (ys :: nat list)"
  by (auto simp: sum_list_sum_nth intro!: sum_mono)

lemma sum_list_eq_nth:
  assumes "length xs = length ys" "\<forall>j < length ys. xs ! j \<le> ys ! j" "sum_list ys \<le> sum_list (xs :: nat list)"
  shows "xs = ys"
proof (rule nth_equalityI [OF assms(1)])
  fix j assume j: "j < length xs"
  show "xs ! j = ys ! j"
  proof (rule ccontr)
    assume "xs ! j \<noteq> ys ! j"
    then have "xs ! j < ys ! j" using assms(1,2) j by (metis le_neq_implies_less)
    then have "sum ((!) xs) {0..<length ys} < sum ((!) ys) {0..<length ys}"
      using assms(1,2) j by (intro sum_strict_mono_ex1) auto
    then show False using assms(1,3) by (simp add: sum_list_sum_nth)
  qed
qed

section \<open>Placing the CPUs of a node\<close>

definition disjoint_groups :: "cpu_set list \<Rightarrow> bool" where
  "disjoint_groups gs \<longleftrightarrow> sorted_wrt (\<lambda>a b. cpus a \<inter> cpus b = {}) gs"

definition members :: "cpu_set list \<Rightarrow> nat set" where
  "members gs = \<Union>(cpus ` set gs)"

lemma disjoint_groups_nth:
  "disjoint_groups gs \<longleftrightarrow> (\<forall>i < length gs. \<forall>j < length gs. i \<noteq> j \<longrightarrow> cpus (gs ! i) \<inter> cpus (gs ! j) = {})"
proof
  assume d: "disjoint_groups gs"
  show "\<forall>i < length gs. \<forall>j < length gs. i \<noteq> j \<longrightarrow> cpus (gs ! i) \<inter> cpus (gs ! j) = {}"
  proof (intro allI impI)
    fix i j assume ij: "i < length gs" "j < length gs" "i \<noteq> j"
    show "cpus (gs ! i) \<inter> cpus (gs ! j) = {}"
      using d ij by (cases i j rule: linorder_cases) (auto simp: disjoint_groups_def sorted_wrt_iff_nth_less Int_commute)
  qed
next
  assume "\<forall>i < length gs. \<forall>j < length gs. i \<noteq> j \<longrightarrow> cpus (gs ! i) \<inter> cpus (gs ! j) = {}"
  then show "disjoint_groups gs" by (simp add: disjoint_groups_def sorted_wrt_iff_nth_less)
qed

lemma members_nth: "c \<in> members gs \<longleftrightarrow> (\<exists>j < length gs. c \<in> cpus (gs ! j))"
  unfolding members_def UN_iff in_set_conv_nth Bex_def by blast

lemma members_union: "members gs = (\<Union>j < length gs. cpus (gs ! j))"
  by (rule set_eqI) (simp add: members_nth Bex_def)

lemma members_append [simp]: "members (gs @ hs) = members gs \<union> members hs"
  by (simp add: members_def)

lemma members_Nil [simp]: "members [] = {}"
  by (simp add: members_def)

lemma members_Cons [simp]: "members (g # gs) = cpus g \<union> members gs"
  by (simp add: members_def)

lemma members_new [simp]: "members (replicate n cs_new) = {}"
  by (auto simp: members_def)

lemma disjoint_new: "disjoint_groups (replicate n cs_new)"
  by (simp add: disjoint_groups_nth)

lemma members_grow:
  assumes "g < length gs" "cpus h = cpus (gs ! g) \<union> N"
  shows "members (gs[g := h]) = members gs \<union> N"
proof -
  have "cpus (gs[g := h] ! j) = cpus (gs ! j) \<union> (if j = g then N else {})" if "j < length gs" for j
    using assms that by (simp add: nth_list_update)
  then have "(\<Union>j < length gs. cpus (gs[g := h] ! j)) = (\<Union>j < length gs. cpus (gs ! j) \<union> (if j = g then N else {}))"
    by (intro SUP_cong) auto
  also have "\<dots> = (\<Union>j < length gs. cpus (gs ! j)) \<union> N" using assms(1) by (simp add: UN_Un_distrib)
  finally show ?thesis by (simp add: members_union)
qed

lemma disjoint_grow:
  assumes "disjoint_groups gs" "g < length gs" "cpus h = cpus (gs ! g) \<union> N" "N \<inter> members gs = {}"
  shows "disjoint_groups (gs[g := h])"
proof -
  have n: "N \<inter> cpus (gs ! i) = {}" if "i < length gs" for i using assms(4) that members_nth [of _ gs] by blast
  show ?thesis unfolding disjoint_groups_nth
  proof (intro allI impI)
    fix i j assume ij: "i < length (gs[g := h])" "j < length (gs[g := h])" "i \<noteq> j"
    then have "cpus (gs ! i) \<inter> cpus (gs ! j) = {}" using assms(1) by (simp add: disjoint_groups_nth)
    then show "cpus (gs[g := h] ! i) \<inter> cpus (gs[g := h] ! j) = {}"
      using ij assms(2,3) n [of i] n [of j] by (auto simp: nth_list_update)
  qed
qed

text \<open>A packing holds the CPUs of \<open>S\<close>, each once, and its counts are the sizes of its groups.\<close>

definition packed :: "packing \<Rightarrow> nat set \<Rightarrow> bool" where
  "packed p S \<longleftrightarrow> disjoint_groups (fst p) \<and> members (fst p) = S \<and> snd p = map (\<lambda>g. card (cpus g)) (fst p)"

lemma packed_new: "packed (replicate n cs_new, replicate n 0) {}"
  by (simp add: packed_def disjoint_new)

lemma packed_put:
  assumes "packed p S" "c \<notin> S" "g < length (fst p)"
  shows "packed (put_cpu c g p) (insert c S)"
proof -
  have i: "cpus (cs_set c (fst p ! g)) = cpus (fst p ! g) \<union> {c}" by simp
  have n: "{c} \<inter> members (fst p) = {}" using assms(1,2) by (simp add: packed_def)
  have "c \<notin> cpus (fst p ! g)" using n assms(3) members_nth [of c "fst p"] by blast
  then have "snd (put_cpu c g p) = map (\<lambda>g. card (cpus g)) (fst (put_cpu c g p))"
    using assms by (simp add: packed_def put_cpu_def map_update)
  then show ?thesis
    using assms disjoint_grow [OF _ assms(3) i n] members_grow [OF assms(3) i] by (simp add: packed_def put_cpu_def)
qed

lemma sum_put: "g < length (snd p) \<Longrightarrow> sum_list (snd (put_cpu c g p)) = sum_list (snd p) + 1"
  by (simp add: put_cpu_def sum_list_update)

lemma length_put [simp]:
  "length (fst (put_cpu c g p)) = length (fst p)" "length (snd (put_cpu c g p)) = length (snd p)"
  by (simp_all add: put_cpu_def)

lemma find_Some: "find P xs = Some x \<Longrightarrow> x \<in> set xs \<and> P x"
  by (induction xs) (auto split: if_splits)

lemma find_ex: "x \<in> set xs \<Longrightarrow> P x \<Longrightarrow> \<exists>y. find P xs = Some y"
  by (induction xs) auto

lemma find_first:
  assumes "find P [a..<b] = Some g" "a \<le> j" "j < g"
  shows "\<not> P j"
proof -
  obtain i where i: "i < b - a" "g = a + i" "\<forall>k < i. \<not> P ([a..<b] ! k)"
    using assms(1) by (auto simp: find_Some_iff)
  have "\<not> P ([a..<b] ! (j - a))" using i(2) assms(2,3) by (intro i(3) [rule_format]) simp
  then show ?thesis using i(1,2) assms(2,3) by simp
qed

definition below :: "nat list \<Rightarrow> packing \<Rightarrow> bool" where
  "below quota p \<longleftrightarrow> length (fst p) = length quota \<and> length (snd p) = length quota \<and> (\<forall>j < length quota. snd p ! j \<le> quota ! j)"

lemma below_put: "below quota p \<Longrightarrow> snd p ! g < quota ! g \<Longrightarrow> below quota (put_cpu c g p)"
  by (cases "g < length quota") (auto simp: below_def put_cpu_def nth_list_update)

lemma below_open:
  assumes "below quota p" "sum_list (snd p) < sum_list quota"
  shows "\<exists>j < length quota. snd p ! j < quota ! j"
proof (rule ccontr)
  assume "\<not> ?thesis"
  then have "\<forall>j < length (snd p). quota ! j \<le> snd p ! j" using assms(1) by (auto simp: below_def)
  then show False using sum_list_mono_nth [of quota "snd p"] assms by (simp add: below_def)
qed

lemma place_present_ok:
  "packed p S \<Longrightarrow> below quota p \<Longrightarrow> distinct cs \<Longrightarrow> set cs \<inter> S = {} \<Longrightarrow> \<forall>j < g. j < length quota \<longrightarrow> snd p ! j = quota ! j \<Longrightarrow>
    sum_list (snd p) + length cs \<le> sum_list quota \<Longrightarrow>
    \<exists>p'. place_present quota cs g p = Some p' \<and> packed p' (S \<union> set cs) \<and> below quota p' \<and>
      sum_list (snd p') = sum_list (snd p) + length cs"
proof (induction cs arbitrary: g p S)
  case (Cons c cs)
  obtain j where j: "j < length quota" "snd p ! j < quota ! j"
    using below_open [OF Cons.prems(2)] Cons.prems(6) by auto
  then have "g \<le> j" using Cons.prems(5) by (metis less_irrefl not_le)
  then obtain h where f: "find (\<lambda>j. snd p ! j \<noteq> quota ! j) [g..<length quota] = Some h"
    using find_ex [of j "[g..<length quota]" "\<lambda>j. snd p ! j \<noteq> quota ! j"] j by auto
  then have h: "g \<le> h" "h < length quota" "snd p ! h \<noteq> quota ! h" using find_Some [OF f] by auto
  have lt: "snd p ! h < quota ! h" using h Cons.prems(2) by (metis below_def le_neq_implies_less)
  have l: "h < length (fst p)" "h < length (snd p)" using h Cons.prems(2) by (simp_all add: below_def)
  have full: "\<forall>j < h. j < length quota \<longrightarrow> snd (put_cpu c h p) ! j = quota ! j"
  proof (intro allI impI)
    fix j assume j: "j < h" "j < length quota"
    have "snd p ! j = quota ! j" using find_first [OF f, of j] Cons.prems(5) j by (cases "j < g") auto
    then show "snd (put_cpu c h p) ! j = quota ! j" using j(1) by (simp add: put_cpu_def)
  qed
  have "\<exists>p'. place_present quota cs h (put_cpu c h p) = Some p' \<and> packed p' (insert c S \<union> set cs) \<and> below quota p' \<and>
      sum_list (snd p') = sum_list (snd (put_cpu c h p)) + length cs"
    using Cons.prems sum_put [OF l(2)]
    by (intro Cons.IH packed_put l below_put lt full) auto
  then show ?case using f sum_put [OF l(2), of c] by auto
qed simp

lemma absent_group_open:
  assumes "below quota p" "sum_list (snd p) < sum_list quota"
  shows "\<exists>j < length quota. absent_group quota s p = Some j \<and> snd p ! j < quota ! j"
proof -
  obtain j where j: "j < length quota" "has_room quota p j" using below_open [OF assms] by (auto simp: has_room_def)
  then obtain i where "find (has_room quota p) [0..<length quota] = Some i"
    using find_ex [of j "[0..<length quota]" "has_room quota p"] by auto
  then obtain k where "absent_group quota s p = Some k"
    by (cases "find (\<lambda>j. cs_intersects (fst p ! j) s) (filter (has_room quota p) [0..<length quota])")
      (auto simp: absent_group_def Let_def simp del: cs_intersects_cpus)
  moreover from this have "k < length quota \<and> has_room quota p k"
    by (auto simp: absent_group_def Let_def dest: find_Some split: option.splits simp del: cs_intersects_cpus)
  ultimately show ?thesis by (auto simp: has_room_def)
qed

lemma place_absent_ok:
  "packed p S \<Longrightarrow> below quota p \<Longrightarrow> distinct cs \<Longrightarrow> set cs \<inter> S = {} \<Longrightarrow> set cs \<inter> P = {} \<Longrightarrow>
    sum_list (snd p) + length cs \<le> sum_list quota \<Longrightarrow>
    \<exists>p'. place_absent topo quota cs p = Some p' \<and> packed p' (S \<union> set cs) \<and> below quota p' \<and>
      sum_list (snd p') = sum_list (snd p) + length cs \<and> map (\<lambda>g. cpus g \<inter> P) (fst p') = map (\<lambda>g. cpus g \<inter> P) (fst p)"
proof (induction cs arbitrary: p S)
  case (Cons c cs)
  obtain j where j: "absent_group quota (mask_of (sibling topo) c) p = Some j" "j < length quota" "snd p ! j < quota ! j"
    using absent_group_open [OF Cons.prems(2)] Cons.prems(6) by auto
  have l: "j < length (fst p)" "j < length (snd p)" using j Cons.prems(2) by (simp_all add: below_def)
  have "map (\<lambda>g. cpus g \<inter> P) (fst (put_cpu c j p)) = map (\<lambda>g. cpus g \<inter> P) (fst p)"
    using Cons.prems(5) l(1) by (auto simp: put_cpu_def map_update intro: list_update_same_conv [THEN iffD2])
  moreover have "\<exists>p'. place_absent topo quota cs (put_cpu c j p) = Some p' \<and> packed p' (insert c S \<union> set cs) \<and> below quota p' \<and>
      sum_list (snd p') = sum_list (snd (put_cpu c j p)) + length cs \<and>
      map (\<lambda>g. cpus g \<inter> P) (fst p') = map (\<lambda>g. cpus g \<inter> P) (fst (put_cpu c j p))"
    using Cons.prems sum_put [OF l(2)]
    by (intro Cons.IH packed_put l below_put j(3)) auto
  ultimately show ?case using j(1) sum_put [OF l(2), of c] by auto
qed simp

lemma pack_node_groups:
  assumes "masks_ok topo" "cpus node \<subseteq> cpus (possible topo)" "0 < seats"
  shows "\<exists>gs. pack_node node seats topo = Some gs \<and> length gs = seats \<and> disjoint_groups gs \<and> members gs = cpus node \<and>
    map (\<lambda>g. card (cpus g)) gs = split_even (card (cpus node)) seats \<and>
    map (\<lambda>g. card (cpus g \<inter> cpus (present topo))) gs = split_even (card (cpus node \<inter> cpus (present topo))) seats"
proof -
  define P where "P = cpus (present topo)"
  define order where "order = fill_order node topo"
  define pr where "pr = filter (\<lambda>c. c \<in> P) order"
  define ab where "ab = filter (\<lambda>c. c \<notin> P) order"
  define qp where "qp = split_even (length pr) seats"
  define qt where "qt = split_even (length order) seats"
  have o: "distinct order" "set order = cpus node" using fill_order_once [OF assms(1,2)] by (simp_all add: order_def)
  have c: "length order = card (cpus node)" "length pr = card (cpus node \<inter> P)"
    using o distinct_card [of order] distinct_card [of pr] by (simp_all add: pr_def Int_def)
  have s: "set pr = cpus node \<inter> P" "set ab = cpus node - P" "distinct pr" "distinct ab"
    using o by (auto simp: pr_def ab_def)
  have len: "length pr + length ab = length order" by (simp add: pr_def ab_def sum_length_filter_compl)
  let ?p0 = "(replicate seats cs_new, replicate seats 0) :: packing"
  have sums: "sum_list qp = length pr" "sum_list qt = length order"
    using assms(3) by (simp_all add: qp_def qt_def sum_list_split_even)
  have "\<exists>p. place_present qp pr 0 ?p0 = Some p \<and> packed p ({} \<union> set pr) \<and> below qp p \<and>
      sum_list (snd p) = sum_list (snd ?p0) + length pr"
    using s sums by (intro place_present_ok packed_new) (auto simp: below_def qp_def)
  then obtain p where p: "place_present qp pr 0 ?p0 = Some p" "packed p (set pr)" "below qp p" "sum_list (snd p) = length pr"
    by auto
  have full: "snd p = qp" using p(3,4) sums by (intro sum_list_eq_nth) (simp_all add: below_def)
  have "below qt p"
    using p(3) len split_even_mono [of "length pr" "length order" _ seats] by (simp add: below_def full qp_def qt_def)
  then have "\<exists>r. place_absent topo qt ab p = Some r \<and> packed r (set pr \<union> set ab) \<and> below qt r \<and>
      sum_list (snd r) = sum_list (snd p) + length ab \<and> map (\<lambda>g. cpus g \<inter> P) (fst r) = map (\<lambda>g. cpus g \<inter> P) (fst p)"
    using s sums p len by (intro place_absent_ok) auto
  then obtain r where r: "place_absent topo qt ab p = Some r" "packed r (set pr \<union> set ab)" "below qt r"
      "sum_list (snd r) = length order" "map (\<lambda>g. cpus g \<inter> P) (fst r) = map (\<lambda>g. cpus g \<inter> P) (fst p)"
    using p(4) len by auto
  have "snd r = qt" using r(3,4) sums by (intro sum_list_eq_nth) (simp_all add: below_def)
  then have total: "map (\<lambda>g. card (cpus g)) (fst r) = qt" using r(2) by (simp add: packed_def)
  have "cpus g \<inter> P = cpus g" if "g \<in> set (fst p)" for g using p(2) s(1) that by (auto simp: packed_def members_def)
  then have "map (\<lambda>g. cpus g \<inter> P) (fst p) = map cpus (fst p)" by simp
  then have "map card (map (\<lambda>g. cpus g \<inter> P) (fst r)) = map card (map cpus (fst p))" by (simp only: r(5))
  then have pres: "map (\<lambda>g. card (cpus g \<inter> P)) (fst r) = qp" using p(2) full by (simp add: packed_def comp_def)
  have "cs_test (present topo) = (\<lambda>c. c \<in> P)" by (rule ext) (simp add: P_def)
  then have pt: "partition (cs_test (present topo)) order = (pr, ab)" by (simp add: pr_def ab_def comp_def)
  have "pack_node node seats topo = Some (fst r)"
    using assms(3) p(1) r(1) pt
    by (simp add: pack_node_def Let_def order_def [symmetric] qp_def [symmetric] qt_def [symmetric] del: partition_filter_conv)
  moreover have "set pr \<union> set ab = cpus node" using s by auto
  ultimately show ?thesis
    using r(2,3) total pres c unfolding P_def [symmetric] by (simp add: packed_def below_def qp_def qt_def)
qed

section \<open>Seats of the nodes\<close>

lemma mset_insert_by: "set (insert_by le x ys) = insert x (set ys)" "length (insert_by le x ys) = Suc (length ys)"
  by (induction ys) auto

lemma set_sort_by [simp]: "set (sort_by le xs) = set xs"
  by (induction xs) (simp_all add: sort_by_def mset_insert_by)

lemma length_sort_by [simp]: "length (sort_by le xs) = length xs"
  by (induction xs) (simp_all add: sort_by_def mset_insert_by)

lemma fold_bump:
  "set is' \<subseteq> {..<length out} \<Longrightarrow> \<forall>x \<in> set out. 1 \<le> x \<Longrightarrow>
    (let r = fold (\<lambda>i out. out[i := out ! i + 1]) is' out in
     length r = length out \<and> sum_list r = sum_list out + length is' \<and> (\<forall>x \<in> set r. (1 :: nat) \<le> x))"
proof (induction is' arbitrary: out)
  case (Cons i is')
  have i: "i < length out" using Cons.prems(1) by simp
  have "\<forall>x \<in> set (out[i := out ! i + 1]). 1 \<le> x"
    using Cons.prems(2) set_update_subset_insert [of out i "out ! i + 1"] by auto
  then show ?case
    using Cons.IH [of "out[i := out ! i + 1]"] Cons.prems(1) i by (simp add: Let_def sum_list_update)
qed simp

lemma quota_sums:
  assumes "0 < (t :: nat)"
  shows "sum_list (map (\<lambda>w. k * w div t) ws) * t \<le> k * sum_list ws \<and>
    k * sum_list ws \<le> (sum_list (map (\<lambda>w. k * w div t) ws) + length ws) * t"
proof (induction ws)
  case (Cons w ws)
  obtain d where d: "k * w div t = d" "d * t \<le> k * w" "k * w \<le> (d + 1) * t"
    using assms dividend_less_div_times [of t "k * w"] by (simp add: less_imp_le)
  then show ?case using Cons by (simp add: d(1) distrib_left distrib_right)
qed simp

lemma apportion_seats:
  assumes "length ws \<le> n" "0 < sum_list ws" "\<forall>w \<in> set ws. n * w < 2 ^ 64"
  shows "\<exists>seats. apportion n ws = Some seats \<and> length seats = length ws \<and> sum_list seats = n \<and> (\<forall>s \<in> set seats. 1 \<le> s)"
proof -
  define k where "k = n - length ws"
  define t where "t = sum_list ws"
  define out where "out = map (\<lambda>w. 1 + k * w div t) ws"
  define q where "q = sum_list (map (\<lambda>w. k * w div t) ws)"
  define rest where "rest = (\<lambda>i. k * ws ! i mod t)"
  define order where "order = sort_by (\<lambda>a b. rest b < rest a \<or> rest a = rest b \<and> a \<le> b) [0..<length ws]"
  have t: "0 < t" using assms(2) by (simp add: t_def)
  have so: "sum_list out = length ws + q" by (simp add: out_def q_def sum_list_Suc)
  have "q \<le> k" "k \<le> q + length ws" using quota_sums [OF t, of k ws] t by (simp_all add: q_def t_def [symmetric])
  then have b: "sum_list out \<le> n" "n - sum_list out \<le> length ws" using so assms(1) by (simp_all add: k_def)
  have m: "\<not> list_ex (\<lambda>w. 2 ^ 64 \<le> k * w) ws"
  proof -
    have "k * w < 2 ^ 64" if "w \<in> set ws" for w
      by (rule le_less_trans [OF mult_le_mono1 [of k n] assms(3) [rule_format, OF that]]) (simp add: k_def)
    then show ?thesis by (auto simp: list_ex_iff not_le)
  qed
  define r where "r = fold (\<lambda>i out. out[i := out ! i + 1]) (take (n - sum_list out) order) out"
  have "set (take (n - sum_list out) order) \<subseteq> {..<length out}"
    using set_take_subset [of "n - sum_list out" order] by (auto simp: order_def out_def)
  then have "length r = length out \<and> sum_list r = sum_list out + length (take (n - sum_list out) order) \<and> (\<forall>x \<in> set r. 1 \<le> x)"
    using fold_bump [of "take (n - sum_list out) order" out] by (simp add: r_def Let_def out_def)
  moreover have "apportion n ws = Some r"
    using assms(1) t b(1) m
    by (simp add: apportion_def Let_def r_def order_def rest_def out_def k_def t_def del: sum_list_eq_0_iff)
  ultimately show ?thesis using b by (simp add: out_def order_def)
qed

section \<open>The partition\<close>

text \<open>The nodes are disjoint and hold every possible CPU, and the masks contain their CPU.\<close>

definition topology_ok :: "cpu_topology \<Rightarrow> bool" where
  "topology_ok topo \<longleftrightarrow> masks_ok topo \<and> disjoint_groups (node_to_cpus topo) \<and>
     cpus (possible topo) \<subseteq> members (node_to_cpus topo)"

lemma members_live:
  assumes "topology_ok topo"
  shows "members (live_nodes topo) = cpus (possible topo)"
proof -
  have "members (live_nodes topo) = members (node_to_cpus topo) \<inter> cpus (possible topo)"
    by (auto simp: members_def live_nodes_def) blast
  then show ?thesis using assms by (auto simp: topology_ok_def)
qed

lemma disjoint_live: "topology_ok topo \<Longrightarrow> disjoint_groups (live_nodes topo)"
  unfolding topology_ok_def disjoint_groups_def live_nodes_def
  by (intro sorted_wrt_filter) (auto simp: sorted_wrt_map intro: sorted_wrt_mono_rel [rotated])

lemma live_node: "node \<in> set (live_nodes topo) \<Longrightarrow> cpus node \<noteq> {} \<and> cpus node \<subseteq> cpus (possible topo)"
  by (auto simp: live_nodes_def)

lemma members_mono: "g \<in> set gs \<Longrightarrow> cpus g \<subseteq> members gs"
  by (auto simp: members_def)

lemma disjoint_append:
  "disjoint_groups (gs @ hs) \<longleftrightarrow> disjoint_groups gs \<and> disjoint_groups hs \<and> members gs \<inter> members hs = {}"
  by (auto simp: disjoint_groups_def sorted_wrt_append members_def)

lemma disjoint_Cons: "disjoint_groups (g # gs) \<longleftrightarrow> disjoint_groups gs \<and> cpus g \<inter> members gs = {}"
  by (auto simp: disjoint_groups_def members_def)

lemma pack_seats_groups:
  "masks_ok topo \<Longrightarrow> length seats = length nodes \<Longrightarrow> \<forall>s \<in> set seats. 1 \<le> s \<Longrightarrow> disjoint_groups nodes \<Longrightarrow>
    members nodes \<subseteq> cpus (possible topo) \<Longrightarrow>
    \<exists>gs. pack_seats topo (zip nodes seats) = Some gs \<and> length gs = sum_list seats \<and> disjoint_groups gs \<and>
      members gs = members nodes \<and> (\<forall>g \<in> set gs. \<exists>node \<in> set nodes. cpus g \<subseteq> cpus node)"
proof (induction nodes arbitrary: seats)
  case Nil
  then show ?case by (simp add: disjoint_groups_def)
next
  case (Cons node nodes)
  obtain s ss where ss: "seats = s # ss" using Cons.prems(2) by (cases seats) auto
  obtain gs where gs: "pack_node node s topo = Some gs" "length gs = s" "disjoint_groups gs" "members gs = cpus node"
    using pack_node_groups [of topo node s] Cons.prems by (auto simp: ss)
  obtain hs where hs: "pack_seats topo (zip nodes ss) = Some hs" "length hs = sum_list ss" "disjoint_groups hs"
      "members hs = members nodes" "\<forall>g \<in> set hs. \<exists>node \<in> set nodes. cpus g \<subseteq> cpus node"
    using Cons.IH [of ss] Cons.prems by (auto simp: ss disjoint_Cons)
  have "\<forall>g \<in> set gs. cpus g \<subseteq> cpus node" using members_mono gs(4) by blast
  then show ?case using gs hs Cons.prems(4) by (auto simp: ss disjoint_append disjoint_Cons)
qed

lemma lightest_ok: "loads \<noteq> [] \<Longrightarrow> \<exists>g < length loads. lightest loads = Some g"
proof -
  assume "loads \<noteq> []"
  then have "Min (set loads) \<in> set loads" by simp
  then obtain i where i: "i < length loads" "loads ! i = Min (set loads)" by (auto simp: in_set_conv_nth)
  then have "list_all (\<lambda>l. loads ! i \<le> l) loads" by (simp add: list_all_iff)
  then obtain g where "lightest loads = Some g"
    using i(1) find_ex [of i "[0..<length loads]" "\<lambda>g. list_all (\<lambda>l. loads ! g \<le> l) loads"] by (auto simp: lightest_def)
  moreover from this have "g < length loads" unfolding lightest_def by (auto dest!: find_Some)
  ultimately show ?thesis by blast
qed

lemma pack_nodes_groups:
  "fst p \<noteq> [] \<Longrightarrow> length (snd p) = length (fst p) \<Longrightarrow> disjoint_groups (fst p) \<Longrightarrow> distinct is' \<Longrightarrow>
    set is' \<subseteq> {..<length nodes} \<Longrightarrow> disjoint_groups nodes \<Longrightarrow> \<forall>i \<in> set is'. cpus (nodes ! i) \<inter> members (fst p) = {} \<Longrightarrow>
    \<exists>p'. pack_nodes is' nodes ws p = Some p' \<and> length (fst p') = length (fst p) \<and> disjoint_groups (fst p') \<and>
      members (fst p') = members (fst p) \<union> (\<Union>i \<in> set is'. cpus (nodes ! i)) \<and>
      (\<forall>j < length (fst p). cpus (fst p ! j) \<subseteq> cpus (fst p' ! j)) \<and>
      (\<forall>i \<in> set is'. \<exists>g \<in> set (fst p'). cpus (nodes ! i) \<subseteq> cpus g)"
proof (induction is' arbitrary: p)
  case Nil
  then show ?case by simp
next
  case (Cons i is')
  obtain g where g: "g < length (fst p)" "lightest (snd p) = Some g"
    using lightest_ok [of "snd p"] Cons.prems(1,2) by (metis length_0_conv)
  define h where "h = cs_or (fst p ! g) (nodes ! i)"
  define q where "q = ((fst p)[g := h], (snd p)[g := snd p ! g + ws ! i])"
  have h: "cpus h = cpus (fst p ! g) \<union> cpus (nodes ! i)" by (simp add: h_def)
  have i: "cpus (nodes ! i) \<inter> members (fst p) = {}" using Cons.prems(7) by simp
  have m: "members (fst q) = members (fst p) \<union> cpus (nodes ! i)" using members_grow [OF g(1) h] by (simp add: q_def)
  have d: "disjoint_groups (fst q)" using disjoint_grow [OF Cons.prems(3) g(1) h i] by (simp add: q_def)
  have "cpus (nodes ! k) \<inter> cpus (nodes ! i) = {}" if "k \<in> set is'" for k
    using Cons.prems(4,5,6) that by (auto simp: disjoint_groups_nth)
  then have "\<forall>k \<in> set is'. cpus (nodes ! k) \<inter> members (fst q) = {}" using Cons.prems(7) m by auto
  then have "\<exists>p'. pack_nodes is' nodes ws q = Some p' \<and> length (fst p') = length (fst q) \<and> disjoint_groups (fst p') \<and>
      members (fst p') = members (fst q) \<union> (\<Union>i \<in> set is'. cpus (nodes ! i)) \<and>
      (\<forall>j < length (fst q). cpus (fst q ! j) \<subseteq> cpus (fst p' ! j)) \<and>
      (\<forall>i \<in> set is'. \<exists>g \<in> set (fst p'). cpus (nodes ! i) \<subseteq> cpus g)"
    using Cons.prems d by (intro Cons.IH) (simp_all add: q_def)
  then obtain p' where p': "pack_nodes is' nodes ws q = Some p'" "length (fst p') = length (fst p)" "disjoint_groups (fst p')"
      "members (fst p') = members (fst q) \<union> (\<Union>i \<in> set is'. cpus (nodes ! i))"
      "\<forall>j < length (fst p). cpus (fst q ! j) \<subseteq> cpus (fst p' ! j)"
      "\<forall>i \<in> set is'. \<exists>g \<in> set (fst p'). cpus (nodes ! i) \<subseteq> cpus g"
    by (auto simp: q_def)
  have e: "pack_nodes (i # is') nodes ws p = Some p'" using g(2) p'(1) by (simp add: q_def h_def)
  have grow: "\<forall>j < length (fst p). cpus (fst p ! j) \<subseteq> cpus (fst q ! j)" using h g(1) by (auto simp: q_def nth_list_update)
  have "cpus (nodes ! i) \<subseteq> cpus (fst q ! g)" using h g(1) by (simp add: q_def)
  then have "cpus (nodes ! i) \<subseteq> cpus (fst p' ! g)" using p'(5) g(1) by blast
  moreover have "fst p' ! g \<in> set (fst p')" using p'(2) g(1) by simp
  ultimately have "\<forall>k \<in> set (i # is'). \<exists>g \<in> set (fst p'). cpus (nodes ! k) \<subseteq> cpus g" using p'(6) by auto
  moreover have "\<forall>j < length (fst p). cpus (fst p ! j) \<subseteq> cpus (fst p' ! j)" using grow p'(5) by (meson order_trans)
  moreover have "members (fst p') = members (fst p) \<union> (\<Union>k \<in> set (i # is'). cpus (nodes ! k))"
    using p'(4) m by (simp add: Un_assoc)
  ultimately show ?case using e p'(2,3) by blast
qed

lemma distinct_sort_by: "distinct xs \<Longrightarrow> distinct (sort_by le xs)"
  by (metis card_distinct distinct_card length_sort_by set_sort_by)

lemma pack_whole_nodes_groups:
  assumes "0 < n" "disjoint_groups nodes"
  shows "\<exists>gs. pack_whole_nodes n nodes ws = Some gs \<and> length gs = n \<and> disjoint_groups gs \<and> members gs = members nodes \<and>
    (\<forall>node \<in> set nodes. \<exists>g \<in> set gs. cpus node \<subseteq> cpus g)"
proof -
  define order where "order = sort_by (\<lambda>a b. ws ! b < ws ! a \<or> ws ! a = ws ! b \<and> a \<le> b) [0..<length nodes]"
  have o: "distinct order" "set order = {..<length nodes}" by (auto simp: order_def distinct_sort_by)
  let ?p = "(replicate n cs_new, replicate n 0) :: packing"
  have "\<exists>p'. pack_nodes order nodes ws ?p = Some p' \<and> length (fst p') = length (fst ?p) \<and> disjoint_groups (fst p') \<and>
      members (fst p') = members (fst ?p) \<union> (\<Union>i \<in> set order. cpus (nodes ! i)) \<and>
      (\<forall>j < length (fst ?p). cpus (fst ?p ! j) \<subseteq> cpus (fst p' ! j)) \<and>
      (\<forall>i \<in> set order. \<exists>g \<in> set (fst p'). cpus (nodes ! i) \<subseteq> cpus g)"
    using assms o by (intro pack_nodes_groups) (simp_all add: disjoint_new)
  then obtain p' where p': "pack_nodes order nodes ws ?p = Some p'" "length (fst p') = n" "disjoint_groups (fst p')"
      "members (fst p') = (\<Union>i < length nodes. cpus (nodes ! i))"
      "\<forall>i < length nodes. \<exists>g \<in> set (fst p'). cpus (nodes ! i) \<subseteq> cpus g"
    using o(2) by auto
  have "\<forall>node \<in> set nodes. \<exists>g \<in> set (fst p'). cpus node \<subseteq> cpus g" using p'(5) by (metis in_set_conv_nth)
  then show ?thesis using p'(1-4) by (simp add: pack_whole_nodes_def Let_def order_def [symmetric] members_union [of nodes])
qed

lemma node_weights_ok:
  assumes "nodes \<noteq> []" "\<forall>node \<in> set nodes. cpus node \<noteq> {}"
  shows "length (node_weights topo nodes) = length nodes" "0 < sum_list (node_weights topo nodes)"
    "\<forall>w \<in> set (node_weights topo nodes). \<exists>node \<in> set nodes. w \<le> card (cpus node)"
proof -
  show "length (node_weights topo nodes) = length nodes" by (simp add: node_weights_def Let_def)
  have "\<exists>w \<in> set (node_weights topo nodes). w \<noteq> 0"
  proof (cases "\<forall>n \<in> set nodes. cs_weight (cs_and n (present topo)) = 0")
    case True
    then have "node_weights topo nodes = map cs_weight nodes" by (simp add: node_weights_def list_all_iff)
    moreover have "card (cpus (hd nodes)) \<noteq> 0" using assms hd_in_set [OF assms(1)] by simp
    ultimately show ?thesis using hd_in_set [OF assms(1)] by (auto simp: cs_weight_card)
  next
    case False
    then show ?thesis by (auto simp: node_weights_def list_all_iff Let_def)
  qed
  then show "0 < sum_list (node_weights topo nodes)" by (metis gr_zeroI sum_list_eq_0_iff)
  have "card (cpus n \<inter> A) \<le> card (cpus n)" for n A by (simp add: card_mono)
  then show "\<forall>w \<in> set (node_weights topo nodes). \<exists>node \<in> set nodes. w \<le> card (cpus node)"
    by (auto simp: node_weights_def Let_def cs_weight_card)
qed

text \<open>C37. The CPU partition keeps its documented contract. For any number of groups it does not
  panic and returns exactly that many groups, pairwise disjoint, whose union is the possible CPUs.
  With at least as many groups as populated nodes every group stays inside one node; with fewer, every
  node stays inside one group. The topology's nodes are disjoint and cover the possible CPUs, a mask of
  a CPU that is not empty contains the CPU, and the products of the apportionment fit a machine word.\<close>

theorem spread_partition:
  assumes "topology_ok topo" "n * card (cpus (possible topo)) < 2 ^ 64"
  shows "\<exists>gs. spread_cpus n topo = Some gs \<and> length gs = n \<and> disjoint_groups gs \<and>
    (0 < n \<longrightarrow> members gs = cpus (possible topo)) \<and>
    (length (live_nodes topo) \<le> n \<and> live_nodes topo \<noteq> [] \<longrightarrow> (\<forall>g \<in> set gs. \<exists>node \<in> set (live_nodes topo). cpus g \<subseteq> cpus node)) \<and>
    (0 < n \<and> n < length (live_nodes topo) \<longrightarrow> (\<forall>node \<in> set (live_nodes topo). \<exists>g \<in> set gs. cpus node \<subseteq> cpus g))"
proof (cases "n = 0 \<or> live_nodes topo = []")
  case True
  then show ?thesis using members_live [OF assms(1)] disjoint_new [of n] by (auto simp: spread_cpus_def Let_def)
next
  case False
  let ?N = "live_nodes topo" and ?ws = "node_weights topo (live_nodes topo)"
  note dj = disjoint_live [OF assms(1)] and cover = members_live [OF assms(1)]
  have w: "length ?ws = length ?N" "0 < sum_list ?ws" "\<forall>w \<in> set ?ws. \<exists>node \<in> set ?N. w \<le> card (cpus node)"
    using False live_node [of _ topo] by (intro node_weights_ok; auto)+
  show ?thesis
  proof (cases "n < length ?N")
    case True
    then show ?thesis using pack_whole_nodes_groups [of n ?N ?ws] False dj cover by (auto simp: spread_cpus_def Let_def)
  next
    case few: False
    have "\<forall>w \<in> set ?ws. n * w < 2 ^ 64"
    proof
      fix x assume "x \<in> set ?ws"
      then obtain node where "node \<in> set ?N" "x \<le> card (cpus node)" using w(3) by blast
      then have "x \<le> card (cpus (possible topo))" using live_node [of node topo] card_mono [of "cpus (possible topo)" "cpus node"] by auto
      then show "n * x < 2 ^ 64" using assms(2) mult_le_mono2 [of x "card (cpus (possible topo))" n] by linarith
    qed
    then obtain seats where s: "apportion n ?ws = Some seats" "length seats = length ?N" "sum_list seats = n" "\<forall>s \<in> set seats. 1 \<le> s"
      using apportion_seats [of ?ws n] w few by auto
    have "masks_ok topo" "members ?N \<subseteq> cpus (possible topo)" using assms(1) cover by (simp_all add: topology_ok_def)
    then show ?thesis
      using pack_seats_groups [of topo seats ?N] s dj cover False few by (auto simp: spread_cpus_def Let_def)
  qed
qed

text \<open>Two nodes of four CPUs, with SMT pairs, a CPU that is not present, and a cluster.\<close>

definition demo_topology :: cpu_topology where
  "demo_topology = \<lparr>nr_cpu_ids = 8, possible = cs_collect [0..<8], present = cs_collect [0..<7], online = cs_collect [0..<7],
     node_to_cpus = [cs_collect [0, 1, 2, 3], cs_collect [4, 5, 6, 7]],
     sibling = map cs_collect [[0, 2], [1, 3], [0, 2], [1, 3], [4], [5], [6], []],
     cluster = map cs_collect [[0, 1, 2, 3], [0, 1, 2, 3], [0, 1, 2, 3], [0, 1, 2, 3], [], [], [], []]\<rparr>"

lemma demo_topology_ok: "topology_ok demo_topology"
proof -
  have "cpus (possible demo_topology) = {0, 1, 2, 3, 4, 5, 6, 7}" by (auto simp: demo_topology_def)
  moreover have "masks_ok demo_topology"
    unfolding masks_ok_def calculation by (simp add: mask_of_def demo_topology_def)
  ultimately show ?thesis by (auto simp: topology_ok_def demo_topology_def disjoint_groups_def)
qed

lemma demo_live: "live_nodes demo_topology \<noteq> []" "length (live_nodes demo_topology) \<le> 2"
  by (simp_all add: live_nodes_def demo_topology_def)

theorem spread_partition_witness:
  "\<exists>gs. spread_cpus 3 demo_topology = Some gs \<and> length gs = 3 \<and> disjoint_groups gs \<and> members gs = {..<8} \<and>
     (\<forall>g \<in> set gs. \<exists>node \<in> set (live_nodes demo_topology). cpus g \<subseteq> cpus node)"
proof -
  have p: "cpus (possible demo_topology) = {..<8}" by (simp add: demo_topology_def atLeast0LessThan)
  then have "3 * card (cpus (possible demo_topology)) < 2 ^ 64" by simp
  then show ?thesis using spread_partition [OF demo_topology_ok, of 3] demo_live p by auto
qed

text \<open>C38. The groups of one node are even. When the CPUs of a node are split into groups, no CPU is lost or
  given twice, the sizes of any two groups differ by at most one, and so do their numbers of present
  CPUs: CPUs that were never onlined do not skew the load.\<close>

theorem pack_node_even:
  assumes "masks_ok topo" "cpus node \<subseteq> cpus (possible topo)" "0 < seats"
  shows "\<exists>gs. pack_node node seats topo = Some gs \<and> length gs = seats \<and> disjoint_groups gs \<and> members gs = cpus node \<and>
    (\<forall>g \<in> set gs. \<forall>h \<in> set gs. card (cpus g) \<le> card (cpus h) + 1 \<and>
       card (cpus g \<inter> cpus (present topo)) \<le> card (cpus h \<inter> cpus (present topo)) + 1)"
proof -
  obtain gs where gs: "pack_node node seats topo = Some gs" "length gs = seats" "disjoint_groups gs" "members gs = cpus node"
      "map (\<lambda>g. card (cpus g)) gs = split_even (card (cpus node)) seats"
      "map (\<lambda>g. card (cpus g \<inter> cpus (present topo))) gs = split_even (card (cpus node \<inter> cpus (present topo))) seats"
    using pack_node_groups [OF assms] by blast
  have even: "f g \<le> f h + 1" if "map f gs = split_even n seats" "g \<in> set gs" "h \<in> set gs" for f :: "cpu_set \<Rightarrow> nat" and g h n
  proof -
    have "f g \<in> set (split_even n seats)" "f h \<in> set (split_even n seats)" using that by (metis image_eqI list.set_map)+
    then show ?thesis by (auto simp: split_even_def)
  qed
  then show ?thesis using gs(1-4) even [OF gs(5)] even [OF gs(6)] by blast
qed

theorem pack_node_even_witness:
  "\<exists>gs. pack_node (cs_collect [4, 5, 6, 7]) 2 demo_topology = Some gs \<and> length gs = 2 \<and> members gs = {4, 5, 6, 7} \<and>
     (\<forall>g \<in> set gs. \<forall>h \<in> set gs. card (cpus g) \<le> card (cpus h) + 1)"
proof -
  let ?node = "cs_collect [4, 5, 6, 7]"
  have "masks_ok demo_topology" "cpus ?node \<subseteq> cpus (possible demo_topology)"
    using demo_topology_ok by (auto simp: topology_ok_def demo_topology_def)
  then show ?thesis using pack_node_even [of demo_topology ?node 2] by auto
qed

section \<open>Topologies read from sysfs\<close>

lemma le_last: "sorted xs \<Longrightarrow> x \<in> set xs \<Longrightarrow> x \<le> last (xs :: nat list)"
  by (induction xs) (auto split: if_splits dest: last_in_set)

lemma highest_bit_le: "bit w b \<Longrightarrow> b \<le> highest_bit w"
  unfolding highest_bit_def using bit_u64 [of w b] by (intro le_last) (simp_all add: sorted_wrt_filter)

lemma cs_last_bound: "c \<in> cpus s \<Longrightarrow> \<exists>m. cs_last s = Some m \<and> c \<le> m"
proof -
  have "\<exists>m. cs_last \<lparr>cs_words = ws\<rparr> = Some m \<and> c \<le> m" if "c \<in> cpus \<lparr>cs_words = ws\<rparr>" for ws
    using that
  proof (induction ws rule: rev_induct)
    case Nil
    then show ?case by (simp add: cpus_def)
  next
    case (snoc w ws)
    show ?case
    proof (cases "w = 0")
      case True
      then have "c \<in> cpus \<lparr>cs_words = ws\<rparr>" using snoc.prems by (auto simp: cpus_def nth_append less_Suc_eq)
      then show ?thesis using snoc.IH True by (simp add: cs_last_def enumerate_append_eq)
    next
      case False
      have d: "c div 64 < Suc (length ws)" "c = c div 64 * 64 + c mod 64" using snoc.prems by (simp_all add: cpus_def)
      have "c \<le> length ws * 64 + highest_bit w"
      proof (cases "c div 64 = length ws")
        case True
        then have "c mod 64 \<le> highest_bit w" using snoc.prems by (intro highest_bit_le) (simp add: cpus_def)
        then show ?thesis using d(2) True by linarith
      next
        case False
        then show ?thesis using d(1) by linarith
      qed
      then show ?thesis using False by (simp add: cs_last_def enumerate_append_eq)
    qed
  qed
  then show "c \<in> cpus s \<Longrightarrow> ?thesis" by (cases s) simp
qed

lemma claimed_members: "cpus (fold (\<lambda>n acc. cs_or acc n) ns s) = cpus s \<union> members ns"
  by (induction ns arbitrary: s) auto

lemma fold_unclaimed_covers: "cpus poss \<subseteq> members (fold_unclaimed poss nodes)"
proof -
  define ns where "ns = (if nodes = [] then [cs_new] else nodes)"
  obtain n ms where ns: "ns = n # ms" by (cases ns) (auto simp: ns_def split: if_splits)
  then show ?thesis unfolding fold_unclaimed_def Let_def ns_def [symmetric] by (auto simp: claimed_members)
qed

lemma read_masks_result:
  "read_masks fs cs (sib, clu) = Inr (sib', clu') \<Longrightarrow> distinct cs \<Longrightarrow> \<forall>c \<in> set cs. c < length sib \<and> c < length clu \<Longrightarrow>
    length sib' = length sib \<and> length clu' = length clu \<and>
    (\<forall>c \<in> set cs. read_cpulist_opt fs (topology_file c ''core_cpus_list'') = Inr (sib' ! c) \<and>
       read_cpulist_opt fs (topology_file c ''cluster_cpus_list'') = Inr (clu' ! c)) \<and>
    (\<forall>c. c \<notin> set cs \<longrightarrow> sib' ! c = sib ! c \<and> clu' ! c = clu ! c)"
proof (induction cs arbitrary: sib clu)
  case (Cons c cs)
  from Cons.prems(1) obtain s k where s: "read_cpulist_opt fs (topology_file c ''core_cpus_list'') = Inr s"
      "read_cpulist_opt fs (topology_file c ''cluster_cpus_list'') = Inr k"
      "read_masks fs cs (sib[c := s], clu[c := k]) = Inr (sib', clu')"
    by (auto simp: bind_sum_eq_Inr)
  have "length sib' = length sib \<and> length clu' = length clu \<and>
    (\<forall>d \<in> set cs. read_cpulist_opt fs (topology_file d ''core_cpus_list'') = Inr (sib' ! d) \<and>
       read_cpulist_opt fs (topology_file d ''cluster_cpus_list'') = Inr (clu' ! d)) \<and>
    (\<forall>d. d \<notin> set cs \<longrightarrow> sib' ! d = sib[c := s] ! d \<and> clu' ! d = clu[c := k] ! d)"
    using Cons.IH [OF s(3)] Cons.prems(2,3) by simp
  then show ?case using s(1,2) Cons.prems(2,3) by auto
qed simp

text \<open>C39. What is read from sysfs is a complete topology: whatever the node directory holds, every possible
  CPU belongs to a node, because CPUs no node claims go to node 0; every possible id is below the
  number of ids, so the mask tables are never indexed out of range; and the masks of each possible CPU
  are those its files give, empty where there is no file.\<close>

theorem sysfs_topology_complete:
  assumes "from_sysfs_root fs = Inr t"
  shows "cpus (possible t) \<subseteq> members (node_to_cpus t) \<and> (\<forall>c \<in> cpus (possible t). c < nr_cpu_ids t) \<and>
    length (sibling t) = nr_cpu_ids t \<and> length (cluster t) = nr_cpu_ids t \<and>
    (\<forall>c \<in> cpus (possible t). read_cpulist_opt fs (topology_file c ''core_cpus_list'') = Inr (sibling t ! c) \<and>
       read_cpulist_opt fs (topology_file c ''cluster_cpus_list'') = Inr (cluster t ! c))"
proof -
  obtain poss pres onl nodes sib clu where
    "read_cpulist fs ''devices/system/cpu/possible'' = Inr poss"
    and m: "read_masks fs (cs_iter poss) (replicate (nr_cpu_ids t) cs_new, replicate (nr_cpu_ids t) cs_new) = Inr (sib, clu)"
    and t: "t = \<lparr>nr_cpu_ids = (case cs_last poss of None \<Rightarrow> 0 | Some c \<Rightarrow> c + 1), possible = poss, present = pres, online = onl,
      node_to_cpus = fold_unclaimed poss nodes, sibling = sib, cluster = clu\<rparr>"
    using assms by (auto simp: from_sysfs_root_def bind_sum_eq_Inr Let_def)
  have b: "\<forall>c \<in> cpus poss. c < nr_cpu_ids t" using cs_last_bound [of _ poss] by (fastforce simp: t)
  then show ?thesis
    using read_masks_result [OF m] fold_unclaimed_covers [of poss nodes] by (simp add: t)
qed

text \<open>One node that claims the first of two CPUs, and no topology files.\<close>

definition demo_sysfs :: sysfs where
  "demo_sysfs = \<lparr>sys_file = (\<lambda>path.
     if path = ''devices/system/cpu/possible'' then Contents ''0-1''
     else if path = ''devices/system/cpu/present'' \<or> path = ''devices/system/cpu/online'' then Contents ''0''
     else if path = ''devices/system/node/node0/cpulist'' then Contents ''0''
     else NotFound), sys_nodes = Some [Some ''node0'', Some ''power'']\<rparr>"

lemma demo_cpulists:
  "from_cpulist ''0-1'' = Some (fold cs_set [0..<2] cs_new)" "from_cpulist ''0'' = Some (fold cs_set [0..<1] cs_new)"
  by (simp_all add: from_cpulist_def trim_def is_space_def parse_range_def parse_usize_def dec_value_def del: upt_Suc flip: numeral_2_eq_2)

lemma demo_files:
  "read_cpulist demo_sysfs ''devices/system/cpu/possible'' = Inr (fold cs_set [0..<2] cs_new)"
  "read_cpulist demo_sysfs ''devices/system/cpu/present'' = Inr (fold cs_set [0..<1] cs_new)"
  "read_cpulist demo_sysfs ''devices/system/cpu/online'' = Inr (fold cs_set [0..<1] cs_new)"
  "read_cpulist_opt demo_sysfs ''devices/system/node/node0/cpulist'' = Inr (fold cs_set [0..<1] cs_new)"
  "read_cpulist_opt demo_sysfs (topology_file c f) = Inr cs_new"
  by (simp_all add: read_cpulist_def read_cpulist_opt_def demo_sysfs_def parse_cpulist_def demo_cpulists topology_file_def del: upt_Suc)

lemma demo_masks: "\<exists>sib clu. read_masks demo_sysfs cs m = Inr (sib, clu)"
  by (induction cs arbitrary: m) (auto simp: demo_files)

lemma demo_nodes: "\<exists>ns. read_nodes demo_sysfs [Some ''node0'', Some ''power''] [] = Inr ns"
  using demo_files(4) by (simp add: node_id_def parse_usize_def dec_value_def)

theorem sysfs_topology_complete_witness:
  "\<exists>t. from_sysfs_root demo_sysfs = Inr t \<and> cpus (possible t) = {0, 1} \<and> {0, 1} \<subseteq> members (node_to_cpus t)"
proof -
  let ?P = "fold cs_set [0..<2] cs_new"
  let ?nr = "case cs_last ?P of None \<Rightarrow> 0 | Some c \<Rightarrow> c + 1"
  have sys: "sys_nodes demo_sysfs = Some [Some ''node0'', Some ''power'']" by (simp add: demo_sysfs_def)
  obtain ns where ns: "read_nodes demo_sysfs [Some ''node0'', Some ''power''] [] = Inr ns" using demo_nodes by blast
  obtain sib clu where m: "read_masks demo_sysfs (cs_iter ?P) (replicate ?nr cs_new, replicate ?nr cs_new) = Inr (sib, clu)"
    using demo_masks [of "cs_iter ?P" "(replicate ?nr cs_new, replicate ?nr cs_new)"] by (elim exE)
  have "\<exists>t. from_sysfs_root demo_sysfs = Inr t \<and> possible t = ?P"
    unfolding from_sysfs_root_def demo_files(1-3) bind_sum_simps Let_def sys option.case ns m prod.case
    by (intro exI conjI, rule refl) (simp only: cpu_topology.select_convs)
  then obtain t where t: "from_sysfs_root demo_sysfs = Inr t" "possible t = ?P" by (elim exE conjE)
  have p: "cpus (possible t) = {0, 1}" unfolding t(2) cpus_fold_set by auto
  have "cpus (possible t) \<subseteq> members (node_to_cpus t)" by (rule conjunct1 [OF sysfs_topology_complete [OF t(1)]])
  then show ?thesis using t(1) p by (intro exI [of _ t]) (simp only: p simp_thms)
qed

end
