(* ===== verification/Spec2Isabelle.thy ===== *)
theory Spec2Isabelle
  imports Pdu Target Reactor Tcp_Send Cpu_Spread
begin

text \<open>
  Verification of ioutgt, a userspace NVMe over Fabrics storage target.

  \<^bold>\<open>The program.\<close> A host connects over TCP (or RDMA); every connection is one NVMe queue, served by one
  thread with its own io_uring. The receive path decodes PDUs from the byte stream, claims a command
  slot for each command and places its data in the slot's buffer. Command execution, which knows
  nothing of the transport, runs fabrics, admin and I/O commands against the shared controller
  registry, the port configuration and the storage backends. Answers go to a send list; the send
  path stages them as scatter-gather batches and ships them, by copy or with zero-copy. The control
  plane changes namespaces while queues run.

  \<^bold>\<open>Conventions.\<close> Paths are below \<^verbatim>\<open>crates/\<close>. Machine integers are words of their width, sizes and
  offsets natural numbers, with the overflow checks of the code written out. Process memory is a
  function from addresses to bytes; a raw pointer is an address, and an address an allocator chooses is
  an argument. A panic is \<open>None\<close>, an error \<open>Inl\<close>. Asynchronous methods are modelled by one poll with
  the waker's identity as an argument; an operation that wakes returns the wakers. The definitions are
  executable, and the statements about concrete inputs are evaluated from them.

  \<^bold>\<open>Wire format\<close> (\<^verbatim>\<open>ioutgt-nvme\<close>).
  \<^item> \<^verbatim>\<open>Wire_Spec\<close>: \<^verbatim>\<open>spec.rs\<close>, \<^verbatim>\<open>status.rs\<close>, \<^verbatim>\<open>fabrics.rs\<close>; the \<^verbatim>\<open>repr(C)\<close> structures as records with
    their bytes in both directions.
  \<^item> \<^verbatim>\<open>Identify\<close>: \<^verbatim>\<open>identify.rs\<close> and the discovery log; every structure has its size.
  \<^item> \<^verbatim>\<open>Pdu\<close>: \<^verbatim>\<open>pdu.rs\<close>; the incremental header decoder and all encoders. No input makes the decoder
    panic, pieces of a stream decode as the whole, and every header decodes to what was encoded.
  \<^item> \<^verbatim>\<open>Registers\<close>: \<^verbatim>\<open>controller.rs\<close>; CSTS.RDY follows CC.EN, except after a shutdown notification.

  \<^bold>\<open>Buffers and slots\<close> (\<^verbatim>\<open>ioutgt-core\<close>).
  \<^item> \<^verbatim>\<open>Seg_Buffer\<close>, \<^verbatim>\<open>Pool\<close>: \<^verbatim>\<open>buf.rs\<close>, \<^verbatim>\<open>pool.rs\<close>; segmented buffers and the free-run page allocator.
    The locale \<^verbatim>\<open>page_lender\<close> is the contract of the pool: leases are disjoint, a request within the
    transfer limit succeeds exactly when enough pages are free, a drop restores the pool.
  \<^item> \<^verbatim>\<open>Slotq\<close>: \<^verbatim>\<open>slotq.rs\<close>; \<^verbatim>\<open>SlotArray\<close> and \<^verbatim>\<open>SendList\<close>. Reachability under any order of slot operations
    gives the freelist and counter invariants, the isolation of slots and that no wakeup is lost; the
    locale \<^verbatim>\<open>send_queue\<close> is the contract of the send list.
  \<^item> \<^verbatim>\<open>Queue_Core\<close>: \<^verbatim>\<open>queue.rs\<close>; statistics and the submission queue head.
  \<^item> \<^verbatim>\<open>Registry\<close>, \<^verbatim>\<open>Subsystem\<close>: \<^verbatim>\<open>registry.rs\<close>, \<^verbatim>\<open>subsystem.rs\<close>; controller identifiers and I/O queues,
    namespace tables with the per-queue cache, UUIDs, admission of hosts.
  \<^item> \<^verbatim>\<open>Backend_Model\<close>, \<^verbatim>\<open>Memory_Backend\<close>: \<^verbatim>\<open>backend.rs\<close> and \<^verbatim>\<open>memory.rs\<close>, \<^verbatim>\<open>null.rs\<close> of \<^verbatim>\<open>ioutgt-backend\<close>.
    The locales \<^verbatim>\<open>block_device\<close>, \<^verbatim>\<open>storage\<close> and \<^verbatim>\<open>io_device\<close> say what a backend promises; the RAM
    store refines one flat disk, and the null device is a block device.

  \<^bold>\<open>Command execution\<close> (\<^verbatim>\<open>ioutgt-nvme\<close>).
  \<^item> \<^verbatim>\<open>Dispatch\<close>, \<^verbatim>\<open>Fabrics_Exec\<close>, \<^verbatim>\<open>Admin_Exec\<close>, \<^verbatim>\<open>Io_Exec\<close>: \<^verbatim>\<open>dispatch.rs\<close>, \<^verbatim>\<open>fabrics_exec.rs\<close>,
    \<^verbatim>\<open>admin.rs\<close>, \<^verbatim>\<open>io.rs\<close>; the record \<^verbatim>\<open>world\<close> holds what a command of one queue may touch.
  \<^item> \<^verbatim>\<open>Nvme_Exec\<close>: the router \<^verbatim>\<open>execute\<close> and later polls of suspended commands. No well-formed command
    panics; a read returns what was written; a rejected command changes nothing.
  \<^item> \<^verbatim>\<open>Target\<close>: any number of connections interleaved with the control plane; a queue is bound only to a
    subsystem that admits its host.

  \<^bold>\<open>Streams and io_uring\<close> (\<^verbatim>\<open>ioutgt-uring\<close>, \<^verbatim>\<open>ioutgt-stream\<close>, \<^verbatim>\<open>ioutgt-nvme-tcp\<close>).
  \<^item> \<^verbatim>\<open>Reactor\<close>: \<^verbatim>\<open>cqe.rs\<close>, \<^verbatim>\<open>op.rs\<close>, \<^verbatim>\<open>reactor.rs\<close>; the operation slab with the kernel as a step relation.
    The memory of an operation outlives the kernel's use of it, also when its future is dropped, and a
    future that has ended has returned every result.
  \<^item> \<^verbatim>\<open>Buf_Ring\<close>, \<^verbatim>\<open>Stream_Reader\<close>: \<^verbatim>\<open>bufring.rs\<close>, \<^verbatim>\<open>reader.rs\<close>; the provided-buffer ring and the receive
    windows.
  \<^item> \<^verbatim>\<open>Tcp_Queue\<close>, \<^verbatim>\<open>Tcp_Recv\<close>, \<^verbatim>\<open>Tcp_Stream\<close>: \<^verbatim>\<open>queue.rs\<close>, \<^verbatim>\<open>recv.rs\<close>; payload phases, digests, R2T and the
    receive loop. The loop ends on every window, the result does not depend on how the stream is cut,
    and capsule data reaches its slot.
  \<^item> \<^verbatim>\<open>Gather_Batch\<close>, \<^verbatim>\<open>Stream_Sender\<close>: \<^verbatim>\<open>sendbatch.rs\<close>, \<^verbatim>\<open>ioutgt-stream/src/lib.rs\<close>; gather vectors over an
    arena, and the operations of the two-batch send loop.
  \<^item> \<^verbatim>\<open>Sender_Safety\<close>, \<^verbatim>\<open>Sender_Order\<close>: the send loop as a step relation with the kernel and the tasks that
    answer commands. The locales \<^verbatim>\<open>staging\<close> and \<^verbatim>\<open>staging_bytes\<close> are what a transport promises.
  \<^item> \<^verbatim>\<open>Tcp_Send\<close>: \<^verbatim>\<open>send.rs\<close>, which keeps these promises: the wire carries the linear encodings in queue
    order, and what the kernel may still read is never reused.

  \<^bold>\<open>Thread placement\<close> (\<^verbatim>\<open>ioutgt-cpus\<close>).
  \<^item> \<^verbatim>\<open>Cpu_Set\<close>: \<^verbatim>\<open>cpuset.rs\<close>; bit sets as finite sets of ids, and the cpulist format in both directions.
  \<^item> \<^verbatim>\<open>Cpu_Spread\<close>: \<^verbatim>\<open>topology.rs\<close>, \<^verbatim>\<open>spread.rs\<close>; the topology read from sysfs and the partition of its CPUs
    into groups, which is exact, keeps to nodes and is even within a node.

  \<^bold>\<open>Bounds and termination.\<close> No definition has fuel. The inner receive loop is a partial function whose
  value on every window is proved to exist; the other loops are recursive functions that terminate.
  Sums the code leaves unchecked are written with the wrap-around or the panic of the code, except
  counters of statistics, which wrap as words.

  \<^bold>\<open>Assumed.\<close> The CRC library is an argument, assumed only to compute a digest piece by piece where
  that matters; CRC-32C is shown to do so. The kernel answers an operation as io_uring
  documents: it takes a prefix of a send, posts one final completion, and a zero-copy notification
  after it. Allocators return memory disjoint from live allocations. The system is one of interleaved
  steps of single-threaded tasks; shared structures are changed under their locks, and a backend operation is one step. In ring mode the receive turn is modelled by its
  parts, the polls for a window, the loop over it and its release; only the classic turn is also composed.
  A zero-copy send takes its bytes when it completes; that they are not reused before the notification
  is what the memory theorem of the sender shows.

  \<^bold>\<open>Not modelled.\<close>
  \<^item> \<^verbatim>\<open>ioutgt-nvme-rdma\<close>: work requests, completions and connection management through verbs libraries.
  \<^item> \<^verbatim>\<open>file.rs\<close> of \<^verbatim>\<open>ioutgt-backend\<close>: geometry probing and file I/O by system calls; \<^verbatim>\<open>lib.rs\<close> forwards.
  \<^item> \<^verbatim>\<open>mailbox.rs\<close>, \<^verbatim>\<open>ops.rs\<close>, \<^verbatim>\<open>probe.rs\<close>, \<^verbatim>\<open>runtime.rs\<close> of \<^verbatim>\<open>ioutgt-uring\<close> and the park loop of the
    reactor: system calls and the glue to the asynchronous runtime.
  \<^item> \<^verbatim>\<open>handshake.rs\<close>, \<^verbatim>\<open>connection.rs\<close>, \<^verbatim>\<open>transport.rs\<close>, \<^verbatim>\<open>main.rs\<close> of \<^verbatim>\<open>ioutgt-nvme-tcp\<close>: socket set-up, task
    spawning, command line.
  \<^item> \<^verbatim>\<open>ioutgt-control\<close>, \<^verbatim>\<open>ioutgt-harness\<close>: JSON schemas, sockets, threads and text output.
  \<^item> \<^verbatim>\<open>thread.rs\<close> of \<^verbatim>\<open>ioutgt-cpus\<close>: system calls of the scheduler.
  \<^item> \<^verbatim>\<open>digest.rs\<close> (a wrapper of the CRC library), \<^verbatim>\<open>permit.rs\<close> (a shared counter), the stop source of
    \<^verbatim>\<open>queue.rs\<close>, tracing output, tests and examples.
\<close>

end
